(* ===== verification/Bmbt_Prelude.thy ===== *)
theory Bmbt_Prelude
  imports Main "HOL-Library.Word" "HOL-Library.While_Combinator"
begin

text \<open>
  Shared vocabulary of the development: the machine integer types of the C code, the ways a C
  function can fail to return (\<open>abort\<close>, a failed \<open>assert\<close>, \<open>exit\<close>, an index outside an array,
  a division by zero) as a datatype, the result type built on it, and the generic lemmas on lists,
  words and results that the components use.
\<close>

unbundle bit_operations_syntax

section \<open>Machine integers\<close>

type_synonym u8 = "8 word"
type_synonym u16 = "16 word"
type_synonym u32 = "32 word"
type_synonym u64 = "64 word"

text \<open>The C expression \<open>1 << n\<close> at the width of its context.\<close>

abbreviation BIT :: "nat \<Rightarrow> 'a::len word" where
  "BIT n \<equiv> push_bit n 1"

text \<open>The C idiom \<open>x & mask\<close> used as a condition.\<close>

abbreviation tst :: "'a::len word \<Rightarrow> 'a word \<Rightarrow> bool" where
  "tst x m \<equiv> x AND m \<noteq> 0"

text \<open>The value an \<open>int64_t\<close> holds after the assignment of a 64-bit pattern.\<close>

definition to_int64 :: "int \<Rightarrow> int" where
  "to_int64 x = (let y = x mod 2 ^ 64 in if y < 2 ^ 63 then y else y - 2 ^ 64)"

section \<open>Failures of C code\<close>

datatype c_fault =
    Abort          \<comment> \<open>\<open>abort()\<close>\<close>
  | AssertFail     \<comment> \<open>\<open>assert\<close> with a false argument\<close>
  | NotReached     \<comment> \<open>\<open>g_assert_not_reached()\<close>\<close>
  | Exit           \<comment> \<open>\<open>exit(1)\<close>\<close>
  | OutOfBounds    \<comment> \<open>an array index outside the array\<close>
  | DivByZero      \<comment> \<open>the right operand of \<open>/\<close> or \<open>%\<close> is zero\<close>
  | NullDeref      \<comment> \<open>a null pointer is followed\<close>

type_synonym 'a res = "c_fault + 'a"

definition res_bind :: "'a res \<Rightarrow> ('a \<Rightarrow> 'b res) \<Rightarrow> 'b res" where
  "res_bind r f = (case r of Inl e \<Rightarrow> Inl e | Inr x \<Rightarrow> f x)"

lemma res_bind_simps [simp]:
  "res_bind (Inl e) f = Inl e"
  "res_bind (Inr x) f = f x"
  by (simp_all add: res_bind_def)

lemma res_bind_Inr_iff: "res_bind r f = Inr y \<longleftrightarrow> (\<exists>x. r = Inr x \<and> f x = Inr y)"
  by (cases r) simp_all

section \<open>Lists read and written by index\<close>

definition arr_get :: "'a list \<Rightarrow> nat \<Rightarrow> 'a res" where
  "arr_get xs i = (if i < length xs then Inr (xs ! i) else Inl OutOfBounds)"

definition arr_set :: "'a list \<Rightarrow> nat \<Rightarrow> 'a \<Rightarrow> 'a list res" where
  "arr_set xs i v = (if i < length xs then Inr (xs[i := v]) else Inl OutOfBounds)"

text \<open>\<open>memcpy(&xs[i], ys, length ys)\<close>.\<close>

definition arr_blit :: "'a list \<Rightarrow> nat \<Rightarrow> 'a list \<Rightarrow> 'a list res" where
  "arr_blit xs i ys =
     (if i + length ys \<le> length xs then Inr (take i xs @ ys @ drop (i + length ys) xs)
      else Inl OutOfBounds)"

lemma arr_get_ok [simp]: "i < length xs \<Longrightarrow> arr_get xs i = Inr (xs ! i)"
  by (simp add: arr_get_def)

lemma arr_set_ok [simp]: "i < length xs \<Longrightarrow> arr_set xs i v = Inr (xs[i := v])"
  by (simp add: arr_set_def)

lemma nth_blit:
  assumes "i + length ys \<le> length xs" and "k < length xs"
  shows "(take i xs @ ys @ drop (i + length ys) xs) ! k =
    (if i \<le> k \<and> k < i + length ys then ys ! (k - i) else xs ! k)"
  using assms by (auto simp: nth_append min_def)

lemma length_blit: "i + length ys \<le> length xs \<Longrightarrow>
    length (take i xs @ ys @ drop (i + length ys) xs) = length xs"
  by simp

section \<open>Words\<close>

named_theorems word_bits \<open>bit-level rules for registers\<close>

lemma nat_and_7: "(n::nat) AND 7 = n mod 8"
  using take_bit_eq_mask [of 3 n] by (simp add: take_bit_eq_mod mask_eq_exp_minus_1)

text \<open>The simplifier writes \<open>BIT n\<close> as \<open>2 ^ n\<close>.\<close>

lemmas [word_bits] = and_exp_eq_0_iff_not_bit

lemma exp_and_eq_0_iff [word_bits]: "2 ^ n AND w = 0 \<longleftrightarrow> \<not> bit w n" for w :: "'a::len word"
  by (simp add: and.commute [of "2 ^ n"] and_exp_eq_0_iff_not_bit)

end
