(* ===== verification/Bounded_Queue.thy ===== *)
theory Bounded_Queue
  imports Bmbt_Prelude
begin

text \<open>
  The contract of a bounded first-in first-out queue whose operations fail instead of overrunning:
  the operations a client calls, their effect on the sequence of stored elements, and what a client
  that fills and drains the queue may conclude.
\<close>

locale bounded_queue =
  fixes invar :: "'q \<Rightarrow> bool"
    and elems :: "'q \<Rightarrow> 'a list"
    and room :: "'q \<Rightarrow> nat"
    and push :: "'q \<Rightarrow> 'a \<Rightarrow> 'q res"
    and pop :: "'q \<Rightarrow> ('a \<times> 'q) res"
  assumes push_ok: "invar q \<Longrightarrow> 0 < room q \<Longrightarrow>
      \<exists>q'. push q x = Inr q' \<and> invar q' \<and> elems q' = elems q @ [x] \<and> room q' = room q - 1"
    and push_full: "invar q \<Longrightarrow> room q = 0 \<Longrightarrow> push q x = Inl Abort"
    and pop_ok: "invar q \<Longrightarrow> elems q \<noteq> [] \<Longrightarrow>
      \<exists>q'. pop q = Inr (hd (elems q), q') \<and> invar q' \<and> elems q' = tl (elems q) \<and>
           room q' = room q + 1"
    and pop_empty: "invar q \<Longrightarrow> elems q = [] \<Longrightarrow> pop q = Inl Abort"
begin

primrec fill :: "'q \<Rightarrow> 'a list \<Rightarrow> 'q res" where
  "fill q [] = Inr q"
| "fill q (x # xs) = res_bind (push q x) (\<lambda>q'. fill q' xs)"

primrec drain :: "nat \<Rightarrow> 'q \<Rightarrow> ('a list \<times> 'q) res" where
  "drain 0 q = Inr ([], q)"
| "drain (Suc n) q = res_bind (pop q) (\<lambda>(x, q'). res_bind (drain n q') (\<lambda>(xs, q''). Inr (x # xs, q'')))"

lemma fill_ok:
  assumes "invar q" and "length xs \<le> room q"
  shows "\<exists>q'. fill q xs = Inr q' \<and> invar q' \<and> elems q' = elems q @ xs \<and>
    room q' = room q - length xs"
  using assms
proof (induction xs arbitrary: q)
  case (Cons x xs)
  from push_ok [OF Cons.prems(1), of x] Cons.prems(2) obtain q1
    where q1: "push q x = Inr q1" "invar q1" "elems q1 = elems q @ [x]" "room q1 = room q - 1"
    by auto
  with Cons.IH [of q1] Cons.prems(2) show ?case by auto
qed simp

lemma fill_overflow:
  assumes "invar q" and "room q < length xs"
  shows "fill q xs = Inl Abort"
  using assms
proof (induction xs arbitrary: q)
  case (Cons x xs)
  show ?case
  proof (cases "room q = 0")
    case True
    with Cons.prems show ?thesis by (simp add: push_full)
  next
    case False
    with push_ok [OF Cons.prems(1), of x] obtain q1
      where "push q x = Inr q1" "invar q1" "room q1 = room q - 1" by auto
    with Cons.IH [of q1] Cons.prems(2) False show ?thesis by simp
  qed
qed simp

lemma drain_ok:
  assumes "invar q" and "n \<le> length (elems q)"
  shows "\<exists>q'. drain n q = Inr (take n (elems q), q') \<and> invar q' \<and> elems q' = drop n (elems q) \<and>
    room q' = room q + n"
  using assms
proof (induction n arbitrary: q)
  case (Suc n)
  then have "elems q \<noteq> []" by auto
  with pop_ok [OF Suc.prems(1)] obtain q1
    where q1: "pop q = Inr (hd (elems q), q1)" "invar q1" "elems q1 = tl (elems q)"
      "room q1 = room q + 1" by auto
  from q1(3) Suc.prems(2) have "n \<le> length (elems q1)" by simp
  with Suc.IH [of q1] q1 obtain q2
    where "drain n q1 = Inr (take n (tl (elems q)), q2)" "invar q2"
      "elems q2 = drop n (tl (elems q))" "room q2 = room q + 1 + n" by auto
  with q1 \<open>elems q \<noteq> []\<close> show ?case
    by (cases "elems q") (auto simp: drop_Suc)
qed simp

text \<open>What goes in comes out, in order, and the queue ends as it began.\<close>

lemma fill_drain:
  assumes "invar q" and "elems q = []" and "length xs \<le> room q"
  shows "\<exists>q'. res_bind (fill q xs) (drain (length xs)) = Inr (xs, q') \<and> invar q' \<and>
    elems q' = [] \<and> room q' = room q"
proof -
  from fill_ok [OF assms(1,3)] assms(2) obtain q1
    where q1: "fill q xs = Inr q1" "invar q1" "elems q1 = xs" "room q1 = room q - length xs"
    by auto
  from drain_ok [OF q1(2), of "length xs"] q1 assms(3) show ?thesis by auto
qed

end

end
