(* ===== verification/Fifo8.thy ===== *)
theory Fifo8
  imports Bounded_Queue
begin

text \<open>
  The circular byte buffer of \<open>src/util/fifo8.c\<close>, which backs the transmit and receive queues of
  the serial port. Every \<open>abort()\<close>, every index outside the storage and the division by a zero
  capacity is a fault. The buffer refines a list: \<open>fifo8_elems\<close> reads the \<open>num\<close> bytes that start
  at \<open>head\<close>, modulo the capacity.
\<close>

section \<open>State and operations\<close>

record fifo8 =
  data :: "u8 list"
  capacity :: u32
  head :: u32
  num :: u32

text \<open>\<open>buf\<close> is the storage that \<open>g_new\<close> returns; its bytes are not initialised.\<close>

definition fifo8_create :: "u8 list \<Rightarrow> u32 \<Rightarrow> fifo8" where
  "fifo8_create buf cap = \<lparr>data = buf, capacity = cap, head = 0, num = 0\<rparr>"

definition u32_mod :: "u32 \<Rightarrow> u32 \<Rightarrow> u32 res" where
  "u32_mod a b = (if b = 0 then Inl DivByZero else Inr (a mod b))"

definition fifo8_push :: "fifo8 \<Rightarrow> u8 \<Rightarrow> fifo8 res" where
  "fifo8_push f d =
     (if num f = capacity f then Inl Abort
      else res_bind (u32_mod (head f + num f) (capacity f)) (\<lambda>i.
           res_bind (arr_set (data f) (unat i) d) (\<lambda>xs.
           Inr (f\<lparr>data := xs, num := num f + 1\<rparr>))))"

text \<open>The argument \<open>n\<close> of the C function is the length of the source buffer.\<close>

definition fifo8_push_all :: "fifo8 \<Rightarrow> u8 list \<Rightarrow> u32 \<Rightarrow> fifo8 res" where
  "fifo8_push_all f d n =
     (if num f + n > capacity f then Inl Abort
      else res_bind (u32_mod (head f + num f) (capacity f)) (\<lambda>start.
        res_bind
          (if start + n \<le> capacity f
           then arr_blit (data f) (unat start) (take (unat n) d)
           else let avail = capacity f - start in
             res_bind (arr_blit (data f) (unat start) (take (unat avail) d)) (\<lambda>xs.
             arr_blit xs 0 (take (unat (n - avail)) (drop (unat avail) d))))
          (\<lambda>xs. Inr (f\<lparr>data := xs, num := num f + n\<rparr>))))"

definition fifo8_pop :: "fifo8 \<Rightarrow> (u8 \<times> fifo8) res" where
  "fifo8_pop f =
     (if num f = 0 then Inl Abort
      else res_bind (arr_get (data f) (unat (head f))) (\<lambda>ret.
           res_bind (u32_mod (head f + 1) (capacity f)) (\<lambda>h.
           Inr (ret, f\<lparr>head := h, num := num f - 1\<rparr>))))"

text \<open>The returned pointer is modelled by the \<open>*num\<close> bytes a caller may read through it.\<close>

definition fifo8_pop_buf :: "fifo8 \<Rightarrow> u32 \<Rightarrow> (u8 list \<times> u32 \<times> fifo8) res" where
  "fifo8_pop_buf f mx =
     (if mx = 0 \<or> mx > num f then Inl Abort
      else let n = min (capacity f - head f) mx in
        res_bind (u32_mod (head f + n) (capacity f)) (\<lambda>h.
        Inr (take (unat n) (drop (unat (head f)) (data f)), n,
             f\<lparr>head := h, num := num f - n\<rparr>)))"

definition fifo8_reset :: "fifo8 \<Rightarrow> fifo8" where
  "fifo8_reset f = f\<lparr>num := 0, head := 0\<rparr>"

definition fifo8_is_empty :: "fifo8 \<Rightarrow> bool" where
  "fifo8_is_empty f = (num f = 0)"

definition fifo8_is_full :: "fifo8 \<Rightarrow> bool" where
  "fifo8_is_full f = (num f = capacity f)"

definition fifo8_num_free :: "fifo8 \<Rightarrow> u32" where
  "fifo8_num_free f = capacity f - num f"

definition fifo8_num_used :: "fifo8 \<Rightarrow> u32" where
  "fifo8_num_used f = num f"

section \<open>Invariant and abstraction\<close>

text \<open>
  The bound on the capacity keeps \<open>head + num\<close> from wrapping at 32 bits; the serial port uses a
  capacity of 16.
\<close>

definition fifo8_inv :: "fifo8 \<Rightarrow> bool" where
  "fifo8_inv f \<longleftrightarrow>
     0 < unat (capacity f) \<and> unat (capacity f) \<le> 2 ^ 31 \<and>
     length (data f) = unat (capacity f) \<and>
     unat (head f) < unat (capacity f) \<and> unat (num f) \<le> unat (capacity f)"

definition ring_slot :: "fifo8 \<Rightarrow> nat \<Rightarrow> nat" where
  "ring_slot f i = (unat (head f) + i) mod unat (capacity f)"

definition fifo8_elems :: "fifo8 \<Rightarrow> u8 list" where
  "fifo8_elems f = map (\<lambda>i. data f ! ring_slot f i) [0..<unat (num f)]"

definition fifo8_room :: "fifo8 \<Rightarrow> nat" where
  "fifo8_room f = unat (capacity f) - unat (num f)"

lemma length_fifo8_elems [simp]: "length (fifo8_elems f) = unat (num f)"
  by (simp add: fifo8_elems_def)

lemma fifo8_elems_empty [simp]: "num f = 0 \<Longrightarrow> fifo8_elems f = []"
  by (simp add: fifo8_elems_def)

lemma nth_fifo8_elems: "i < unat (num f) \<Longrightarrow> fifo8_elems f ! i = data f ! ring_slot f i"
  by (simp add: fifo8_elems_def)

lemma ring_slot_less: "fifo8_inv f \<Longrightarrow> ring_slot f i < length (data f)"
  by (simp add: fifo8_inv_def ring_slot_def)

text \<open>Two slots of the ring closer than the capacity are different cells.\<close>

lemma mod_add_if:
  fixes c :: nat
  assumes "a < c" "b < c"
  shows "(a + b) mod c = (if a + b < c then a + b else a + b - c)"
  using assms by (auto simp: mod_if)

lemma mod_shift_eq_iff:
  fixes c :: nat
  assumes "h < c" "i < c" "j < c"
  shows "(h + i) mod c = (h + j) mod c \<longleftrightarrow> i = j"
  using assms by (auto simp: mod_add_if split: if_splits)

lemma mod_suc_shift: "(Suc h mod c + i) mod c = (h + Suc i) mod (c::nat)"
  by (simp add: mod_simps)

text \<open>No 32-bit wrap-around under the invariant.\<close>

lemma fifo8_index_no_wrap:
  assumes "fifo8_inv f"
  shows "unat (head f + num f) = unat (head f) + unat (num f)"
    and "unat ((head f + num f) mod capacity f) = ring_slot f (unat (num f))"
    and "unat (head f + 1) = unat (head f) + 1"
    and "capacity f \<noteq> 0"
proof -
  have lt: "unat (head f) + unat (num f) < 2 ^ 32"
    using assms by (simp add: fifo8_inv_def)
  then show *: "unat (head f + num f) = unat (head f) + unat (num f)"
    by (simp add: unat_word_ariths)
  show "unat ((head f + num f) mod capacity f) = ring_slot f (unat (num f))"
    by (simp add: ring_slot_def unat_mod *)
  show "unat (head f + 1) = unat (head f) + 1"
    using assms by (simp add: fifo8_inv_def unat_word_ariths)
  show "capacity f \<noteq> 0"
    using assms by (auto simp: fifo8_inv_def)
qed

section \<open>Correctness of the operations\<close>

lemma fifo8_push_ok:
  assumes inv: "fifo8_inv f" and room: "0 < fifo8_room f"
  shows "\<exists>f'. fifo8_push f d = Inr f' \<and> fifo8_inv f' \<and>
    fifo8_elems f' = fifo8_elems f @ [d] \<and> fifo8_room f' = fifo8_room f - 1"
proof -
  define i where "i = ring_slot f (unat (num f))"
  define f' where "f' = f\<lparr>data := (data f)[i := d], num := num f + 1\<rparr>"
  note nw = fifo8_index_no_wrap [OF inv]
  have lt: "unat (num f) < unat (capacity f)" using room by (simp add: fifo8_room_def)
  then have ne: "num f \<noteq> capacity f" by auto
  have n1: "unat (num f + 1) = unat (num f) + 1"
    using lt inv by (simp add: fifo8_inv_def unat_word_ariths)
  have il: "i < length (data f)" unfolding i_def by (rule ring_slot_less [OF inv])
  have eq: "fifo8_push f d = Inr f'"
    using ne nw il by (simp add: fifo8_push_def u32_mod_def f'_def i_def)
  have inv': "fifo8_inv f'"
    using inv n1 lt by (simp add: fifo8_inv_def f'_def)
  have el: "fifo8_elems f' ! k = (data f)[i := d] ! ring_slot f k" if "k \<le> unat (num f)" for k
    using n1 that by (subst nth_fifo8_elems) (simp_all add: f'_def ring_slot_def)
  have other: "i \<noteq> ring_slot f k" if "k < unat (num f)" for k
    using lt inv that by (simp add: i_def ring_slot_def mod_shift_eq_iff fifo8_inv_def)
  have "fifo8_elems f' = fifo8_elems f @ [d]"
  proof (rule nth_equalityI)
    show "length (fifo8_elems f') = length (fifo8_elems f @ [d])" using n1 by (simp add: f'_def)
    fix k assume "k < length (fifo8_elems f')"
    then have "k \<le> unat (num f)" using n1 by (simp add: f'_def)
    with el [of k] other [of k] il show "fifo8_elems f' ! k = (fifo8_elems f @ [d]) ! k"
      by (cases "k = unat (num f)") (auto simp: nth_append nth_fifo8_elems i_def)
  qed
  moreover have "fifo8_room f' = fifo8_room f - 1"
    using n1 by (simp add: fifo8_room_def f'_def)
  ultimately show ?thesis using eq inv' by blast
qed

lemma fifo8_push_full: "fifo8_inv f \<Longrightarrow> fifo8_room f = 0 \<Longrightarrow> fifo8_push f d = Inl Abort"
  by (auto simp: fifo8_push_def fifo8_room_def fifo8_inv_def word_unat_eq_iff)

lemma fifo8_pop_ok:
  assumes inv: "fifo8_inv f" and ne: "fifo8_elems f \<noteq> []"
  shows "\<exists>f'. fifo8_pop f = Inr (hd (fifo8_elems f), f') \<and> fifo8_inv f' \<and>
    fifo8_elems f' = tl (fifo8_elems f) \<and> fifo8_room f' = fifo8_room f + 1"
proof -
  define f' where "f' = f\<lparr>head := (head f + 1) mod capacity f, num := num f - 1\<rparr>"
  note nw = fifo8_index_no_wrap [OF inv]
  have pos: "0 < unat (num f)" using ne by (metis length_fifo8_elems length_greater_0_conv)
  then have n0: "num f \<noteq> 0" by auto
  have n1: "unat (num f - 1) = unat (num f) - 1" using n0 by (simp add: unat_sub_if' unat_gt_0 linorder_not_less) (metis Suc_leI pos)
  have h1: "unat (head f') = Suc (unat (head f)) mod unat (capacity f)"
    using nw by (simp add: f'_def unat_mod)
  have hd: "hd (fifo8_elems f) = data f ! unat (head f)"
    using pos inv by (simp add: hd_conv_nth ne nth_fifo8_elems ring_slot_def fifo8_inv_def)
  have eq: "fifo8_pop f = Inr (hd (fifo8_elems f), f')"
    using n0 nw inv by (simp add: fifo8_pop_def u32_mod_def f'_def hd fifo8_inv_def)
  have inv': "fifo8_inv f'"
    using inv n1 h1 pos by (auto simp: fifo8_inv_def f'_def)
  have rs: "ring_slot f' k = ring_slot f (Suc k)" for k
    using h1 by (simp add: ring_slot_def f'_def mod_suc_shift)
  have "fifo8_elems f' = tl (fifo8_elems f)"
    by (rule nth_equalityI) (use n1 rs in \<open>auto simp: nth_tl nth_fifo8_elems f'_def\<close>)
  moreover have "fifo8_room f' = fifo8_room f + 1"
    using n1 pos inv by (auto simp: fifo8_room_def f'_def fifo8_inv_def)
  ultimately show ?thesis using eq inv' by blast
qed

lemma fifo8_pop_empty: "fifo8_inv f \<Longrightarrow> fifo8_elems f = [] \<Longrightarrow> fifo8_pop f = Inl Abort"
  by (metis fifo8_pop_def length_0_conv length_fifo8_elems unat_eq_zero)

text \<open>
  The bulk write copies in one or two pieces. Whatever the split, cell \<open>(start + j) mod c\<close> receives
  byte \<open>j\<close> and every other cell keeps its value.
\<close>

definition ring_copy :: "nat \<Rightarrow> 'a list \<Rightarrow> 'a list \<Rightarrow> 'a list res" where
  "ring_copy start d xs =
     (if start + length d \<le> length xs then arr_blit xs start d
      else let avail = length xs - start in
        res_bind (arr_blit xs start (take avail d)) (\<lambda>ys. arr_blit ys 0 (drop avail d)))"

lemma ring_copy_ok:
  assumes "start < length xs" and "length d \<le> length xs"
  shows "\<exists>ys. ring_copy start d xs = Inr ys \<and> length ys = length xs \<and>
    (\<forall>j < length d. ys ! ((start + j) mod length xs) = d ! j) \<and>
    (\<forall>k < length xs. (\<forall>j < length d. k \<noteq> (start + j) mod length xs) \<longrightarrow> ys ! k = xs ! k)"
proof (cases "start + length d \<le> length xs")
  case True
  define ys where "ys = take start xs @ d @ drop (start + length d) xs"
  have nth: "ys ! k = (if start \<le> k \<and> k < start + length d then d ! (k - start) else xs ! k)"
    if "k < length xs" for k
    unfolding ys_def using nth_blit [OF True that] .
  have "k = (start + (k - start)) mod length xs" if "start \<le> k" "k < start + length d" for k
    using that True by simp
  then show ?thesis
    using True assms nth length_blit [OF True]
    by (intro exI [of _ ys]) (auto simp: ring_copy_def arr_blit_def ys_def [symmetric], metis add_diff_inverse_nat nat_add_left_cancel_less not_less)
next
  case False
  define av where "av = length xs - start"
  define zs where "zs = take start xs @ take av d @ drop (start + length (take av d)) xs"
  define ys where "ys = take 0 zs @ drop av d @ drop (0 + length (drop av d)) zs"
  have av: "av < length d" "start + av = length xs" using False assms by (auto simp: av_def)
  then have l1: "start + length (take av d) \<le> length xs" by simp
  then have lz: "length zs = length xs" unfolding zs_def by (rule length_blit)
  have l2: "0 + length (drop av d) \<le> length zs" using lz assms by simp
  have nz: "zs ! k = (if start \<le> k then d ! (k - start) else xs ! k)" if "k < length xs" for k
    unfolding zs_def using nth_blit [OF l1 that] av that by simp
  have ny: "ys ! k = (if k < length d - av then d ! (av + k) else zs ! k)" if "k < length xs" for k
    unfolding ys_def using nth_blit [OF l2] that lz av by simp
  have md: "(start + j) mod length xs = (if j < av then start + j else j - av)"
    if "j < length d" for j
    using that assms av by (auto simp: mod_add_if)
  have hit: "\<exists>j < length d. k = (start + j) mod length xs"
    if "k < length d - av \<or> start \<le> k" "k < length xs" for k
  proof (cases "start \<le> k")
    case True
    then show ?thesis using that av by (intro exI [of _ "k - start"]) (simp add: md)
  next
    case False
    then show ?thesis using that av by (intro exI [of _ "av + k"]) (simp add: md)
  qed
  have "arr_blit xs start (take av d) = Inr zs" "arr_blit zs 0 (drop av d) = Inr ys"
    unfolding arr_blit_def zs_def [symmetric] ys_def [symmetric] using l1 l2 by simp_all
  then have "ring_copy start d xs = Inr ys"
    using False by (simp add: ring_copy_def av_def)
  moreover have "length ys = length xs" unfolding ys_def using length_blit [OF l2] lz by simp
  moreover have "\<forall>j < length d. ys ! ((start + j) mod length xs) = d ! j"
    using av assms by (auto simp: md ny nz)
  moreover have "\<forall>k < length xs. (\<forall>j < length d. k \<noteq> (start + j) mod length xs) \<longrightarrow> ys ! k = xs ! k"
    using hit by (auto simp: ny nz)
  ultimately show ?thesis by blast
qed

lemma fifo8_push_all_eq:
  assumes inv: "fifo8_inv f" and len: "length d = unat n" and fits: "unat n \<le> fifo8_room f"
  shows "fifo8_push_all f d n =
    res_bind (ring_copy (ring_slot f (unat (num f))) d (data f))
      (\<lambda>xs. Inr (f\<lparr>data := xs, num := num f + n\<rparr>))"
proof -
  note nw = fifo8_index_no_wrap [OF inv]
  define st where "st = (head f + num f) mod capacity f"
  have st: "unat st = ring_slot f (unat (num f))" unfolding st_def by (rule nw)
  have stl: "unat st < unat (capacity f)" using ring_slot_less [OF inv] st inv by (simp add: fifo8_inv_def)
  have c: "unat (capacity f) \<le> 2 ^ 31" "length (data f) = unat (capacity f)"
    "unat (num f) + unat n \<le> unat (capacity f)"
    using inv fits by (auto simp: fifo8_inv_def fifo8_room_def)
  have s1: "unat (num f + n) = unat (num f) + unat n" using c by (simp add: unat_word_ariths)
  have s2: "unat (st + n) = unat st + unat n" using c stl by (simp add: unat_word_ariths)
  have s3: "unat (capacity f - st) = unat (capacity f) - unat st"
    using stl by (simp add: unat_sub_if' )
  have le: "\<not> capacity f < num f + n" using c s1 by (simp add: word_less_nat_alt)
  have split: "st + n \<le> capacity f \<longleftrightarrow> unat st + length d \<le> length (data f)"
    using s2 c len by (simp add: word_le_nat_alt)
  have s4: "unat (n - (capacity f - st)) = unat n - (unat (capacity f) - unat st)"
    if "\<not> st + n \<le> capacity f"
    using that s2 s3 stl by (simp add: word_le_nat_alt unat_sub_if')
  show ?thesis
    using le nw(4) len split c s3 s4
    by (simp add: fifo8_push_all_def u32_mod_def st_def [symmetric] ring_copy_def st [symmetric]
        Let_def)
qed

lemma fifo8_push_all_ok:
  assumes inv: "fifo8_inv f" and len: "length d = unat n" and fits: "unat n \<le> fifo8_room f"
  shows "\<exists>f'. fifo8_push_all f d n = Inr f' \<and> fifo8_inv f' \<and>
    fifo8_elems f' = fifo8_elems f @ d \<and> fifo8_room f' = fifo8_room f - unat n"
proof -
  define c where "c = unat (capacity f)"
  define st where "st = ring_slot f (unat (num f))"
  have c: "c \<le> 2 ^ 31" "length (data f) = c" "unat (num f) + unat n \<le> c" "unat (head f) < c"
    using inv fits by (auto simp: fifo8_inv_def fifo8_room_def c_def)
  have stl: "st < length (data f)" unfolding st_def by (rule ring_slot_less [OF inv])
  from ring_copy_ok [OF stl, of d] c len obtain ys
    where ys: "ring_copy st d (data f) = Inr ys" "length ys = c"
      and new: "\<forall>j < length d. ys ! ((st + j) mod c) = d ! j"
      and old: "\<forall>k < c. (\<forall>j < length d. k \<noteq> (st + j) mod c) \<longrightarrow> ys ! k = data f ! k"
    by auto
  define f' where "f' = f\<lparr>data := ys, num := num f + n\<rparr>"
  have n1: "unat (num f + n) = unat (num f) + unat n" using c by (simp add: unat_word_ariths)
  have eq: "fifo8_push_all f d n = Inr f'"
    using fifo8_push_all_eq [OF assms] ys(1) by (simp add: st_def f'_def)
  have inv': "fifo8_inv f'" using inv n1 c ys(2) by (simp add: fifo8_inv_def f'_def c_def)
  have sl: "(st + j) mod c = ring_slot f (unat (num f) + j)" for j
    by (simp add: st_def ring_slot_def c_def mod_simps add.assoc)
  have apart: "ring_slot f i \<noteq> ring_slot f j" if "i < c" "j < c" "i \<noteq> j" for i j
    using that c(4) by (simp add: ring_slot_def c_def [symmetric] mod_shift_eq_iff)
  have el: "fifo8_elems f' ! k = ys ! ring_slot f k" if "k < unat (num f) + unat n" for k
    using n1 that by (subst nth_fifo8_elems) (simp_all add: f'_def ring_slot_def)
  have "fifo8_elems f' = fifo8_elems f @ d"
  proof (rule nth_equalityI)
    show "length (fifo8_elems f') = length (fifo8_elems f @ d)" using n1 len by (simp add: f'_def)
    fix k assume "k < length (fifo8_elems f')"
    then have k: "k < unat (num f) + unat n" using n1 by (simp add: f'_def)
    show "fifo8_elems f' ! k = (fifo8_elems f @ d) ! k"
    proof (cases "k < unat (num f)")
      case True
      have "ring_slot f k < c" using ring_slot_less [OF inv] c by simp
      moreover have "ring_slot f k \<noteq> (st + j) mod c" if "j < length d" for j
        unfolding sl using True that c len by (intro apart) auto
      ultimately show ?thesis using old el [OF k] True by (simp add: nth_append nth_fifo8_elems)
    next
      case False
      define j where "j = k - unat (num f)"
      with False k len have j: "j < length d" "k = unat (num f) + j" by auto
      then have "ys ! ring_slot f k = d ! j" using new sl by metis
      then show ?thesis using el [OF k] j by (simp add: nth_append)
    qed
  qed
  moreover have "fifo8_room f' = fifo8_room f - unat n"
    using n1 by (simp add: fifo8_room_def f'_def)
  ultimately show ?thesis using eq inv' by blast
qed

lemma fifo8_push_all_overflow:
  assumes "fifo8_inv f" and "fifo8_room f < unat n" and "unat n < 2 ^ 31"
  shows "fifo8_push_all f d n = Inl Abort"
proof -
  have "unat (num f + n) = unat (num f) + unat n"
    using assms by (simp add: fifo8_inv_def unat_word_ariths)
  then have "capacity f < num f + n"
    using assms by (simp add: fifo8_inv_def fifo8_room_def word_less_nat_alt)
  then show ?thesis by (simp add: fifo8_push_all_def)
qed

lemma fifo8_pop_buf_ok:
  assumes inv: "fifo8_inv f" and mx: "0 < unat mx" "unat mx \<le> unat (num f)"
  shows "\<exists>n f'. fifo8_pop_buf f mx = Inr (take (unat n) (fifo8_elems f), n, f') \<and>
    0 < unat n \<and> unat n \<le> unat mx \<and> fifo8_inv f' \<and>
    fifo8_elems f' = drop (unat n) (fifo8_elems f) \<and> fifo8_room f' = fifo8_room f + unat n"
proof -
  define c where "c = unat (capacity f)"
  define n where "n = min (capacity f - head f) mx"
  define f' where "f' = f\<lparr>head := (head f + n) mod capacity f, num := num f - n\<rparr>"
  have c: "0 < c" "c \<le> 2 ^ 31" "length (data f) = c" "unat (num f) \<le> c" "unat (head f) < c"
    using inv by (auto simp: fifo8_inv_def c_def)
  have n: "unat n = min (c - unat (head f)) (unat mx)"
    using c by (simp add: n_def c_def min_def word_le_nat_alt unat_sub_if')
  have hn: "unat (head f + n) = unat (head f) + unat n"
    using c n by (simp add: unat_word_ariths)
  have nn: "unat (num f - n) = unat (num f) - unat n"
    using n mx by (simp add: unat_sub_if')
  have h': "unat (head f') = (unat (head f) + unat n) mod c"
    by (simp add: f'_def unat_mod hn c_def)
  have guard: "\<not> (mx = 0 \<or> mx > num f)" using mx by (auto simp: word_less_nat_alt)
  have slot: "ring_slot f i = unat (head f) + i" if "i < unat n" for i
    using that n c by (auto simp: ring_slot_def c_def [symmetric])
  have bytes: "take (unat n) (drop (unat (head f)) (data f)) = take (unat n) (fifo8_elems f)"
    by (rule nth_equalityI)
      (use n c mx slot in \<open>auto simp: nth_fifo8_elems min_def\<close>)
  have eq: "fifo8_pop_buf f mx = Inr (take (unat n) (fifo8_elems f), n, f')"
    using guard fifo8_index_no_wrap(4) [OF inv] bytes
    by (simp add: fifo8_pop_buf_def n_def [symmetric] u32_mod_def f'_def)
  have inv': "fifo8_inv f'" using inv nn h' c by (auto simp: fifo8_inv_def f'_def c_def)
  have rs: "ring_slot f' k = ring_slot f (unat n + k)" for k
    using h' by (simp add: ring_slot_def f'_def c_def mod_simps add.assoc)
  have "fifo8_elems f' = drop (unat n) (fifo8_elems f)"
    by (rule nth_equalityI) (use nn rs in \<open>auto simp: nth_fifo8_elems f'_def\<close>)
  moreover have "fifo8_room f' = fifo8_room f + unat n"
    using nn n mx c by (auto simp: fifo8_room_def f'_def c_def [symmetric])
  moreover have "0 < unat n" "unat n \<le> unat mx" using n mx c by auto
  ultimately show ?thesis using eq inv' by blast
qed

lemma fifo8_reset_ok:
  "fifo8_inv f \<Longrightarrow> fifo8_inv (fifo8_reset f) \<and> fifo8_elems (fifo8_reset f) = [] \<and>
    fifo8_room (fifo8_reset f) = unat (capacity f)"
  by (simp add: fifo8_inv_def fifo8_reset_def fifo8_room_def)

lemma fifo8_create_ok:
  "0 < unat cap \<Longrightarrow> unat cap \<le> 2 ^ 31 \<Longrightarrow> length buf = unat cap \<Longrightarrow>
    fifo8_inv (fifo8_create buf cap) \<and> fifo8_elems (fifo8_create buf cap) = [] \<and>
    fifo8_room (fifo8_create buf cap) = unat cap"
  by (simp add: fifo8_inv_def fifo8_create_def fifo8_room_def)

lemma fifo8_queries:
  assumes "fifo8_inv f"
  shows "fifo8_is_empty f \<longleftrightarrow> fifo8_elems f = []"
    and "fifo8_is_full f \<longleftrightarrow> fifo8_room f = 0"
    and "unat (fifo8_num_used f) = length (fifo8_elems f)"
    and "unat (fifo8_num_free f) = fifo8_room f"
proof -
  show "fifo8_is_empty f \<longleftrightarrow> fifo8_elems f = []"
    by (metis fifo8_is_empty_def length_0_conv length_fifo8_elems unat_eq_zero)
  show "fifo8_is_full f \<longleftrightarrow> fifo8_room f = 0"
    using assms by (auto simp: fifo8_is_full_def fifo8_room_def fifo8_inv_def word_unat_eq_iff)
  show "unat (fifo8_num_used f) = length (fifo8_elems f)" by (simp add: fifo8_num_used_def)
  show "unat (fifo8_num_free f) = fifo8_room f"
    using assms by (simp add: fifo8_num_free_def fifo8_room_def fifo8_inv_def unat_sub_if')
qed

interpretation fq: bounded_queue fifo8_inv fifo8_elems fifo8_room fifo8_push fifo8_pop
  by unfold_locales (rule fifo8_push_ok fifo8_push_full fifo8_pop_ok fifo8_pop_empty, assumption+)+

section \<open>Properties\<close>

text \<open>
  C40. First in, first out. Bytes pushed one by one into an empty buffer with room for them come out
  of the pops in the same order, across every wrap of the ring; the buffer is then empty again with
  its whole room, and one byte more than the room aborts.
\<close>

theorem fifo8_order:
  assumes "fifo8_inv f" and "num f = 0"
  shows "if length xs \<le> unat (capacity f)
    then \<exists>f'. res_bind (fq.fill f xs) (fq.drain (length xs)) = Inr (xs, f') \<and> fifo8_inv f' \<and>
      fifo8_is_empty f' \<and> fifo8_room f' = fifo8_room f
    else fq.fill f xs = Inl Abort"
  using fq.fill_drain [OF assms(1), of xs] fq.fill_overflow [OF assms(1), of xs] assms(2)
  by (auto simp: fifo8_room_def fifo8_queries)

definition fifo8_example :: fifo8 where
  "fifo8_example = \<lparr>data = [0, 0, 0], capacity = 3, head = 2, num = 0\<rparr>"

lemma fifo8_example_inv: "fifo8_inv fifo8_example \<and> num fifo8_example = 0"
  by (simp add: fifo8_inv_def fifo8_example_def)

theorem fifo8_order_witness:
  "\<exists>f'. res_bind (fq.fill fifo8_example [7, 8]) (fq.drain (length [7, 8::u8])) = Inr ([7, 8], f') \<and>
    fifo8_is_empty f'"
proof -
  have fits: "length [7, 8::u8] \<le> unat (capacity fifo8_example)" by (simp add: fifo8_example_def)
  from fifo8_order [of fifo8_example "[7, 8]", unfolded if_P [OF fits]] fifo8_example_inv
  show ?thesis by blast
qed

text \<open>
  The bulk write is the sequence of single writes: whether the copy is split at the end of the
  ring or not, \<open>fifo8_push_all\<close> stores what repeated \<open>fifo8_push\<close> stores, and aborts exactly when
  they do.
\<close>

theorem fifo8_push_all_equiv:
  assumes "fifo8_inv f" and "length d = unat n" and "unat n < 2 ^ 31"
  shows "case fq.fill f d of
      Inl e \<Rightarrow> fifo8_push_all f d n = Inl e
    | Inr g \<Rightarrow> \<exists>f'. fifo8_push_all f d n = Inr f' \<and> fifo8_inv f' \<and>
        fifo8_elems f' = fifo8_elems g \<and> fifo8_room f' = fifo8_room g"
proof (cases "unat n \<le> fifo8_room f")
  case True
  from fq.fill_ok [OF assms(1), of d] True assms(2) fifo8_push_all_ok [OF assms(1,2) True]
  show ?thesis by (auto split: sum.splits)
next
  case False
  then show ?thesis
    using fq.fill_overflow [OF assms(1), of d] fifo8_push_all_overflow [OF assms(1), of n d] assms
    by (simp split: sum.splits)
qed

theorem fifo8_push_all_equiv_witness:
  "\<exists>f'. fifo8_push_all fifo8_example [7, 8] 2 = Inr f' \<and> fifo8_elems f' = [7, 8]"
proof -
  have inv: "fifo8_inv fifo8_example" using fifo8_example_inv by simp
  have "\<exists>g. fq.fill fifo8_example [7, 8] = Inr g \<and> fifo8_elems g = [7, 8]"
    using fq.fill_ok [OF inv, of "[7, 8]"] by (auto simp: fifo8_room_def fifo8_example_def)
  with fifo8_push_all_equiv [OF inv, of "[7, 8]" 2] show ?thesis by auto
qed

text \<open>
  \<open>fifo8_pop_buf\<close> hands out the longest run of the oldest bytes that is contiguous in the ring,
  at least one and at most \<open>max\<close> of them, and removes exactly those; it aborts when asked for
  nothing or for more than is stored.
\<close>

theorem fifo8_pop_buf_prefix:
  assumes "fifo8_inv f"
  shows "if mx = 0 \<or> unat (num f) < unat mx then fifo8_pop_buf f mx = Inl Abort
    else \<exists>n f'. fifo8_pop_buf f mx = Inr (take (unat n) (fifo8_elems f), n, f') \<and>
      n = min (capacity f - head f) mx \<and> 0 < unat n \<and> fifo8_inv f' \<and>
      fifo8_elems f' = drop (unat n) (fifo8_elems f)"
proof (cases "mx = 0 \<or> unat (num f) < unat mx")
  case True
  then show ?thesis by (auto simp: fifo8_pop_buf_def word_less_nat_alt)
next
  case False
  then have "0 < unat mx" "unat mx \<le> unat (num f)" by (auto simp: unat_gt_0)
  from fifo8_pop_buf_ok [OF assms this] obtain n f' where
    eq: "fifo8_pop_buf f mx = Inr (take (unat n) (fifo8_elems f), n, f')" and
    rest: "0 < unat n" "fifo8_inv f'" "fifo8_elems f' = drop (unat n) (fifo8_elems f)" by blast
  have "n = min (capacity f - head f) mx"
    using eq by (auto simp: fifo8_pop_buf_def Let_def res_bind_Inr_iff split: if_splits)
  with eq rest False show ?thesis by auto
qed

theorem fifo8_pop_buf_prefix_witness: "fifo8_pop_buf fifo8_example 1 = Inl Abort"
  using fifo8_pop_buf_prefix [of fifo8_example 1] fifo8_example_inv by simp

end
