(* ===== verification/Irq_Lines.thy ===== *)
theory Irq_Lines
  imports Bmbt_Prelude
begin

text \<open>
  The contract of a bundle of interrupt input lines (\<open>qemu_set_irq\<close> on the \<open>qemu_irq\<close>s a controller
  hands out): a line keeps the level last driven on it, and driving one line leaves the others
  alone. Devices that raise, lower and pulse their line rely on this and nothing else.
\<close>

locale irq_lines =
  fixes lines :: "nat set"
    and set_irq :: "nat \<Rightarrow> bool \<Rightarrow> 's \<Rightarrow> 's"
    and level :: "'s \<Rightarrow> nat \<Rightarrow> bool"
  assumes level_set: "n \<in> lines \<Longrightarrow> m \<in> lines \<Longrightarrow>
      level (set_irq n l s) m = (if m = n then l else level s m)"
begin

definition pulse :: "nat \<Rightarrow> 's \<Rightarrow> 's" where
  "pulse n s = set_irq n False (set_irq n True s)"

primrec drive :: "(nat \<times> bool) list \<Rightarrow> 's \<Rightarrow> 's" where
  "drive [] s = s"
| "drive (x # xs) s = drive xs (set_irq (fst x) (snd x) s)"

lemma level_pulse: "n \<in> lines \<Longrightarrow> m \<in> lines \<Longrightarrow>
    level (pulse n s) m = (m \<noteq> n \<and> level s m)"
  by (simp add: pulse_def level_set)

text \<open>After any sequence of drives, a line has the level of the last drive on it.\<close>

lemma level_drive:
  assumes "fst ` set xs \<subseteq> lines" and "m \<in> lines"
  shows "level (drive xs s) m =
    (case map_of (rev xs) m of Some l \<Rightarrow> l | None \<Rightarrow> level s m)"
  using assms
  by (induction xs arbitrary: s) (auto simp: level_set map_of_append map_add_def split: option.splits)

end

end
