(* ===== verification/I8259.thy ===== *)
theory I8259
  imports Irq_Lines
begin

text \<open>
  The cascaded pair of programmable interrupt controllers of \<open>src/hw/intc/i8259.c\<close> and
  \<open>src/hw/intc/i8259_common.c\<close>. One record per chip, the pair with the log of levels driven on the
  CPU's interrupt pin as the state, one definition per function of the C code. The wiring of
  \<open>i8259_init\<close> is part of the model: the slave's output drives input 2 of the master, the master's
  output drives the pin.
\<close>

section \<open>State\<close>

record pic =
  last_irr :: u8
  irr :: u8
  imr :: u8
  isr :: u8
  priority_add :: u8
  irq_base :: u8
  read_reg_select :: u8
  poll :: u8
  special_mask :: u8
  init_state :: u8
  auto_eoi :: u8
  rotate_on_auto_eoi :: u8
  special_fully_nested_mode :: u8
  init4 :: u8
  single_mode :: u8
  elcr :: u8
  elcr_mask :: u8
  master :: u32
  iobase :: u32
  elcr_addr :: u32

datatype chip = Master | Slave

text \<open>\<open>parent_irq\<close> is the sequence of levels driven on the CPU's pin, the latest first.\<close>

record pics =
  mst :: pic
  slv :: pic
  parent_irq :: "bool list"

definition pic_of :: "chip \<Rightarrow> pics \<Rightarrow> pic" where
  "pic_of c ps = (case c of Master \<Rightarrow> mst ps | Slave \<Rightarrow> slv ps)"

definition put_pic :: "chip \<Rightarrow> pic \<Rightarrow> pics \<Rightarrow> pics" where
  "put_pic c p ps = (case c of Master \<Rightarrow> ps\<lparr>mst := p\<rparr> | Slave \<Rightarrow> ps\<lparr>slv := p\<rparr>)"

section \<open>Operations\<close>

definition get_priority :: "pic \<Rightarrow> u8 \<Rightarrow> nat" where
  "get_priority s msk =
     (if msk = 0 then 8
      else while (\<lambda>p. msk AND BIT ((p + unat (priority_add s)) AND 7) = 0) Suc 0)"

definition pic_get_irq :: "pic \<Rightarrow> nat option" where
  "pic_get_irq s =
     (let msk = irr s AND NOT (imr s);
          priority = get_priority s msk
      in if priority = 8 then None
         else
           let msk = isr s;
               msk = (if special_mask s \<noteq> 0 then msk AND NOT (imr s) else msk);
               msk = (if special_fully_nested_mode s \<noteq> 0 \<and> master s \<noteq> 0
                       then msk AND NOT (BIT 2) else msk);
               cur_priority = get_priority s msk
           in if priority < cur_priority
              then Some ((priority + unat (priority_add s)) AND 7)
              else None)"

definition pic_get_output :: "pic \<Rightarrow> bool" where
  "pic_get_output s = (pic_get_irq s \<noteq> None)"

text \<open>The register part of \<open>pic_set_irq\<close>, before it updates the output.\<close>

definition pic_latch :: "nat \<Rightarrow> bool \<Rightarrow> pic \<Rightarrow> pic" where
  "pic_latch irq level s =
     (let msk = BIT irq in
      if tst (elcr s) msk then
        (if level then s\<lparr>irr := irr s OR msk, last_irr := last_irr s OR msk\<rparr>
         else s\<lparr>irr := irr s AND NOT msk, last_irr := last_irr s AND NOT msk\<rparr>)
      else
        (if level then
           (let s = (if last_irr s AND msk = 0 then s\<lparr>irr := irr s OR msk\<rparr> else s)
            in s\<lparr>last_irr := last_irr s OR msk\<rparr>)
         else s\<lparr>last_irr := last_irr s AND NOT msk\<rparr>))"

text \<open>
  \<open>pic_update_irq\<close> drives \<open>int_out[0]\<close>: the CPU's pin for the master, input 2 of the master
  (hence \<open>pic_set_irq\<close> on the master) for the slave.
\<close>

definition pic_update_irq_master :: "pics \<Rightarrow> pics" where
  "pic_update_irq_master ps = ps\<lparr>parent_irq := pic_get_output (mst ps) # parent_irq ps\<rparr>"

definition pic_set_irq_master :: "nat \<Rightarrow> bool \<Rightarrow> pics \<Rightarrow> pics" where
  "pic_set_irq_master irq level ps =
     pic_update_irq_master (ps\<lparr>mst := pic_latch irq level (mst ps)\<rparr>)"

definition pic_update_irq :: "chip \<Rightarrow> pics \<Rightarrow> pics" where
  "pic_update_irq c ps =
     (case c of Master \<Rightarrow> pic_update_irq_master ps
      | Slave \<Rightarrow> pic_set_irq_master 2 (pic_get_output (slv ps)) ps)"

definition pic_set_irq :: "chip \<Rightarrow> nat \<Rightarrow> bool \<Rightarrow> pics \<Rightarrow> pics" where
  "pic_set_irq c irq level ps =
     pic_update_irq c (put_pic c (pic_latch irq level (pic_of c ps)) ps)"

text \<open>The register part of \<open>pic_intack\<close>.\<close>

definition pic_ack :: "nat \<Rightarrow> pic \<Rightarrow> pic" where
  "pic_ack irq s =
     (let s = (if auto_eoi s \<noteq> 0 then
                 (if rotate_on_auto_eoi s \<noteq> 0
                  then s\<lparr>priority_add := word_of_nat ((irq + 1) AND 7)\<rparr> else s)
               else s\<lparr>isr := isr s OR BIT irq\<rparr>)
      in if elcr s AND BIT irq = 0 then s\<lparr>irr := irr s AND NOT (BIT irq)\<rparr> else s)"

definition pic_intack :: "chip \<Rightarrow> nat \<Rightarrow> pics \<Rightarrow> pics" where
  "pic_intack c irq ps = pic_update_irq c (put_pic c (pic_ack irq (pic_of c ps)) ps)"

text \<open>Called on the master only (\<open>cpu_get_pic_interrupt\<close> passes \<open>isa_pic\<close>).\<close>

definition pic_read_irq :: "pics \<Rightarrow> nat \<times> pics" where
  "pic_read_irq ps =
     (case pic_get_irq (mst ps) of
        Some irq \<Rightarrow>
          (if irq = 2 then
             (case pic_get_irq (slv ps) of
                Some irq2 \<Rightarrow>
                  let ps = pic_intack Slave irq2 ps
                  in (unat (irq_base (slv ps)) + irq2, pic_intack Master irq ps)
              | None \<Rightarrow> (unat (irq_base (slv ps)) + 7, pic_intack Master irq ps))
           else (unat (irq_base (mst ps)) + irq, pic_intack Master irq ps))
      | None \<Rightarrow> (unat (irq_base (mst ps)) + 7, ps))"

definition pic_reset_common :: "pic \<Rightarrow> pic" where
  "pic_reset_common s = s\<lparr>last_irr := 0, irr := irr s AND elcr s, imr := 0, isr := 0,
     priority_add := 0, irq_base := 0, read_reg_select := 0, poll := 0, special_mask := 0,
     init_state := 0, auto_eoi := 0, rotate_on_auto_eoi := 0, special_fully_nested_mode := 0,
     init4 := 0, single_mode := 0\<rparr>"

definition pic_init_reset :: "chip \<Rightarrow> pics \<Rightarrow> pics" where
  "pic_init_reset c ps = pic_update_irq c (put_pic c (pic_reset_common (pic_of c ps)) ps)"

definition pic_reset :: "pics \<Rightarrow> pics" where
  "pic_reset ps = pic_init_reset Slave (pic_init_reset Master ps)"

definition modify_pic :: "chip \<Rightarrow> (pic \<Rightarrow> pic) \<Rightarrow> pics \<Rightarrow> pics" where
  "modify_pic c f ps = put_pic c (f (pic_of c ps)) ps"

text \<open>The end-of-interrupt and rotation commands, \<open>cmd = val >> 5\<close>.\<close>

definition pic_ocw2 :: "chip \<Rightarrow> u32 \<Rightarrow> pics \<Rightarrow> pics" where
  "pic_ocw2 c val ps =
     (let cmd = drop_bit 5 val; s = pic_of c ps in
      if cmd = 0 \<or> cmd = 4 then
        modify_pic c (\<lambda>s. s\<lparr>rotate_on_auto_eoi := ucast (drop_bit 2 cmd)\<rparr>) ps
      else if cmd = 1 \<or> cmd = 5 then
        (let priority = get_priority s (isr s) in
         if priority \<noteq> 8 then
           (let irq = (priority + unat (priority_add s)) AND 7;
                s = s\<lparr>isr := isr s AND NOT (BIT irq)\<rparr>;
                s = (if cmd = 5 then s\<lparr>priority_add := word_of_nat ((irq + 1) AND 7)\<rparr> else s)
            in pic_update_irq c (put_pic c s ps))
         else ps)
      else if cmd = 3 then
        (let irq = unat (val AND 7)
         in pic_update_irq c (put_pic c (s\<lparr>isr := isr s AND NOT (BIT irq)\<rparr>) ps))
      else if cmd = 6 then
        pic_update_irq c (put_pic c (s\<lparr>priority_add := ucast ((val + 1) AND 7)\<rparr>) ps)
      else if cmd = 7 then
        (let irq = unat (val AND 7)
         in pic_update_irq c (put_pic c (s\<lparr>isr := isr s AND NOT (BIT irq),
              priority_add := word_of_nat ((irq + 1) AND 7)\<rparr>) ps))
      else ps)"

definition pic_ocw3 :: "u32 \<Rightarrow> pic \<Rightarrow> pic" where
  "pic_ocw3 val s =
     (let s = (if tst val 4 then s\<lparr>poll := 1\<rparr> else s);
          s = (if tst val 2 then s\<lparr>read_reg_select := ucast (val AND 1)\<rparr> else s)
      in if tst val 64 then s\<lparr>special_mask := ucast (drop_bit 5 val AND 1)\<rparr> else s)"

definition pic_ioport_write :: "chip \<Rightarrow> u64 \<Rightarrow> u64 \<Rightarrow> pics \<Rightarrow> pics" where
  "pic_ioport_write c addr64 val64 ps =
     (let addr = (ucast addr64 :: u32); val = (ucast val64 :: u32); s = pic_of c ps in
      if addr = 0 then
        (if tst val 16 then
           modify_pic c (\<lambda>s. s\<lparr>init_state := 1, init4 := ucast (val AND 1),
             single_mode := ucast (val AND 2)\<rparr>) (pic_init_reset c ps)
         else if tst val 8 then modify_pic c (pic_ocw3 val) ps
         else pic_ocw2 c val ps)
      else if init_state s = 0 then
        pic_update_irq c (put_pic c (s\<lparr>imr := ucast val\<rparr>) ps)
      else if init_state s = 1 then
        put_pic c (s\<lparr>irq_base := ucast (val AND 248),
          init_state := (if single_mode s \<noteq> 0 then (if init4 s \<noteq> 0 then 3 else 0) else 2)\<rparr>) ps
      else if init_state s = 2 then
        put_pic c (s\<lparr>init_state := (if init4 s \<noteq> 0 then 3 else 0)\<rparr>) ps
      else if init_state s = 3 then
        put_pic c (s\<lparr>special_fully_nested_mode := ucast (drop_bit 4 val AND 1),
          auto_eoi := ucast (drop_bit 1 val AND 1), init_state := 0\<rparr>) ps
      else ps)"

definition pic_ioport_read :: "chip \<Rightarrow> u64 \<Rightarrow> pics \<Rightarrow> u64 \<times> pics" where
  "pic_ioport_read c addr ps =
     (let s = pic_of c ps in
      if poll s \<noteq> 0 then
        (case pic_get_irq s of
           Some ret \<Rightarrow>
             (word_of_nat ret OR 128, modify_pic c (poll_update (\<lambda>_. 0)) (pic_intack c ret ps))
         | None \<Rightarrow> (0, modify_pic c (poll_update (\<lambda>_. 0)) ps))
      else if addr = 0 then
        (if read_reg_select s \<noteq> 0 then (ucast (isr s), ps) else (ucast (irr s), ps))
      else (ucast (imr s), ps))"

definition elcr_ioport_write :: "chip \<Rightarrow> u64 \<Rightarrow> pics \<Rightarrow> pics" where
  "elcr_ioport_write c val ps = modify_pic c (\<lambda>s. s\<lparr>elcr := ucast val AND elcr_mask s\<rparr>) ps"

definition elcr_ioport_read :: "chip \<Rightarrow> pics \<Rightarrow> u64" where
  "elcr_ioport_read c ps = ucast (elcr (pic_of c ps))"

text \<open>\<open>QOM_init_PIC\<close> fills a zeroed static structure.\<close>

definition QOM_init_PIC :: "bool \<Rightarrow> pic" where
  "QOM_init_PIC m = \<lparr>last_irr = 0, irr = 0, imr = 0, isr = 0, priority_add = 0, irq_base = 0,
     read_reg_select = 0, poll = 0, special_mask = 0, init_state = 0, auto_eoi = 0,
     rotate_on_auto_eoi = 0, special_fully_nested_mode = 0, init4 = 0, single_mode = 0,
     elcr = 0, elcr_mask = (if m then 248 else 222), master = (if m then 1 else 0),
     iobase = (if m then 32 else 160), elcr_addr = (if m then 1232 else 1233)\<rparr>"

definition i8259_init :: pics where
  "i8259_init = \<lparr>mst = QOM_init_PIC True, slv = QOM_init_PIC False, parent_irq = []\<rparr>"

text \<open>The array \<open>irq_set\<close> of \<open>i8259_init\<close>: inputs 0 to 7 of the master, then those of the slave.\<close>

definition isa_set_irq :: "nat \<Rightarrow> bool \<Rightarrow> pics \<Rightarrow> pics" where
  "isa_set_irq n level ps =
     (if n < 8 then pic_set_irq Master n level ps else pic_set_irq Slave (n - 8) level ps)"

section \<open>Priority resolution\<close>

text \<open>The position of input \<open>n\<close> in the rotated priority order, 0 the most urgent.\<close>

definition rank :: "pic \<Rightarrow> nat \<Rightarrow> nat" where
  "rank s n = (n + 8 - unat (priority_add s) mod 8) mod 8"

lemma rank_less [simp]: "rank s n < 8"
  by (simp add: rank_def)

lemma rank_add: "n < 8 \<Longrightarrow> (rank s n + unat (priority_add s)) mod 8 = n"
proof -
  assume n: "n < 8"
  define a where "a = unat (priority_add s) mod 8"
  have "a < 8" by (simp add: a_def)
  with n have "((n + 8 - a) mod 8 + a) mod 8 = n" by (simp add: mod_simps)
  then show ?thesis by (simp add: rank_def a_def mod_simps)
qed

lemma rank_of_sum: "p < 8 \<Longrightarrow> rank s ((p + unat (priority_add s)) mod 8) = p"
proof -
  assume p: "p < 8"
  define a where "a = unat (priority_add s) mod 8"
  have a: "a < 8" by (simp add: a_def)
  have "(p + unat (priority_add s)) mod 8 = (p + a) mod 8" by (simp add: a_def mod_simps)
  moreover have "((p + a) mod 8 + 8 - a) mod 8 = p" using p a by (auto simp: mod_if)
  ultimately show ?thesis by (simp add: rank_def a_def)
qed

lemma rank_inj: "n < 8 \<Longrightarrow> m < 8 \<Longrightarrow> rank s n = rank s m \<longleftrightarrow> n = m"
  by (metis rank_add)

lemma bit_u8_less: "bit (w::u8) n \<Longrightarrow> n < 8"
  using bit_imp_le_length [of w n] by simp

lemma u8_nonzero_bit: "(w::u8) \<noteq> 0 \<Longrightarrow> \<exists>n<8. bit w n"
  by (metis bit_0_eq bit_u8_less bit_word_eqI bot_fun_def bot_bool_def)

text \<open>
  The search loop returns the rank of the most urgent set bit; in particular it stops after at most
  eight steps whenever the mask is not zero.
\<close>

lemma get_priority_zero [simp]: "get_priority s 0 = 8"
  by (simp add: get_priority_def)

lemma get_priority_spec:
  assumes "msk \<noteq> 0"
  shows "get_priority s msk < 8"
    and "bit msk ((get_priority s msk + unat (priority_add s)) mod 8)"
    and "bit msk n \<Longrightarrow> get_priority s msk \<le> rank s n"
proof -
  define a where "a = unat (priority_add s)"
  let ?b = "\<lambda>p. msk AND BIT ((p + a) AND 7) = 0"
  from u8_nonzero_bit [OF assms] obtain k where k: "k < 8" "bit msk k" by blast
  let ?Q = "\<lambda>p. p < 8 \<and> bit msk ((p + a) mod 8) \<and> (\<forall>q < p. \<not> bit msk ((q + a) mod 8))"
  have "?Q (while ?b Suc 0)"
  proof (rule while_rule [where P = "\<lambda>p. p \<le> rank s k \<and> (\<forall>q < p. \<not> bit msk ((q + a) mod 8))"
        and r = "measure (\<lambda>p. 8 - p)"])
    fix p
    assume P: "p \<le> rank s k \<and> (\<forall>q < p. \<not> bit msk ((q + a) mod 8))" and b: "?b p"
    from b have nb: "\<not> bit msk ((p + a) mod 8)" by (simp add: word_bits nat_and_7)
    with k rank_add [of k s] have "p \<noteq> rank s k" by (auto simp: a_def)
    with P have lt: "p < rank s k" by simp
    with P nb show "Suc p \<le> rank s k \<and> (\<forall>q < Suc p. \<not> bit msk ((q + a) mod 8))"
      by (auto simp: less_Suc_eq)
    show "(Suc p, p) \<in> measure (\<lambda>p. 8 - p)"
      using less_trans [OF lt rank_less] by simp
  next
    fix p
    assume P: "p \<le> rank s k \<and> (\<forall>q < p. \<not> bit msk ((q + a) mod 8))" and "\<not> ?b p"
    then show "?Q p" using order.strict_trans1 [OF _ rank_less, of p s k]
      by (auto simp: word_bits nat_and_7)
  qed auto
  then have Q: "?Q (get_priority s msk)" using assms by (simp add: get_priority_def a_def)
  then show "get_priority s msk < 8"
    "bit msk ((get_priority s msk + unat (priority_add s)) mod 8)" by (simp_all add: a_def)
  show "get_priority s msk \<le> rank s n" if "bit msk n"
    using Q that rank_add [OF bit_u8_less [OF that], of s] by (metis a_def not_less)
qed

lemma get_priority_eq_8_iff: "get_priority s msk = 8 \<longleftrightarrow> msk = 0"
  using get_priority_spec(1) [of msk s] by (cases "msk = 0") auto

lemma get_priority_eqI:
  assumes "bit msk n" and "\<And>m. bit msk m \<Longrightarrow> rank s n \<le> rank s m"
  shows "get_priority s msk = rank s n"
proof -
  from assms(1) have ne: "msk \<noteq> 0" by auto
  note sp = get_priority_spec [OF ne, where s = s]
  have "rank s n \<le> get_priority s msk"
    using assms(2) [OF sp(2)] rank_of_sum [OF sp(1)] by simp
  with sp(3) [OF assms(1)] show ?thesis by simp
qed

lemma get_priority_input:
  assumes "msk \<noteq> 0"
  shows "\<exists>n<8. bit msk n \<and> get_priority s msk = rank s n \<and>
    (get_priority s msk + unat (priority_add s)) AND 7 = n"
  using get_priority_spec [OF assms, where s = s] rank_of_sum [of "get_priority s msk" s]
  by (intro exI [of _ "(get_priority s msk + unat (priority_add s)) mod 8"]) (auto simp: nat_and_7)

text \<open>The in-service bits that hold back a new request.\<close>

definition in_service :: "pic \<Rightarrow> u8" where
  "in_service s =
     (let m = (if special_mask s \<noteq> 0 then isr s AND NOT (imr s) else isr s)
      in if special_fully_nested_mode s \<noteq> 0 \<and> master s \<noteq> 0 then m AND NOT (BIT 2) else m)"

definition requested :: "pic \<Rightarrow> u8" where
  "requested s = irr s AND NOT (imr s)"

lemma bit_requested_iff: "bit (requested s) m \<longleftrightarrow> bit (irr s) m \<and> \<not> bit (imr s) m"
  by (auto simp: requested_def bit_and_iff bit_not_iff dest: bit_u8_less)

lemma pic_get_irq_alt:
  "pic_get_irq s = (let p = get_priority s (requested s) in
     if requested s \<noteq> 0 \<and> p < get_priority s (in_service s)
     then Some ((p + unat (priority_add s)) AND 7) else None)"
  by (auto simp: pic_get_irq_def requested_def in_service_def Let_def get_priority_eq_8_iff)

lemma less_get_priority_iff:
  "n < 8 \<Longrightarrow> rank s n < get_priority s msk \<longleftrightarrow> (\<forall>m. bit msk m \<longrightarrow> rank s n < rank s m)"
  using get_priority_spec [where msk = msk and s = s] get_priority_input [of msk s] rank_less [of s n]
  by (cases "msk = 0") (auto, fastforce)

lemma pic_get_irq_Some_iff:
  "pic_get_irq s = Some n \<longleftrightarrow>
     bit (requested s) n \<and>
     (\<forall>m. bit (requested s) m \<longrightarrow> rank s n \<le> rank s m) \<and>
     (\<forall>m. bit (in_service s) m \<longrightarrow> rank s n < rank s m)"
proof
  assume L: "pic_get_irq s = Some n"
  then have ne: "requested s \<noteq> 0" by (auto simp: pic_get_irq_alt Let_def split: if_splits)
  from get_priority_input [OF ne, of s] L obtain
    "bit (requested s) n" "n < 8" "get_priority s (requested s) = rank s n"
    "rank s n < get_priority s (in_service s)"
    by (auto simp: pic_get_irq_alt Let_def split: if_splits)
  then show "bit (requested s) n \<and> (\<forall>m. bit (requested s) m \<longrightarrow> rank s n \<le> rank s m) \<and>
      (\<forall>m. bit (in_service s) m \<longrightarrow> rank s n < rank s m)"
    using get_priority_spec(3) [OF ne, where s = s] less_get_priority_iff [of n s "in_service s"] by auto
next
  assume R: "bit (requested s) n \<and> (\<forall>m. bit (requested s) m \<longrightarrow> rank s n \<le> rank s m) \<and>
      (\<forall>m. bit (in_service s) m \<longrightarrow> rank s n < rank s m)"
  then have n: "n < 8" by (auto dest: bit_u8_less)
  from R have "get_priority s (requested s) = rank s n" by (intro get_priority_eqI) auto
  with R n rank_add [OF n, of s] less_get_priority_iff [OF n, of s "in_service s"]
  show "pic_get_irq s = Some n" by (auto simp: pic_get_irq_alt Let_def nat_and_7)
qed

lemma pic_get_irq_less: "pic_get_irq s = Some n \<Longrightarrow> n < 8"
  by (auto simp: pic_get_irq_Some_iff dest: bit_u8_less)

section \<open>Latching, acknowledging and the interrupt lines\<close>

lemma bit_or_BIT [simp]: "bit (w OR 2 ^ n) m \<longleftrightarrow> bit w m \<or> m = n" if "n < 8" for w :: u8
  using that by (auto simp: bit_or_iff bit_exp_iff)

lemma bit_and_not_BIT [simp]: "bit (w AND NOT (2 ^ n)) m \<longleftrightarrow> bit w m \<and> m \<noteq> n" for w :: u8
  by (auto simp: bit_and_iff bit_not_iff bit_exp_iff dest: bit_u8_less)

lemma last_irr_latch:
  "irq < 8 \<Longrightarrow> bit (last_irr (pic_latch irq level s)) m =
     (if m = irq then level else bit (last_irr s) m)"
  by (auto simp: pic_latch_def Let_def word_bits)

text \<open>
  The request register: a level-triggered input follows its line, an edge-triggered one is set by a
  rising edge and keeps its request when the line falls.
\<close>

lemma irr_latch:
  "irq < 8 \<Longrightarrow> bit (irr (pic_latch irq level s)) m =
     (if m \<noteq> irq then bit (irr s) m
      else if bit (elcr s) irq then level
      else bit (irr s) irq \<or> (level \<and> \<not> bit (last_irr s) irq))"
  by (auto simp: pic_latch_def Let_def word_bits)

lemma latch_fields [simp]:
  "imr (pic_latch n l s) = imr s" "isr (pic_latch n l s) = isr s"
  "priority_add (pic_latch n l s) = priority_add s" "irq_base (pic_latch n l s) = irq_base s"
  "elcr (pic_latch n l s) = elcr s" "elcr_mask (pic_latch n l s) = elcr_mask s"
  "init_state (pic_latch n l s) = init_state s" "auto_eoi (pic_latch n l s) = auto_eoi s"
  "special_mask (pic_latch n l s) = special_mask s" "master (pic_latch n l s) = master s"
  "special_fully_nested_mode (pic_latch n l s) = special_fully_nested_mode s"
  by (simp_all add: pic_latch_def Let_def)

lemma update_fields [simp]:
  "mst (pic_update_irq Master ps) = mst ps"
  "slv (pic_update_irq c ps) = slv ps"
  "mst (pic_update_irq Slave ps) = pic_latch 2 (pic_get_output (slv ps)) (mst ps)"
  "parent_irq (pic_update_irq c ps) =
     pic_get_output (mst (pic_update_irq c ps)) # parent_irq ps"
  by (cases c; simp add: pic_update_irq_def pic_update_irq_master_def pic_set_irq_master_def)+

lemma put_pic_fields [simp]:
  "mst (put_pic Master p ps) = p" "mst (put_pic Slave p ps) = mst ps"
  "slv (put_pic Master p ps) = slv ps" "slv (put_pic Slave p ps) = p"
  "parent_irq (put_pic c p ps) = parent_irq ps"
  "pic_of Master ps = mst ps" "pic_of Slave ps = slv ps"
  by (cases c; simp add: put_pic_def pic_of_def)+

definition isa_level :: "pics \<Rightarrow> nat \<Rightarrow> bool" where
  "isa_level ps n = (if n < 8 then bit (last_irr (mst ps)) n else bit (last_irr (slv ps)) (n - 8))"

text \<open>The fifteen device lines; input 2 of the master belongs to the cascade.\<close>

lemma isa_level_set:
  assumes "n \<in> {0..<16} - {2}" and "m \<in> {0..<16} - {2}"
  shows "isa_level (isa_set_irq n l ps) m = (if m = n then l else isa_level ps m)"
  using assms
  by (auto simp: isa_level_def isa_set_irq_def pic_set_irq_def last_irr_latch)

interpretation isa: irq_lines "{0..<16} - {2}" isa_set_irq isa_level
  by unfold_locales (rule isa_level_set)

text \<open>An edge-triggered request survives a pulse on its line and is raised by it.\<close>

lemma isa_pulse_requests:
  assumes "n < 8" "n \<noteq> 2" and "\<not> bit (elcr (mst ps)) n" and "\<not> isa_level ps n"
  shows "bit (irr (mst (isa.pulse n ps))) n"
  using assms
  by (simp add: isa.pulse_def isa_set_irq_def pic_set_irq_def isa_level_def irr_latch)

section \<open>The well-formedness invariant\<close>

definition pic_inv :: "pic \<Rightarrow> bool" where
  "pic_inv s \<longleftrightarrow> unat (priority_add s) < 8 \<and> init_state s \<in> {0, 1, 2, 3} \<and>
     irq_base s AND 7 = 0 \<and> elcr s AND NOT (elcr_mask s) = 0"

definition pics_inv :: "pics \<Rightarrow> bool" where
  "pics_inv ps \<longleftrightarrow> pic_inv (mst ps) \<and> pic_inv (slv ps) \<and> master (mst ps) = 1 \<and> master (slv ps) = 0 \<and>
     elcr_mask (mst ps) = 248 \<and> elcr_mask (slv ps) = 222"

lemma unat_word_of_mod8: "unat (word_of_nat (k AND 7) :: u8) = k mod 8"
  by (simp add: nat_and_7 unat_of_nat)

lemma unat_and_7_less: "unat (ucast ((v::u32) AND 7) :: u8) < 8"
proof -
  have "v AND 7 \<le> 7" by (rule word_and_le1)
  then have "unat (v AND 7) \<le> 7" by (simp add: word_le_nat_alt)
  then show ?thesis by (simp add: unsigned_ucast_eq take_bit_eq_mod)
qed

lemma base_masked: "(ucast ((v::u32) AND 248) :: u8) AND 7 = 0"
  by (simp add: unsigned_and_eq and.assoc)

named_theorems pic_ops \<open>definitions of the controller's operations\<close>

lemmas [pic_ops] = pic_set_irq_def pic_intack_def pic_init_reset_def modify_pic_def
  elcr_ioport_write_def isa_set_irq_def

lemma pic_inv_latch [simp]: "pic_inv (pic_latch n l s) = pic_inv s"
  by (simp add: pic_inv_def)

lemma ack_fields [simp]:
  "init_state (pic_ack n s) = init_state s" "irq_base (pic_ack n s) = irq_base s"
  "elcr (pic_ack n s) = elcr s" "elcr_mask (pic_ack n s) = elcr_mask s"
  "master (pic_ack n s) = master s" "imr (pic_ack n s) = imr s"
  "auto_eoi (pic_ack n s) = auto_eoi s" "special_mask (pic_ack n s) = special_mask s"
  "special_fully_nested_mode (pic_ack n s) = special_fully_nested_mode s"
  by (simp_all add: pic_ack_def Let_def)

lemma pic_inv_ack [simp]: "pic_inv s \<Longrightarrow> pic_inv (pic_ack n s)"
  by (auto simp: pic_inv_def) (auto simp: pic_ack_def Let_def unat_word_of_mod8)

lemma reset_fields [simp]:
  "elcr (pic_reset_common s) = elcr s" "elcr_mask (pic_reset_common s) = elcr_mask s"
  "master (pic_reset_common s) = master s" "init_state (pic_reset_common s) = 0"
  by (simp_all add: pic_reset_common_def)

lemma pic_inv_reset [simp]: "pic_inv s \<Longrightarrow> pic_inv (pic_reset_common s)"
  by (simp add: pic_inv_def pic_reset_common_def)

lemma pics_inv_update [simp]: "pics_inv (pic_update_irq c ps) = pics_inv ps"
  by (cases c) (simp_all add: pics_inv_def)

lemma pics_inv_put:
  "pics_inv ps \<Longrightarrow> pic_inv p \<Longrightarrow> master p = master (pic_of c ps) \<Longrightarrow>
     elcr_mask p = elcr_mask (pic_of c ps) \<Longrightarrow> pics_inv (put_pic c p ps)"
  by (cases c) (simp_all add: pics_inv_def)

lemma pics_inv_pic: "pics_inv ps \<Longrightarrow> pic_inv (pic_of c ps)"
  by (cases c) (simp_all add: pics_inv_def)

lemma pics_inv_set_irq [intro]: "pics_inv ps \<Longrightarrow> pics_inv (pic_set_irq c n l ps)"
  by (simp add: pic_ops pics_inv_put pics_inv_pic)

lemma pics_inv_intack [intro]: "pics_inv ps \<Longrightarrow> pics_inv (pic_intack c n ps)"
  by (simp add: pic_ops pics_inv_put pics_inv_pic)

lemma pics_inv_init_reset [intro]: "pics_inv ps \<Longrightarrow> pics_inv (pic_init_reset c ps)"
  by (simp add: pic_ops pics_inv_put pics_inv_pic)

lemma pic_inv_ocw3 [simp]: "pic_inv (pic_ocw3 v s) = pic_inv s"
  "master (pic_ocw3 v s) = master s" "elcr_mask (pic_ocw3 v s) = elcr_mask s"
  by (simp_all add: pic_inv_def pic_ocw3_def Let_def)

lemma pics_inv_ocw2: "pics_inv ps \<Longrightarrow> pics_inv (pic_ocw2 c v ps)"
  using pics_inv_pic [of ps c]
  by (auto simp: pic_ocw2_def Let_def modify_pic_def pic_inv_def unat_word_of_mod8 unat_and_7_less
      intro!: pics_inv_put)

lemma pic_inv_writes [simp]:
  assumes "pic_inv s"
  shows "pic_inv (s\<lparr>imr := m\<rparr>)"
    and "pic_inv (s\<lparr>poll := m\<rparr>)"
    and "pic_inv (s\<lparr>init_state := 1, init4 := a, single_mode := b\<rparr>)"
    and "i \<in> {0, 2, 3} \<Longrightarrow> pic_inv (s\<lparr>irq_base := ucast ((v::u32) AND 248), init_state := i\<rparr>)"
    and "i \<in> {0, 3} \<Longrightarrow> pic_inv (s\<lparr>init_state := i\<rparr>)"
    and "pic_inv (s\<lparr>special_fully_nested_mode := a, auto_eoi := b, init_state := 0\<rparr>)"
  using assms by (auto simp: pic_inv_def base_masked)

lemma pics_inv_write: "pics_inv ps \<Longrightarrow> pics_inv (pic_ioport_write c a v ps)"
proof -
  assume inv: "pics_inv ps"
  note p = pics_inv_pic [OF inv, of c]
  note r = pics_inv_init_reset [OF inv, of c]
  show ?thesis
    by (simp add: pic_ioport_write_def Let_def modify_pic_def pics_inv_put inv p r
        pics_inv_pic [OF r, of c] pics_inv_ocw2 [OF inv])
qed

lemma pics_inv_read: "pics_inv ps \<Longrightarrow> pics_inv (snd (pic_ioport_read c a ps))"
  by (simp add: pic_ioport_read_def Let_def modify_pic_def pics_inv_put pics_inv_pic
      pics_inv_intack split: option.splits)

lemma pics_inv_elcr: "pics_inv ps \<Longrightarrow> pics_inv (elcr_ioport_write c v ps)"
  using pics_inv_pic [of ps c]
  by (auto simp: pic_ops pic_inv_def and.assoc intro!: pics_inv_put)

lemma pics_inv_read_irq: "pics_inv ps \<Longrightarrow> pics_inv (snd (pic_read_irq ps))"
  by (auto simp: pic_read_irq_def Let_def split: option.splits)

section \<open>The controller pair as a state machine\<close>

text \<open>
  Everything the rest of the machine can do to the pair: a device drives a line, the guest accesses
  one of the port ranges, the CPU acknowledges an interrupt, the board resets.
\<close>

datatype pic_event =
    SetIrq nat bool
  | IoWrite chip u64 u64
  | IoRead chip u64
  | ElcrWrite chip u64
  | ReadIrq
  | PicReset

fun pics_step :: "pic_event \<Rightarrow> pics \<Rightarrow> pics" where
  "pics_step (SetIrq n l) ps = isa_set_irq n l ps"
| "pics_step (IoWrite c a v) ps = pic_ioport_write c a v ps"
| "pics_step (IoRead c a) ps = snd (pic_ioport_read c a ps)"
| "pics_step (ElcrWrite c v) ps = elcr_ioport_write c v ps"
| "pics_step ReadIrq ps = snd (pic_read_irq ps)"
| "pics_step PicReset ps = pic_reset ps"

inductive pics_reach :: "pics \<Rightarrow> bool" where
  reach_init: "pics_reach i8259_init"
| reach_step: "pics_reach ps \<Longrightarrow> pics_reach (pics_step e ps)"

lemma pics_inv_step: "pics_inv ps \<Longrightarrow> pics_inv (pics_step e ps)"
  by (cases e) (auto simp: isa_set_irq_def pic_reset_def pics_inv_write pics_inv_read pics_inv_elcr
      pics_inv_read_irq)

lemma pics_inv_init: "pics_inv i8259_init"
  by (simp add: pics_inv_def i8259_init_def QOM_init_PIC_def pic_inv_def)

lemma pics_reach_inv: "pics_reach ps \<Longrightarrow> pics_inv ps"
  by (induction rule: pics_reach.induct) (auto intro: pics_inv_init pics_inv_step)

section \<open>The interrupt pin\<close>

definition pin_level :: "pics \<Rightarrow> bool" where
  "pin_level ps = (case parent_irq ps of [] \<Rightarrow> False | l # _ \<Rightarrow> l)"

definition pin_in_sync :: "pics \<Rightarrow> bool" where
  "pin_in_sync ps \<longleftrightarrow> pin_level ps = pic_get_output (mst ps)"

text \<open>
  The two writes to the master that change what \<open>pic_get_irq\<close> computes without a call of
  \<open>pic_update_irq\<close>: a mode word that sets or clears the special mask mode, and the fourth
  initialisation word.
\<close>

definition silent_write :: "pic_event \<Rightarrow> pics \<Rightarrow> bool" where
  "silent_write e ps =
     (case e of
        IoWrite Master a v \<Rightarrow>
          (let val = (ucast v :: u32) in
           if (ucast a :: u32) = 0 then \<not> tst val 16 \<and> tst val 8 \<and> tst val 64
           else init_state (mst ps) = 3)
      | _ \<Rightarrow> False)"

lemma pin_in_sync_update [simp]: "pin_in_sync (pic_update_irq c ps)"
  by (simp add: pin_in_sync_def pin_level_def)

lemma pin_in_sync_put_slave [simp]: "pin_in_sync (put_pic Slave p ps) = pin_in_sync ps"
  by (simp add: pin_in_sync_def pin_level_def)

lemma pin_in_sync_put_master:
  "pin_in_sync ps \<Longrightarrow> pic_get_irq p = pic_get_irq (mst ps) \<Longrightarrow> pin_in_sync (put_pic Master p ps)"
  by (simp add: pin_in_sync_def pin_level_def pic_get_output_def)

lemma pic_get_irq_frame [simp]:
  "pic_get_irq (s\<lparr>poll := x\<rparr>) = pic_get_irq s"
  "pic_get_irq (s\<lparr>read_reg_select := x\<rparr>) = pic_get_irq s"
  "pic_get_irq (s\<lparr>rotate_on_auto_eoi := x\<rparr>) = pic_get_irq s"
  "pic_get_irq (s\<lparr>elcr := x\<rparr>) = pic_get_irq s"
  "pic_get_irq (s\<lparr>init_state := x\<rparr>) = pic_get_irq s"
  "pic_get_irq (s\<lparr>irq_base := x\<rparr>) = pic_get_irq s"
  "pic_get_irq (s\<lparr>init4 := x\<rparr>) = pic_get_irq s"
  "pic_get_irq (s\<lparr>single_mode := x\<rparr>) = pic_get_irq s"
  by (simp_all add: pic_get_irq_def get_priority_def Let_def)

lemma pin_in_sync_modify:
  "pin_in_sync ps \<Longrightarrow> (\<And>s. pic_get_irq (f s) = pic_get_irq s) \<Longrightarrow> pin_in_sync (modify_pic c f ps)"
  by (cases c) (simp_all add: modify_pic_def pin_in_sync_put_master)

lemma pin_in_sync_init_reset [simp]: "pin_in_sync (pic_init_reset c ps)"
  by (simp add: pic_init_reset_def)

lemma pin_in_sync_ocw2: "pin_in_sync ps \<Longrightarrow> pin_in_sync (pic_ocw2 c v ps)"
  by (simp add: pic_ocw2_def Let_def pin_in_sync_modify)

lemma pin_in_sync_ocw3:
  "pin_in_sync ps \<Longrightarrow> \<not> tst v 64 \<or> c = Slave \<Longrightarrow> pin_in_sync (modify_pic c (pic_ocw3 v) ps)"
  by (cases c) (auto simp: modify_pic_def pic_ocw3_def Let_def intro!: pin_in_sync_put_master)

lemma pin_in_sync_write:
  assumes "pin_in_sync ps" and "\<not> silent_write (IoWrite c a v) ps"
  shows "pin_in_sync (pic_ioport_write c a v ps)"
proof (cases c)
  case Master
  show ?thesis
  proof (cases "(ucast a :: u32) = 0")
    case True
    with Master assms show ?thesis
      using pin_in_sync_ocw3 [OF assms(1), of "ucast v" Master]
      by (auto simp: pic_ioport_write_def silent_write_def Let_def pin_in_sync_ocw2
          pin_in_sync_modify)
  next
    case False
    with Master assms show ?thesis
      by (auto simp: pic_ioport_write_def silent_write_def Let_def pin_in_sync_put_master)
  qed
next
  case Slave
  with assms(1) show ?thesis
    by (simp add: pic_ioport_write_def Let_def pin_in_sync_ocw2 pin_in_sync_ocw3
        pin_in_sync_modify)
qed

lemma pin_in_sync_intack [simp]: "pin_in_sync (pic_intack c n ps)"
  by (simp add: pic_intack_def)

lemma pin_in_sync_step:
  assumes "pin_in_sync ps" and "\<not> silent_write e ps"
  shows "pin_in_sync (pics_step e ps)"
  using assms
proof (cases e)
  case (IoRead c a)
  with assms(1) show ?thesis
    by (auto simp: pic_ioport_read_def Let_def split: option.splits intro!: pin_in_sync_modify)
next
  case (ElcrWrite c v)
  with assms(1) show ?thesis by (auto simp: elcr_ioport_write_def intro!: pin_in_sync_modify)
next
  case ReadIrq
  with assms(1) show ?thesis by (auto simp: pic_read_irq_def Let_def split: option.splits)
qed (auto simp: isa_set_irq_def pic_set_irq_def pic_reset_def pin_in_sync_write)

section \<open>Acknowledge, end of interrupt, initialisation\<close>

lemma ack_isr:
  "n < 8 \<Longrightarrow> auto_eoi s = 0 \<Longrightarrow> bit (isr (pic_ack n s)) m \<longleftrightarrow> bit (isr s) m \<or> m = n"
  by (simp add: pic_ack_def Let_def)

lemma ack_irr: "n < 8 \<Longrightarrow> bit (irr (pic_ack n s)) m \<longleftrightarrow>
    bit (irr s) m \<and> (m = n \<longrightarrow> bit (elcr s) n)"
  by (auto simp: pic_ack_def Let_def word_bits)

lemma intack_master_fields [simp]:
  "mst (pic_intack Master n ps) = pic_ack n (mst ps)"
  "slv (pic_intack c n ps) = (if c = Slave then pic_ack n (slv ps) else slv ps)"
  by (cases c; simp add: pic_intack_def)+

text \<open>Without special modes, every input in service is less urgent than the request taken.\<close>

lemma taken_not_in_service:
  assumes "pic_get_irq s = Some n" "special_mask s = 0" "special_fully_nested_mode s = 0"
  shows "\<not> bit (isr s) n" and "bit (isr s) m \<Longrightarrow> rank s n < rank s m"
  using assms by (auto simp: pic_get_irq_Some_iff in_service_def)

lemma nonspecific_eoi_after_ack:
  assumes req: "pic_get_irq s = Some n"
    and plain: "special_mask s = 0" "special_fully_nested_mode s = 0" "auto_eoi s = 0"
  defines "s' \<equiv> pic_ack n s"
  shows "get_priority s' (isr s') = rank s n"
    and "isr s' AND NOT (BIT n) = isr s"
proof -
  have n: "n < 8" using req by (rule pic_get_irq_less)
  have add: "priority_add s' = priority_add s" using plain by (simp add: s'_def pic_ack_def Let_def)
  then have rk: "rank s' k = rank s k" for k by (simp add: rank_def)
  have bits: "bit (isr s') m \<longleftrightarrow> bit (isr s) m \<or> m = n" for m
    unfolding s'_def by (rule ack_isr [OF n plain(3)])
  have "get_priority s' (isr s') = rank s' n"
    using taken_not_in_service(2) [OF req plain(1,2)]
    by (intro get_priority_eqI) (auto simp: bits rk less_imp_le)
  then show "get_priority s' (isr s') = rank s n" by (simp add: rk)
  show "isr s' AND NOT (BIT n) = isr s"
    using taken_not_in_service(1) [OF req plain(1,2)]
    by (intro bit_word_eqI) (auto simp: bits)
qed

lemma and_2_eq_0_iff: "v AND 2 = 0 \<longleftrightarrow> \<not> bit v 1" for v :: "'a::len word"
  using and_exp_eq_0_iff_not_bit [of v 1] by simp

lemma and_1_eq_0_iff: "v AND 1 = 0 \<longleftrightarrow> \<not> bit v 0" for v :: "'a::len word"
  using and_exp_eq_0_iff_not_bit [of v 0] by simp

lemma icw1_bits:
  "(ucast ((v::u32) AND 2) :: u8) = 0 \<longleftrightarrow> \<not> bit v 1"
  "(ucast (v AND 1) :: u8) = 0 \<longleftrightarrow> \<not> bit v 0"
  by (simp_all add: unsigned_and_eq and_2_eq_0_iff and_1_eq_0_iff bit_ucast_iff)

lemma init_reset_pic_of [simp]:
  "pic_of c (pic_init_reset c ps) = pic_reset_common (pic_of c ps)"
  by (cases c) (simp_all add: pic_init_reset_def)

lemma pic_of_put [simp]: "pic_of c (put_pic c p ps) = p"
  by (cases c) simp_all

fun pics_run :: "pic_event list \<Rightarrow> pics \<Rightarrow> pics" where
  "pics_run [] ps = ps"
| "pics_run (e # es) ps = pics_run es (pics_step e ps)"

fun no_silent_write :: "pic_event list \<Rightarrow> pics \<Rightarrow> bool" where
  "no_silent_write [] ps = True"
| "no_silent_write (e # es) ps = (\<not> silent_write e ps \<and> no_silent_write es (pics_step e ps))"

lemma pin_in_sync_run: "pin_in_sync ps \<Longrightarrow> no_silent_write es ps \<Longrightarrow> pin_in_sync (pics_run es ps)"
  by (induction es arbitrary: ps) (auto intro: pin_in_sync_step)

lemma pics_reach_run: "pics_reach ps \<Longrightarrow> pics_reach (pics_run es ps)"
  by (induction es arbitrary: ps) (auto intro: reach_step)

text \<open>The write sequence that initialises a chip, as the first word announces it.\<close>

definition icw_sequence :: "chip \<Rightarrow> u64 \<Rightarrow> u64 \<Rightarrow> u64 \<Rightarrow> u64 \<Rightarrow> pic_event list" where
  "icw_sequence c icw1 icw2 icw3 icw4 =
     [IoWrite c 0 icw1, IoWrite c 1 icw2] @
     (if bit icw1 1 then [] else [IoWrite c 1 icw3]) @
     (if bit icw1 0 then [IoWrite c 1 icw4] else [])"

lemma icw_sequence_result:
  assumes icw1: "bit icw1 4"
  shows "pic_of c (pics_run (icw_sequence c icw1 icw2 icw3 icw4) ps) =
    (pic_reset_common (pic_of c ps))
      \<lparr>init4 := ucast (icw1 AND 1), single_mode := ucast (icw1 AND 2),
       irq_base := ucast (icw2 AND 248),
       special_fully_nested_mode := (if bit icw1 0 then ucast (drop_bit 4 icw4 AND 1) else 0),
       auto_eoi := (if bit icw1 0 then ucast (drop_bit 1 icw4 AND 1) else 0)\<rparr>"
proof -
  have t: "tst (ucast icw1 :: u32) 16"
    using icw1 and_exp_eq_0_iff_not_bit [of "ucast icw1 :: u32" 4] by (simp add: bit_ucast_iff)
  have u: "(ucast (ucast w AND 1 :: u32) :: u8) = ucast (w AND 1)"
    "(ucast (ucast w AND 2 :: u32) :: u8) = ucast (w AND 2)"
    "(ucast (ucast w AND 248 :: u32) :: u8) = ucast (w AND 248)"
    "(ucast (drop_bit 4 (ucast w :: u32) AND 1) :: u8) = ucast (drop_bit 4 w AND 1)"
    "(ucast (drop_bit 1 (ucast w :: u32) AND 1) :: u8) = ucast (drop_bit 1 w AND 1)"
    for w :: u64
    by (rule bit_word_eqI; auto simp: bit_and_iff bit_ucast_iff bit_drop_bit_eq bit_1_iff)+
  have b: "(ucast (icw1 AND 2) :: u8) = 0 \<longleftrightarrow> \<not> bit icw1 1" "(ucast (icw1 AND 1) :: u8) = 0 \<longleftrightarrow> \<not> bit icw1 0"
    by (simp_all add: unsigned_and_eq and_2_eq_0_iff and_1_eq_0_iff bit_ucast_iff)
  show ?thesis
    using t
    by (simp add: icw_sequence_def pic_ioport_write_def Let_def modify_pic_def u
        u(5) [unfolded One_nat_def] b pic_reset_common_def)
qed

section \<open>Properties\<close>

text \<open>
  C37. Priority resolution. \<open>pic_get_irq\<close> returns input \<open>n\<close> exactly when \<open>n\<close> is requested and
  unmasked, is the most urgent of those in the rotated order, and is more urgent than every input in
  service that counts in the current mode; it returns nothing exactly when each unmasked request is
  held back by an input in service at least as urgent.
\<close>

theorem pic_get_irq_spec:
  "(case pic_get_irq s of
      Some n \<Rightarrow> n < 8 \<and> bit (irr s) n \<and> \<not> bit (imr s) n \<and>
        (\<forall>m. bit (irr s) m \<and> \<not> bit (imr s) m \<longrightarrow> rank s n \<le> rank s m) \<and>
        (\<forall>m. bit (in_service s) m \<longrightarrow> rank s n < rank s m)
    | None \<Rightarrow> \<forall>n. bit (irr s) n \<and> \<not> bit (imr s) n \<longrightarrow>
        (\<exists>m. bit (in_service s) m \<and> rank s m \<le> rank s n))"
proof (cases "pic_get_irq s")
  case (Some n)
  from Some pic_get_irq_less [OF Some] pic_get_irq_Some_iff [THEN iffD1, OF Some] show ?thesis
    by (simp add: bit_requested_iff)
next
  case None
  have "\<exists>m. bit (in_service s) m \<and> rank s m \<le> rank s n" if n: "bit (requested s) n" for n
  proof -
    from n have ne: "requested s \<noteq> 0" by auto
    with None have "get_priority s (in_service s) \<le> get_priority s (requested s)"
      by (auto simp: pic_get_irq_alt Let_def split: if_splits)
    also have "\<dots> \<le> rank s n" by (rule get_priority_spec(3) [OF ne n])
    finally have le: "get_priority s (in_service s) \<le> rank s n" .
    then have "in_service s \<noteq> 0" using rank_less [of s n] by (auto simp del: rank_less)
    with get_priority_input [of "in_service s" s] le show ?thesis by auto
  qed
  with None show ?thesis by (simp add: bit_requested_iff)
qed

theorem pic_get_irq_spec_witness:
  "pic_get_irq (mst (isa_set_irq 4 True i8259_init)) = Some 4 \<and>
   bit (irr (mst (isa_set_irq 4 True i8259_init))) 4 \<and>
   \<not> bit (imr (mst (isa_set_irq 4 True i8259_init))) 4"
proof -
  have "pic_get_irq (mst (isa_set_irq 4 True i8259_init)) = Some 4" by code_simp
  with pic_get_irq_spec [of "mst (isa_set_irq 4 True i8259_init)"] show ?thesis by simp
qed

text \<open>
  Every reachable state of the pair is well formed: the rotation is below 8, the initialisation
  state machine is in one of its four states, the vector base is a multiple of 8, no edge/level bit
  outside the chip's mask is set, and the two chips keep their roles.
\<close>

theorem pics_reachable_wf: "pics_reach ps \<Longrightarrow> pics_inv ps"
  by (rule pics_reach_inv)

theorem pics_reachable_wf_witness:
  "pics_inv (pics_run [IoWrite Master 0 17, IoWrite Master 1 8, SetIrq 9 True, ReadIrq] i8259_init)"
  by (rule pics_reachable_wf) (rule pics_reach_run [OF reach_init])

text \<open>
  C38. The interrupt pin. From a state in which the CPU's pin shows whether the master wants an
  interrupt, any run without a silent write (special mask mode toggled, fourth initialisation word)
  ends in such a state, whatever devices, guest and CPU do.
\<close>

theorem interrupt_pin_in_sync:
  "pin_in_sync ps \<Longrightarrow> no_silent_write es ps \<Longrightarrow>
     pin_level (pics_run es ps) = (pic_get_irq (mst (pics_run es ps)) \<noteq> None)"
  using pin_in_sync_run [of ps es] by (simp add: pin_in_sync_def pic_get_output_def)

lemma pin_in_sync_i8259_init: "pin_in_sync i8259_init"
  by (simp add: pin_in_sync_def pin_level_def i8259_init_def QOM_init_PIC_def pic_get_output_def
      pic_get_irq_def get_priority_def Let_def)

theorem interrupt_pin_in_sync_witness:
  "pin_in_sync i8259_init \<and> no_silent_write [SetIrq 5 True, ReadIrq] i8259_init \<and>
   pin_level (pics_run [SetIrq 5 True, ReadIrq] i8259_init) =
     (pic_get_irq (mst (pics_run [SetIrq 5 True, ReadIrq] i8259_init)) \<noteq> None)"
proof -
  have a: "no_silent_write [SetIrq 5 True, ReadIrq] i8259_init" by (simp add: silent_write_def)
  show ?thesis
    using interrupt_pin_in_sync [OF pin_in_sync_i8259_init a] pin_in_sync_i8259_init a by simp
qed

definition special_mask_scenario :: "pic_event list" where
  "special_mask_scenario =
     [SetIrq 0 True, ReadIrq, SetIrq 1 True, IoWrite Master 1 1, IoWrite Master 0 104]"

text \<open>
  Toggling the special mask mode does not update the pin, although the comment on
  \<open>pic_update_irq\<close> says it must be called every time the output may have changed: after IRQ 0 is in
  service, IRQ 1 requested and IRQ 0 masked, setting special mask mode makes the master want to
  deliver IRQ 1 while the pin stays low.
\<close>

theorem special_mask_pin_stale:
  "pic_get_irq (mst (pics_run special_mask_scenario i8259_init)) = Some 1 \<and>
   \<not> pin_level (pics_run special_mask_scenario i8259_init)"
  by code_simp

text \<open>
  C39. Acknowledge and end of interrupt. When the master takes input \<open>n\<close> (not the cascade) outside
  the special modes and without automatic end of interrupt, the vector is base plus \<open>n\<close>, the input
  is in service, an edge-triggered request is consumed, and the non-specific end of interrupt
  \<open>0x20\<close> restores the in-service register exactly.
\<close>

theorem acknowledge_eoi_roundtrip:
  assumes "pic_get_irq (mst ps) = Some n" and "n \<noteq> 2"
    and "special_mask (mst ps) = 0" "special_fully_nested_mode (mst ps) = 0" "auto_eoi (mst ps) = 0"
  shows "fst (pic_read_irq ps) = unat (irq_base (mst ps)) + n \<and>
    bit (isr (mst (snd (pic_read_irq ps)))) n \<and>
    bit (irr (mst (snd (pic_read_irq ps)))) n = bit (elcr (mst ps)) n \<and>
    isr (mst (pic_ioport_write Master 0 32 (snd (pic_read_irq ps)))) = isr (mst ps)"
proof -
  define s where "s = mst ps"
  have req: "pic_get_irq s = Some n" and plain: "special_mask s = 0"
    "special_fully_nested_mode s = 0" "auto_eoi s = 0" using assms by (simp_all add: s_def)
  have n: "n < 8" using req by (rule pic_get_irq_less)
  have ps1: "pic_read_irq ps = (unat (irq_base s) + n, pic_intack Master n ps)"
    using assms by (simp add: pic_read_irq_def s_def)
  have rr: "bit (irr s) n"
    using req by (simp add: pic_get_irq_Some_iff requested_def bit_and_iff)
  note eoi = nonspecific_eoi_after_ack [OF req plain]
  have add: "priority_add (pic_ack n s) = priority_add s" using plain by (simp add: pic_ack_def Let_def)
  have "isr (mst (pic_ioport_write Master 0 32 (pic_intack Master n ps))) =
      isr (pic_ack n s) AND NOT (BIT ((rank s n + unat (priority_add s)) AND 7))"
    using eoi(1) less_imp_neq [OF rank_less, of s n]
    by (simp add: pic_ioport_write_def pic_ocw2_def Let_def s_def [symmetric] add)
  also have "\<dots> = isr s" using eoi(2) rank_add [OF n, of s] by (simp add: nat_and_7)
  finally show ?thesis using n plain rr by (simp add: ps1 ack_isr ack_irr s_def [symmetric])
qed

theorem acknowledge_eoi_roundtrip_witness:
  "fst (pic_read_irq (isa_set_irq 4 True i8259_init)) = 4 \<and>
   isr (mst (pic_ioport_write Master 0 32 (snd (pic_read_irq (isa_set_irq 4 True i8259_init))))) = 0"
proof -
  let ?ps = "isa_set_irq 4 True i8259_init"
  have "pic_get_irq (mst ?ps) = Some 4" by code_simp
  moreover have "special_mask (mst ?ps) = 0" "special_fully_nested_mode (mst ?ps) = 0"
    "auto_eoi (mst ?ps) = 0" "irq_base (mst ?ps) = 0" "isr (mst ?ps) = 0"
    by (simp_all add: isa_set_irq_def pic_set_irq_def i8259_init_def QOM_init_PIC_def)
  ultimately show ?thesis using acknowledge_eoi_roundtrip [of ?ps 4] by simp
qed

text \<open>
  The cascade. When the master takes input 2 and the slave has input \<open>k\<close> to deliver, the CPU
  gets the slave's base plus \<open>k\<close>, and without automatic end of interrupt the slave has \<open>k\<close> and
  the master has 2 in service. When the slave has nothing to deliver, the CPU gets the slave's
  spurious vector and the slave is left as it was.
\<close>

theorem cascaded_acknowledge:
  assumes "pic_get_irq (mst ps) = Some 2" "auto_eoi (mst ps) = 0" "auto_eoi (slv ps) = 0"
  shows "(case pic_get_irq (slv ps) of
      Some k \<Rightarrow> fst (pic_read_irq ps) = unat (irq_base (slv ps)) + k \<and>
        isr (slv (snd (pic_read_irq ps))) = isr (slv ps) OR BIT k
    | None \<Rightarrow> fst (pic_read_irq ps) = unat (irq_base (slv ps)) + 7 \<and>
        slv (snd (pic_read_irq ps)) = slv ps) \<and>
    isr (mst (snd (pic_read_irq ps))) = isr (mst ps) OR BIT 2"
proof (cases "pic_get_irq (slv ps)")
  case None
  with assms show ?thesis by (simp add: pic_read_irq_def pic_ack_def Let_def)
next
  case (Some k)
  then have "mst (pic_intack Slave k ps) =
      pic_latch 2 (pic_get_output (pic_ack k (slv ps))) (mst ps)"
    by (simp add: pic_intack_def)
  with assms Some show ?thesis
    by (simp add: pic_read_irq_def Let_def) (simp add: pic_ack_def Let_def)
qed

theorem cascaded_acknowledge_witness:
  "isr (mst (snd (pic_read_irq (isa_set_irq 12 True i8259_init)))) = 4"
proof -
  let ?ps = "isa_set_irq 12 True i8259_init"
  have "pic_get_irq (mst ?ps) = Some 2" by code_simp
  moreover have "auto_eoi (mst ?ps) = 0" "auto_eoi (slv ?ps) = 0" "isr (mst ?ps) = 0"
    by (simp_all add: isa_set_irq_def pic_set_irq_def i8259_init_def QOM_init_PIC_def)
  ultimately show ?thesis using cascaded_acknowledge [of ?ps] by simp
qed

text \<open>
  Initialisation. From any state, the command words the first one announces (two, three or four
  of them) bring a chip back to normal operation with every mode cleared, the vector base of the
  second word and the modes of the fourth.
\<close>

theorem icw_sequence_initialises:
  assumes "bit icw1 4"
  shows "let s = pic_of c (pics_run (icw_sequence c icw1 icw2 icw3 icw4) ps) in
    init_state s = 0 \<and> irq_base s = ucast (icw2 AND 248) \<and> imr s = 0 \<and> isr s = 0 \<and>
    last_irr s = 0 \<and> priority_add s = 0 \<and> special_mask s = 0 \<and>
    auto_eoi s = (if bit icw1 0 then ucast (drop_bit 1 icw4 AND 1) else 0) \<and>
    elcr s = elcr (pic_of c ps)"
  by (simp add: icw_sequence_result [OF assms] pic_reset_common_def)

theorem icw_sequence_initialises_witness:
  "init_state (pic_of Master (pics_run (icw_sequence Master 17 8 4 1) i8259_init)) = 0 \<and>
   irq_base (pic_of Master (pics_run (icw_sequence Master 17 8 4 1) i8259_init)) = 8"
proof -
  have "bit (17::u64) 4" by simp
  from icw_sequence_initialises [OF this, of Master 8 4 1 i8259_init] show ?thesis
    by (simp add: Let_def)
qed

end
