(* ===== verification/Block_Alloc.thy ===== *)
theory Block_Alloc
  imports Bmbt_Prelude
begin

text \<open>
  The contract of an allocator of page blocks, as the page allocator of the bare-metal kernel uses
  the buddy system: the live allocations are a set of blocks (first page and length) that never
  overlap; an allocation adds one block, a release removes exactly the block that starts at the
  given page. An operation that does not return, or that faults, satisfies none of the laws.
\<close>

type_synonym block = "nat \<times> nat"

definition pages :: "block \<Rightarrow> nat set" where
  "pages blk = {fst blk ..< fst blk + snd blk}"

definition disjoint_blocks :: "block set \<Rightarrow> bool" where
  "disjoint_blocks B \<longleftrightarrow> (\<forall>x \<in> B. \<forall>y \<in> B. x \<noteq> y \<longrightarrow> pages x \<inter> pages y = {})"

lemma disjoint_blocksD: "disjoint_blocks B \<Longrightarrow> x \<in> B \<Longrightarrow> y \<in> B \<Longrightarrow> x \<noteq> y \<Longrightarrow> pages x \<inter> pages y = {}"
  by (simp add: disjoint_blocks_def)

locale block_alloc =
  fixes inv :: "'s \<Rightarrow> bool"
    and blocks :: "'s \<Rightarrow> block set"
    and valid :: "'r \<Rightarrow> bool"
    and fits :: "'r \<Rightarrow> nat \<Rightarrow> bool"
    and alloc :: "'s \<Rightarrow> 'r \<Rightarrow> (nat option \<times> 's) res option"
    and release :: "'s \<Rightarrow> nat \<Rightarrow> 's res option"
  assumes disjoint: "inv s \<Longrightarrow> disjoint_blocks (blocks s)"
    and positive: "inv s \<Longrightarrow> blk \<in> blocks s \<Longrightarrow> 0 < snd blk"
    and alloc_total: "inv s \<Longrightarrow> valid r \<Longrightarrow> \<exists>o' s'. alloc s r = Some (Inr (o', s'))"
    and alloc_some: "inv s \<Longrightarrow> valid r \<Longrightarrow> alloc s r = Some (Inr (Some off, s')) \<Longrightarrow> inv s' \<and>
      (\<exists>n. fits r n \<and> (off, n) \<notin> blocks s \<and> blocks s' = insert (off, n) (blocks s))"
    and alloc_none: "inv s \<Longrightarrow> valid r \<Longrightarrow> alloc s r = Some (Inr (None, s')) \<Longrightarrow> s' = s"
    and release_ok: "inv s \<Longrightarrow> (off, n) \<in> blocks s \<Longrightarrow>
      \<exists>s'. release s off = Some (Inr s') \<and> inv s' \<and> blocks s' = blocks s - {(off, n)}"
begin

lemma alloc_inv: "inv s \<Longrightarrow> valid r \<Longrightarrow> alloc s r = Some (Inr (o', s')) \<Longrightarrow> inv s'"
  by (cases o') (auto dest: alloc_none alloc_some)

text \<open>A new block overlaps no block that was live before.\<close>

lemma alloc_fresh:
  assumes "inv s" "valid r" "alloc s r = Some (Inr (Some off, s'))"
  shows "\<exists>n. fits r n \<and> (off, n) \<in> blocks s' \<and> (\<forall>blk \<in> blocks s. pages (off, n) \<inter> pages blk = {})"
proof -
  from alloc_some [OF assms] obtain n where n: "inv s'" "fits r n" "(off, n) \<notin> blocks s"
    "blocks s' = insert (off, n) (blocks s)" by auto
  have "pages (off, n) \<inter> pages blk = {}" if "blk \<in> blocks s" for blk
    using that n by (intro disjoint_blocksD [OF disjoint [OF n(1)]]) auto
  with n show ?thesis by (intro exI [of _ n]) auto
qed

lemma alloc_release:
  assumes "inv s" "valid r" "alloc s r = Some (Inr (Some off, s'))"
  shows "\<exists>s''. release s' off = Some (Inr s'') \<and> inv s'' \<and> blocks s'' = blocks s"
proof -
  from alloc_some [OF assms] obtain n where n: "inv s'" "(off, n) \<notin> blocks s"
    "blocks s' = insert (off, n) (blocks s)" by auto
  from release_ok [OF n(1), of off n] n show ?thesis by auto
qed

text \<open>The length of the block at a page is determined by the live allocations.\<close>

lemma block_unique:
  assumes "inv s" "(off, n) \<in> blocks s" "(off, m) \<in> blocks s"
  shows "n = m"
proof (rule ccontr)
  assume "n \<noteq> m"
  with assms have "pages (off, n) \<inter> pages (off, m) = {}"
    by (intro disjoint_blocksD [OF disjoint [OF assms(1)]]) auto
  moreover have "off \<in> pages (off, n) \<inter> pages (off, m)"
    using positive [OF assms(1,2)] positive [OF assms(1,3)] by (simp add: pages_def)
  ultimately show False by simp
qed

text \<open>Releasing two blocks in either order leaves the same allocations.\<close>

lemma release_commute:
  assumes "inv s" "(a, n) \<in> blocks s" "(b, m) \<in> blocks s" "a \<noteq> b"
  shows "\<exists>x y x' y'. release s a = Some (Inr x) \<and> release x b = Some (Inr x') \<and>
    release s b = Some (Inr y) \<and> release y a = Some (Inr y') \<and> inv x' \<and> inv y' \<and> blocks x' = blocks y'"
proof -
  obtain x where x: "release s a = Some (Inr x)" "inv x" "blocks x = blocks s - {(a, n)}"
    using release_ok [OF assms(1,2)] by auto
  obtain y where y: "release s b = Some (Inr y)" "inv y" "blocks y = blocks s - {(b, m)}"
    using release_ok [OF assms(1,3)] by auto
  obtain x' where "release x b = Some (Inr x')" "inv x'" "blocks x' = blocks x - {(b, m)}"
    using release_ok [OF x(2), of b m] x(3) assms by auto
  moreover obtain y' where "release y a = Some (Inr y')" "inv y'" "blocks y' = blocks y - {(a, n)}"
    using release_ok [OF y(2), of a n] y(3) assms by auto
  ultimately show ?thesis using x y by auto
qed

end

end
