(* ===== verification/Buddy.thy ===== *)
theory Buddy
  imports Block_Alloc
begin

text \<open>
  The buddy page allocator of \<open>env/loongarch/syscall/buddy.c\<close>, which serves the small anonymous
  mappings of the bare-metal kernel. The tree of blocks is an array of node states in heap order
  (children of \<open>i\<close> at \<open>2 * i + 1\<close> and \<open>2 * i + 2\<close>); every read and write of it is checked against
  the array's length, so that a successful run is one with no access out of bounds. The search loop
  is translated with fuel; that the fuel \<open>buddy_alloc\<close> passes is enough is part of the
  correctness theorem.
\<close>

section \<open>State and operations\<close>

datatype node = NODE_UNUSED | NODE_USED | NODE_SPLIT | NODE_FULL

record buddy =
  level :: nat
  base :: u64
  tree :: "node list"

definition PAGE_SIZE :: nat where
  "PAGE_SIZE = 2 ^ 14"

text \<open>Pages taken by the descriptor: \<open>sizeof(struct buddy)\<close> is 24, the tree adds \<open>2 * size - 2\<close>.\<close>

definition buddy_size_page :: "nat \<Rightarrow> nat" where
  "buddy_size_page lvl = (24 + (2 ^ lvl * 2 - 2) + PAGE_SIZE - 1) div PAGE_SIZE"

text \<open>\<open>self\<close> is the address that \<open>alloc_pages(buddy_size_page + size)\<close> returned.\<close>

definition buddy_new :: "nat \<Rightarrow> u64 \<Rightarrow> buddy" where
  "buddy_new lvl self =
     \<lparr>level = lvl, base = self + of_nat (PAGE_SIZE * buddy_size_page lvl),
      tree = replicate (2 ^ lvl * 2 - 1) NODE_UNUSED\<rparr>"

definition is_pow_of_2 :: "u32 \<Rightarrow> bool" where
  "is_pow_of_2 x \<longleftrightarrow> x AND (x - 1) = 0"

definition next_pow_of_2 :: "u32 \<Rightarrow> u32" where
  "next_pow_of_2 x =
     (if is_pow_of_2 x then x
      else let x = x OR drop_bit 1 x;
               x = x OR drop_bit 2 x;
               x = x OR drop_bit 4 x;
               x = x OR drop_bit 8 x;
               x = x OR drop_bit 16 x
           in x + 1)"

definition index_offset :: "nat \<Rightarrow> nat \<Rightarrow> nat \<Rightarrow> nat" where
  "index_offset index lvl max_level = push_bit (max_level - lvl) ((index + 1) - 2 ^ lvl)"

text \<open>The sibling of a node; \<open>-1\<close> for the root.\<close>

definition buddy_of :: "nat \<Rightarrow> int" where
  "buddy_of index = int index - 1 + int (index AND 1) * 2"

definition parent_of :: "nat \<Rightarrow> nat" where
  "parent_of index = (index + 1) div 2 - 1"

lemma and_1_parity: "(index::nat) AND 1 = index mod 2"
  using take_bit_eq_mask [of 1 index] by (simp add: take_bit_eq_mod)

lemma parent_of_less: "0 < i \<Longrightarrow> parent_of i < i"
  by (simp add: parent_of_def)

function mark_parent :: "node list \<Rightarrow> nat \<Rightarrow> node list res" where
  "mark_parent t index =
     (let b = buddy_of index in
      if b > 0 then
        (case arr_get t (nat b) of
           Inl e \<Rightarrow> Inl e
         | Inr nb \<Rightarrow>
             if nb = NODE_USED \<or> nb = NODE_FULL then
               (case arr_set t (parent_of index) NODE_FULL of
                  Inl e \<Rightarrow> Inl e
                | Inr t' \<Rightarrow> mark_parent t' (parent_of index))
             else Inr t)
      else Inr t)"
  by pat_completeness auto
termination
proof (relation "measure snd")
  fix t t' :: "node list" and index :: nat and b nb
  assume "b = buddy_of index" "0 < b"
  then have "0 < index" by (cases index) (simp_all add: buddy_of_def)
  then show "((t', parent_of index), (t, index)) \<in> measure snd" by (simp add: parent_of_less)
qed simp

function climb :: "nat \<Rightarrow> nat \<Rightarrow> nat \<Rightarrow> (nat \<times> nat \<times> nat) option" where
  "climb index lvl len =
     (if index = 0 then None
      else if odd (parent_of index) then Some (parent_of index + 1, lvl - 1, len * 2)
      else climb (parent_of index) (lvl - 1) (len * 2))"
  by pat_completeness auto
termination
  by (relation "measure (\<lambda>(i, l, n). i)") (simp_all add: parent_of_less)

definition advance :: "nat \<Rightarrow> nat \<Rightarrow> nat \<Rightarrow> (nat \<times> nat \<times> nat) option" where
  "advance index lvl len =
     (if odd index then Some (index + 1, lvl, len) else climb index lvl len)"

declare mark_parent.simps [simp del] climb.simps [simp del]

text \<open>
  One iteration of the search loop of \<open>buddy_alloc\<close>: \<open>Inl\<close> a return of the function (the C
  value \<open>-1\<close> is the offset \<open>None\<close>), \<open>Inr\<close> the variables of the next iteration.
\<close>

type_synonym alloc_state = "node list \<times> nat \<times> nat \<times> nat"

definition alloc_skip :: "alloc_state \<Rightarrow> (nat option \<times> node list) res + alloc_state" where
  "alloc_skip st =
     (case st of (t, index, lvl, len) \<Rightarrow>
        (case advance index lvl len of
           None \<Rightarrow> Inl (Inr (None, t))
         | Some (i, l, n) \<Rightarrow> Inr (t, i, l, n)))"

definition alloc_iter ::
  "nat \<Rightarrow> int \<Rightarrow> alloc_state \<Rightarrow> (nat option \<times> node list) res + alloc_state" where
  "alloc_iter max_level sz st =
     (case st of (t, index, lvl, len) \<Rightarrow>
        (case arr_get t index of
           Inl e \<Rightarrow> Inl (Inl e)
         | Inr nd \<Rightarrow>
             if sz = int len then
               (if nd = NODE_UNUSED then
                  Inl (res_bind (arr_set t index NODE_USED) (\<lambda>t.
                       res_bind (mark_parent t index) (\<lambda>t.
                       Inr (Some (index_offset index lvl max_level), t))))
                else alloc_skip st)
             else
               (case nd of
                  NODE_USED \<Rightarrow> alloc_skip st
                | NODE_FULL \<Rightarrow> alloc_skip st
                | NODE_UNUSED \<Rightarrow>
                    (case res_bind (arr_set t index NODE_SPLIT) (\<lambda>t.
                          res_bind (arr_set t (index * 2 + 1) NODE_UNUSED) (\<lambda>t.
                          arr_set t (index * 2 + 2) NODE_UNUSED)) of
                       Inl e \<Rightarrow> Inl (Inl e)
                     | Inr t \<Rightarrow> Inr (t, index * 2 + 1, lvl + 1, len div 2))
                | NODE_SPLIT \<Rightarrow> Inr (t, index * 2 + 1, lvl + 1, len div 2))))"

text \<open>The loop itself; \<open>None\<close> is out of fuel.\<close>

primrec buddy_alloc_loop ::
  "nat \<Rightarrow> nat \<Rightarrow> int \<Rightarrow> alloc_state \<Rightarrow> (nat option \<times> node list) res option" where
  "buddy_alloc_loop 0 max_level sz st = None"
| "buddy_alloc_loop (Suc fuel) max_level sz st =
     (case alloc_iter max_level sz st of
        Inl r \<Rightarrow> Some r
      | Inr st' \<Rightarrow> buddy_alloc_loop fuel max_level sz st')"

text \<open>The fuel bounds the visits of the search: see \<open>search_correct\<close>.\<close>

definition buddy_alloc :: "buddy \<Rightarrow> u32 \<Rightarrow> (nat option \<times> buddy) res option" where
  "buddy_alloc b s =
     (let sz = (if s = 0 then 1 else sint (next_pow_of_2 s));
          len = 2 ^ level b
      in if sz > int len then Some (Inr (None, b))
         else map_option (\<lambda>r. res_bind r (\<lambda>(off, t). Inr (off, b\<lparr>tree := t\<rparr>)))
                (buddy_alloc_loop ((level b + 1) * len) (level b) sz (tree b, 0, 0, len)))"

function unfull :: "node list \<Rightarrow> nat \<Rightarrow> node list res" where
  "unfull t index =
     (if index = 0 then Inr t
      else case arr_get t (parent_of index) of
             Inl e \<Rightarrow> Inl e
           | Inr nd \<Rightarrow>
               if nd = NODE_FULL then
                 (case arr_set t (parent_of index) NODE_SPLIT of
                    Inl e \<Rightarrow> Inl e
                  | Inr t' \<Rightarrow> unfull t' (parent_of index))
               else Inr t)"
  by pat_completeness auto
termination
  by (relation "measure snd") (simp_all add: parent_of_less)

function combine :: "node list \<Rightarrow> nat \<Rightarrow> node list res" where
  "combine t index =
     (let b = buddy_of index in
      if b < 0 then res_bind (arr_set t index NODE_UNUSED) (\<lambda>t. unfull t index)
      else case arr_get t (nat b) of
             Inl e \<Rightarrow> Inl e
           | Inr nb \<Rightarrow>
               if nb \<noteq> NODE_UNUSED then res_bind (arr_set t index NODE_UNUSED) (\<lambda>t. unfull t index)
               else combine t (parent_of index))"
  by pat_completeness auto
termination
proof (relation "measure snd")
  fix t :: "node list" and index :: nat and b nb
  assume "b = buddy_of index" "\<not> b < 0"
  then have "0 < index" by (cases index) (simp_all add: buddy_of_def)
  then show "((t, parent_of index), (t, index)) \<in> measure snd" by (simp add: parent_of_less)
qed simp

declare unfull.simps [simp del] combine.simps [simp del]

text \<open>The descent of \<open>buddy_free\<close> and \<open>buddy_size\<close>: the index and length of the block at \<open>offset\<close>.\<close>

fun buddy_find :: "nat \<Rightarrow> node list \<Rightarrow> nat \<Rightarrow> nat \<Rightarrow> nat \<Rightarrow> nat \<Rightarrow> (nat \<times> nat) res option" where
  "buddy_find 0 t offset left len index = None"
| "buddy_find (Suc fuel) t offset left len index =
     (case arr_get t index of
        Inl e \<Rightarrow> Some (Inl e)
      | Inr nd \<Rightarrow>
          (case nd of
             NODE_USED \<Rightarrow> if offset = left then Some (Inr (index, len)) else Some (Inl AssertFail)
           | NODE_UNUSED \<Rightarrow> Some (Inl AssertFail)
           | _ \<Rightarrow>
               if offset < left + len div 2
               then buddy_find fuel t offset left (len div 2) (index * 2 + 1)
               else buddy_find fuel t offset (left + len div 2) (len div 2) (index * 2 + 2)))"

text \<open>The descent visits one node per level.\<close>

definition buddy_free :: "buddy \<Rightarrow> nat \<Rightarrow> buddy res option" where
  "buddy_free b offset =
     (if offset \<ge> 2 ^ level b then Some (Inl AssertFail)
      else map_option (\<lambda>r. res_bind r (\<lambda>(index, _).
             res_bind (combine (tree b) index) (\<lambda>t. Inr (b\<lparr>tree := t\<rparr>))))
             (buddy_find (level b + 1) (tree b) offset 0 (2 ^ level b) 0))"

definition buddy_size :: "buddy \<Rightarrow> nat \<Rightarrow> nat res option" where
  "buddy_size b offset =
     (if offset \<ge> 2 ^ level b then Some (Inl AssertFail)
      else map_option (\<lambda>r. res_bind r (\<lambda>(_, len). Inr len))
             (buddy_find (level b + 1) (tree b) offset 0 (2 ^ level b) 0))"

section \<open>Nodes by level and position\<close>

text \<open>
  Node \<open>p\<close> of level \<open>l\<close> is stored at \<open>idx l p\<close> and stands for the block of \<open>2 ^ (L - l)\<close> pages
  that starts at page \<open>p * 2 ^ (L - l)\<close>.
\<close>

definition idx :: "nat \<Rightarrow> nat \<Rightarrow> nat" where
  "idx l p = 2 ^ l - 1 + p"

definition nd :: "node list \<Rightarrow> nat \<Rightarrow> nat \<Rightarrow> node" where
  "nd t l p = t ! idx l p"

definition sib :: "nat \<Rightarrow> nat" where
  "sib p = (if even p then p + 1 else p - 1)"

lemma pow2_pos: "Suc 0 \<le> 2 ^ l"
  by simp

lemma idx_Suc: "idx l p + 1 = 2 ^ l + p"
  using pow2_pos [of l] by (simp add: idx_def)

lemma idx_0 [simp]: "idx 0 0 = 0"
  by (simp add: idx_def)

lemma idx_children [simp]: "idx l p * 2 + 1 = idx (Suc l) (2 * p)" "idx l p * 2 + 2 = idx (Suc l) (Suc (2 * p))"
  using idx_Suc [of l p] idx_Suc [of "Suc l" "2 * p"] idx_Suc [of "Suc l" "Suc (2 * p)"] by simp_all

lemma parent_of_idx [simp]: "parent_of (idx (Suc l) p) = idx l (p div 2)"
  using idx_Suc [of "Suc l" p] idx_Suc [of l "p div 2"] by (simp add: parent_of_def)

lemma odd_idx [simp]: "odd (idx (Suc l) p) = even p"
proof -
  have "even (idx (Suc l) p + 1) = even p" by (simp only: idx_Suc) simp
  then show ?thesis by simp
qed

lemma idx_pos [simp]: "0 < idx (Suc l) p"
  using idx_Suc [of "Suc l" p] pow2_pos [of l] by (simp, linarith)

lemma idx_inj:
  assumes "p < 2 ^ l" "q < 2 ^ m"
  shows "idx l p = idx m q \<longleftrightarrow> l = m \<and> p = q"
proof -
  have "l = m" if eq: "2 ^ l + p = 2 ^ m + q"
  proof (rule ccontr)
    assume "l \<noteq> m"
    then consider "Suc l \<le> m" | "Suc m \<le> l" by linarith
    then show False
    proof cases
      case 1
      then have "(2::nat) ^ Suc l \<le> 2 ^ m" by (rule power_increasing) simp
      with eq assms show False by simp
    next
      case 2
      then have "(2::nat) ^ Suc m \<le> 2 ^ l" by (rule power_increasing) simp
      with eq assms show False by simp
    qed
  qed
  then show ?thesis using idx_Suc [of l p] idx_Suc [of m q]
    by (metis add_left_cancel add_right_cancel)
qed

lemma idx_bound: "p < 2 ^ l \<Longrightarrow> l \<le> L \<Longrightarrow> idx l p < 2 ^ Suc L - 1"
proof -
  assume p: "p < 2 ^ l" and l: "l \<le> L"
  have "(2::nat) ^ Suc l \<le> 2 ^ Suc L" using l by (intro power_increasing) simp_all
  moreover have "idx l p + 1 < 2 ^ Suc l" using p idx_Suc [of l p] by simp
  ultimately show ?thesis by linarith
qed

lemma sib_less: "p < 2 ^ Suc l \<Longrightarrow> sib p < 2 ^ Suc l"
proof -
  assume p: "p < 2 ^ Suc l"
  have "even ((2::nat) ^ Suc l)" by simp
  with p show ?thesis by (auto simp: sib_def elim!: evenE)
qed

lemma sib_div [simp]: "sib p div 2 = p div 2"
  by (auto simp: sib_def elim!: oddE evenE)

lemma sib_neq [simp]: "sib p \<noteq> p"
  by (auto simp: sib_def elim!: oddE)

lemma children_sib: "{2 * (p div 2), 2 * (p div 2) + 1} = {p, sib p}"
  by (auto simp: sib_def elim!: oddE evenE)

lemma buddy_of_0 [simp]: "buddy_of 0 = -1"
  by (simp add: buddy_of_def)

lemma buddy_of_idx: "buddy_of (idx (Suc l) p) = int (idx (Suc l) (sib p))"
proof -
  have step: "idx (Suc l) (Suc q) = Suc (idx (Suc l) q)" for q by (simp add: idx_def)
  show ?thesis
  proof (cases "even p")
    case True
    then have "idx (Suc l) p mod 2 = 1" using odd_idx [of l p] by presburger
    with True step [of p] show ?thesis by (simp add: buddy_of_def and_1_parity sib_def)
  next
    case False
    then have "idx (Suc l) p mod 2 = 0" "0 < p" using odd_idx [of l p] by presburger+
    with False step [of "p - 1"] show ?thesis by (simp add: buddy_of_def and_1_parity sib_def)
  qed
qed

lemma index_offset_idx: "index_offset (idx l p) l L = p * 2 ^ (L - l)"
  using idx_Suc [of l p] by (simp add: index_offset_def push_bit_eq_mult)

lemma nd_update:
  "p < 2 ^ l \<Longrightarrow> q < 2 ^ m \<Longrightarrow> idx l p < length t \<Longrightarrow>
     nd (t[idx l p := v]) m q = (if m = l \<and> q = p then v else nd t m q)"
  by (auto simp: nd_def nth_list_update idx_inj)

section \<open>Live nodes and the invariant\<close>

abbreviation opened :: "node \<Rightarrow> bool" where
  "opened v \<equiv> v = NODE_SPLIT \<or> v = NODE_FULL"

abbreviation full :: "node \<Rightarrow> bool" where
  "full v \<equiv> v = NODE_USED \<or> v = NODE_FULL"

text \<open>A node counts only while all its ancestors are split; the others are left over.\<close>

primrec live :: "node list \<Rightarrow> nat \<Rightarrow> nat \<Rightarrow> bool" where
  "live t 0 p = True"
| "live t (Suc l) p = (live t l (p div 2) \<and> opened (nd t l (p div 2)))"

definition node_ok :: "nat \<Rightarrow> node list \<Rightarrow> nat \<Rightarrow> nat \<Rightarrow> bool" where
  "node_ok L t l p =
     (case nd t l p of
        NODE_SPLIT \<Rightarrow> l < L \<and>
          \<not> (full (nd t (Suc l) (2 * p)) \<and> full (nd t (Suc l) (Suc (2 * p)))) \<and>
          \<not> (nd t (Suc l) (2 * p) = NODE_UNUSED \<and> nd t (Suc l) (Suc (2 * p)) = NODE_UNUSED)
      | NODE_FULL \<Rightarrow> l < L \<and> full (nd t (Suc l) (2 * p)) \<and> full (nd t (Suc l) (Suc (2 * p)))
      | _ \<Rightarrow> True)"

definition tree_len :: "nat \<Rightarrow> node list \<Rightarrow> bool" where
  "tree_len L t \<longleftrightarrow> length t = 2 ^ Suc L - 1"

definition ok_except :: "nat \<Rightarrow> node list \<Rightarrow> (nat \<times> nat) set \<Rightarrow> bool" where
  "ok_except L t X \<longleftrightarrow> tree_len L t \<and>
     (\<forall>l p. l \<le> L \<longrightarrow> p < 2 ^ l \<longrightarrow> live t l p \<longrightarrow> (l, p) \<notin> X \<longrightarrow> node_ok L t l p)"

abbreviation tree_inv :: "nat \<Rightarrow> node list \<Rightarrow> bool" where
  "tree_inv L t \<equiv> ok_except L t {}"

text \<open>The allocated nodes and the blocks of pages they stand for.\<close>

definition used :: "nat \<Rightarrow> node list \<Rightarrow> (nat \<times> nat) set" where
  "used L t = {(l, p). l \<le> L \<and> p < 2 ^ l \<and> live t l p \<and> nd t l p = NODE_USED}"

definition page_block :: "nat \<Rightarrow> nat \<times> nat \<Rightarrow> block" where
  "page_block L x = (snd x * 2 ^ (L - fst x), 2 ^ (L - fst x))"

lemma half_less: "(p::nat) < 2 ^ Suc l \<Longrightarrow> p div 2 < 2 ^ l"
  by (simp add: less_mult_imp_div_less)

lemma tree_len_idx: "tree_len L t \<Longrightarrow> p < 2 ^ l \<Longrightarrow> l \<le> L \<Longrightarrow> idx l p < length t"
  unfolding tree_len_def by (simp only: idx_bound)

lemma tree_len_update [simp]: "tree_len L (t[i := v]) = tree_len L t"
  by (simp add: tree_len_def)

lemma ok_exceptD: "ok_except L t X \<Longrightarrow> l \<le> L \<Longrightarrow> p < 2 ^ l \<Longrightarrow> live t l p \<Longrightarrow> (l, p) \<notin> X \<Longrightarrow>
    node_ok L t l p"
  by (simp add: ok_except_def)

lemma ok_except_len: "ok_except L t X \<Longrightarrow> tree_len L t"
  by (simp add: ok_except_def)

text \<open>The live nodes depend only on which nodes are split.\<close>

lemma live_cong:
  assumes "\<And>m q. m < l \<Longrightarrow> q < 2 ^ m \<Longrightarrow> opened (nd t m q) = opened (nd t' m q)" and "p < 2 ^ l"
  shows "live t l p = live t' l p"
  using assms by (induction l arbitrary: p) (auto simp: half_less less_Suc_eq)

lemma div_pow2_less: "l \<le> m \<Longrightarrow> q < 2 ^ m \<Longrightarrow> q div 2 ^ (m - l) < (2::nat) ^ l"
  by (simp add: div_less_iff_less_mult flip: power_add)

lemma live_ancestor:
  "live t m q \<Longrightarrow> l < m \<Longrightarrow> live t l (q div 2 ^ (m - l)) \<and> opened (nd t l (q div 2 ^ (m - l)))"
proof (induction m arbitrary: q)
  case (Suc m)
  show ?case
  proof (cases "l = m")
    case False
    with Suc.prems have "l < m" "live t m (q div 2)" by auto
    from Suc.IH [OF this(2,1)] have "live t l (q div 2 div 2 ^ (m - l)) \<and>
        opened (nd t l (q div 2 div 2 ^ (m - l)))" .
    moreover have "q div 2 div 2 ^ (m - l) = q div 2 ^ (Suc m - l)"
      using \<open>l < m\<close> by (simp add: Suc_diff_le div_mult2_eq)
    ultimately show ?thesis by simp
  qed (use Suc.prems in simp)
qed simp

text \<open>Below a full node every live node is full.\<close>

lemma full_below:
  assumes "tree_inv L t" and "m \<le> L" "q < 2 ^ m" "live t m q" and "l \<le> m"
    and "full (nd t l (q div 2 ^ (m - l)))"
  shows "full (nd t m q)"
  using assms(2-6)
proof (induction m arbitrary: q)
  case (Suc m)
  show ?case
  proof (cases "l = Suc m")
    case False
    with Suc.prems have "l \<le> m" by simp
    moreover have "q div 2 div 2 ^ (m - l) = q div 2 ^ (Suc m - l)"
      using \<open>l \<le> m\<close> by (simp add: Suc_diff_le div_mult2_eq)
    ultimately have "full (nd t m (q div 2))"
      using Suc.IH [of "q div 2"] Suc.prems half_less by auto
    with Suc.prems have f: "nd t m (q div 2) = NODE_FULL" by auto
    have "node_ok L t m (q div 2)"
      using Suc.prems half_less by (intro ok_exceptD [OF assms(1)]) auto
    with f have "full (nd t (Suc m) (2 * (q div 2)))" "full (nd t (Suc m) (Suc (2 * (q div 2))))"
      by (auto simp: node_ok_def)
    then show ?thesis by (cases "even q") (auto elim!: evenE oddE)
  qed (use Suc.prems in simp)
qed simp

section \<open>Marking full ancestors\<close>

text \<open>Only the state of split ancestors may change, and only as stated.\<close>

definition refined :: "(node \<Rightarrow> node \<Rightarrow> bool) \<Rightarrow> nat \<Rightarrow> node list \<Rightarrow> node list \<Rightarrow> bool" where
  "refined R L t t' \<longleftrightarrow> (\<forall>m q. m \<le> L \<longrightarrow> q < 2 ^ m \<longrightarrow>
     nd t' m q = nd t m q \<or> opened (nd t m q) \<and> R (nd t m q) (nd t' m q) \<and> opened (nd t' m q))"

lemma refined_refl [simp]: "refined R L t t"
  by (simp add: refined_def)

lemma refined_trans: "refined R L t t' \<Longrightarrow> refined R L t' t'' \<Longrightarrow> transp R \<Longrightarrow> refined R L t t''"
  unfolding refined_def by (metis transpD)

lemma refined_live:
  assumes "refined R L t t'" and "l \<le> Suc L" "p < 2 ^ l"
  shows "live t' l p = live t l p"
  using assms unfolding refined_def
  by (intro live_cong) (metis less_Suc_eq_le order.strict_trans2)+

lemma refined_used: "refined R L t t' \<Longrightarrow> used L t' = used L t"
  unfolding used_def using refined_live [of R L t t']
  by (auto simp: refined_def) (metis node.distinct)+

lemma node_ok_cong:
  "nd t' l p = nd t l p \<Longrightarrow> nd t' (Suc l) (2 * p) = nd t (Suc l) (2 * p) \<Longrightarrow>
     nd t' (Suc l) (Suc (2 * p)) = nd t (Suc l) (Suc (2 * p)) \<Longrightarrow> node_ok L t' l p = node_ok L t l p"
  by (cases "nd t l p") (simp_all add: node_ok_def)

text \<open>The two children of the parent of \<open>(Suc l, p)\<close> are \<open>p\<close> and its sibling.\<close>

lemma node_ok_parent:
  "node_ok L t l (p div 2) =
     (case nd t l (p div 2) of
        NODE_SPLIT \<Rightarrow> l < L \<and> \<not> (full (nd t (Suc l) p) \<and> full (nd t (Suc l) (sib p))) \<and>
          \<not> (nd t (Suc l) p = NODE_UNUSED \<and> nd t (Suc l) (sib p) = NODE_UNUSED)
      | NODE_FULL \<Rightarrow> l < L \<and> full (nd t (Suc l) p) \<and> full (nd t (Suc l) (sib p))
      | _ \<Rightarrow> True)"
proof (cases "even p")
  case True
  then have "2 * (p div 2) = p" "Suc (2 * (p div 2)) = sib p" by (auto simp: sib_def)
  then show ?thesis by (simp add: node_ok_def cong: node.case_cong)
next
  case False
  then have "2 * (p div 2) = sib p" "Suc (2 * (p div 2)) = p" by (auto simp: sib_def elim!: oddE)
  then show ?thesis by (auto simp: node_ok_def split: node.splits)
qed

text \<open>Writing one node leaves the conditions on all nodes but itself and its parent.\<close>

lemma update_other:
  assumes "tree_len L t" and "l \<le> L" "p < 2 ^ l" and "m \<le> L" "q < 2 ^ m" and "(m, q) \<noteq> (l, p)"
    and "\<And>k. l = Suc k \<Longrightarrow> (m, q) \<noteq> (k, p div 2)"
  shows "node_ok L (t[idx l p := v]) m q = node_ok L t m q"
proof (cases "m < L")
  case False
  have "node_ok L t' m q = (\<not> opened (nd t' m q))" for t'
    using False by (cases "nd t' m q") (simp_all add: node_ok_def)
  with assms(6) nd_update [OF assms(3,5) tree_len_idx [OF assms(1,3,2)], of v] show ?thesis by auto
next
  case True
  have b: "2 * q < 2 ^ Suc m" "Suc (2 * q) < 2 ^ Suc m" using assms(5) by auto
  note u = nd_update [OF assms(3) _ tree_len_idx [OF assms(1,3,2)], of _ _ v]
  have "(Suc m, 2 * q) \<noteq> (l, p)" "(Suc m, Suc (2 * q)) \<noteq> (l, p)"
    using assms(7) by auto
  with assms(6) show ?thesis
    by (intro node_ok_cong) (auto simp: u [OF assms(5)] u [OF b(1)] u [OF b(2)])
qed

lemma mark_parent_ok:
  assumes "l \<le> L" "p < 2 ^ l" "live t l p" "full (nd t l p)"
    and "\<And>k. l = Suc k \<Longrightarrow> nd t k (p div 2) = NODE_SPLIT"
    and "ok_except L t (case l of 0 \<Rightarrow> {} | Suc k \<Rightarrow> {(k, p div 2)})"
  shows "\<exists>t'. mark_parent t (idx l p) = Inr t' \<and> tree_inv L t' \<and>
    refined (\<lambda>a b. a = NODE_SPLIT \<and> b = NODE_FULL \<or> a = b) L t t'"
  using assms
proof (induction l arbitrary: p t)
  case 0
  then show ?case by (simp add: mark_parent.simps [of t])
next
  case (Suc k)
  note len = ok_except_len [OF Suc.prems(6)]
  have k: "k < L" using Suc.prems(1) by simp
  have h: "p div 2 < 2 ^ k" using Suc.prems(2) by (rule half_less)
  have s: "sib p < 2 ^ Suc k" using Suc.prems(2) by (rule sib_less)
  have par: "live t k (p div 2)" "nd t k (p div 2) = NODE_SPLIT" using Suc.prems(3,5) by auto
  have get: "arr_get t (idx (Suc k) (sib p)) = Inr (nd t (Suc k) (sib p))"
    using tree_len_idx [OF len s Suc.prems(1)] by (simp add: nd_def)
  have b: "buddy_of (idx (Suc k) p) = int (idx (Suc k) (sib p))" "0 < int (idx (Suc k) (sib p))"
    by (simp_all add: buddy_of_idx)
  show ?case
  proof (cases "full (nd t (Suc k) (sib p))")
    case False
    have "mark_parent t (idx (Suc k) p) = Inr t"
      using False get b by (subst mark_parent.simps) (auto simp: Let_def)
    moreover have "node_ok L t k (p div 2)"
      using par(2) False Suc.prems(4) k by (auto simp: node_ok_parent)
    then have "tree_inv L t" using Suc.prems(6) by (auto simp: ok_except_def)
    ultimately show ?thesis by auto
  next
    case True
    define t1 where "t1 = t[idx k (p div 2) := NODE_FULL]"
    have ik: "idx k (p div 2) < length t" using len h k by (simp add: tree_len_idx)
    note u = nd_update [OF h _ ik, of _ _ NODE_FULL, folded t1_def]
    have eq: "mark_parent t (idx (Suc k) p) = mark_parent t1 (idx k (p div 2))"
      using True get b ik by (subst mark_parent.simps) (auto simp: Let_def t1_def)
    have r1: "refined (\<lambda>a b. a = NODE_SPLIT \<and> b = NODE_FULL \<or> a = b) L t t1"
      using par(2) u by (auto simp: refined_def)
    have lv: "live t1 m q = live t m q" if "m \<le> L" "q < 2 ^ m" for m q
      using refined_live [OF r1] that by simp
    have up: "nd t1 j (p div 2 div 2) = NODE_SPLIT" if j: "k = Suc j" for j
    proof -
      have jj: "p div 2 div 2 < 2 ^ j" using h j half_less by simp
      have "node_ok L t j (p div 2 div 2)"
        using par(1) j k jj by (intro ok_exceptD [OF Suc.prems(6)]) auto
      with par(2) j have "nd t j (p div 2 div 2) \<noteq> NODE_FULL" by (auto simp: node_ok_parent)
      with par(1) j have "nd t j (p div 2 div 2) = NODE_SPLIT" by auto
      with u [OF jj] j show ?thesis by simp
    qed
    have okp: "node_ok L t1 k (p div 2)"
      using True Suc.prems(4) k u [OF h] u [OF Suc.prems(2)] u [OF s]
      by (simp add: node_ok_parent)
    have "ok_except L t1 (case k of 0 \<Rightarrow> {} | Suc j \<Rightarrow> {(j, p div 2 div 2)})"
      unfolding ok_except_def
    proof (intro conjI allI impI)
      show "tree_len L t1" using len by (simp add: t1_def)
      fix m q assume m: "m \<le> L" "q < 2 ^ m" "live t1 m q"
        and nx: "(m, q) \<notin> (case k of 0 \<Rightarrow> {} | Suc j \<Rightarrow> {(j, p div 2 div 2)})"
      show "node_ok L t1 m q"
      proof (cases "(m, q) = (k, p div 2)")
        case False
        have "node_ok L t m q" using m lv False by (intro ok_exceptD [OF Suc.prems(6)]) auto
        then show ?thesis unfolding t1_def
          using update_other [OF len _ h m(1,2) False] k nx by (auto split: nat.splits)
      qed (use okp in simp)
    qed
    with Suc.IH [of "p div 2" t1] up h k par(1) lv u [OF h] obtain t'
      where t': "mark_parent t1 (idx k (p div 2)) = Inr t'" "tree_inv L t'"
        "refined (\<lambda>a b. a = NODE_SPLIT \<and> b = NODE_FULL \<or> a = b) L t1 t'" by auto
    moreover have "refined (\<lambda>a b. a = NODE_SPLIT \<and> b = NODE_FULL \<or> a = b) L t t'"
      by (rule refined_trans [OF r1 t'(3)]) (auto intro!: transpI)
    ultimately show ?thesis using eq by auto
  qed
qed

section \<open>Freeing a node\<close>

abbreviation upgrade :: "node \<Rightarrow> node \<Rightarrow> bool" where
  "upgrade a b \<equiv> a = NODE_FULL \<and> b = NODE_SPLIT \<or> a = b"

lemma unfull_ok:
  assumes "l \<le> L" "p < 2 ^ l" "live t l p" "\<not> full (nd t l p)"
    and "\<And>k. l = Suc k \<Longrightarrow> nd t k (p div 2) = NODE_FULL \<and> full (nd t (Suc k) (sib p)) \<or>
           nd t k (p div 2) = NODE_SPLIT \<and> node_ok L t k (p div 2)"
    and "ok_except L t (case l of 0 \<Rightarrow> {} | Suc k \<Rightarrow> {(k, p div 2)})"
  shows "\<exists>t'. unfull t (idx l p) = Inr t' \<and> tree_inv L t' \<and> refined upgrade L t t'"
  using assms
proof (induction l arbitrary: p t)
  case 0
  then show ?case by (simp add: unfull.simps [of t])
next
  case (Suc k)
  note len = ok_except_len [OF Suc.prems(6)]
  have k: "k < L" using Suc.prems(1) by simp
  have h: "p div 2 < 2 ^ k" using Suc.prems(2) by (rule half_less)
  have s: "sib p < 2 ^ Suc k" using Suc.prems(2) by (rule sib_less)
  have ik: "idx k (p div 2) < length t" using len h k by (simp add: tree_len_idx)
  have get: "arr_get t (idx k (p div 2)) = Inr (nd t k (p div 2))" using ik by (simp add: nd_def)
  have par: "live t k (p div 2)" using Suc.prems(3) by simp
  from Suc.prems(5) consider
    (split) "nd t k (p div 2) = NODE_SPLIT" "node_ok L t k (p div 2)"
    | (full) "nd t k (p div 2) = NODE_FULL" "full (nd t (Suc k) (sib p))" by auto
  then show ?case
  proof cases
    case split
    then have "unfull t (idx (Suc k) p) = Inr t" using get by (subst unfull.simps) simp
    moreover have "tree_inv L t" using split Suc.prems(6) by (auto simp: ok_except_def)
    ultimately show ?thesis by auto
  next
    case full
    define t1 where "t1 = t[idx k (p div 2) := NODE_SPLIT]"
    note u = nd_update [OF h _ ik, of _ _ NODE_SPLIT, folded t1_def]
    have eq: "unfull t (idx (Suc k) p) = unfull t1 (idx k (p div 2))"
      using full get ik idx_pos [of k p] by (subst unfull.simps) (simp add: t1_def del: idx_pos)
    have r1: "refined upgrade L t t1" using full u by (auto simp: refined_def)
    have lv: "live t1 m q = live t m q" if "m \<le> L" "q < 2 ^ m" for m q
      using refined_live [OF r1] that by simp
    have up: "nd t1 j (p div 2 div 2) = NODE_FULL \<and> full (nd t1 (Suc j) (sib (p div 2))) \<or>
        nd t1 j (p div 2 div 2) = NODE_SPLIT \<and> node_ok L t1 j (p div 2 div 2)" if j: "k = Suc j" for j
    proof -
      have jj: "p div 2 div 2 < 2 ^ j" using h j half_less by simp
      have sj: "sib (p div 2) < 2 ^ Suc j" using h j sib_less by simp
      have "node_ok L t j (p div 2 div 2)"
        using par j k jj by (intro ok_exceptD [OF Suc.prems(6)]) auto
      with par j full(1) u [OF jj] u [OF sj] u [OF h] show ?thesis
        by (auto simp: node_ok_parent)
    qed
    have okp: "node_ok L t1 k (p div 2)"
      using full Suc.prems(4) k u [OF h] u [OF Suc.prems(2)] u [OF s]
      by (auto simp: node_ok_parent)
    have "ok_except L t1 (case k of 0 \<Rightarrow> {} | Suc j \<Rightarrow> {(j, p div 2 div 2)})"
      unfolding ok_except_def
    proof (intro conjI allI impI)
      show "tree_len L t1" using len by (simp add: t1_def)
      fix m q assume m: "m \<le> L" "q < 2 ^ m" "live t1 m q"
        and nx: "(m, q) \<notin> (case k of 0 \<Rightarrow> {} | Suc j \<Rightarrow> {(j, p div 2 div 2)})"
      show "node_ok L t1 m q"
      proof (cases "(m, q) = (k, p div 2)")
        case False
        have "node_ok L t m q" using m lv False by (intro ok_exceptD [OF Suc.prems(6)]) auto
        then show ?thesis unfolding t1_def
          using update_other [OF len _ h m(1,2) False] k nx by (auto split: nat.splits)
      qed (use okp in simp)
    qed
    with Suc.IH [of "p div 2" t1] up h k par lv u [OF h] obtain t'
      where t': "unfull t1 (idx k (p div 2)) = Inr t'" "tree_inv L t'" "refined upgrade L t1 t'" by auto
    moreover have "refined upgrade L t t'"
      by (rule refined_trans [OF r1 t'(3)]) (auto intro!: transpI)
    ultimately show ?thesis using eq by auto
  qed
qed

text \<open>The nodes at and below \<open>(l, p)\<close>.\<close>

definition desc :: "nat \<Rightarrow> nat \<Rightarrow> (nat \<times> nat) set" where
  "desc l p = {(m, q). l \<le> m \<and> q div 2 ^ (m - l) = p}"

lemma desc_self [simp]: "(l, p) \<in> desc l p"
  by (simp add: desc_def)

lemma desc_child: "(Suc m, q) \<in> desc l p \<longleftrightarrow> (Suc m, q) = (l, p) \<or> (m, q div 2) \<in> desc l p"
  by (auto simp: desc_def le_Suc_eq Suc_diff_le div_mult2_eq)

lemma desc_parent: "desc k (p div 2) = insert (k, p div 2) (desc (Suc k) p \<union> desc (Suc k) (sib p))"
proof -
  have "((m, q) \<in> desc k (p div 2)) = ((m, q) \<in> insert (k, p div 2) (desc (Suc k) p \<union> desc (Suc k) (sib p)))" for m q
  proof (induction m arbitrary: q)
    case 0
    show ?case by (auto simp: desc_def)
  next
    case (Suc m)
    have "q div 2 = p div 2 \<longleftrightarrow> q = p \<or> q = sib p"
      by (metis sib_div children_sib insert_iff singletonD)
    then show ?case unfolding insert_iff Un_iff desc_child Suc
      by (simp only: prod.inject nat.inject) blast
  qed
  then show ?thesis by auto
qed

lemma live_close:
  assumes "tree_len L t" "l \<le> L" "p < 2 ^ l" "\<not> opened v" "q < 2 ^ m"
  shows "live (t[idx l p := v]) m q = (live t m q \<and> ((m, q) \<in> desc l p \<longrightarrow> (m, q) = (l, p)))"
  using assms(5)
proof (induction m arbitrary: q)
  case 0
  then show ?case by (auto simp: desc_def)
next
  case (Suc m)
  note h = half_less [OF Suc.prems]
  note u = nd_update [OF assms(3) h tree_len_idx [OF assms(1,3,2)], of v]
  show ?case
  proof (cases "(m, q div 2) \<in> desc l p")
    case True
    then have "(Suc m, q) \<noteq> (l, p)" by (auto simp: desc_def)
    moreover have "\<not> live (t[idx l p := v]) (Suc m) q"
      using True Suc.IH [OF h] u assms(4) by (cases "m = l \<and> q div 2 = p") auto
    ultimately show ?thesis using True by (simp only: desc_child) simp
  next
    case False
    then have "\<not> (m = l \<and> q div 2 = p)" by auto
    with False show ?thesis using Suc.IH [OF h] u by (simp only: desc_child live.simps) simp
  qed
qed

lemma desc_update_other:
  assumes "tree_len L t" "l \<le> L" "p < 2 ^ l" "m \<le> L" "q < 2 ^ m" "(m, q) \<noteq> (l, p)"
  shows "nd (t[idx l p := v]) m q = nd t m q"
  using assms nd_update [OF assms(3,5) tree_len_idx [OF assms(1,3,2)], of v] by auto

lemma used_close:
  assumes "tree_len L t" "l \<le> L" "p < 2 ^ l"
  shows "used L (t[idx l p := NODE_UNUSED]) = used L t - desc l p"
proof -
  have "x \<in> used L (t[idx l p := NODE_UNUSED]) \<longleftrightarrow> x \<in> used L t - desc l p" for x
  proof (cases "x = (l, p)")
    case True
    with assms nd_update [OF assms(3,3) tree_len_idx [OF assms(1,3,2)]] show ?thesis
      by (simp add: used_def)
  next
    case False
    then show ?thesis
      using live_close [OF assms(1-3), of NODE_UNUSED] desc_update_other [OF assms(1-3), of _ _ NODE_UNUSED]
      by (cases x) (auto simp: used_def)
  qed
  then show ?thesis by blast
qed

text \<open>A node that is not split has no live node below it.\<close>

lemma closed_no_desc:
  assumes "live t m q" "(m, q) \<in> desc l p" "\<not> opened (nd t l p)"
  shows "(m, q) = (l, p)"
  using assms live_ancestor [of t m q l] by (cases "l = m") (auto simp: desc_def)

lemma close_inv:
  assumes inv: "tree_inv L t" and l: "l \<le> L" "p < 2 ^ l"
    and m: "m \<le> L" "q < 2 ^ m" "live (t[idx l p := NODE_UNUSED]) m q"
    and np: "\<And>k. l = Suc k \<Longrightarrow> (m, q) \<noteq> (k, p div 2)"
  shows "node_ok L (t[idx l p := NODE_UNUSED]) m q"
proof (cases "(m, q) = (l, p)")
  case True
  then show ?thesis using nd_update [OF l(2,2) tree_len_idx [OF ok_except_len [OF inv] l(2,1)]]
    by (simp add: node_ok_def)
next
  case False
  note len = ok_except_len [OF inv]
  have "node_ok L t m q" using m live_close [OF len l] by (intro ok_exceptD [OF inv]) auto
  then show ?thesis using update_other [OF len l m(1,2) False] np by simp
qed

lemma combine_ok:
  assumes "tree_inv L t" "l \<le> L" "p < 2 ^ l" "live t l p"
  shows "\<exists>t'. combine t (idx l p) = Inr t' \<and> tree_inv L t' \<and> used L t' = used L t - desc l p"
  using assms(2-4)
proof (induction l arbitrary: p)
  case 0
  note len = ok_except_len [OF assms(1)]
  have i: "0 < length t" using tree_len_idx [OF len, of 0 0] by simp
  have "combine t 0 = Inr (t[0 := NODE_UNUSED])"
    using i by (subst combine.simps) (simp add: unfull.simps)
  moreover have "tree_inv L (t[0 := NODE_UNUSED])"
    using close_inv [OF assms(1), of 0 0] len by (auto simp: ok_except_def)
  ultimately show ?case using used_close [OF len, of 0 0] 0 by simp
next
  case (Suc k)
  note len = ok_except_len [OF assms(1)] and p = Suc.prems(1,2)
  have k: "k < L" using p by simp
  have h: "p div 2 < 2 ^ k" using p(2) by (rule half_less)
  have s: "sib p < 2 ^ Suc k" using p(2) by (rule sib_less)
  have ip: "idx (Suc k) p < length t" using tree_len_idx [OF len p(2,1)] .
  have get: "arr_get t (idx (Suc k) (sib p)) = Inr (nd t (Suc k) (sib p))"
    using tree_len_idx [OF len s p(1)] by (simp add: nd_def)
  have par: "live t k (p div 2)" "opened (nd t k (p div 2))" using Suc.prems(3) by auto
  have okp: "node_ok L t k (p div 2)" using par(1) h k by (intro ok_exceptD [OF assms(1)]) auto
  show ?case
  proof (cases "nd t (Suc k) (sib p) = NODE_UNUSED")
    case True
    have "combine t (idx (Suc k) p) = combine t (idx k (p div 2))"
      using True get by (subst combine.simps) (simp add: buddy_of_idx)
    moreover have "used L t - desc k (p div 2) = used L t - desc (Suc k) p"
    proof -
      have "x \<notin> used L t" if "x \<in> desc (Suc k) (sib p)" for x
        using that True closed_no_desc [of t "fst x" "snd x" "Suc k" "sib p"] by (auto simp: used_def)
      then show ?thesis using par(2) by (subst desc_parent) (auto simp: used_def)
    qed
    ultimately show ?thesis using Suc.IH [OF _ h par(1)] k by simp
  next
    case False
    define t1 where "t1 = t[idx (Suc k) p := NODE_UNUSED]"
    note u = nd_update [OF p(2) _ ip, of _ _ NODE_UNUSED, folded t1_def]
    have eq: "combine t (idx (Suc k) p) = unfull t1 (idx (Suc k) p)"
      using False get ip by (subst combine.simps) (simp add: buddy_of_idx t1_def)
    have "ok_except L t1 {(k, p div 2)}"
      using close_inv [OF assms(1) p, folded t1_def] len by (auto simp: ok_except_def t1_def)
    moreover have "live t1 (Suc k) p"
      using live_close [OF len p, of NODE_UNUSED p "Suc k"] p Suc.prems(3) by (simp add: t1_def)
    moreover have "nd t1 k (p div 2) = NODE_FULL \<and> full (nd t1 (Suc k) (sib p)) \<or>
        nd t1 k (p div 2) = NODE_SPLIT \<and> node_ok L t1 k (p div 2)"
      using par(2) okp False u [OF h] u [OF s] u [OF p(2)] by (auto simp: node_ok_parent)
    ultimately obtain t' where t': "unfull t1 (idx (Suc k) p) = Inr t'" "tree_inv L t'" "refined upgrade L t1 t'"
      using unfull_ok [OF p, of t1] u [OF p(2)] by auto
    then show ?thesis using eq refined_used [OF t'(3)] used_close [OF len p] by (simp add: t1_def)
  qed
qed

section \<open>Finding the block of an offset\<close>

lemma half_block: "l < L \<Longrightarrow> 2 ^ (L - l) div 2 = (2::nat) ^ (L - Suc l)"
  by (simp add: Suc_diff_Suc [symmetric])

lemma left_child: "l < L \<Longrightarrow> (p::nat) * 2 ^ (L - l) = (2 * p) * 2 ^ (L - Suc l)"
  by (simp add: Suc_diff_Suc [symmetric])

lemma right_child: "l < L \<Longrightarrow> (p::nat) * 2 ^ (L - l) + 2 ^ (L - Suc l) = Suc (2 * p) * 2 ^ (L - Suc l)"
  by (simp add: left_child)

lemma find_step:
  assumes "arr_get t (idx l p) = Inr v" "opened v" "l < L"
  shows "buddy_find (Suc fuel) t off (p * 2 ^ (L - l)) (2 ^ (L - l)) (idx l p) =
    (if off < p * 2 ^ (L - l) + 2 ^ (L - Suc l)
     then buddy_find fuel t off (2 * p * 2 ^ (L - Suc l)) (2 ^ (L - Suc l)) (idx (Suc l) (2 * p))
     else buddy_find fuel t off (Suc (2 * p) * 2 ^ (L - Suc l)) (2 ^ (L - Suc l)) (idx (Suc l) (Suc (2 * p))))"
  using assms unfolding right_child [OF assms(3), symmetric] left_child [OF assms(3), symmetric]
  by (auto simp: half_block [OF assms(3)] simp flip: idx_children)

lemma find_used:
  assumes len: "tree_len L t" and m: "(m, q) \<in> used L t" "l \<le> m" "L - l < fuel"
  shows "buddy_find fuel t (q * 2 ^ (L - m)) ((q div 2 ^ (m - l)) * 2 ^ (L - l)) (2 ^ (L - l))
           (idx l (q div 2 ^ (m - l))) = Some (Inr (idx m q, 2 ^ (L - m)))"
  using m(2,3)
proof (induction fuel arbitrary: l)
  case (Suc fuel)
  from m(1) have mq: "m \<le> L" "q < 2 ^ m" "live t m q" "nd t m q = NODE_USED" by (auto simp: used_def)
  define p where "p = q div 2 ^ (m - l)"
  have p: "p < 2 ^ l" using div_pow2_less [OF Suc.prems(1) mq(2)] by (simp add: p_def)
  have get: "arr_get t (idx l p) = Inr (nd t l p)"
    using tree_len_idx [OF len p] Suc.prems(1) mq(1) by (simp add: nd_def)
  show ?case
  proof (cases "l = m")
    case True
    then show ?thesis using get mq(4) by (simp add: p_def)
  next
    case False
    with Suc.prems mq(1) have lm: "l < m" "Suc l \<le> m" "L - Suc l < fuel" "l < L" by auto
    define p' where "p' = q div 2 ^ (m - Suc l)"
    have "(2::nat) ^ (m - l) = 2 ^ (m - Suc l) * 2" using lm(1) by (simp add: Suc_diff_Suc [symmetric])
    then have pp: "p = p' div 2" by (simp only: p_def p'_def div_mult2_eq)
    have op: "opened (nd t l p)" using live_ancestor [OF mq(3) lm(1)] by (simp add: p_def)
    have e: "(2::nat) ^ (L - Suc l) = 2 ^ (m - Suc l) * 2 ^ (L - m)"
      using lm mq(1) by (simp flip: power_add)
    have "q * 2 ^ (L - m) < p * 2 ^ (L - l) + 2 ^ (L - Suc l) \<longleftrightarrow> q < Suc (2 * p) * 2 ^ (m - Suc l)"
      unfolding right_child [OF lm(4)] unfolding e by (simp only: mult.assoc [symmetric] mult_less_cancel2) simp
    also have "\<dots> \<longleftrightarrow> p' < Suc (2 * p)" by (simp add: p'_def div_less_iff_less_mult)
    also have "\<dots> \<longleftrightarrow> even p'" using pp by presburger
    finally have br: "q * 2 ^ (L - m) < p * 2 ^ (L - l) + 2 ^ (L - Suc l) \<longleftrightarrow> even p'" .
    note IH = Suc.IH [OF lm(2,3), folded p'_def]
    have "p' = (if even p' then 2 * p else Suc (2 * p))" using pp by presburger
    then show ?thesis using IH br
      by (simp only: p_def [symmetric] find_step [OF get op lm(4)] split: if_splits) simp_all
  qed
qed simp

lemma find_unused:
  assumes inv: "tree_inv L t" and no: "\<And>m q. (m, q) \<in> used L t \<Longrightarrow> q * 2 ^ (L - m) \<noteq> offset"
    and l: "l \<le> L" "p < 2 ^ l" "live t l p" "L - l < fuel"
  shows "buddy_find fuel t offset (p * 2 ^ (L - l)) (2 ^ (L - l)) (idx l p) = Some (Inl AssertFail)"
  using l
proof (induction fuel arbitrary: l p)
  case (Suc fuel)
  note len = ok_except_len [OF inv]
  have get: "arr_get t (idx l p) = Inr (nd t l p)"
    using tree_len_idx [OF len Suc.prems(2,1)] by (simp add: nd_def)
  show ?case
  proof (cases "opened (nd t l p)")
    case False
    then show ?thesis using get no [of l p] Suc.prems
      by (cases "nd t l p") (auto simp: used_def)
  next
    case True
    have "node_ok L t l p" by (rule ok_exceptD [OF inv Suc.prems(1-3)]) simp
    with True have lL: "l < L" by (auto simp: node_ok_def)
    have c: "Suc l \<le> L" "L - Suc l < fuel" "live t (Suc l) (2 * p)" "live t (Suc l) (Suc (2 * p))"
      "2 * p < 2 ^ Suc l" "Suc (2 * p) < 2 ^ Suc l" using lL Suc.prems True by auto
    from Suc.IH [OF c(1,5,3,2)] Suc.IH [OF c(1,6,4,2)] True get
    show ?thesis by (simp only: find_step [OF get True lL]) simp
  qed
qed simp

section \<open>The search of an allocation\<close>

abbreviation len_of :: "nat \<Rightarrow> nat \<Rightarrow> nat" where
  "len_of L l \<equiv> 2 ^ (L - l)"

definition search_state :: "nat \<Rightarrow> node list \<Rightarrow> nat \<Rightarrow> nat \<Rightarrow> alloc_state" where
  "search_state L t l p = (t, idx l p, l, len_of L l)"

lemma live_sib: "live t l (sib p) = live t l p"
  by (cases l) simp_all

lemma next_sibling: "even p \<Longrightarrow> idx l p + 1 = idx l (Suc p)"
  by (simp add: idx_def)

lemma climb_last: "p + 1 = 2 ^ l \<Longrightarrow> climb (idx l p) l n = None"
proof (induction l arbitrary: p n)
  case 0
  then show ?case by (simp add: climb.simps)
next
  case (Suc k)
  then have "p div 2 + 1 = 2 ^ k" by simp
  then have "\<not> odd (idx k (p div 2))" by (cases k) (auto, presburger)
  then show ?case using Suc.IH [OF \<open>p div 2 + 1 = 2 ^ k\<close>] idx_pos [of k p]
    by (subst climb.simps) (simp del: idx_pos)
qed

lemma climb_next:
  assumes "p + 1 < 2 ^ l" "odd p" "l \<le> L"
  shows "\<exists>l' p'. climb (idx l p) l (len_of L l) = Some (idx l' p', l', len_of L l') \<and> l' \<le> l \<and> p' < 2 ^ l' \<and>
    p' * len_of L l' = (p + 1) * len_of L l \<and> (live t l p \<longrightarrow> live t l' p')"
  using assms
proof (induction l arbitrary: p)
  case (Suc k)
  define h where "h = p div 2"
  have ph: "p = Suc (2 * h)" using Suc.prems(2) by (simp add: h_def)
  have len: "len_of L (Suc k) * 2 = len_of L k"
    using Suc.prems(3) by (simp add: Suc_diff_Suc [symmetric])
  have off: "(h + 1) * len_of L k = (p + 1) * len_of L (Suc k)" by (simp add: ph flip: len)
  have step: "climb (idx (Suc k) p) (Suc k) (len_of L (Suc k)) =
      (if odd (idx k h) then Some (idx k h + 1, k, len_of L k) else climb (idx k h) k (len_of L k))"
    using idx_pos [of k p] by (subst climb.simps) (simp add: h_def del: idx_pos flip: len)
  have hk: "h + 1 < 2 ^ k" using Suc.prems(1) ph by simp
  then obtain j where j: "k = Suc j" by (cases k) auto
  show ?case
  proof (cases "even h")
    case True
    then have "climb (idx (Suc k) p) (Suc k) (len_of L (Suc k)) = Some (idx k (Suc h), k, len_of L k)"
      unfolding step by (simp add: j next_sibling [of h "Suc j", symmetric])
    moreover have "live t (Suc k) p \<longrightarrow> live t k (Suc h)"
      using True live_sib [of t k h] by (simp add: sib_def flip: h_def)
    ultimately show ?thesis using off hk
      by (intro exI [of _ k] exI [of _ "Suc h"]) simp
  next
    case False
    with Suc.IH [OF hk] Suc.prems(3) obtain l' p' where
      "climb (idx k h) k (len_of L k) = Some (idx l' p', l', len_of L l')" "l' \<le> k" "p' < 2 ^ l'"
      "p' * len_of L l' = (h + 1) * len_of L k" "live t k h \<longrightarrow> live t l' p'" by auto
    moreover have "\<not> odd (idx k h)" using False j by simp
    ultimately show ?thesis using off
      by (intro exI [of _ l'] exI [of _ p']) (simp add: step flip: h_def)
  qed
qed simp

lemma advance_last:
  assumes "p + 1 = 2 ^ l"
  shows "advance (idx l p) l n = None"
proof -
  have "\<not> odd (idx l p)" using assms by (cases l) (auto, presburger)
  then show ?thesis using climb_last [OF assms] by (simp add: advance_def)
qed

lemma advance_next:
  assumes "p + 1 < 2 ^ l" "l \<le> L"
  shows "\<exists>l' p'. advance (idx l p) l (len_of L l) = Some (idx l' p', l', len_of L l') \<and> l' \<le> l \<and> p' < 2 ^ l' \<and>
    p' * len_of L l' = (p + 1) * len_of L l \<and> (live t l p \<longrightarrow> live t l' p')"
proof (cases "even p")
  case True
  obtain k where k: "l = Suc k" using assms(1) by (cases l) auto
  have "advance (idx l p) l (len_of L l) = Some (idx l (Suc p), l, len_of L l)"
    using True next_sibling [of p l] by (simp add: advance_def k)
  moreover have "live t l p \<longrightarrow> live t l (Suc p)" using live_sib [of t l p] True by (simp add: sib_def)
  ultimately show ?thesis using assms by (intro exI [of _ l] exI [of _ "Suc p"]) auto
next
  case False
  obtain k where "l = Suc k" using assms(1) by (cases l) auto
  with False have "advance (idx l p) l (len_of L l) = climb (idx l p) l (len_of L l)"
    by (simp add: advance_def)
  then show ?thesis using climb_next [OF assms(1) _ assms(2)] False by simp
qed

subsection \<open>From a free block down to the wanted size\<close>

abbreviation above :: "nat \<Rightarrow> nat \<Rightarrow> (nat \<times> nat) set" where
  "above l p \<equiv> (case l of 0 \<Rightarrow> {} | Suc k \<Rightarrow> {(k, p div 2)})"

lemma take_node:
  assumes "ok_except L t (above l p)" "l \<le> L" "p < 2 ^ l" "live t l p" "nd t l p = NODE_UNUSED"
    and "\<And>k. l = Suc k \<Longrightarrow> nd t k (p div 2) = NODE_SPLIT"
  shows "\<exists>t'. mark_parent (t[idx l p := NODE_USED]) (idx l p) = Inr t' \<and> tree_inv L t' \<and>
    used L t' = insert (l, p) (used L t)"
proof -
  note len = ok_except_len [OF assms(1)]
  define t1 where "t1 = t[idx l p := NODE_USED]"
  note u = nd_update [OF assms(3) _ tree_len_idx [OF len assms(3,2)], of _ _ NODE_USED, folded t1_def]
  have lv: "live t1 m q = live t m q" if "q < 2 ^ m" for m q
    using live_close [OF len assms(2,3), of NODE_USED q m] closed_no_desc [of t m q l p] assms(5) that
    by (auto simp: t1_def)
  have "ok_except L t1 (above l p)"
    unfolding ok_except_def
  proof (intro conjI allI impI)
    show "tree_len L t1" using len by (simp add: t1_def)
    fix m q assume m: "m \<le> L" "q < 2 ^ m" "live t1 m q" and nx: "(m, q) \<notin> above l p"
    show "node_ok L t1 m q"
    proof (cases "(m, q) = (l, p)")
      case True
      then show ?thesis using u [OF assms(3)] by (simp add: node_ok_def)
    next
      case False
      have "node_ok L t m q" using m lv nx by (intro ok_exceptD [OF assms(1)]) auto
      then show ?thesis unfolding t1_def
        using update_other [OF len assms(2,3) m(1,2) False] nx by (auto split: nat.splits)
    qed
  qed
  moreover have "nd t1 k (p div 2) = NODE_SPLIT" if "l = Suc k" for k
    using assms(3,6) that u [of "p div 2" k] half_less by simp
  ultimately obtain t' where t': "mark_parent t1 (idx l p) = Inr t'" "tree_inv L t'"
      "refined (\<lambda>a b. a = NODE_SPLIT \<and> b = NODE_FULL \<or> a = b) L t1 t'"
    using mark_parent_ok [OF assms(2,3), of t1] assms(4) lv [OF assms(3)] u [OF assms(3)] by auto
  moreover have "used L t1 = insert (l, p) (used L t)"
    using assms(2-4) lv u by (auto simp: used_def)
  ultimately show ?thesis using refined_used [OF t'(3)] by (simp add: t1_def)
qed

definition split_node :: "node list \<Rightarrow> nat \<Rightarrow> nat \<Rightarrow> node list" where
  "split_node t l p = t[idx l p := NODE_SPLIT, idx (Suc l) (2 * p) := NODE_UNUSED,
     idx (Suc l) (Suc (2 * p)) := NODE_UNUSED]"

lemma nd_split:
  assumes "tree_len L t" "l < L" "p < 2 ^ l" "q < 2 ^ m"
  shows "nd (split_node t l p) m q =
    (if m = l \<and> q = p then NODE_SPLIT else if m = Suc l \<and> q div 2 = p then NODE_UNUSED else nd t m q)"
proof -
  have c: "2 * p < 2 ^ Suc l" "Suc (2 * p) < 2 ^ Suc l" using assms(3) by auto
  have i: "idx l p < length t" "idx (Suc l) (2 * p) < length t" "idx (Suc l) (Suc (2 * p)) < length t"
    using tree_len_idx [OF assms(1)] assms(2,3) c by (simp_all add: Suc_leI)
  have "q div 2 = p \<longleftrightarrow> q = 2 * p \<or> q = Suc (2 * p)" by presburger
  then show ?thesis
    using assms(4) i c by (auto simp: split_node_def nd_update [OF assms(3)] nd_update [OF c(1)] nd_update [OF c(2)])
qed

lemma live_split:
  assumes "tree_len L t" "l < L" "p < 2 ^ l" "live t l p" "nd t l p = NODE_UNUSED" "q < 2 ^ m"
  shows "live (split_node t l p) m q = (live t m q \<or> m = Suc l \<and> q div 2 = p)"
  using assms(6)
proof (induction m arbitrary: q)
  case (Suc m)
  note h = half_less [OF Suc.prems] and IH = Suc.IH [OF half_less [OF Suc.prems]]
  note u = nd_split [OF assms(1-3) h]
  consider "m = l" "q div 2 = p" | "m = Suc l" "q div 2 div 2 = p"
    | "\<not> (m = l \<and> q div 2 = p)" "\<not> (m = Suc l \<and> q div 2 div 2 = p)" by blast
  then show ?case using IH u assms(4,5) by cases auto
qed simp

lemma split_ok:
  assumes "ok_except L t (above l p)" "l < L" "p < 2 ^ l" "live t l p" "nd t l p = NODE_UNUSED"
    and par: "\<And>k. l = Suc k \<Longrightarrow> nd t k (p div 2) = NODE_SPLIT"
  shows "ok_except L (split_node t l p) {(l, p)}" "used L (split_node t l p) = used L t"
proof -
  note len = ok_except_len [OF assms(1)]
  note u = nd_split [OF len assms(2,3)] and lv = live_split [OF len assms(2-5)]
  show "used L (split_node t l p) = used L t"
    using assms(5) by (auto simp: used_def u lv split: if_splits)
  show "ok_except L (split_node t l p) {(l, p)}"
    unfolding ok_except_def
  proof (intro conjI allI impI)
    show "tree_len L (split_node t l p)" using len by (simp add: split_node_def)
    fix m q assume m: "m \<le> L" "q < 2 ^ m" "live (split_node t l p) m q" and nx: "(m, q) \<notin> {(l, p)}"
    show "node_ok L (split_node t l p) m q"
    proof (cases "m = Suc l \<and> q div 2 = p")
      case True
      then show ?thesis using u [OF m(2)] by (simp add: node_ok_def)
    next
      case False
      with m lv [OF m(2)] have lt: "live t m q" by simp
      have um: "nd (split_node t l p) m q = nd t m q"
        using nx False by (subst u [OF m(2)]) auto
      show ?thesis
      proof (cases "(m, q) \<in> above l p")
        case True
        then obtain k where k: "l = Suc k" "m = k" "q = p div 2" by (cases l) auto
        then have "nd (split_node t l p) k (p div 2) = NODE_SPLIT" using par um by simp
        moreover have "nd (split_node t l p) (Suc k) p = NODE_SPLIT"
          using u [OF assms(3)] k by simp
        ultimately show ?thesis using k assms(2) by (simp add: node_ok_parent)
      next
        case nab: False
        then have "node_ok L t m q" using m lt by (intro ok_exceptD [OF assms(1)]) auto
        moreover have "(Suc m, 2 * q) \<noteq> (l, p)" "(Suc m, Suc (2 * q)) \<noteq> (l, p)" using nab by auto
        moreover have "2 * q < 2 ^ Suc m" "Suc (2 * q) < 2 ^ Suc m" using m(2) by auto
        ultimately show ?thesis using um nx
          by (subst node_ok_cong [of _ _ _ t]) (auto simp: u)
      qed
    qed
  qed
qed

lemma pow2_len_inj: "l \<le> L \<Longrightarrow> K \<le> L \<Longrightarrow> (2::nat) ^ (L - K) = 2 ^ (L - l) \<longleftrightarrow> K = l"
  by (auto simp: power_inject_exp)

lemma descend:
  assumes "ok_except L t (above l p)" "l \<le> K" "K \<le> L" "p < 2 ^ l" "live t l p" "nd t l p = NODE_UNUSED"
    and "\<And>k. l = Suc k \<Longrightarrow> nd t k (p div 2) = NODE_SPLIT" and "K - l < fuel"
  shows "\<exists>t'. buddy_alloc_loop fuel L (int (len_of L K)) (search_state L t l p) =
      Some (Inr (Some (p * len_of L l), t')) \<and> tree_inv L t' \<and>
      used L t' = insert (K, p * 2 ^ (K - l)) (used L t)"
  using assms
proof (induction fuel arbitrary: t l p)
  case (Suc fuel)
  note len = ok_except_len [OF Suc.prems(1)]
  have lL: "l \<le> L" using Suc.prems(2,3) by simp
  have i: "idx l p < length t" by (rule tree_len_idx [OF len Suc.prems(4) lL])
  then have get: "arr_get t (idx l p) = Inr NODE_UNUSED" using Suc.prems(6) by (simp add: nd_def)
  show ?case
  proof (cases "l = K")
    case True
    from take_node [OF Suc.prems(1) lL Suc.prems(4,5,6,7)] obtain t' where
      "mark_parent (t[idx l p := NODE_USED]) (idx l p) = Inr t'" "tree_inv L t'"
      "used L t' = insert (l, p) (used L t)" by auto
    then show ?thesis using True get i
      by (simp add: search_state_def alloc_iter_def index_offset_idx)
  next
    case False
    with Suc.prems(2,3,8) have lK: "l < K" "l < L" "Suc l \<le> K" "K - Suc l < fuel" by auto
    have c: "2 * p < 2 ^ Suc l" "Suc (2 * p) < 2 ^ Suc l" using Suc.prems(4) by auto
    have ci: "idx (Suc l) (2 * p) < length t" "idx (Suc l) (Suc (2 * p)) < length t"
      using tree_len_idx [OF len c(1)] tree_len_idx [OF len c(2)] lK(2) by simp_all
    define t1 where "t1 = split_node t l p"
    have it: "alloc_iter L (int (len_of L K)) (search_state L t l p) = Inr (search_state L t1 (Suc l) (2 * p))"
      using get i ci lK pow2_len_inj [OF lL Suc.prems(3)]
      by (simp add: search_state_def alloc_iter_def t1_def split_node_def half_block del: One_nat_def Suc_eq_plus1
          add: idx_children [simplified])
    note so = split_ok [OF Suc.prems(1) lK(2) Suc.prems(4-7), folded t1_def]
    note u = nd_split [OF len lK(2) Suc.prems(4), folded t1_def]
    have "ok_except L t1 (above (Suc l) (2 * p))" using so(1) by simp
    moreover have "live t1 (Suc l) (2 * p)"
      using live_split [OF len lK(2) Suc.prems(4-6) c(1), folded t1_def] by simp
    ultimately obtain t' where "buddy_alloc_loop fuel L (int (len_of L K)) (search_state L t1 (Suc l) (2 * p)) =
        Some (Inr (Some (2 * p * len_of L (Suc l)), t'))" "tree_inv L t'"
        "used L t' = insert (K, 2 * p * 2 ^ (K - Suc l)) (used L t1)"
      using Suc.IH [of t1 "2 * p" "Suc l"] lK Suc.prems(3) c(1) u [OF c(1)] u [OF Suc.prems(4)] by auto
    then show ?thesis using it so(2)
      unfolding left_child [OF lK(2), of p] left_child [OF lK(1), of p] by simp
  qed
qed simp

subsection \<open>The frontier of the search\<close>

text \<open>All free nodes of a wanted size lie at or behind the position of the search.\<close>

definition frontier :: "nat \<Rightarrow> nat \<Rightarrow> node list \<Rightarrow> nat \<Rightarrow> bool" where
  "frontier L K t off \<longleftrightarrow> (\<forall>m q. m \<le> K \<longrightarrow> q < 2 ^ m \<longrightarrow> live t m q \<longrightarrow> nd t m q = NODE_UNUSED \<longrightarrow>
     off \<le> q * len_of L m)"

lemma aligned_nested:
  assumes "l \<le> m" "m \<le> L" "p * len_of L l \<le> q * len_of L m" "q * len_of L m < (p + 1) * len_of L l"
  shows "(m, q) \<in> desc l p"
proof -
  have e: "len_of L l = 2 ^ (m - l) * len_of L m" using assms(1,2) by (simp flip: power_add)
  have "p * 2 ^ (m - l) \<le> q" "q < Suc p * 2 ^ (m - l)"
    using assms(3,4) unfolding e mult.assoc [symmetric] by simp_all
  then have "q div 2 ^ (m - l) = p" by (simp add: div_nat_eqI mult.commute)
  with assms(1) show ?thesis by (simp add: desc_def)
qed

lemma aligned_covering:
  assumes "m \<le> l" "l \<le> L" "p * len_of L l \<le> q * len_of L m" "q * len_of L m < (p + 1) * len_of L l"
  shows "(l, p) \<in> desc m q"
proof (rule aligned_nested [OF assms(1,2)])
  have e: "len_of L m = 2 ^ (l - m) * len_of L l" using assms(1,2) by (simp flip: power_add)
  have "p \<le> q * 2 ^ (l - m)" "q * 2 ^ (l - m) < p + 1"
    using assms(3,4) unfolding e mult.assoc [symmetric] by (simp_all only: mult_le_cancel2 mult_less_cancel2)
  then have p: "p = q * 2 ^ (l - m)" by simp
  then show "q * len_of L m \<le> p * len_of L l" by (simp add: e)
  show "p * len_of L l < (q + 1) * len_of L m" by (simp add: p e)
qed

lemma frontier_skip:
  assumes "frontier L K t (p * len_of L l)" and "l \<le> K" "K \<le> L" "p < 2 ^ l" "live t l p"
    and no: "\<And>m q. m \<le> K \<Longrightarrow> q < 2 ^ m \<Longrightarrow> live t m q \<Longrightarrow> (m, q) \<in> desc l p \<Longrightarrow> nd t m q \<noteq> NODE_UNUSED"
  shows "frontier L K t ((p + 1) * len_of L l)"
  unfolding frontier_def
proof (intro allI impI, rule ccontr)
  fix m q assume m: "m \<le> K" "q < 2 ^ m" "live t m q" "nd t m q = NODE_UNUSED"
    and lt: "\<not> (p + 1) * len_of L l \<le> q * len_of L m"
  have ge: "p * len_of L l \<le> q * len_of L m" using assms(1) m by (simp add: frontier_def)
  have "(m, q) \<in> desc l p"
  proof (cases "l \<le> m")
    case True
    then show ?thesis using m(1) assms(3) ge lt by (intro aligned_nested [of _ _ L]) auto
  next
    case False
    then have "(l, p) \<in> desc m q" using assms(2,3) ge lt by (intro aligned_covering [of _ _ L]) auto
    then have "(l, p) = (m, q)" using closed_no_desc [OF assms(5)] m(4) by simp
    then show ?thesis by simp
  qed
  with no m show False by blast
qed

text \<open>
  Nothing free lies below a node the search skips: at the wanted size it is taken, above it is
  full.
\<close>

lemma skip_no_free:
  assumes "tree_inv L t" "K \<le> L" "m \<le> K" "q < 2 ^ m" "live t m q" "(m, q) \<in> desc l p"
    and "l = K \<and> nd t l p \<noteq> NODE_UNUSED \<or> full (nd t l p)"
  shows "nd t m q \<noteq> NODE_UNUSED"
  using assms(7)
proof
  assume "l = K \<and> nd t l p \<noteq> NODE_UNUSED"
  with assms(3,6) show ?thesis by (auto simp: desc_def)
next
  assume "full (nd t l p)"
  then have "full (nd t m q)"
    using assms by (intro full_below [OF assms(1) _ assms(4,5), of l]) (auto simp: desc_def)
  then show ?thesis by auto
qed

definition alloc_post :: "nat \<Rightarrow> nat \<Rightarrow> node list \<Rightarrow> nat option \<times> node list \<Rightarrow> bool" where
  "alloc_post L K t r =
     (case r of
        (None, t') \<Rightarrow> t' = t \<and> frontier L K t (2 ^ L)
      | (Some off, t') \<Rightarrow> tree_inv L t' \<and>
          (\<exists>q < 2 ^ K. off = q * len_of L K \<and> (K, q) \<notin> used L t \<and> used L t' = insert (K, q) (used L t)))"

lemma scale_less: "(p::nat) < 2 ^ l \<Longrightarrow> l \<le> K \<Longrightarrow> p * 2 ^ (K - l) < 2 ^ K"
  using mult_strict_right_mono [of p "2 ^ l" "2 ^ (K - l)"] by (simp flip: power_add)

lemma le_times: "a < (b::nat) \<Longrightarrow> Suc K \<le> (b - a) * (K + 1)"
  by (cases "b - a") simp_all

lemma potential_step:
  "b + (K + 1) \<le> a \<Longrightarrow> a - l \<le> Suc fuel \<Longrightarrow> l \<le> K \<Longrightarrow> b - l' \<le> (fuel::nat)"
  by linarith

lemma search_correct:
  assumes "tree_inv L t" "l \<le> K" "K \<le> L" "p < 2 ^ l" "live t l p" "frontier L K t (p * len_of L l)"
    and "(2 ^ L - p * len_of L l) * (K + 1) - l \<le> fuel"
  shows "\<exists>r. buddy_alloc_loop fuel L (int (len_of L K)) (search_state L t l p) = Some (Inr r) \<and>
    alloc_post L K t r"
  using assms(2,4-7)
proof (induction fuel arbitrary: l p)
  case 0
  have "p * len_of L l < 2 ^ L" using 0(1,2) assms(3) by (intro scale_less) simp_all
  then have "Suc K \<le> (2 ^ L - p * len_of L l) * (K + 1)" by (rule le_times)
  with 0(1,5) show ?case by linarith
next
  case (Suc fuel)
  note len = ok_except_len [OF assms(1)]
  have lL: "l \<le> L" using Suc.prems(1) assms(3) by simp
  have e: "2 ^ l * len_of L l = 2 ^ L" using lL by (simp flip: power_add)
  have room: "(p + 1) * len_of L l \<le> 2 ^ L"
    using Suc.prems(2) unfolding e [symmetric] by (intro mult_right_mono) auto
  have one: "p * len_of L l + 1 \<le> (p + 1) * len_of L l" by simp
  have get: "arr_get t (idx l p) = Inr (nd t l p)"
    using tree_len_idx [OF len Suc.prems(2) lL] by (simp add: nd_def)
  have eqK: "int (len_of L K) = int (len_of L l) \<longleftrightarrow> K = l"
    using pow2_len_inj [OF lL assms(3)] by simp
  have skip: ?case
    if it: "alloc_iter L (int (len_of L K)) (search_state L t l p) = alloc_skip (search_state L t l p)"
      and no: "l = K \<and> nd t l p \<noteq> NODE_UNUSED \<or> full (nd t l p)"
  proof -
    have fr: "frontier L K t ((p + 1) * len_of L l)"
      using frontier_skip [OF Suc.prems(4,1) assms(3) Suc.prems(2,3)] skip_no_free [OF assms(1,3)] no by blast
    show ?thesis
    proof (cases "p + 1 = 2 ^ l")
      case True
      then have "frontier L K t (2 ^ L)" using fr e by simp
      then show ?thesis using it advance_last [OF True, of "len_of L l"]
        by (simp add: alloc_skip_def search_state_def alloc_post_def)
    next
      case False
      with Suc.prems(2) have "p + 1 < 2 ^ l" by simp
      from advance_next [OF this lL, of t] obtain l' p' where
        adv: "advance (idx l p) l (len_of L l) = Some (idx l' p', l', len_of L l')" and
        l': "l' \<le> l" "p' < 2 ^ l'" "p' * len_of L l' = (p + 1) * len_of L l" "live t l' p'"
        using Suc.prems(3) by auto
      have "(2 ^ L - (p + 1) * len_of L l) * (K + 1) + (K + 1) \<le> (2 ^ L - p * len_of L l) * (K + 1)"
      proof -
        have "2 ^ L - (p + 1) * len_of L l + 1 \<le> 2 ^ L - p * len_of L l" using room one by linarith
        then have "(2 ^ L - (p + 1) * len_of L l + 1) * (K + 1) \<le> (2 ^ L - p * len_of L l) * (K + 1)"
          by (rule mult_right_mono) simp
        then show ?thesis by (simp add: algebra_simps)
      qed
      from potential_step [OF this Suc.prems(5,1)]
      have "(2 ^ L - p' * len_of L l') * (K + 1) - l' \<le> fuel" unfolding l'(3) .
      with Suc.IH [of l' p'] l' fr Suc.prems(1) show ?thesis
        using it adv by (simp add: alloc_skip_def search_state_def)
    qed
  qed
  show ?case
  proof (cases "nd t l p")
    case NODE_UNUSED
    have par: "nd t k (p div 2) = NODE_SPLIT" if k: "l = Suc k" for k
    proof -
      have "node_ok L t k (p div 2)" using Suc.prems(2,3) lL k half_less
        by (intro ok_exceptD [OF assms(1)]) auto
      with NODE_UNUSED Suc.prems(3) k show ?thesis by (auto simp: node_ok_parent)
    qed
    have ok: "ok_except L t (above l p)" using assms(1) by (simp add: ok_except_def)
    have "Suc K \<le> (2 ^ L - p * len_of L l) * (K + 1)" by (rule le_times) (use room one in linarith)
    with Suc.prems(1,5) have "K - l < Suc fuel" by linarith
    from descend [OF ok Suc.prems(1) assms(3) Suc.prems(2,3) NODE_UNUSED par this] obtain t' where
      t': "buddy_alloc_loop (Suc fuel) L (int (len_of L K)) (search_state L t l p) =
         Some (Inr (Some (p * len_of L l), t'))" "tree_inv L t'"
        "used L t' = insert (K, p * 2 ^ (K - l)) (used L t)" by blast
    have "p * 2 ^ (K - l) < 2 ^ K" using Suc.prems(1,2) by (intro scale_less)
    moreover have "p * len_of L l = p * 2 ^ (K - l) * len_of L K"
      using Suc.prems(1) assms(3) by (simp flip: power_add)
    moreover have "(K, p * 2 ^ (K - l)) \<notin> used L t"
      using closed_no_desc [of t K "p * 2 ^ (K - l)" l p] NODE_UNUSED Suc.prems(1)
      by (auto simp: used_def desc_def)
    ultimately show ?thesis using t' by (auto simp: alloc_post_def)
  next
    case NODE_USED
    then show ?thesis using skip get eqK by (auto simp: alloc_iter_def search_state_def)
  next
    case NODE_FULL
    then show ?thesis using skip get eqK by (auto simp: alloc_iter_def search_state_def)
  next
    case NODE_SPLIT
    show ?thesis
    proof (cases "l = K")
      case True
      then show ?thesis using NODE_SPLIT skip get by (simp add: alloc_iter_def search_state_def)
    next
      case False
      with Suc.prems(1) assms(3) have lK: "Suc l \<le> K" "l < L" by auto
      have "alloc_iter L (int (len_of L K)) (search_state L t l p) = Inr (search_state L t (Suc l) (2 * p))"
        using NODE_SPLIT get eqK False
        by (simp add: alloc_iter_def search_state_def half_block [OF lK(2)] idx_children [simplified])
      moreover have "frontier L K t (2 * p * len_of L (Suc l))" "2 * p < 2 ^ Suc l" "live t (Suc l) (2 * p)"
        using Suc.prems(2-4) NODE_SPLIT unfolding left_child [OF lK(2)] by simp_all
      moreover have "(2 ^ L - 2 * p * len_of L (Suc l)) * (K + 1) - Suc l \<le> fuel"
        using Suc.prems(5) unfolding left_child [OF lK(2)] by linarith
      ultimately show ?thesis using Suc.IH [OF lK(1)] by simp
    qed
  qed
qed

section \<open>Rounding the request\<close>

lemma unat_pow2: "n < 32 \<Longrightarrow> unat (2 ^ n :: u32) = 2 ^ n"
proof -
  assume n: "n < 32"
  have "unat (of_nat (2 ^ n) :: u32) = take_bit 32 (2 ^ n)" by (simp only: unsigned_of_nat) simp
  also have "\<dots> = 2 ^ n" using n by (intro take_bit_nat_eq_self) (rule power_strict_increasing, simp_all)
  finally show ?thesis by simp
qed

lemma sint_small: "unat (x::u32) < 2 ^ 31 \<Longrightarrow> sint x = int (unat x)"
proof -
  assume "unat x < 2 ^ 31"
  then have "int (unat x) < int (2 ^ 31)" by (simp only: of_nat_less_iff)
  then have "signed_take_bit 31 (int (unat x)) = int (unat x)"
    using order.trans [OF _ of_nat_0_le_iff [where 'a = int], of "- (2 ^ 31)"]
    by (intro signed_take_bit_int_eq_self) (simp_all del: uint_nat of_nat_unat)
  then have "sint (word_of_nat (unat x) :: u32) = int (unat x)" by (simp only: signed_of_nat) simp
  then show ?thesis by simp
qed

lemma highest_bit: "0 < x \<Longrightarrow> \<exists>n. 2 ^ n \<le> x \<and> x < (2::nat) ^ Suc n"
  using ex_power_ivl1 [of 2 x] by auto

lemma bit_highest: "2 ^ n \<le> x \<Longrightarrow> x < (2::nat) ^ Suc n \<Longrightarrow> bit x n"
proof -
  assume "2 ^ n \<le> x" "x < (2::nat) ^ Suc n"
  then have "x div 2 ^ n = 1" by (intro div_nat_eqI) simp_all
  then show ?thesis by (simp add: bit_iff_odd)
qed

lemma bit_above: "x < (2::nat) ^ n \<Longrightarrow> n \<le> j \<Longrightarrow> \<not> bit x j"
  by (metis bit_iff_odd div_less even_zero order_less_le_trans one_less_numeral_iff power_increasing semiring_norm(76) less_imp_le)

lemma is_pow_of_2_iff:
  assumes "x \<noteq> 0" "2 ^ n \<le> unat x" "unat x < 2 ^ Suc n"
  shows "is_pow_of_2 x \<longleftrightarrow> unat x = 2 ^ n"
proof
  assume p: "is_pow_of_2 x"
  have u: "unat (x - 1) = unat x - 1" using assms(1) by (simp add: unat_minus_one)
  show "unat x = 2 ^ n"
  proof (rule ccontr)
    assume "unat x \<noteq> 2 ^ n"
    with assms u have "2 ^ n \<le> unat (x - 1)" "unat (x - 1) < 2 ^ Suc n" by auto
    then have "bit (unat (x - 1)) n" "bit (unat x) n" using assms by (auto intro: bit_highest)
    then have "bit (x AND (x - 1)) n" by (auto simp: bit_and_iff bit_unsigned_iff)
    with p show False by (simp add: is_pow_of_2_def)
  qed
next
  assume e: "unat x = 2 ^ n"
  then have "(2::nat) ^ n < 2 ^ 32" using unsigned_less [of x, where 'a = nat] by (simp del: numeral_less_iff)
  then have n: "n < 32" by (rule power_less_imp_less_exp [rotated]) simp
  have "unat (2 ^ n :: u32) = 2 ^ n" using n by (rule unat_pow2)
  with e have "unat x = unat (push_bit n 1 :: u32)" by simp
  then have "x = push_bit n 1" by (rule unsigned_word_eqI)
  then have "x AND (x - 1) = push_bit n 1 AND mask n" by (simp add: mask_eq_exp_minus_1)
  also have "\<dots> = 0" by (rule bit_eqI) (auto simp: bit_simps)
  finally show "is_pow_of_2 x" by (simp add: is_pow_of_2_def)
qed

definition smear :: "nat \<Rightarrow> u32 \<Rightarrow> u32 \<Rightarrow> bool" where
  "smear w x y \<longleftrightarrow> (\<forall>k. bit y k \<longleftrightarrow> (\<exists>j. k \<le> j \<and> j < k + w \<and> bit x j))"

lemma smear_step: "smear w x y \<Longrightarrow> smear (2 * w) x (y OR drop_bit w y)"
proof -
  assume s: "smear w x y"
  have "(\<exists>j. k \<le> j \<and> j < k + 2 * w \<and> bit x j) \<longleftrightarrow>
      (\<exists>j. k \<le> j \<and> j < k + w \<and> bit x j) \<or> (\<exists>j. w + k \<le> j \<and> j < w + k + w \<and> bit x j)" for k
  proof -
    have "k \<le> j \<and> j < k + 2 * w \<longleftrightarrow> k \<le> j \<and> j < k + w \<or> w + k \<le> j \<and> j < w + k + w" for j by auto
    then show ?thesis by blast
  qed
  with s show ?thesis by (simp add: smear_def bit_or_iff bit_drop_bit_eq)
qed

lemma next_pow_of_2_spec:
  assumes "0 < unat s" "unat s \<le> 2 ^ 30"
  shows "\<exists>k \<le> 30. unat (next_pow_of_2 s) = 2 ^ k \<and> unat s \<le> 2 ^ k \<and> 2 ^ k < 2 * unat s"
proof -
  obtain n where n: "2 ^ n \<le> unat s" "unat s < 2 ^ Suc n" using highest_bit [OF assms(1)] by auto
  have s0: "s \<noteq> 0" using assms(1) by auto
  show ?thesis
  proof (cases "unat s = 2 ^ n")
    case True
    then have "next_pow_of_2 s = s" using is_pow_of_2_iff [OF s0 n] by (simp add: next_pow_of_2_def)
    moreover have "n \<le> 30" using True assms(2) power_increasing_iff [of "2::nat" n 30] by simp
    ultimately show ?thesis using True by auto
  next
    case False
    then have np: "\<not> is_pow_of_2 s" using is_pow_of_2_iff [OF s0 n] by simp
    have "(2::nat) ^ n < 2 ^ 30" using n(1) False assms(2) by linarith
    then have n30: "Suc n \<le> 30" using power_strict_increasing_iff [of "2::nat" n 30] by simp
    define y where "y = (let x = s OR drop_bit 1 s; x = x OR drop_bit 2 x; x = x OR drop_bit 4 x;
       x = x OR drop_bit 8 x in x OR drop_bit 16 x)"
    have "smear 1 s s" by (auto simp: smear_def) (metis le_neq_implies_less less_Suc_eq_le not_less_eq)
    from smear_step [OF smear_step [OF smear_step [OF smear_step [OF smear_step [OF this]]]]]
    have y: "smear 32 s y" by (simp add: y_def)
    have "y = mask (Suc n)"
    proof (rule bit_word_eqI)
      fix k assume "k < LENGTH(32)"
      have b: "bit s n" "\<And>j. bit s j \<Longrightarrow> j \<le> n"
        using bit_highest [OF n] bit_above [OF n(2)] by (auto simp: bit_unsigned_iff) (metis not_less_eq_eq)
      have "bit y k \<longleftrightarrow> (\<exists>j. k \<le> j \<and> j < k + 32 \<and> bit s j)" using y by (simp add: smear_def)
      also have "\<dots> \<longleftrightarrow> k \<le> n"
        using b n30 by (auto intro!: exI [of _ n] intro: order.trans)
      finally show "bit y k = bit (mask (Suc n) :: u32) k" using n30 by (auto simp: bit_mask_iff less_Suc_eq_le)
    qed
    moreover have "next_pow_of_2 s = y + 1"
      using np unfolding next_pow_of_2_def y_def Let_def by simp
    ultimately have "next_pow_of_2 s = 2 ^ Suc n" by (simp add: mask_eq_exp_minus_1)
    then have "unat (next_pow_of_2 s) = 2 ^ Suc n"
      using n30 unat_pow2 [of "Suc n"] by simp
    then show ?thesis using n30 n False by (intro exI [of _ "Suc n"]) auto
  qed
qed

section \<open>Pages\<close>

lemma page_block_inj: "l \<le> L \<Longrightarrow> m \<le> L \<Longrightarrow> page_block L (l, p) = page_block L (m, q) \<Longrightarrow> (l, p) = (m, q)"
  using pow2_len_inj [of m L l] by (auto simp: page_block_def)

lemma block_pos [simp]: "0 < snd (page_block L x)"
  by (simp add: page_block_def)

lemma desc_pages: "(m, q) \<in> desc l p \<Longrightarrow> m \<le> L \<Longrightarrow> pages (page_block L (m, q)) \<subseteq> pages (page_block L (l, p))"
proof -
  assume d: "(m, q) \<in> desc l p" and m: "m \<le> L"
  have l: "l \<le> m" and p: "p = q div 2 ^ (m - l)" using d by (auto simp: desc_def)
  have e: "len_of L l = 2 ^ (m - l) * len_of L m" using l m by (simp flip: power_add)
  have "p * 2 ^ (m - l) \<le> q" "q + 1 \<le> p * 2 ^ (m - l) + 2 ^ (m - l)"
    unfolding p using dividend_less_div_times [of "2 ^ (m - l)" q] by (auto simp: Suc_le_eq)
  then have "p * 2 ^ (m - l) * len_of L m \<le> q * len_of L m"
      "(q + 1) * len_of L m \<le> (p * 2 ^ (m - l) + 2 ^ (m - l)) * len_of L m" by (intro mult_right_mono; simp)+
  then show ?thesis by (auto simp: pages_def page_block_def e algebra_simps)
qed

lemma overlap_desc:
  assumes "l \<le> m" "m \<le> L" "pages (page_block L (l, p)) \<inter> pages (page_block L (m, q)) \<noteq> {}"
  shows "(m, q) \<in> desc l p"
proof (rule ccontr)
  assume n: "(m, q) \<notin> desc l p"
  define p' where "p' = q div 2 ^ (m - l)"
  have "(m, q) \<in> desc l p'" using assms(1) by (simp add: desc_def p'_def)
  from desc_pages [OF this assms(2)] assms(3)
  obtain x where x: "x \<in> pages (page_block L (l, p))" "x \<in> pages (page_block L (l, p'))" by auto
  then have "x div len_of L l = p" "x div len_of L l = p'"
    by (auto simp: pages_def page_block_def mult.commute intro!: div_nat_eqI)
  with n \<open>(m, q) \<in> desc l p'\<close> show False by simp
qed

lemma used_disjoint:
  assumes "(l, p) \<in> used L t" "(m, q) \<in> used L t" "(l, p) \<noteq> (m, q)"
  shows "pages (page_block L (l, p)) \<inter> pages (page_block L (m, q)) = {}"
  using assms
proof (induction l m arbitrary: p q rule: linorder_wlog)
  case (le l m)
  then show ?case using overlap_desc [of l m L p q] closed_no_desc [of t m q l p]
    by (auto simp: used_def)
next
  case (sym l m)
  then show ?case by (metis inf_commute)
qed

lemma nonfree_has_used:
  assumes inv: "tree_inv L t" and "l \<le> L" "p < 2 ^ l" "live t l p" "nd t l p \<noteq> NODE_UNUSED"
  shows "\<exists>x \<in> used L t. x \<in> desc l p"
  using assms(2-5)
proof (induction "L - l" arbitrary: l p)
  case 0
  have "node_ok L t l p" using 0 by (intro ok_exceptD [OF inv]) auto
  with 0 have "nd t l p = NODE_USED" by (cases "nd t l p") (auto simp: node_ok_def)
  with 0 have "(l, p) \<in> used L t" by (simp add: used_def)
  then show ?case by (intro bexI [of _ "(l, p)"]) simp_all
next
  case (Suc n)
  have ok: "node_ok L t l p" using Suc.prems by (intro ok_exceptD [OF inv]) auto
  show ?case
  proof (cases "nd t l p = NODE_USED")
    case True
    with Suc.prems have "(l, p) \<in> used L t" by (simp add: used_def)
    then show ?thesis by (intro bexI [of _ "(l, p)"]) simp_all
  next
    case False
    with Suc.prems have op: "opened (nd t l p)" by (cases "nd t l p") auto
    with ok have "nd t (Suc l) (2 * p) \<noteq> NODE_UNUSED \<or> nd t (Suc l) (Suc (2 * p)) \<noteq> NODE_UNUSED"
      by (auto simp: node_ok_def)
    then obtain c where c: "c div 2 = p" "nd t (Suc l) c \<noteq> NODE_UNUSED"
      by (elim disjE) (rule that [of "2 * p"], auto intro: that [of "Suc (2 * p)"])
    have "n = L - Suc l" "Suc l \<le> L" "c < 2 ^ Suc l" "live t (Suc l) c"
      using Suc.hyps(2) Suc.prems c op by auto
    with Suc.hyps(1) c obtain x where "x \<in> used L t" "x \<in> desc (Suc l) c" by blast
    moreover have "desc (Suc l) c \<subseteq> desc l p" using desc_parent [of l c] c(1) by auto
    ultimately show ?thesis by auto
  qed
qed

lemma deepest_live:
  "q < 2 ^ K \<Longrightarrow> \<exists>m \<le> K. live t m (q div 2 ^ (K - m)) \<and> (m = K \<or> \<not> opened (nd t m (q div 2 ^ (K - m))))"
proof (induction K arbitrary: q)
  case (Suc K)
  from Suc.IH [OF half_less [OF Suc.prems]] obtain m where
    m: "m \<le> K" "live t m (q div 2 div 2 ^ (K - m))" "m = K \<or> \<not> opened (nd t m (q div 2 div 2 ^ (K - m)))"
    by auto
  have e: "q div 2 div 2 ^ (K - m) = q div 2 ^ (Suc K - m)"
    using m(1) by (simp add: Suc_diff_le div_mult2_eq)
  show ?case
  proof (cases "opened (nd t m (q div 2 div 2 ^ (K - m)))")
    case True
    with m have "live t (Suc K) q" by auto
    then show ?thesis by (intro exI [of _ "Suc K"]) simp
  next
    case False
    with m e show ?thesis by (intro exI [of _ m]) simp
  qed
qed auto

text \<open>When the search has passed everything, each block of the wanted size meets a used one.\<close>

lemma exhausted:
  assumes inv: "tree_inv L t" and "K \<le> L" "frontier L K t (2 ^ L)" "q < 2 ^ K"
  shows "\<exists>x \<in> used L t. pages (page_block L x) \<inter> pages (page_block L (K, q)) \<noteq> {}"
proof -
  obtain m where m: "m \<le> K" "live t m (q div 2 ^ (K - m))"
      "m = K \<or> \<not> opened (nd t m (q div 2 ^ (K - m)))" using deepest_live [OF assms(4), of t] by auto
  define p where "p = q div 2 ^ (K - m)"
  have p: "p < 2 ^ m" using div_pow2_less [OF m(1) assms(4)] by (simp add: p_def)
  have "p * len_of L m < 2 ^ L" using p m(1) assms(2) by (intro scale_less) auto
  then have nf: "nd t m p \<noteq> NODE_UNUSED"
    using assms(3) m(1,2) p unfolding frontier_def p_def by (metis linorder_not_less)
  have d: "(K, q) \<in> desc m p" using m(1) by (simp add: desc_def p_def)
  from nonfree_has_used [OF inv _ p] m assms(2) nf obtain x where
    x: "x \<in> used L t" "x \<in> desc m p" by (auto simp: p_def)
  have xL: "fst x \<le> L" using x(1) by (auto simp: used_def)
  show ?thesis
  proof (cases "m = K")
    case True
    then have "pages (page_block L x) \<subseteq> pages (page_block L (K, q))"
      using desc_pages [of "fst x" "snd x" m p L] x(2) xL d by (auto simp: desc_def)
    moreover have "fst (page_block L x) \<in> pages (page_block L x)" by (simp add: pages_def)
    ultimately show ?thesis using x(1) by blast
  next
    case False
    with m(3) nf have "nd t m p = NODE_USED" by (cases "nd t m p") (auto simp: p_def)
    then have "(m, p) \<in> used L t" using m(1,2) p assms(2) by (simp add: used_def p_def)
    moreover have "pages (page_block L (K, q)) \<subseteq> pages (page_block L (m, p))"
      by (rule desc_pages [OF d assms(2)])
    moreover have "fst (page_block L (K, q)) \<in> pages (page_block L (K, q))" by (simp add: pages_def)
    ultimately show ?thesis by blast
  qed
qed

section \<open>The allocator\<close>

definition buddy_inv :: "buddy \<Rightarrow> bool" where
  "buddy_inv b \<longleftrightarrow> level b \<le> 30 \<and> tree_inv (level b) (tree b)"

definition blocks :: "buddy \<Rightarrow> block set" where
  "blocks b = page_block (level b) ` used (level b) (tree b)"

text \<open>A request is served by the least power of two of pages that holds it.\<close>

definition request_ok :: "u32 \<Rightarrow> bool" where
  "request_ok s \<longleftrightarrow> unat s \<le> 2 ^ 30"

definition fits :: "u32 \<Rightarrow> nat \<Rightarrow> bool" where
  "fits s n \<longleftrightarrow> (\<exists>k. n = 2 ^ k) \<and> unat s \<le> n \<and> (n = 1 \<or> n < 2 * unat s)"

lemma pow2_unique:
  assumes "x \<le> 2 ^ k" "(2::nat) ^ k < 2 * x" "x \<le> 2 ^ j" "(2::nat) ^ j < 2 * x"
  shows "k = j"
proof -
  have "(2::nat) ^ k < 2 ^ Suc j" "(2::nat) ^ j < 2 ^ Suc k" using assms by auto
  then have "k < Suc j" "j < Suc k" by (simp_all only: power_strict_increasing_iff [of "2::nat"] one_less_numeral_iff semiring_norm)
  then show ?thesis by simp
qed

lemma fits_unique: "fits s n \<Longrightarrow> fits s m \<Longrightarrow> n = m"
  unfolding fits_def by (elim conjE exE disjE) (auto dest: pow2_unique [of "unat s"])

lemma inv_fresh:
  assumes "level b \<le> 30" "tree b = replicate (2 ^ Suc (level b) - 1) NODE_UNUSED"
  shows "buddy_inv b" "blocks b = {}"
proof -
  have len: "tree_len (level b) (tree b)" using assms(2) by (simp add: tree_len_def)
  have "nd (tree b) m q = NODE_UNUSED" if "m \<le> level b" "q < 2 ^ m" for m q
    using tree_len_idx [OF len that(2,1)] assms(2) by (simp add: nd_def)
  then have "tree_inv (level b) (tree b)" "used (level b) (tree b) = {}"
    using len by (auto simp: ok_except_def node_ok_def used_def)
  with assms(1) show "buddy_inv b" "blocks b = {}" by (simp_all add: buddy_inv_def blocks_def)
qed

lemma inv_new:
  assumes "lvl \<le> 30"
  shows "buddy_inv (buddy_new lvl self)" "blocks (buddy_new lvl self) = {}"
  using assms by (auto simp: buddy_new_def mult.commute intro!: inv_fresh)

text \<open>The size the search looks for, by the level it is found at.\<close>

lemma request_level:
  assumes "request_ok s"
  shows "\<exists>k \<le> 30. (if s = 0 then 1 else sint (next_pow_of_2 s)) = int (2 ^ k) \<and> fits s (2 ^ k)"
proof (cases "s = 0")
  case True
  then show ?thesis by (intro exI [of _ 0]) (auto simp: fits_def intro: exI [of _ 0])
next
  case False
  then have "0 < unat s" by (simp add: unat_gt_0)
  from next_pow_of_2_spec [OF this] assms obtain k where
    k: "k \<le> 30" "unat (next_pow_of_2 s) = 2 ^ k" "unat s \<le> 2 ^ k" "2 ^ k < 2 * unat s"
    by (auto simp: request_ok_def)
  have "unat (next_pow_of_2 s) < 2 ^ 31"
    using k(1,2) power_strict_increasing [of k 31 "2::nat"] by simp
  then have "sint (next_pow_of_2 s) = int (unat (next_pow_of_2 s))"
    by (rule sint_small)
  with k(2) have "(if s = 0 then 1 else sint (next_pow_of_2 s)) = int (2 ^ k)" using False by simp
  moreover have "fits s (2 ^ k)" using k(3,4) by (auto simp: fits_def)
  ultimately show ?thesis using k(1) by blast
qed

lemma alloc_outcome:
  assumes inv: "buddy_inv b" and s: "request_ok s"
  shows "\<exists>off b' n. buddy_alloc b s = Some (Inr (off, b')) \<and> fits s n \<and> buddy_inv b' \<and> level b' = level b \<and> base b' = base b \<and>
    (case off of
       None \<Rightarrow> b' = b \<and> (2 ^ level b < n \<or> (\<exists>K \<le> level b. n = len_of (level b) K \<and> frontier (level b) K (tree b) (2 ^ level b)))
     | Some off \<Rightarrow> \<exists>K \<le> level b. \<exists>q < 2 ^ K. n = len_of (level b) K \<and> off = q * n \<and>
         (K, q) \<notin> used (level b) (tree b) \<and> used (level b) (tree b') = insert (K, q) (used (level b) (tree b)))"
proof -
  define L t where "L = level b" and "t = tree b"
  have ti: "tree_inv L t" using inv by (simp add: buddy_inv_def L_def t_def)
  obtain k where k: "(if s = 0 then 1 else sint (next_pow_of_2 s)) = int (2 ^ k)" "fits s (2 ^ k)"
    using request_level [OF s] by auto
  show ?thesis
  proof (cases "k \<le> L")
    case False
    then have "(2::nat) ^ L < 2 ^ k" by simp
    then have "int (2 ^ k) > int (2 ^ L)" by (simp only: of_nat_less_iff)
    then have "buddy_alloc b s = Some (Inr (None, b))"
      using k(1) by (simp add: buddy_alloc_def L_def Let_def)
    then show ?thesis using k(2) inv \<open>2 ^ L < 2 ^ k\<close>
      by (intro exI [of _ None] exI [of _ b] exI [of _ "2 ^ k"]) (simp add: L_def)
  next
    case True
    define K where "K = L - k"
    have K: "K \<le> L" "L - K = k" using True by (simp_all add: K_def)
    have fr: "frontier L K t (0 * len_of L 0)" by (simp add: frontier_def)
    have "\<exists>r. buddy_alloc_loop ((L + 1) * 2 ^ L) L (int (len_of L K)) (search_state L t 0 0) = Some (Inr r) \<and>
        alloc_post L K t r"
      using K(1) by (intro search_correct [OF ti _ K(1) _ _ fr]) (auto simp: mult.commute intro: mult_le_mono)
    then obtain o' t' where r: "buddy_alloc_loop ((L + 1) * 2 ^ L) L (int (2 ^ k)) (t, 0, 0, 2 ^ L) = Some (Inr (o', t'))"
      and post: "alloc_post L K t (o', t')" by (auto simp: search_state_def K(2))
    have "\<not> int (2 ^ k) > int (2 ^ L)" using True by (simp only: of_nat_less_iff) simp
    then have run: "buddy_alloc b s = Some (Inr (o', b\<lparr>tree := t'\<rparr>))"
      using k(1) r by (simp add: buddy_alloc_def Let_def flip: L_def t_def)
    have "buddy_inv (b\<lparr>tree := t'\<rparr>)"
      using post inv by (auto simp: alloc_post_def buddy_inv_def L_def t_def split: option.splits)
    moreover have "case o' of None \<Rightarrow> t' = t \<and> frontier L K t (2 ^ L) | Some off \<Rightarrow> \<exists>q < 2 ^ K. off = q * 2 ^ k \<and>
        (K, q) \<notin> used L t \<and> used L t' = insert (K, q) (used L t)"
      using post by (simp add: alloc_post_def K(2) split: option.splits)
    ultimately show ?thesis using run k(2) K
      by (intro exI [of _ o'] exI [of _ "b\<lparr>tree := t'\<rparr>"] exI [of _ "2 ^ k"])
        (auto simp: L_def t_def split: option.splits)
  qed
qed

lemma blocks_insert:
  "used (level b) (tree b') = insert x (used (level b) (tree b)) \<Longrightarrow> level b' = level b \<Longrightarrow>
     blocks b' = insert (page_block (level b) x) (blocks b)"
  by (simp add: blocks_def)

lemma block_mem:
  "fst x \<le> level b \<Longrightarrow> page_block (level b) x \<in> blocks b \<longleftrightarrow> x \<in> used (level b) (tree b)"
proof -
  assume x: "fst x \<le> level b"
  have "x = y" if "y \<in> used (level b) (tree b)" "page_block (level b) x = page_block (level b) y" for y
    using that x page_block_inj [of "fst x" "level b" "fst y" "snd x" "snd y"] by (auto simp: used_def)
  then show ?thesis by (auto simp: blocks_def image_iff)
qed

lemma blocks_disjoint: "disjoint_blocks (blocks b)"
proof -
  have "pages (page_block L x) \<inter> pages (page_block L y) = {}"
    if "x \<in> used L t" "y \<in> used L t" "page_block L x \<noteq> page_block L y" for L t x y
    using that used_disjoint [of "fst x" "snd x" L t "fst y" "snd y"] by auto
  then show ?thesis by (auto simp: disjoint_blocks_def blocks_def)
qed

lemma free_outcome:
  assumes inv: "buddy_inv b" and mem: "(off, n) \<in> blocks b"
  shows "\<exists>b'. buddy_free b off = Some (Inr b') \<and> buddy_inv b' \<and> level b' = level b \<and> base b' = base b \<and>
    blocks b' = blocks b - {(off, n)} \<and> buddy_size b off = Some (Inr n)"
proof -
  define L t where "L = level b" and "t = tree b"
  have ti: "tree_inv L t" using inv by (simp add: buddy_inv_def L_def t_def)
  from mem obtain m q where x: "(m, q) \<in> used L t" "off = q * len_of L m" "n = len_of L m"
    by (auto simp: blocks_def page_block_def L_def t_def)
  then have m: "m \<le> L" "q < 2 ^ m" "live t m q" "nd t m q = NODE_USED" by (auto simp: used_def)
  have off: "off < 2 ^ L" using scale_less [OF m(2,1)] x(2) by simp
  have "q div 2 ^ m = 0" using m(2) by simp
  with find_used [OF ok_except_len [OF ti] x(1), of 0 "L + 1"] x(2,3)
  have f: "buddy_find (L + 1) t off 0 (2 ^ L) 0 = Some (Inr (idx m q, n))" by simp
  from combine_ok [OF ti m(1,2,3)] obtain t' where
    t': "combine t (idx m q) = Inr t'" "tree_inv L t'" "used L t' = used L t - desc m q" by auto
  have "used L t \<inter> desc m q = {(m, q)}"
    using x(1) closed_no_desc [of t _ _ m q] m(4) by (auto simp: used_def)
  then have u: "used L t' = used L t - {(m, q)}" using t'(3) by auto
  have "blocks (b\<lparr>tree := t'\<rparr>) = blocks b - {(off, n)}"
  proof -
    have "y = (m, q)" if "y \<in> used L t" "page_block L y = page_block L (m, q)" for y
      using that m(1) page_block_inj [of "fst y" L m "snd y" q] by (auto simp: used_def)
    moreover have "page_block L (m, q) = (off, n)" using x by (simp add: page_block_def)
    ultimately show ?thesis using u by (fastforce simp: blocks_def L_def t_def)
  qed
  then show ?thesis using f t' off inv
    by (intro exI [of _ "b\<lparr>tree := t'\<rparr>"]) (auto simp: buddy_free_def buddy_size_def buddy_inv_def L_def t_def)
qed

lemma free_refused:
  assumes inv: "buddy_inv b" and "\<And>n. (off, n) \<notin> blocks b"
  shows "buddy_free b off = Some (Inl AssertFail)" "buddy_size b off = Some (Inl AssertFail)"
proof -
  have no: "q * len_of (level b) m \<noteq> off" if "(m, q) \<in> used (level b) (tree b)" for m q
    using assms(2) that by (force simp: blocks_def page_block_def)
  have "buddy_find (level b + 1) (tree b) off 0 (2 ^ level b) 0 = Some (Inl AssertFail)"
    using inv find_unused [of "level b" "tree b" off 0 0 "level b + 1"] no by (auto simp: buddy_inv_def)
  then show "buddy_free b off = Some (Inl AssertFail)" "buddy_size b off = Some (Inl AssertFail)"
    by (simp_all add: buddy_free_def buddy_size_def)
qed

interpretation bd: block_alloc buddy_inv blocks request_ok fits buddy_alloc buddy_free
proof (unfold_locales, goal_cases)
  case (1 b)
  show ?case by (rule blocks_disjoint)
next
  case (2 b blk)
  then show ?case by (auto simp: blocks_def page_block_def)
next
  case (3 b s)
  then show ?case using alloc_outcome by blast
next
  case (4 b s off b')
  from alloc_outcome [OF 4(1,2)] 4(3) obtain n K q where
    n: "fits s n" "buddy_inv b'" "level b' = level b" "K \<le> level b" "n = len_of (level b) K" "off = q * n"
      "(K, q) \<notin> used (level b) (tree b)" "used (level b) (tree b') = insert (K, q) (used (level b) (tree b))"
    by auto
  have "page_block (level b) (K, q) = (off, n)" using n by (simp add: page_block_def)
  with n block_mem [of "(K, q)" b] blocks_insert [OF n(8,3)] show ?case by auto
next
  case (5 b s b')
  from alloc_outcome [OF 5(1,2)] 5(3) show ?case by auto
next
  case (6 b off n)
  from free_outcome [OF this] show ?case by blast
qed

lemma alloc_block:
  assumes "buddy_inv b" "request_ok s" "buddy_alloc b s = Some (Inr (Some o', b'))"
  shows "\<exists>n. fits s n \<and> n dvd o' \<and> o' + n \<le> 2 ^ level b \<and>
    (\<forall>blk \<in> blocks b. pages (o', n) \<inter> pages blk = {}) \<and> blocks b' = insert (o', n) (blocks b)"
proof -
  from alloc_outcome [OF assms(1,2)] assms(3) obtain n K q where
    K: "fits s n" "K \<le> level b" "q < 2 ^ K" "n = len_of (level b) K" "o' = q * n" by auto
  from bd.alloc_some [OF assms] bd.alloc_fresh [OF assms] obtain m m' where
    m: "fits s m" "blocks b' = insert (o', m) (blocks b)" "fits s m'"
      "\<forall>blk \<in> blocks b. pages (o', m') \<inter> pages blk = {}" by auto
  have "m = n" "m' = n" using fits_unique K(1) m by blast+
  moreover have "(q + 1) * len_of (level b) K \<le> 2 ^ K * len_of (level b) K"
    using K(3) by (intro mult_right_mono) auto
  then have "o' + n \<le> 2 ^ level b" using K by (simp add: algebra_simps flip: power_add)
  ultimately show ?thesis using m K by auto
qed

lemma no_block:
  assumes "buddy_inv b" "request_ok s" "buddy_alloc b s = Some (Inr (None, b'))" "fits s n"
    and o: "n dvd o'" "o' + n \<le> 2 ^ level b"
  shows "\<exists>blk \<in> blocks b. pages (o', n) \<inter> pages blk \<noteq> {}"
proof -
  from alloc_outcome [OF assms(1,2)] assms(3) obtain n' where n': "fits s n'" "2 ^ level b < n' \<or>
      (\<exists>K \<le> level b. n' = len_of (level b) K \<and> frontier (level b) K (tree b) (2 ^ level b))" by auto
  have "n' = n" using fits_unique n'(1) assms(4) by blast
  with n'(2) o(2) obtain K where
    K: "K \<le> level b" "n = len_of (level b) K" "frontier (level b) K (tree b) (2 ^ level b)" by auto
  from o(1) obtain q where q: "o' = q * n" by (metis dvdE mult.commute)
  have "(q + 1) * len_of (level b) K \<le> 2 ^ K * len_of (level b) K"
    using o(2) K q by (simp flip: power_add)
  then have "q < 2 ^ K" by (simp only: mult_le_cancel2) auto
  moreover have "page_block (level b) (K, q) = (o', n)" using q K by (simp add: page_block_def)
  ultimately show ?thesis using exhausted [OF _ K(1,3), of q] assms(1)
    by (auto simp: buddy_inv_def blocks_def inf_commute)
qed

text \<open>The allocator with two pages after an allocation of one.\<close>

definition small_buddy :: buddy where
  "small_buddy = \<lparr>level = 1, base = 0, tree = [NODE_SPLIT, NODE_USED, NODE_UNUSED]\<rparr>"

lemma small_run:
  "buddy_alloc \<lparr>level = 1, base = 0, tree = [NODE_UNUSED, NODE_UNUSED, NODE_UNUSED]\<rparr> 1 = Some (Inr (Some 0, small_buddy))"
  by code_simp

lemma small_inv: "buddy_inv small_buddy" "blocks small_buddy = {(0, 1)}"
proof -
  let ?b = "\<lparr>level = 1, base = 0, tree = [NODE_UNUSED, NODE_UNUSED, NODE_UNUSED]\<rparr>"
  have i: "buddy_inv ?b" "blocks ?b = {}" by (rule inv_fresh; simp add: numeral_eq_Suc)+
  have r: "request_ok 1" by (simp add: request_ok_def)
  show "buddy_inv small_buddy" by (rule bd.alloc_inv [OF i(1) r small_run])
  from bd.alloc_some [OF i(1) r small_run] i(2) obtain n where "fits 1 n" "blocks small_buddy = {(0, n)}"
    by auto
  moreover have "fits 1 1" by (auto simp: fits_def intro: exI [of _ 0])
  then have "n = 1" using fits_unique \<open>fits 1 n\<close> by blast
  ultimately show "blocks small_buddy = {(0, 1)}" by simp
qed

section \<open>Correctness\<close>

text \<open>
  C24. \<open>buddy_alloc\<close> always returns, without an access outside the tree. When it returns a page, the
  block there is the least power of two of pages that holds the request, it is aligned to its
  length, lies inside the managed area, overlaps no block that was live, and is the only change to
  the live blocks.
\<close>

theorem buddy_alloc_sound:
  assumes "buddy_inv b" "request_ok s"
  shows "\<exists>off b'. buddy_alloc b s = Some (Inr (off, b')) \<and> buddy_inv b' \<and>
    (case off of
       None \<Rightarrow> b' = b
     | Some o' \<Rightarrow> \<exists>n. fits s n \<and> n dvd o' \<and> o' + n \<le> 2 ^ level b \<and>
         (\<forall>blk \<in> blocks b. pages (o', n) \<inter> pages blk = {}) \<and> blocks b' = insert (o', n) (blocks b))"
proof -
  obtain off b' where r: "buddy_alloc b s = Some (Inr (off, b'))" using bd.alloc_total [OF assms] by auto
  show ?thesis
  proof (cases off)
    case None
    with r bd.alloc_none [OF assms] assms(1) show ?thesis by auto
  next
    case (Some o')
    then show ?thesis using r bd.alloc_inv [OF assms r] alloc_block [OF assms, of o' b'] by auto
  qed
qed

theorem buddy_alloc_sound_witness:
  "buddy_inv (buddy_new 2 0) \<and> request_ok 3 \<and>
   (\<exists>off b'. buddy_alloc (buddy_new 2 0) 3 = Some (Inr (off, b')) \<and> buddy_inv b' \<and>
    (case off of
       None \<Rightarrow> b' = buddy_new 2 0
     | Some o' \<Rightarrow> \<exists>n. fits 3 n \<and> n dvd o' \<and> o' + n \<le> 2 ^ level (buddy_new 2 0) \<and>
         (\<forall>blk \<in> blocks (buddy_new 2 0). pages (o', n) \<inter> pages blk = {}) \<and>
         blocks b' = insert (o', n) (blocks (buddy_new 2 0))))"
proof -
  have "buddy_inv (buddy_new 2 0)" "request_ok 3" using inv_new by (simp_all add: request_ok_def)
  with buddy_alloc_sound [OF this] show ?thesis by blast
qed

text \<open>
  C26. The first-fit search is complete: \<open>buddy_alloc\<close> returns \<open>-1\<close> exactly when every aligned
  block of the rounded size inside the area meets a live block.
\<close>

theorem buddy_alloc_complete:
  assumes "buddy_inv b" "request_ok s" "fits s n"
  shows "buddy_alloc b s = Some (Inr (None, b)) \<longleftrightarrow>
    (\<forall>o'. n dvd o' \<longrightarrow> o' + n \<le> 2 ^ level b \<longrightarrow> (\<exists>blk \<in> blocks b. pages (o', n) \<inter> pages blk \<noteq> {}))"
proof -
  obtain off b' where r: "buddy_alloc b s = Some (Inr (off, b'))" using bd.alloc_total [OF assms(1,2)] by auto
  show ?thesis
  proof (cases off)
    case None
    with bd.alloc_none [OF assms(1,2)] r no_block [OF assms(1,2) _ assms(3)] show ?thesis by auto
  next
    case (Some o')
    with alloc_block [OF assms(1,2)] r obtain m where "fits s m" "m dvd o'" "o' + m \<le> 2 ^ level b"
      "\<forall>blk \<in> blocks b. pages (o', m) \<inter> pages blk = {}" by auto
    moreover from this have "m = n" using fits_unique assms(3) by blast
    ultimately show ?thesis using r Some by auto
  qed
qed

theorem buddy_alloc_complete_witness:
  "buddy_inv small_buddy \<and> request_ok 2 \<and> fits 2 2 \<and> buddy_alloc small_buddy 2 = Some (Inr (None, small_buddy))"
proof -
  note i = small_inv
  have r: "request_ok 2" "fits 2 2" by (auto simp: request_ok_def fits_def intro: exI [of _ 1])
  have "\<exists>blk \<in> blocks small_buddy. pages (o', 2) \<inter> pages blk \<noteq> {}" if "o' + 2 \<le> 2 ^ level small_buddy" for o'
    using that i by (auto simp: pages_def small_buddy_def)
  with buddy_alloc_complete [OF i(1) r] i(1) r show ?thesis by blast
qed

text \<open>
  C25. \<open>buddy_free\<close> releases exactly the block that starts at the offset and \<open>buddy_size\<close> reports
  its length; an offset where no live block starts stops at an assertion in both.
\<close>

theorem buddy_free_exact:
  assumes "buddy_inv b"
  shows "(\<forall>n. (off, n) \<in> blocks b \<longrightarrow> buddy_size b off = Some (Inr n) \<and>
      (\<exists>b'. buddy_free b off = Some (Inr b') \<and> buddy_inv b' \<and> blocks b' = blocks b - {(off, n)})) \<and>
    ((\<forall>n. (off, n) \<notin> blocks b) \<longrightarrow>
      buddy_free b off = Some (Inl AssertFail) \<and> buddy_size b off = Some (Inl AssertFail))"
  using free_outcome [OF assms, of off] free_refused [OF assms, of off] by blast

theorem buddy_free_exact_witness:
  "buddy_inv small_buddy \<and> (0, 1) \<in> blocks small_buddy \<and>
   (\<exists>b'. buddy_free small_buddy 0 = Some (Inr b') \<and> blocks b' = {}) \<and>
   (\<forall>n. (1, n) \<notin> blocks small_buddy) \<and> buddy_free small_buddy 1 = Some (Inl AssertFail)"
proof -
  note i = small_inv
  from buddy_free_exact [OF i(1), of 0] buddy_free_exact [OF i(1), of 1] i show ?thesis by auto
qed

text \<open>
  Neighbouring free blocks are always merged: once every allocation has been released, in
  whatever order, the tree is back to one free block and serves a request for the whole area at
  page 0.
\<close>

theorem buddy_coalesces:
  assumes "buddy_inv b" "blocks b = {}"
  shows "tree b ! 0 = NODE_UNUSED \<and>
    (\<exists>b'. buddy_alloc b (2 ^ level b) = Some (Inr (Some 0, b')) \<and> blocks b' = {(0, 2 ^ level b)})"
proof -
  have u: "unat (2 ^ level b :: u32) = 2 ^ level b" using assms(1) by (intro unat_pow2) (simp add: buddy_inv_def)
  have rq: "request_ok (2 ^ level b)"
    using assms(1) power_increasing [of "level b" 30 "2::nat"] by (simp add: buddy_inv_def request_ok_def u)
  have ft: "fits (2 ^ level b) (2 ^ level b)" by (auto simp: fits_def u)
  have "used (level b) (tree b) = {}" using assms(2) by (simp add: blocks_def)
  then have "tree b ! 0 = NODE_UNUSED"
    using nonfree_has_used [of "level b" "tree b" 0 0] assms(1) by (auto simp: buddy_inv_def nd_def)
  moreover obtain off b' where r: "buddy_alloc b (2 ^ level b) = Some (Inr (off, b'))"
    using bd.alloc_total [OF assms(1) rq] by auto
  moreover have "off \<noteq> None" using r no_block [OF assms(1) rq _ ft, of b' 0] assms(2) by auto
  then obtain o' where o': "off = Some o'" by auto
  with alloc_block [OF assms(1) rq] r assms(2) obtain n where
    n: "fits (2 ^ level b) n" "o' + n \<le> 2 ^ level b" "blocks b' = {(o', n)}" by auto
  moreover have "n = 2 ^ level b" using fits_unique n(1) ft by blast
  ultimately show ?thesis using o' by auto
qed

theorem buddy_coalesces_witness:
  "buddy_inv (buddy_new 2 0) \<and> blocks (buddy_new 2 0) = {} \<and>
   (\<exists>b'. buddy_alloc (buddy_new 2 0) (2 ^ level (buddy_new 2 0)) = Some (Inr (Some 0, b')) \<and>
      blocks b' = {(0, 2 ^ level (buddy_new 2 0))})"
proof -
  have "buddy_inv (buddy_new 2 0)" "blocks (buddy_new 2 0) = {}" using inv_new by simp_all
  with buddy_coalesces [OF this] show ?thesis by blast
qed

end
