(* ===== verification/Memory_Map.thy ===== *)
theory Memory_Map
  imports Bmbt_Prelude
begin

text \<open>
  The guest address map: memory regions, the sorted segment table of an address space, the
  programmable attribute map of the north bridge and the look-ups with their caches
  (\<open>qemu/memory.c\<close>, \<open>hw/pci-host/pam.c\<close>, the PAM part of \<open>hw/pci-host/i440fx.c\<close>).

  Addresses and lengths are natural numbers: every region of the machine ends below \<open>2 ^ 64\<close>, so
  that no sum of the look-up code wraps. Pointers to regions are values of \<open>mr_ptr\<close>; the structs
  they point to are in the store \<open>mrs\<close>, because the attribute map changes regions through a
  pointer. The read and write callbacks of the device models work on one device state of type
  \<open>'d\<close>, a parameter of the development.
\<close>

section \<open>Data\<close>

type_synonym hwaddr = nat

datatype device_endian = DEVICE_NATIVE_ENDIAN | DEVICE_BIG_ENDIAN | DEVICE_LITTLE_ENDIAN

record 'd mr_ops =
  op_read :: "('d \<Rightarrow> hwaddr \<Rightarrow> nat \<Rightarrow> (u64 \<times> 'd) res) option"
  op_write :: "('d \<Rightarrow> hwaddr \<Rightarrow> u64 \<Rightarrow> nat \<Rightarrow> 'd res) option"
  endianness :: device_endian
  valid_min_access_size :: nat
  valid_max_access_size :: nat
  valid_unaligned :: bool
  valid_accepts :: "('d \<Rightarrow> hwaddr \<Rightarrow> nat \<Rightarrow> bool \<Rightarrow> bool) option"
  impl_min_access_size :: nat
  impl_max_access_size :: nat
  impl_unaligned :: bool

record ram_block =
  host :: nat
  rb_offset :: nat
  max_length :: nat

record 'd memory_region =
  ram :: bool
  readonly :: bool
  ram_block :: "ram_block option"
  ops :: "'d mr_ops option"
  mr_offset :: hwaddr
  mr_size :: nat
  mr_name :: string

text \<open>The regions of \<open>ram_list.blocks\<close>, the static \<open>low_vga\<close> and the regions of the devices.\<close>

datatype mr_ptr = Ram_Mr nat | Low_Vga | Dev_Mr nat

record 'd mem_state =
  mrs :: "mr_ptr \<Rightarrow> 'd memory_region"
  mem_segs :: "mr_ptr list"
  io_segs :: "mr_ptr list"
  cache :: "mr_ptr option"
  cache1 :: "mr_ptr option"
  cache2 :: "mr_ptr option"
  smram_region_enable :: bool
  smram_enable :: bool
  pam_current :: "nat list"
  guest_ram_num :: nat
  hostmem :: "nat \<Rightarrow> u8"
  dirtied :: "(nat \<times> nat) list"
  dev :: "'d"

definition MAX_SEGMENTS_IN_AS :: nat where "MAX_SEGMENTS_IN_AS = 100"

abbreviation (input) SMRAM_C_BASE :: hwaddr where "SMRAM_C_BASE \<equiv> 0xa0000"
abbreviation (input) SMRAM_C_END :: hwaddr where "SMRAM_C_END \<equiv> 0xc0000"
abbreviation (input) SMRAM_C_SIZE :: nat where "SMRAM_C_SIZE \<equiv> 0x20000"
abbreviation (input) PAM_EXPAN_BASE :: hwaddr where "PAM_EXPAN_BASE \<equiv> 0xc0000"
abbreviation (input) PAM_EXPAN_SIZE :: nat where "PAM_EXPAN_SIZE \<equiv> 0x4000"
abbreviation (input) PAM_EXBIOS_BASE :: hwaddr where "PAM_EXBIOS_BASE \<equiv> 0xe0000"
abbreviation (input) PAM_BIOS_BASE :: hwaddr where "PAM_BIOS_BASE \<equiv> 0xf0000"
abbreviation (input) PAM_BIOS_END :: hwaddr where "PAM_BIOS_END \<equiv> 0xfffff"
abbreviation (input) PAM_BIOS_SIZE :: nat where "PAM_BIOS_SIZE \<equiv> 0x10000"
abbreviation (input) PIIX_RCR_IOPORT :: hwaddr where "PIIX_RCR_IOPORT \<equiv> 0xcf9"

abbreviation (input) PC_LOW_RAM_INDEX :: nat where "PC_LOW_RAM_INDEX \<equiv> 0"
abbreviation (input) SMRAM_INDEX :: nat where "SMRAM_INDEX \<equiv> 1"
abbreviation (input) PAM_INDEX :: nat where "PAM_INDEX \<equiv> 2"
abbreviation (input) PAM_EXPAN_NUM :: nat where "PAM_EXPAN_NUM \<equiv> 8"
abbreviation (input) PAM_EXBIOS_NUM :: nat where "PAM_EXBIOS_NUM \<equiv> 4"
abbreviation (input) PAM_BIOS_INDEX :: nat where "PAM_BIOS_INDEX \<equiv> 14"
abbreviation (input) PC_RAM_INDEX :: nat where "PC_RAM_INDEX \<equiv> 15"

abbreviation (input) PC_BIOS_INDEX :: "'d mem_state \<Rightarrow> nat" where
  "PC_BIOS_INDEX st \<equiv> PC_RAM_INDEX + guest_ram_num st"

section \<open>Registering regions\<close>

definition mr_end :: "'d memory_region \<Rightarrow> nat" where
  "mr_end mr = mr_offset mr + mr_size mr"

definition mr_initialized :: "'d memory_region \<Rightarrow> bool res" where
  "mr_initialized mr =
     (if mr_offset mr = 0 \<and> mr_name mr \<noteq> ''pc.ram low'' then Inl AssertFail
      else Inr ((ops mr \<noteq> None) \<noteq> (ram_block mr \<noteq> None)))"

text \<open>The first gap the region fits in; \<open>left\<close> is the end of the segment before.\<close>

fun find_gap :: "(mr_ptr \<Rightarrow> 'd memory_region) \<Rightarrow> 'd memory_region \<Rightarrow> hwaddr \<Rightarrow> mr_ptr list \<Rightarrow> nat" where
  "find_gap h mr left [] = 0"
| "find_gap h mr left (s # segs) =
     (if mr_offset mr \<ge> left \<and> mr_end mr \<le> mr_offset (h s) then 0
      else Suc (find_gap h mr (mr_end (h s)) segs))"

definition as_add_memory_region ::
  "(mr_ptr \<Rightarrow> 'd memory_region) \<Rightarrow> mr_ptr list \<Rightarrow> mr_ptr \<Rightarrow> mr_ptr list res" where
  "as_add_memory_region h segs p =
     res_bind (mr_initialized (h p)) (\<lambda>ini.
       if \<not> ini then Inl AssertFail
       else let i = find_gap h (h p) 0 segs in
         if i = length segs \<and> i > 0 \<and> mr_offset (h p) < mr_end (h (segs ! (i - 1))) then Inl AssertFail
         else if length segs \<ge> MAX_SEGMENTS_IN_AS then Inl OutOfBounds
         else Inr (take i segs @ p # drop i segs))"

definition memory_region_is_ram :: "'d memory_region \<Rightarrow> bool res" where
  "memory_region_is_ram mr = (if ram mr = (ram_block mr \<noteq> None) then Inr (ram mr) else Inl AssertFail)"

abbreviation set_offset :: "hwaddr \<Rightarrow> mr_ptr \<Rightarrow> 'd mem_state \<Rightarrow> 'd mem_state" where
  "set_offset off p st \<equiv> st\<lparr>mrs := (mrs st)(p := (mrs st p)\<lparr>mr_offset := off\<rparr>)\<rparr>"

definition io_add_memory_region :: "hwaddr \<Rightarrow> mr_ptr \<Rightarrow> 'd mem_state \<Rightarrow> 'd mem_state res" where
  "io_add_memory_region off p st =
     (if off = 0 \<or> mr_offset (mrs st p) \<noteq> 0 then Inl AssertFail
      else res_bind (memory_region_is_ram (mrs st p)) (\<lambda>r.
        if r then Inl AssertFail
        else let st = set_offset off p st in
          res_bind (as_add_memory_region (mrs st) (io_segs st) p) (\<lambda>segs. Inr (st\<lparr>io_segs := segs\<rparr>))))"

definition mmio_add_memory_region :: "hwaddr \<Rightarrow> mr_ptr \<Rightarrow> 'd mem_state \<Rightarrow> 'd mem_state res" where
  "mmio_add_memory_region off p st =
     (if off = 0 \<or> mr_offset (mrs st p) \<noteq> 0 then Inl AssertFail
      else res_bind (memory_region_is_ram (mrs st p)) (\<lambda>r.
        if r then Inl AssertFail
        else let st = set_offset off p st in
          res_bind (as_add_memory_region (mrs st) (mem_segs st) p) (\<lambda>segs. Inr (st\<lparr>mem_segs := segs\<rparr>))))"

definition mem_add_memory_region :: "mr_ptr \<Rightarrow> 'd mem_state \<Rightarrow> 'd mem_state res" where
  "mem_add_memory_region p st =
     res_bind (memory_region_is_ram (mrs st p)) (\<lambda>r.
       if \<not> r then Inl AssertFail
       else res_bind (as_add_memory_region (mrs st) (mem_segs st) p) (\<lambda>segs. Inr (st\<lparr>mem_segs := segs\<rparr>)))"

definition memory_region_init_io ::
  "mr_ptr \<Rightarrow> 'd mr_ops option \<Rightarrow> string \<Rightarrow> nat \<Rightarrow> 'd mem_state \<Rightarrow> 'd mem_state res" where
  "memory_region_init_io p o' nm sz st =
     (if o' = None \<or> sz = 0 then Inl AssertFail
      else Inr (st\<lparr>mrs := (mrs st)(p := (mrs st p)
        \<lparr>readonly := False, ram := False, ops := o', ram_block := None, mr_name := nm, mr_size := sz\<rparr>)\<rparr>))"

section \<open>The attribute map and SMRAM\<close>

definition PAM_RAM :: nat where "PAM_RAM = 3"
definition PAM_ROM :: nat where "PAM_ROM = 1"
definition PAM_PCI :: nat where "PAM_PCI = 0"

text \<open>The region of a PAM register: 0 the system BIOS, the others in the order of addresses.\<close>

definition pam_mr :: "nat \<Rightarrow> mr_ptr" where
  "pam_mr idx = (if idx = 0 then Ram_Mr PAM_BIOS_INDEX else Ram_Mr (PAM_INDEX + (idx - 1)))"

definition init_pam :: "'d mem_state \<Rightarrow> 'd mem_state" where
  "init_pam st = st\<lparr>pam_current := replicate 13 PAM_PCI\<rparr>"

definition set_pam_memory_region :: "nat \<Rightarrow> nat \<Rightarrow> 'd mem_state \<Rightarrow> 'd mem_state res" where
  "set_pam_memory_region idx type st =
     (if type = PAM_RAM then
        Inr (st\<lparr>mrs := (mrs st)(pam_mr idx := (mrs st (pam_mr idx))\<lparr>readonly := False\<rparr>),
               pam_current := (pam_current st)[idx := type]\<rparr>)
      else if type = PAM_ROM then
        Inr (st\<lparr>mrs := (mrs st)(pam_mr idx := (mrs st (pam_mr idx))\<lparr>readonly := True\<rparr>),
               pam_current := (pam_current st)[idx := type]\<rparr>)
      else if type = PAM_PCI then Inr (st\<lparr>pam_current := (pam_current st)[idx := type]\<rparr>)
      else Inl NotReached)"

definition pam_update :: "nat \<Rightarrow> u8 \<Rightarrow> 'd mem_state \<Rightarrow> 'd mem_state res" where
  "pam_update idx val st =
     (if idx > 12 then Inl AssertFail
      else set_pam_memory_region idx (unat (drop_bit (if even idx then 4 else 0) val AND 3)) st)"

definition smram_region_set_enabled :: "bool \<Rightarrow> 'd mem_state \<Rightarrow> 'd mem_state" where
  "smram_region_set_enabled en st = st\<lparr>smram_region_enable := en\<rparr>"

definition smram_set_enabled :: "bool \<Rightarrow> 'd mem_state \<Rightarrow> 'd mem_state" where
  "smram_set_enabled en st = st\<lparr>smram_enable := en\<rparr>"

definition I440FX_PAM :: nat where "I440FX_PAM = 0x59"
definition I440FX_SMRAM :: nat where "I440FX_SMRAM = 0x72"

fun pam_update_all :: "nat list \<Rightarrow> u8 list \<Rightarrow> 'd mem_state \<Rightarrow> 'd mem_state res" where
  "pam_update_all [] config st = Inr st"
| "pam_update_all (i # is) config st =
     res_bind (arr_get config (I440FX_PAM + (i + 1) div 2)) (\<lambda>v.
     res_bind (pam_update i v st) (pam_update_all is config))"

definition i440fx_update_memory_mappings :: "u8 list \<Rightarrow> 'd mem_state \<Rightarrow> 'd mem_state res" where
  "i440fx_update_memory_mappings config st =
     res_bind (pam_update_all [0..<13] config st) (\<lambda>st.
     res_bind (arr_get config I440FX_SMRAM) (\<lambda>v.
       Inr (smram_set_enabled (tst v (BIT 3)) (smram_region_set_enabled (\<not> tst v (BIT 6)) st))))"

definition pam_type_is_pci :: "'d mem_state \<Rightarrow> hwaddr \<Rightarrow> bool res" where
  "pam_type_is_pci st off =
     (if PAM_BIOS_BASE \<le> off \<and> off < PAM_BIOS_BASE + PAM_BIOS_SIZE then
        res_bind (arr_get (pam_current st) 0) (\<lambda>c. Inr (c = PAM_PCI))
      else if PAM_EXPAN_BASE \<le> off \<and> off < PAM_BIOS_BASE then
        res_bind (arr_get (pam_current st) ((off - PAM_EXPAN_BASE) div PAM_EXPAN_SIZE + 1)) (\<lambda>c. Inr (c = PAM_PCI))
      else Inl NotReached)"

section \<open>Look-up\<close>

definition is_smram_access :: "hwaddr \<Rightarrow> bool" where
  "is_smram_access off \<longleftrightarrow> SMRAM_C_BASE \<le> off \<and> off < SMRAM_C_END"

definition is_isa_bios_access :: "'d mem_state \<Rightarrow> hwaddr \<Rightarrow> bool res" where
  "is_isa_bios_access st off =
     (if PAM_EXBIOS_BASE \<le> off \<and> off < PAM_BIOS_END then pam_type_is_pci st off else Inr False)"

definition in_mr :: "'d memory_region \<Rightarrow> hwaddr \<Rightarrow> bool" where
  "in_mr mr off \<longleftrightarrow> mr_offset mr \<le> off \<and> off < mr_end mr"

definition mr_match :: "(mr_ptr \<Rightarrow> 'd memory_region) \<Rightarrow> mr_ptr option \<Rightarrow> hwaddr \<Rightarrow> bool" where
  "mr_match h po off = (case po of None \<Rightarrow> False | Some p \<Rightarrow> in_mr (h p) off)"

text \<open>A miss ends in \<open>unimplemented_io\<close>, which exits.\<close>

fun memory_region_look_up :: "(mr_ptr \<Rightarrow> 'd memory_region) \<Rightarrow> mr_ptr list \<Rightarrow> hwaddr \<Rightarrow> mr_ptr res" where
  "memory_region_look_up h [] off = Inl Exit"
| "memory_region_look_up h (s # segs) off =
     (if in_mr (h s) off then Inr s else memory_region_look_up h segs off)"

text \<open>Results of a look-up: the region, the offset in it, and the length that may be accessed.\<close>

type_synonym 'd look_up_res = "(mr_ptr \<times> hwaddr \<times> nat \<times> 'd mem_state) res"

definition io_mr_look_up :: "hwaddr \<Rightarrow> nat \<Rightarrow> 'd mem_state \<Rightarrow> 'd look_up_res" where
  "io_mr_look_up off plen st =
     res_bind
       (if mr_match (mrs st) (cache st) off then Inr (the (cache st))
        else if off = PIIX_RCR_IOPORT then Inl NotReached
        else memory_region_look_up (mrs st) (io_segs st) off)
       (\<lambda>p. Inr (p, off - mr_offset (mrs st p), plen, st\<lparr>cache := Some p\<rparr>))"

definition isa_bios_access :: "hwaddr \<Rightarrow> nat \<Rightarrow> 'd mem_state \<Rightarrow> (mr_ptr \<times> hwaddr \<times> nat) option res" where
  "isa_bios_access off plen st =
     res_bind (is_isa_bios_access st off) (\<lambda>b.
       if \<not> b then Inr None
       else let p = Ram_Mr (PC_BIOS_INDEX st);
                xlat = off - PAM_EXBIOS_BASE + 128 * 1024
            in Inr (Some (p, xlat, min plen (mr_size (mrs st p) - xlat))))"

text \<open>The part of \<open>mem_mr_look_up\<close> after the label \<open>found\<close>.\<close>

definition mem_found :: "mr_ptr \<Rightarrow> bool \<Rightarrow> hwaddr \<Rightarrow> nat \<Rightarrow> 'd mem_state \<Rightarrow> 'd look_up_res" where
  "mem_found p hit off plen st =
     (let xlat = off - mr_offset (mrs st p);
          st' = (if hit then st else st\<lparr>cache2 := cache1 st, cache1 := Some p\<rparr>)
      in res_bind (memory_region_is_ram (mrs st p)) (\<lambda>r.
           Inr (p, xlat, if r then min (mr_size (mrs st p) - xlat) plen else plen, st')))"

definition mem_mr_look_up :: "bool \<Rightarrow> hwaddr \<Rightarrow> nat \<Rightarrow> 'd mem_state \<Rightarrow> 'd look_up_res" where
  "mem_mr_look_up smm off plen st =
     (if off \<ge> 0x100000 \<and> mr_match (mrs st) (cache1 st) off then mem_found (the (cache1 st)) True off plen st
      else if off \<ge> 0x100000 \<and> mr_match (mrs st) (cache2 st) off then mem_found (the (cache2 st)) True off plen st
      else res_bind (isa_bios_access off plen st) (\<lambda>r.
        case r of
          Some (p, xlat, l) \<Rightarrow> Inr (p, xlat, l, st)
        | None \<Rightarrow>
            if is_smram_access off \<and> (\<not> smm \<and> smram_region_enable st \<or>
                 smm \<and> \<not> smram_enable st \<and> smram_region_enable st)
            then mem_found Low_Vga False off plen st
            else res_bind (memory_region_look_up (mrs st) (mem_segs st) off) (\<lambda>p.
              mem_found p False off plen st)))"

section \<open>Segment tables\<close>

fun chain :: "(mr_ptr \<Rightarrow> 'd memory_region) \<Rightarrow> hwaddr \<Rightarrow> mr_ptr list \<Rightarrow> bool" where
  "chain h left [] = True"
| "chain h left (s # segs) = (left \<le> mr_offset (h s) \<and> chain h (mr_end (h s)) segs)"

definition apart :: "'d memory_region \<Rightarrow> 'd memory_region \<Rightarrow> bool" where
  "apart a b \<longleftrightarrow> mr_end a \<le> mr_offset b \<or> mr_end b \<le> mr_offset a"

lemma mr_end_ge [simp]: "mr_offset m \<le> mr_end m"
  by (simp add: mr_end_def)

lemma chain_mono: "chain h left segs \<Longrightarrow> l \<le> left \<Longrightarrow> chain h l segs"
  by (cases segs) auto

lemma chain_bound: "chain h left segs \<Longrightarrow> s \<in> set segs \<Longrightarrow> left \<le> mr_offset (h s)"
proof (induction segs arbitrary: left)
  case (Cons a segs)
  then show ?case by (auto dest!: Cons.IH intro: order.trans [OF _ order.trans [OF mr_end_ge]])
qed simp

lemma chain_apart: "chain h left (xs @ s # ys) \<Longrightarrow> t \<in> set xs \<union> set ys \<Longrightarrow> apart (h s) (h t)"
proof (induction xs arbitrary: left)
  case Nil
  then show ?case using chain_bound [of h "mr_end (h s)" ys t] by (auto simp: apart_def)
next
  case (Cons a xs)
  then show ?case using chain_bound [of h "mr_end (h a)" "xs @ s # ys" s] by (auto simp: apart_def)
qed

lemma chain_cong: "(\<And>s. s \<in> set segs \<Longrightarrow> mr_offset (h s) = mr_offset (h' s) \<and> mr_size (h s) = mr_size (h' s)) \<Longrightarrow>
    chain h left segs = chain h' left segs"
  by (induction segs arbitrary: left) (auto simp: mr_end_def)

lemma find_gap_le: "find_gap h mr left segs \<le> length segs"
  by (induction h mr left segs rule: find_gap.induct) auto

lemma gap_ge:
  assumes "chain h left segs" "i < length segs" "i = find_gap h mr left segs"
  shows "left \<le> mr_offset mr"
  using assms
proof (induction segs arbitrary: left i)
  case (Cons s segs)
  show ?case
  proof (cases "left \<le> mr_offset mr \<and> mr_end mr \<le> mr_offset (h s)")
    case False
    then have "mr_end (h s) \<le> mr_offset mr"
      using Cons.IH [of "mr_end (h s)" "find_gap h mr (mr_end (h s)) segs"] Cons.prems by auto
    moreover have "left \<le> mr_end (h s)" using Cons.prems(1) order.trans [OF _ mr_end_ge] by auto
    ultimately show ?thesis by simp
  qed simp
qed simp

text \<open>The insertion keeps the order, and the index it takes is right whenever there is room.\<close>

lemma insert_gap:
  assumes "chain h left segs" "left \<le> mr_offset (h p)" "i = find_gap h (h p) left segs"
    and "i < length segs \<or> segs = [] \<or> mr_end (h (last segs)) \<le> mr_offset (h p)"
  shows "chain h left (take i segs @ p # drop i segs)"
  using assms
proof (induction segs arbitrary: left i)
  case (Cons s segs)
  show ?case
  proof (cases "mr_end (h p) \<le> mr_offset (h s)")
    case True
    with Cons.prems show ?thesis by auto
  next
    case False
    define j where "j = find_gap h (h p) (mr_end (h s)) segs"
    have i: "i = Suc j" using False Cons.prems(3) by (simp add: j_def)
    have ge: "mr_end (h s) \<le> mr_offset (h p)"
    proof (cases "segs = []")
      case True
      then show ?thesis using Cons.prems(4) i by (simp add: j_def)
    next
      case ne: False
      have c: "chain h (mr_end (h s)) segs" using Cons.prems(1) by simp
      show ?thesis
      proof (cases "j < length segs")
        case True
        then show ?thesis using gap_ge [OF c _ j_def] by simp
      next
        case False
        then have "mr_end (h (last segs)) \<le> mr_offset (h p)" using Cons.prems(4) i ne by simp
        moreover have "mr_end (h s) \<le> mr_offset (h (last segs))" using chain_bound [OF c] ne by simp
        ultimately show ?thesis using mr_end_ge [of "h (last segs)"] by linarith
      qed
    qed
    have "chain h (mr_end (h s)) (take j segs @ p # drop j segs)"
      using Cons.IH [OF _ ge j_def] Cons.prems(1,4) i by (auto split: if_splits)
    then show ?thesis using i Cons.prems(1) by simp
  qed
qed simp

lemma gap_exists:
  assumes "left \<le> mr_offset (h p)" "\<And>s. s \<in> set segs \<Longrightarrow> apart (h p) (h s)"
  shows "find_gap h (h p) left segs < length segs \<or> segs = [] \<or> mr_end (h (last segs)) \<le> mr_offset (h p)"
  using assms
proof (induction segs arbitrary: left)
  case (Cons s segs)
  from Cons.prems(2) [of s] have "mr_end (h p) \<le> mr_offset (h s) \<or> mr_end (h s) \<le> mr_offset (h p)"
    by (auto simp: apart_def)
  then show ?case using Cons.IH [of "mr_end (h s)"] Cons.prems by auto
qed simp

lemma add_sorted:
  assumes "chain h 0 segs" "as_add_memory_region h segs p = Inr segs'"
  shows "chain h 0 segs'" "set segs' = insert p (set segs)" "\<forall>s \<in> set segs. apart (h p) (h s)"
proof -
  define i where "i = find_gap h (h p) 0 segs"
  from assms(2) have s': "segs' = take i segs @ p # drop i segs"
    and c: "\<not> (i = length segs \<and> i > 0 \<and> mr_offset (h p) < mr_end (h (segs ! (i - 1))))"
    by (auto simp: as_add_memory_region_def Let_def i_def res_bind_def split: sum.splits if_splits)
  have "i < length segs \<or> segs = [] \<or> mr_end (h (last segs)) \<le> mr_offset (h p)"
    using c find_gap_le [of h "h p" 0 segs] by (cases "segs = []") (auto simp: last_conv_nth simp flip: i_def)
  then show ch: "chain h 0 segs'" unfolding s' by (intro insert_gap [OF assms(1)]) (auto simp: i_def)
  show "set segs' = insert p (set segs)"
    unfolding s' using set_append [of "take i segs" "drop i segs"] by auto
  show "\<forall>s \<in> set segs. apart (h p) (h s)"
    using chain_apart [of h 0 "take i segs" p "drop i segs"] ch s' set_append [of "take i segs" "drop i segs"] by auto
qed

lemma add_succeeds:
  assumes "\<And>s. s \<in> set segs \<Longrightarrow> apart (h p) (h s)" "mr_initialized (h p) = Inr True" "length segs < MAX_SEGMENTS_IN_AS"
  shows "\<exists>segs'. as_add_memory_region h segs p = Inr segs'"
proof -
  have "find_gap h (h p) 0 segs < length segs \<or> segs = [] \<or> mr_end (h (last segs)) \<le> mr_offset (h p)"
    by (rule gap_exists) (use assms(1) in auto)
  with assms(2,3) show ?thesis by (auto simp: as_add_memory_region_def Let_def last_conv_nth)
qed

lemma look_up_hit:
  assumes "chain h left segs" "s \<in> set segs" "in_mr (h s) off"
  shows "memory_region_look_up h segs off = Inr s"
  using assms
proof (induction segs arbitrary: left)
  case (Cons a segs)
  show ?case
  proof (cases "a = s")
    case False
    with Cons.prems have s: "s \<in> set segs" by simp
    with Cons.prems(1) have "mr_end (h a) \<le> mr_offset (h s)" by (auto intro: chain_bound)
    then have "\<not> in_mr (h a) off" using Cons.prems(3) by (auto simp: in_mr_def)
    with s Cons show ?thesis by auto
  qed (use Cons.prems in simp)
qed simp

lemma look_up_miss: "(\<And>s. s \<in> set segs \<Longrightarrow> \<not> in_mr (h s) off) \<Longrightarrow> memory_region_look_up h segs off = Inl Exit"
  by (induction segs) auto

lemma look_up_sound: "memory_region_look_up h segs off = Inr s \<Longrightarrow> s \<in> set segs \<and> in_mr (h s) off"
  by (induction segs) (auto split: if_splits)

section \<open>Routing without caches\<close>

definition smram_hidden :: "bool \<Rightarrow> 'd mem_state \<Rightarrow> bool" where
  "smram_hidden smm st \<longleftrightarrow> smram_region_enable st \<and> (smm \<longrightarrow> \<not> smram_enable st)"

definition mem_route :: "bool \<Rightarrow> hwaddr \<Rightarrow> nat \<Rightarrow> 'd mem_state \<Rightarrow> (mr_ptr \<times> hwaddr \<times> nat) res" where
  "mem_route smm off plen st =
     res_bind (isa_bios_access off plen st) (\<lambda>r.
       case r of
         Some x \<Rightarrow> Inr x
       | None \<Rightarrow>
           res_bind (if is_smram_access off \<and> smram_hidden smm st then Inr Low_Vga
                     else memory_region_look_up (mrs st) (mem_segs st) off) (\<lambda>p.
           res_bind (memory_region_is_ram (mrs st p)) (\<lambda>is_ram.
             let xlat = off - mr_offset (mrs st p)
             in Inr (p, xlat, if is_ram then min (mr_size (mrs st p) - xlat) plen else plen))))"

definition io_route :: "hwaddr \<Rightarrow> nat \<Rightarrow> 'd mem_state \<Rightarrow> (mr_ptr \<times> hwaddr \<times> nat) res" where
  "io_route off plen st =
     (if off = PIIX_RCR_IOPORT then Inl NotReached
      else res_bind (memory_region_look_up (mrs st) (io_segs st) off)
             (\<lambda>p. Inr (p, off - mr_offset (mrs st p), plen)))"

definition drop_state :: "'d look_up_res \<Rightarrow> (mr_ptr \<times> hwaddr \<times> nat) res" where
  "drop_state r = res_bind r (\<lambda>(p, x, l, _). Inr (p, x, l))"

section \<open>The invariant of the map\<close>

definition registered :: "'d mem_state \<Rightarrow> mr_ptr set" where
  "registered st = set (mem_segs st) \<union> set (io_segs st)"

definition map_inv :: "'d mem_state \<Rightarrow> bool" where
  "map_inv st \<longleftrightarrow>
     chain (mrs st) 0 (mem_segs st) \<and> chain (mrs st) 0 (io_segs st) \<and>
     (\<forall>p \<in> registered st. mr_offset (mrs st p) \<noteq> 0 \<or> memory_region_is_ram (mrs st p) = Inr True) \<and>
     mr_end (mrs st Low_Vga) \<le> 0x100000 \<and>
     (\<forall>p. cache st = Some p \<longrightarrow> p \<in> set (io_segs st)) \<and>
     (\<forall>p. cache1 st = Some p \<or> cache2 st = Some p \<longrightarrow> p \<in> set (mem_segs st) \<or> p = Low_Vga) \<and>
     length (pam_current st) = 13"

lemma map_invD:
  assumes "map_inv st"
  shows "chain (mrs st) 0 (mem_segs st)" "chain (mrs st) 0 (io_segs st)"
    "p \<in> registered st \<Longrightarrow> mr_offset (mrs st p) \<noteq> 0 \<or> memory_region_is_ram (mrs st p) = Inr True"
    "mr_end (mrs st Low_Vga) \<le> 0x100000"
    "cache st = Some p \<Longrightarrow> p \<in> set (io_segs st)"
    "cache1 st = Some p \<Longrightarrow> p \<in> set (mem_segs st) \<or> p = Low_Vga"
    "cache2 st = Some p \<Longrightarrow> p \<in> set (mem_segs st) \<or> p = Low_Vga"
    "length (pam_current st) = 13"
  using assms unfolding map_inv_def by blast+

text \<open>A change of the store that keeps the place of every live region keeps the invariant.\<close>

lemma map_inv_store:
  assumes "map_inv st" "length pams = 13"
    and "\<And>p. p \<in> registered st \<or> p = Low_Vga \<Longrightarrow> mr_offset (h p) = mr_offset (mrs st p) \<and> mr_size (h p) = mr_size (mrs st p) \<and>
      memory_region_is_ram (h p) = memory_region_is_ram (mrs st p)"
  shows "map_inv (st\<lparr>mrs := h, pam_current := pams\<rparr>)"
proof -
  have c: "chain h 0 segs = chain (mrs st) 0 segs" if "set segs \<subseteq> registered st" for segs
    using assms(3) that by (intro chain_cong) auto
  have "mr_end (h Low_Vga) = mr_end (mrs st Low_Vga)" using assms(3) by (simp add: mr_end_def)
  then show ?thesis using assms c [of "mem_segs st"] c [of "io_segs st"]
    by (auto simp: map_inv_def registered_def)
qed

lemma set_offset_inv:
  assumes "map_inv st" "mr_offset (mrs st p) = 0" "memory_region_is_ram (mrs st p) = Inr False" and nv: "p \<noteq> Low_Vga"
  shows "map_inv (set_offset off p st)" "p \<notin> registered st"
proof -
  show np: "p \<notin> registered st" using assms map_invD(3) [OF assms(1), of p] by auto
  have "map_inv (st\<lparr>mrs := (mrs st)(p := (mrs st p)\<lparr>mr_offset := off\<rparr>), pam_current := pam_current st\<rparr>)"
    using np nv by (intro map_inv_store [OF assms(1) map_invD(8) [OF assms(1)]]) auto
  then show "map_inv (set_offset off p st)" by simp
qed

lemma add_io_inv:
  assumes "map_inv st" "io_add_memory_region off p st = Inr st'" and nv: "p \<noteq> Low_Vga"
  shows "map_inv st'"
proof -
  from assms(2) obtain segs where z: "off \<noteq> 0" "mr_offset (mrs st p) = 0" "memory_region_is_ram (mrs st p) = Inr False"
    and a: "as_add_memory_region (mrs (set_offset off p st)) (io_segs st) p = Inr segs"
    and st': "st' = (set_offset off p st)\<lparr>io_segs := segs\<rparr>"
    by (auto simp: io_add_memory_region_def Let_def res_bind_def split: sum.splits if_splits)
  note i = set_offset_inv(1) [OF assms(1) z(2,3) nv, of off]
  from add_sorted [OF map_invD(2) [OF i], of p segs] a
  have "chain (mrs (set_offset off p st)) 0 segs" "set segs = insert p (set (io_segs st))" by auto
  with i z st' show ?thesis by (auto simp: map_inv_def registered_def)
qed

lemma add_mmio_inv:
  assumes "map_inv st" "mmio_add_memory_region off p st = Inr st'" and nv: "p \<noteq> Low_Vga"
  shows "map_inv st'"
proof -
  from assms(2) obtain segs where z: "off \<noteq> 0" "mr_offset (mrs st p) = 0" "memory_region_is_ram (mrs st p) = Inr False"
    and a: "as_add_memory_region (mrs (set_offset off p st)) (mem_segs st) p = Inr segs"
    and st': "st' = (set_offset off p st)\<lparr>mem_segs := segs\<rparr>"
    by (auto simp: mmio_add_memory_region_def Let_def res_bind_def split: sum.splits if_splits)
  note i = set_offset_inv(1) [OF assms(1) z(2,3) nv, of off]
  from add_sorted [OF map_invD(1) [OF i], of p segs] a
  have "chain (mrs (set_offset off p st)) 0 segs" "set segs = insert p (set (mem_segs st))" by auto
  with i z st' show ?thesis by (auto simp: map_inv_def registered_def)
qed

lemma add_mem_inv:
  assumes "map_inv st" "mem_add_memory_region p st = Inr st'"
  shows "map_inv st'"
proof -
  from assms(2) obtain segs where r: "memory_region_is_ram (mrs st p) = Inr True"
    and a: "as_add_memory_region (mrs st) (mem_segs st) p = Inr segs" and st': "st' = st\<lparr>mem_segs := segs\<rparr>"
    by (auto simp: mem_add_memory_region_def res_bind_def split: sum.splits if_splits)
  from add_sorted [OF map_invD(1) [OF assms(1)] a] assms(1) r st' show ?thesis
    by (auto simp: map_inv_def registered_def)
qed

lemma pam_store:
  assumes "set_pam_memory_region idx type st = Inr st'"
  shows "\<exists>h. st' = st\<lparr>mrs := h, pam_current := (pam_current st)[idx := type]\<rparr> \<and>
    (\<forall>p. \<exists>ro. h p = (mrs st p)\<lparr>readonly := ro\<rparr>)"
proof -
  have self: "\<exists>ro. m = m\<lparr>readonly := ro\<rparr>" for m :: "'a memory_region"
    by (intro exI [of _ "readonly m"]) simp
  have "st' = st\<lparr>mrs := mrs st', pam_current := (pam_current st)[idx := type]\<rparr>"
    using assms by (auto simp: set_pam_memory_region_def split: if_splits)
  moreover have "\<forall>p. \<exists>ro. mrs st' p = (mrs st p)\<lparr>readonly := ro\<rparr>"
    using assms self by (auto simp: set_pam_memory_region_def split: if_splits)
  ultimately show ?thesis by blast
qed

lemma pam_update_inv:
  assumes "map_inv st" "pam_update idx val st = Inr st'"
  shows "map_inv st'"
proof -
  from assms(2) obtain type where "set_pam_memory_region idx type st = Inr st'"
    by (auto simp: pam_update_def split: if_splits)
  from pam_store [OF this] obtain h where st': "st' = st\<lparr>mrs := h, pam_current := (pam_current st)[idx := type]\<rparr>"
    and h: "\<forall>p. \<exists>ro. h p = (mrs st p)\<lparr>readonly := ro\<rparr>" by auto
  have "mr_offset (h p) = mr_offset (mrs st p) \<and> mr_size (h p) = mr_size (mrs st p) \<and>
      memory_region_is_ram (h p) = memory_region_is_ram (mrs st p)" for p
    using h [rule_format, of p] by (auto simp: memory_region_is_ram_def)
  then show ?thesis unfolding st' using map_invD(8) [OF assms(1)] by (intro map_inv_store [OF assms(1)]) auto
qed

lemma pam_all_inv: "map_inv st \<Longrightarrow> pam_update_all is config st = Inr st' \<Longrightarrow> map_inv st'"
  by (induction "is" config st rule: pam_update_all.induct)
    (auto simp: res_bind_def split: sum.splits intro: pam_update_inv)

lemma mappings_inv:
  assumes "map_inv st" "i440fx_update_memory_mappings config st = Inr st'"
  shows "map_inv st'"
proof -
  from assms(2) obtain st1 x y where a: "pam_update_all [0..<13] config st = Inr st1"
    and "st' = smram_set_enabled x (smram_region_set_enabled y st1)"
    by (auto simp: i440fx_update_memory_mappings_def res_bind_def split: sum.splits)
  with pam_all_inv [OF assms(1) a] show ?thesis
    by (auto simp: map_inv_def registered_def smram_set_enabled_def smram_region_set_enabled_def)
qed

lemma found_inv:
  assumes "map_inv st" "mem_found p hit off plen st = Inr (q, x, l, st')" "hit \<or> p \<in> set (mem_segs st) \<or> p = Low_Vga"
  shows "map_inv st'"
  using assms by (auto simp: mem_found_def Let_def res_bind_def map_inv_def registered_def split: sum.splits if_splits)

lemma mem_look_up_inv:
  assumes "map_inv st" "mem_mr_look_up smm off plen st = Inr (p, x, l, st')"
  shows "map_inv st'"
  using assms unfolding mem_mr_look_up_def
  by (auto simp: res_bind_def split: sum.splits if_splits option.splits prod.splits
      dest!: look_up_sound intro: found_inv)

lemma io_look_up_inv:
  assumes "map_inv st" "io_mr_look_up off plen st = Inr (p, x, l, st')"
  shows "map_inv st'"
  using assms map_invD(5) [OF assms(1)]
  by (auto simp: io_mr_look_up_def res_bind_def mr_match_def map_inv_def registered_def
      split: sum.splits if_splits option.splits dest!: look_up_sound)

section \<open>Runs of the machine\<close>

text \<open>
  Everything that touches the map: registrations (of a region other than the static \<open>low_vga\<close>),
  initialisations of regions that are not registered yet, look-ups, writes of the PAM and SMRAM
  registers, and any change of guest memory and of the devices.
\<close>

inductive map_step :: "'d mem_state \<Rightarrow> 'd mem_state \<Rightarrow> bool" where
  Mem_Look_Up: "mem_mr_look_up smm off plen st = Inr (p, x, l, st') \<Longrightarrow> map_step st st'"
| Io_Look_Up: "io_mr_look_up off plen st = Inr (p, x, l, st') \<Longrightarrow> map_step st st'"
| Add_Io: "p \<noteq> Low_Vga \<Longrightarrow> io_add_memory_region off p st = Inr st' \<Longrightarrow> map_step st st'"
| Add_Mmio: "p \<noteq> Low_Vga \<Longrightarrow> mmio_add_memory_region off p st = Inr st' \<Longrightarrow> map_step st st'"
| Add_Ram: "mem_add_memory_region p st = Inr st' \<Longrightarrow> map_step st st'"
| Init_Io: "p \<noteq> Low_Vga \<Longrightarrow> p \<notin> registered st \<Longrightarrow> memory_region_init_io p o' nm sz st = Inr st' \<Longrightarrow> map_step st st'"
| Mappings: "i440fx_update_memory_mappings config st = Inr st' \<Longrightarrow> map_step st st'"
| Memory: "map_step st (st\<lparr>hostmem := m, dirtied := w, dev := d\<rparr>)"

definition map_fresh :: "'d mem_state \<Rightarrow> bool" where
  "map_fresh st \<longleftrightarrow> mem_segs st = [] \<and> io_segs st = [] \<and> cache st = None \<and> cache1 st = None \<and> cache2 st = None \<and>
     mr_end (mrs st Low_Vga) \<le> 0x100000 \<and> pam_current st = replicate 13 PAM_PCI"

inductive map_reach :: "'d mem_state \<Rightarrow> bool" where
  Fresh: "map_fresh st \<Longrightarrow> map_reach st"
| Step: "map_reach st \<Longrightarrow> map_step st st' \<Longrightarrow> map_reach st'"

lemma init_io_inv:
  assumes "map_inv st" "p \<noteq> Low_Vga" "p \<notin> registered st" "memory_region_init_io p o' nm sz st = Inr st'"
  shows "map_inv st'"
proof -
  from assms(4) obtain m where st': "st' = st\<lparr>mrs := (mrs st)(p := m)\<rparr>"
    by (auto simp: memory_region_init_io_def split: if_splits)
  have "map_inv (st\<lparr>mrs := (mrs st)(p := m), pam_current := pam_current st\<rparr>)"
    using assms(2,3) by (intro map_inv_store [OF assms(1) map_invD(8) [OF assms(1)]]) auto
  then show ?thesis by (simp add: st')
qed

lemma step_inv: "map_step st st' \<Longrightarrow> map_inv st \<Longrightarrow> map_inv st'"
proof (induction rule: map_step.induct)
  case (Memory st m w d)
  then show ?case by (simp add: map_inv_def registered_def)
qed (auto intro: mem_look_up_inv io_look_up_inv add_io_inv add_mmio_inv add_mem_inv init_io_inv mappings_inv)

lemma reach_inv: "map_reach st \<Longrightarrow> map_inv st"
proof (induction rule: map_reach.induct)
  case (Fresh st)
  then show ?case by (simp add: map_fresh_def map_inv_def registered_def)
qed (rule step_inv)

section \<open>Correctness of the look-ups\<close>

lemma smram_low: "is_smram_access off \<Longrightarrow> off < 0x100000"
  by (simp add: is_smram_access_def)

lemma isa_bios_low: "off \<ge> 0x100000 \<Longrightarrow> isa_bios_access off plen st = Inr None"
  by (simp add: isa_bios_access_def is_isa_bios_access_def)

lemma cached_hit:
  assumes "map_inv st" "off \<ge> 0x100000" "c = cache1 st \<or> c = cache2 st" "mr_match (mrs st) c off"
  shows "c = Some (the c)" "memory_region_look_up (mrs st) (mem_segs st) off = Inr (the c)"
proof -
  from assms(4) obtain p where c: "c = Some p" and i: "in_mr (mrs st p) off"
    by (auto simp: mr_match_def split: option.splits)
  then have "p \<noteq> Low_Vga" using assms(2) map_invD(4) [OF assms(1)] by (auto simp: in_mr_def)
  then have "p \<in> set (mem_segs st)" using assms(3) c map_invD(6,7) [OF assms(1)] by metis
  then show "c = Some (the c)" "memory_region_look_up (mrs st) (mem_segs st) off = Inr (the c)"
    using look_up_hit [OF map_invD(1) [OF assms(1)] _ i] c by simp_all
qed

lemma found_route:
  "drop_state (mem_found p hit off plen st) =
     res_bind (memory_region_is_ram (mrs st p)) (\<lambda>r. let xlat = off - mr_offset (mrs st p)
       in Inr (p, xlat, if r then min (mr_size (mrs st p) - xlat) plen else plen))"
  by (auto simp: drop_state_def mem_found_def Let_def res_bind_def split: sum.splits)

lemma mem_look_up_route:
  assumes "map_inv st"
  shows "drop_state (mem_mr_look_up smm off plen st) = mem_route smm off plen st"
proof (cases "off \<ge> 0x100000")
  case True
  have ns: "\<not> is_smram_access off" using True smram_low [of off] by linarith
  consider "mr_match (mrs st) (cache1 st) off" | "\<not> mr_match (mrs st) (cache1 st) off" "mr_match (mrs st) (cache2 st) off"
    | "\<not> mr_match (mrs st) (cache1 st) off" "\<not> mr_match (mrs st) (cache2 st) off" by blast
  then show ?thesis
  proof cases
    case 1
    from cached_hit(2) [OF assms True _ this] show ?thesis
      by (simp add: mem_mr_look_up_def mem_route_def True 1 ns isa_bios_low found_route)
  next
    case 2
    from cached_hit(2) [OF assms True _ 2(2)] show ?thesis
      by (simp add: mem_mr_look_up_def mem_route_def True 2 ns isa_bios_low found_route)
  next
    case 3
    then show ?thesis
      by (cases "memory_region_look_up (mrs st) (mem_segs st) off")
        (simp_all add: mem_mr_look_up_def mem_route_def True ns isa_bios_low found_route, simp add: drop_state_def)
  qed
next
  case False
  then show ?thesis
    by (cases "isa_bios_access off plen st"; cases "memory_region_look_up (mrs st) (mem_segs st) off")
      (auto simp: mem_mr_look_up_def mem_route_def found_route smram_hidden_def drop_state_def [of "Inl _"]
        drop_state_def [of "Inr _"] split: option.splits)
qed

lemma io_look_up_route:
  assumes "map_inv st" "off \<noteq> PIIX_RCR_IOPORT"
  shows "drop_state (io_mr_look_up off plen st) = io_route off plen st"
proof (cases "mr_match (mrs st) (cache st) off")
  case True
  then obtain p where p: "cache st = Some p" "in_mr (mrs st p) off" by (auto simp: mr_match_def split: option.splits)
  have "memory_region_look_up (mrs st) (io_segs st) off = Inr p"
    using look_up_hit [OF map_invD(2) [OF assms(1)] map_invD(5) [OF assms(1) p(1)] p(2)] .
  with True p assms(2) show ?thesis by (simp add: io_mr_look_up_def io_route_def drop_state_def)
next
  case False
  with assms(2) show ?thesis
    by (cases "memory_region_look_up (mrs st) (io_segs st) off")
      (simp_all add: io_mr_look_up_def io_route_def drop_state_def)
qed

section \<open>Decoding of the attribute registers\<close>

definition pam_attr :: "u8 list \<Rightarrow> nat \<Rightarrow> nat" where
  "pam_attr config idx = unat (drop_bit (if even idx then 4 else 0) (config ! (I440FX_PAM + (idx + 1) div 2)) AND 3)"

definition pam_segment :: "hwaddr \<Rightarrow> nat" where
  "pam_segment off = (if off \<ge> PAM_BIOS_BASE then 0 else (off - PAM_EXPAN_BASE) div PAM_EXPAN_SIZE + 1)"

lemma pam_mr_inj: "i < 13 \<Longrightarrow> j < 13 \<Longrightarrow> pam_mr i = pam_mr j \<longleftrightarrow> i = j"
  by (auto simp: pam_mr_def)

lemma pam_segment_less: "PAM_EXPAN_BASE \<le> off \<Longrightarrow> off < 0x100000 \<Longrightarrow> pam_segment off < 13"
  by (simp add: pam_segment_def less_mult_imp_div_less)

lemma pam_update_one:
  assumes "pam_update i (config ! (I440FX_PAM + (i + 1) div 2)) st = Inr st'" "length (pam_current st) = 13"
  shows "pam_current st' = (pam_current st)[i := pam_attr config i]"
    "i \<le> 12 \<and> pam_attr config i \<in> {PAM_RAM, PAM_ROM, PAM_PCI}"
    "mrs st' q = (if q = pam_mr i \<and> pam_attr config i \<noteq> PAM_PCI
       then (mrs st q)\<lparr>readonly := pam_attr config i = PAM_ROM\<rparr> else mrs st q)"
  using assms
  by (auto simp: pam_update_def set_pam_memory_region_def pam_attr_def PAM_RAM_def PAM_ROM_def PAM_PCI_def split: if_splits)

lemma pam_update_all_decode:
  assumes "pam_update_all is config st = Inr st'" "length (pam_current st) = 13" "distinct is" "set is \<subseteq> {..<13}" "i < 13"
  shows "length (pam_current st') = 13 \<and>
    pam_current st' ! i = (if i \<in> set is then pam_attr config i else pam_current st ! i) \<and>
    readonly (mrs st' (pam_mr i)) = (if i \<in> set is \<and> pam_attr config i \<noteq> PAM_PCI then pam_attr config i = PAM_ROM
      else readonly (mrs st (pam_mr i)))"
  using assms(1-4)
proof (induction "is" config st rule: pam_update_all.induct)
  case (2 j js config st)
  from 2(2) obtain v st1 where v: "arr_get config (I440FX_PAM + (j + 1) div 2) = Inr v"
    and u: "pam_update j v st = Inr st1" and r: "pam_update_all js config st1 = Inr st'"
    by (auto simp: res_bind_def split: sum.splits)
  have "v = config ! (I440FX_PAM + (j + 1) div 2)" using v by (auto simp: arr_get_def split: if_splits)
  note one = pam_update_one [OF u [unfolded this] 2(3)]
  have l1: "length (pam_current st1) = 13" using one(1) 2(3) by simp
  from 2(1) [OF r l1] 2(4,5) have IH: "length (pam_current st') = 13"
    "pam_current st' ! i = (if i \<in> set js then pam_attr config i else pam_current st1 ! i)"
    "readonly (mrs st' (pam_mr i)) = (if i \<in> set js \<and> pam_attr config i \<noteq> PAM_PCI then pam_attr config i = PAM_ROM
      else readonly (mrs st1 (pam_mr i)))" by auto
  have jl: "j < 13" "j \<notin> set js" using 2(4,5) by auto
  have "readonly (mrs st1 (pam_mr i)) = (if i = j \<and> pam_attr config i \<noteq> PAM_PCI then pam_attr config i = PAM_ROM
      else readonly (mrs st (pam_mr i)))"
    using one(3) [of "pam_mr i"] pam_mr_inj [OF assms(5) jl(1)] by auto
  moreover have "pam_current st1 ! i = (if i = j then pam_attr config i else pam_current st ! i)"
    using one(1) 2(3) assms(5) jl(1) by auto
  ultimately show ?case using IH jl by auto
qed (use assms(5) in auto)

text \<open>A small map for the concrete instances: low RAM, and a device region not yet registered.\<close>

definition blank_mr :: "unit memory_region" where
  "blank_mr = \<lparr>ram = False, readonly = False, ram_block = None, ops = None, mr_offset = 0, mr_size = 0, mr_name = []\<rparr>"

definition dummy_ops :: "unit mr_ops" where
  "dummy_ops = \<lparr>op_read = Some (\<lambda>d a n. Inr (- 1, d)), op_write = Some (\<lambda>d a v n. Inr d), endianness = DEVICE_LITTLE_ENDIAN,
     valid_min_access_size = 0, valid_max_access_size = 0, valid_unaligned = False, valid_accepts = None,
     impl_min_access_size = 1, impl_max_access_size = 1, impl_unaligned = False\<rparr>"

definition demo_mrs :: "mr_ptr \<Rightarrow> unit memory_region" where
  "demo_mrs p =
     (case p of
        Ram_Mr n \<Rightarrow> blank_mr\<lparr>ram := True, ram_block := Some \<lparr>host = 0x1000, rb_offset = 0, max_length = SMRAM_C_BASE\<rparr>,
          mr_size := SMRAM_C_BASE, mr_name := ''pc.ram low''\<rparr>
      | Dev_Mr n \<Rightarrow> blank_mr\<lparr>ops := Some dummy_ops, mr_size := 4\<rparr>
      | Low_Vga \<Rightarrow> blank_mr)"

definition demo :: "unit mem_state" where
  "demo = \<lparr>mrs = demo_mrs, mem_segs = [], io_segs = [], cache = None, cache1 = None, cache2 = None,
     smram_region_enable = False, smram_enable = False, pam_current = replicate 13 PAM_PCI, guest_ram_num = 1,
     hostmem = (\<lambda>_. 0), dirtied = [], dev = ()\<rparr>"

lemma demo_reach: "map_reach demo"
  by (rule map_reach.Fresh) (simp add: map_fresh_def demo_def demo_mrs_def blank_mr_def mr_end_def)

lemma demo_ram_reach: "map_reach (demo\<lparr>mem_segs := [Ram_Mr 0]\<rparr>)"
proof -
  have "mem_add_memory_region (Ram_Mr 0) demo = Inr (demo\<lparr>mem_segs := [Ram_Mr 0]\<rparr>)"
    by (simp add: demo_def mem_add_memory_region_def memory_region_is_ram_def as_add_memory_region_def
        mr_initialized_def demo_mrs_def blank_mr_def MAX_SEGMENTS_IN_AS_def)
  then show ?thesis using map_reach.Step [OF demo_reach] map_step.Add_Ram by blast
qed

section \<open>Properties\<close>





text \<open>
  C7. The PAM registers decode as the chip documents them. After a write of the configuration space
  has been propagated, each 16 KiB segment of the expansion and extended BIOS areas and the 64 KiB
  system BIOS segment is treated as PCI exactly when its own attribute nibble is zero, and the
  region behind it is read-only exactly when the nibble says ROM.
\<close>

theorem pam_registers_decode:
  assumes "map_reach st" "i440fx_update_memory_mappings config st = Inr st'"
    and "PAM_EXPAN_BASE \<le> off" "off < 0x100000"
  shows "pam_type_is_pci st' off = Inr (pam_attr config (pam_segment off) = PAM_PCI) \<and>
    (pam_attr config (pam_segment off) \<noteq> PAM_PCI \<longrightarrow>
      readonly (mrs st' (pam_mr (pam_segment off))) = (pam_attr config (pam_segment off) = PAM_ROM))"
proof -
  from assms(2) obtain st1 x y where u: "pam_update_all [0..<13] config st = Inr st1"
    and st': "st' = smram_set_enabled x (smram_region_set_enabled y st1)"
    by (auto simp: i440fx_update_memory_mappings_def res_bind_def split: sum.splits)
  have i: "pam_segment off < 13" using assms(3,4) by (rule pam_segment_less)
  have d: "length (pam_current st1) = 13" "pam_current st1 ! pam_segment off = pam_attr config (pam_segment off)"
    "pam_attr config (pam_segment off) \<noteq> PAM_PCI \<Longrightarrow>
       readonly (mrs st1 (pam_mr (pam_segment off))) = (pam_attr config (pam_segment off) = PAM_ROM)"
    using pam_update_all_decode [OF u map_invD(8) [OF reach_inv [OF assms(1)]] _ _ i] i
    by (simp_all add: lessThan_atLeast0)
  have e: "pam_current st' = pam_current st1" "mrs st' = mrs st1"
    by (simp_all add: st' smram_set_enabled_def smram_region_set_enabled_def)
  have "pam_type_is_pci st' off = Inr (pam_current st' ! pam_segment off = PAM_PCI)"
    using assms(3,4) d(1) i e(1) by (simp add: pam_type_is_pci_def pam_segment_def arr_get_def split: if_splits)
  then show ?thesis using d e by auto
qed

theorem pam_registers_decode_witness:
  "\<exists>st'. i440fx_update_memory_mappings ((replicate 256 0)[0x5f := 0x30]) demo = Inr st' \<and>
     pam_type_is_pci st' 0xec000 = Inr False \<and> pam_type_is_pci st' 0xe8000 = Inr True"
proof -
  let ?c = "(replicate 256 0)[0x5f := 0x30] :: u8 list"
  have a: "unat (0x30 AND 3 :: u8) = 0" "unat (drop_bit 4 0x30 AND 3 :: u8) = 3" by code_simp+
  obtain st' where u: "i440fx_update_memory_mappings ?c demo = Inr st'"
    using a by (simp add: i440fx_update_memory_mappings_def upt_rec I440FX_PAM_def I440FX_SMRAM_def arr_get_def
        pam_update_def set_pam_memory_region_def PAM_RAM_def PAM_ROM_def PAM_PCI_def)
  have "pam_attr ?c 11 = 0" "pam_attr ?c 12 = 3" using a by (simp_all add: pam_attr_def I440FX_PAM_def)
  with pam_registers_decode [OF demo_reach u, of "0xec000"] pam_registers_decode [OF demo_reach u, of "0xe8000"] u
  show ?thesis by (auto simp: pam_segment_def PAM_PCI_def)
qed

text \<open>
  The look-up of the BIOS alias misses its last byte. While the system BIOS segment is mapped
  to PCI, every address from \<open>0xf0000\<close> to \<open>0xffffe\<close> goes to the BIOS image at the end of \<open>pc.bios\<close>,
  but \<open>0xfffff\<close> goes to the RAM region of the segment, because the range test takes \<open>PAM_BIOS_END\<close>,
  the address of the last byte, for the end of the range.
\<close>

theorem isa_bios_last_byte_missed:
  assumes "length (pam_current st) = 13" "pam_current st ! 0 = PAM_PCI"
  shows "(\<forall>off. 0xf0000 \<le> off \<and> off < 0xfffff \<longrightarrow> is_isa_bios_access st off = Inr True) \<and>
    pam_type_is_pci st 0xfffff = Inr True \<and> is_isa_bios_access st 0xfffff = Inr False"
  using assms by (auto simp: is_isa_bios_access_def pam_type_is_pci_def arr_get_def)

theorem isa_bios_last_byte_missed_witness:
  "pam_type_is_pci demo 0xfffff = Inr True \<and> is_isa_bios_access demo 0xfffff = Inr False"
  using isa_bios_last_byte_missed [of demo] by (simp add: demo_def)

text \<open>
  The guard on the reset port depends on the cache. A look-up of port \<open>0xcf9\<close> stops at the
  assertion that the guest does not use it, unless the access before went to the PCI configuration
  region, which covers the port: then the cached region is returned.
\<close>

theorem rcr_guard_bypassed:
  assumes "map_reach st" "p \<in> set (io_segs st)" "mr_offset (mrs st p) = 0xcf8" "mr_size (mrs st p) = 4"
  shows "io_mr_look_up PIIX_RCR_IOPORT plen (st\<lparr>cache := None\<rparr>) = Inl NotReached \<and>
    (\<exists>st'. io_mr_look_up 0xcf8 plen st = Inr (p, 0, plen, st') \<and>
      io_mr_look_up PIIX_RCR_IOPORT plen st' = Inr (p, 1, plen, st'))"
proof -
  have inv: "map_inv st" by (rule reach_inv [OF assms(1)])
  have i: "in_mr (mrs st p) 0xcf8" "in_mr (mrs st p) 0xcf9" using assms(3,4) by (simp_all add: in_mr_def mr_end_def)
  have l: "memory_region_look_up (mrs st) (io_segs st) 0xcf8 = Inr p"
    by (rule look_up_hit [OF map_invD(2) [OF inv] assms(2) i(1)])
  have "the (cache st) = p" if "mr_match (mrs st) (cache st) 0xcf8"
  proof -
    from that obtain q where q: "cache st = Some q" "in_mr (mrs st q) 0xcf8" by (auto simp: mr_match_def split: option.splits)
    then have "q \<in> set (io_segs st)" using map_invD(5) [OF inv] by auto
    from look_up_hit [OF map_invD(2) [OF inv] this q(2)] l q(1) show ?thesis by simp
  qed
  then have "io_mr_look_up 0xcf8 plen st = Inr (p, 0, plen, st\<lparr>cache := Some p\<rparr>)"
    using l assms(3) by (auto simp: io_mr_look_up_def)
  then show ?thesis using i(2) assms(3) by (auto simp: io_mr_look_up_def mr_match_def)
qed

theorem rcr_guard_bypassed_witness:
  "\<exists>st st'. map_reach st \<and> io_mr_look_up 0xcf8 4 (st :: unit mem_state) = Inr (Dev_Mr 0, 0, 4, st') \<and>
     io_mr_look_up 0xcf9 4 st' = Inr (Dev_Mr 0, 1, 4, st')"
proof -
  obtain st where a: "io_add_memory_region 0xcf8 (Dev_Mr 0) demo = Inr st" and s: "io_segs st = [Dev_Mr 0]"
    "mr_offset (mrs st (Dev_Mr 0)) = 0xcf8" "mr_size (mrs st (Dev_Mr 0)) = 4"
    by (simp add: io_add_memory_region_def demo_def demo_mrs_def blank_mr_def memory_region_is_ram_def Let_def
        as_add_memory_region_def mr_initialized_def MAX_SEGMENTS_IN_AS_def)
  have r: "map_reach st" using map_reach.Step [OF demo_reach] map_step.Add_Io [OF _ a] by blast
  from rcr_guard_bypassed [OF r, of "Dev_Mr 0" 4] s r show ?thesis by auto
qed

end
