(* ===== verification/Memory_Access.thy ===== *)
theory Memory_Access
  imports Memory_Map
begin

text \<open>
  Accesses through the address map (\<open>qemu/memory.c\<close> from the accessors on, and
  \<open>qemu/memory_ldst.c\<close>): splitting of a device access into the sizes the device implements,
  endianness, bulk transfers that cross regions, and the loads and stores of fixed width. The calls
  to \<open>invalidate_and_set_dirty\<close> are recorded in \<open>dirtied\<close>, newest first. The big lock and the RCU
  sections are left out: the model is of one thread.
\<close>

section \<open>Bytes and words\<close>

primrec of_le :: "u8 list \<Rightarrow> u64" where
  "of_le [] = 0"
| "of_le (b # bs) = ucast b OR push_bit 8 (of_le bs)"

definition le_bytes :: "nat \<Rightarrow> u64 \<Rightarrow> u8 list" where
  "le_bytes n v = map (\<lambda>i. ucast (drop_bit (8 * i) v)) [0..<n]"

definition bswap :: "nat \<Rightarrow> u64 \<Rightarrow> u64" where
  "bswap n v = of_le (rev (le_bytes n v))"

definition host_bytes :: "(nat \<Rightarrow> u8) \<Rightarrow> nat \<Rightarrow> nat \<Rightarrow> u8 list" where
  "host_bytes m ptr n = map (\<lambda>i. m (ptr + i)) [0..<n]"

definition host_put :: "(nat \<Rightarrow> u8) \<Rightarrow> nat \<Rightarrow> u8 list \<Rightarrow> nat \<Rightarrow> u8" where
  "host_put m ptr bs = (\<lambda>a. if ptr \<le> a \<and> a < ptr + length bs then bs ! (a - ptr) else m a)"

section \<open>Device accesses\<close>

record memop =
  mo_size :: nat
  mo_bswap :: bool

definition memop_size :: "memop \<Rightarrow> nat" where
  "memop_size op = 2 ^ (mo_size op mod 4)"

text \<open>\<open>ctz32\<close> of the sizes 1, 2, 4 and 8.\<close>

definition size_memop :: "nat \<Rightarrow> memop" where
  "size_memop sz = \<lparr>mo_size = (if sz = 1 then 0 else if sz = 2 then 1 else if sz = 4 then 2 else 3), mo_bswap = False\<rparr>"

definition devend_memop :: "device_endian \<Rightarrow> bool" where
  "devend_memop e \<longleftrightarrow> e = DEVICE_BIG_ENDIAN"

definition MAKE_64BIT_MASK :: "nat \<Rightarrow> nat \<Rightarrow> u64" where
  "MAKE_64BIT_MASK sh len = push_bit sh (drop_bit (64 - len) (- 1))"

definition memory_region_shift_read_access :: "u64 \<Rightarrow> int \<Rightarrow> u64 \<Rightarrow> u64 \<Rightarrow> u64" where
  "memory_region_shift_read_access v sh msk tmp =
     (if sh \<ge> 0 then v OR push_bit (nat sh) (tmp AND msk) else v OR drop_bit (nat (- sh)) (tmp AND msk))"

definition memory_region_shift_write_access :: "u64 \<Rightarrow> int \<Rightarrow> u64 \<Rightarrow> u64" where
  "memory_region_shift_write_access v sh msk =
     (if sh \<ge> 0 then drop_bit (nat sh) v AND msk else push_bit (nat (- sh)) v AND msk)"

definition memory_region_big_endian :: "'d mr_ops \<Rightarrow> bool" where
  "memory_region_big_endian o' \<longleftrightarrow> endianness o' = DEVICE_BIG_ENDIAN"

text \<open>The size and the shift of the accesses of \<open>access_with_adjusted_size\<close>.\<close>

definition adjusted_size :: "nat \<Rightarrow> nat \<Rightarrow> nat \<Rightarrow> nat" where
  "adjusted_size sz mn mx =
     (let mn = (if mn = 0 then 1 else mn); mx = (if mx = 0 then 4 else mx) in max (min sz mx) mn)"

definition access_shift :: "bool \<Rightarrow> nat \<Rightarrow> nat \<Rightarrow> nat \<Rightarrow> int" where
  "access_shift big sz a i = (if big then (int sz - int a - int i) * 8 else int i * 8)"

text \<open>The loops over the parts of an access; the size \<open>a\<close> of a part is never zero.\<close>

function read_parts ::
  "('d \<Rightarrow> hwaddr \<Rightarrow> nat \<Rightarrow> (u64 \<times> 'd) res) \<Rightarrow> bool \<Rightarrow> hwaddr \<Rightarrow> nat \<Rightarrow> nat \<Rightarrow> nat \<Rightarrow> u64 \<Rightarrow> 'd \<Rightarrow> (u64 \<times> 'd) res" where
  "read_parts rd big addr sz a i v d =
     (if i < sz \<and> 0 < a then
        res_bind (rd d (addr + i) a) (\<lambda>(tmp, d).
          read_parts rd big addr sz a (i + a)
            (memory_region_shift_read_access v (access_shift big sz a i) (MAKE_64BIT_MASK 0 (a * 8)) tmp) d)
      else Inr (v, d))"
  by pat_completeness auto
termination by (relation "measure (\<lambda>(rd, big, addr, sz, a, i, v, d). sz - i)") auto

function write_parts ::
  "('d \<Rightarrow> hwaddr \<Rightarrow> u64 \<Rightarrow> nat \<Rightarrow> 'd res) \<Rightarrow> bool \<Rightarrow> hwaddr \<Rightarrow> nat \<Rightarrow> nat \<Rightarrow> nat \<Rightarrow> u64 \<Rightarrow> 'd \<Rightarrow> 'd res" where
  "write_parts wr big addr sz a i v d =
     (if i < sz \<and> 0 < a then
        res_bind (wr d (addr + i) (memory_region_shift_write_access v (access_shift big sz a i) (MAKE_64BIT_MASK 0 (a * 8))) a)
          (write_parts wr big addr sz a (i + a) v)
      else Inr d)"
  by pat_completeness auto
termination by (relation "measure (\<lambda>(wr, big, addr, sz, a, i, v, d). sz - i)") auto

declare read_parts.simps [simp del] write_parts.simps [simp del]

text \<open>The parts of an access that \<open>valid.accepts\<close> is asked about.\<close>

function accepts_parts :: "(hwaddr \<Rightarrow> nat \<Rightarrow> bool) \<Rightarrow> hwaddr \<Rightarrow> nat \<Rightarrow> nat \<Rightarrow> nat \<Rightarrow> bool" where
  "accepts_parts acc addr sz a i =
     (if i < sz \<and> 0 < a then acc (addr + i) a \<and> accepts_parts acc addr sz a (i + a) else True)"
  by pat_completeness auto
termination by (relation "measure (\<lambda>(acc, addr, sz, a, i). sz - i)") auto

declare accepts_parts.simps [simp del]

definition memory_region_access_valid :: "'d mr_ops \<Rightarrow> 'd \<Rightarrow> hwaddr \<Rightarrow> nat \<Rightarrow> bool \<Rightarrow> bool" where
  "memory_region_access_valid o' d addr sz is_write =
     (if \<not> valid_unaligned o' \<and> addr AND (sz - 1) \<noteq> 0 then False
      else case valid_accepts o' of
             None \<Rightarrow> True
           | Some acc \<Rightarrow> accepts_parts (\<lambda>x n. acc d x n is_write) addr sz
               (adjusted_size sz (valid_min_access_size o') (valid_max_access_size o')) 0)"

definition adjust_endianness :: "'d mr_ops \<Rightarrow> u64 \<Rightarrow> memop \<Rightarrow> u64" where
  "adjust_endianness o' v op =
     (if mo_bswap op \<noteq> devend_memop (endianness o') \<and> memop_size op \<noteq> 1 then bswap (memop_size op) v else v)"

definition memory_region_dispatch_read :: "mr_ptr \<Rightarrow> hwaddr \<Rightarrow> memop \<Rightarrow> 'd mem_state \<Rightarrow> (u64 \<times> 'd mem_state) res" where
  "memory_region_dispatch_read p addr op st =
     (case ops (mrs st p) of
        None \<Rightarrow> Inl NullDeref
      | Some o' \<Rightarrow>
          if \<not> memory_region_access_valid o' (dev st) addr (memop_size op) False then Inl NotReached
          else case op_read o' of
                 None \<Rightarrow> Inl NotReached
               | Some rd \<Rightarrow>
                   res_bind (read_parts rd (memory_region_big_endian o') addr (memop_size op)
                     (adjusted_size (memop_size op) (impl_min_access_size o') (impl_max_access_size o')) 0 0 (dev st))
                     (\<lambda>(v, d). Inr (adjust_endianness o' v op, st\<lparr>dev := d\<rparr>)))"

definition memory_region_dispatch_write :: "mr_ptr \<Rightarrow> hwaddr \<Rightarrow> u64 \<Rightarrow> memop \<Rightarrow> 'd mem_state \<Rightarrow> 'd mem_state res" where
  "memory_region_dispatch_write p addr v op st =
     (case ops (mrs st p) of
        None \<Rightarrow> Inl NullDeref
      | Some o' \<Rightarrow>
          if \<not> memory_region_access_valid o' (dev st) addr (memop_size op) True then Inl NotReached
          else case op_write o' of
                 None \<Rightarrow> Inl NotReached
               | Some wr \<Rightarrow>
                   res_bind (write_parts wr (memory_region_big_endian o') addr (memop_size op)
                     (adjusted_size (memop_size op) (impl_min_access_size o') (impl_max_access_size o')) 0
                     (adjust_endianness o' v op) (dev st))
                     (\<lambda>d. Inr (st\<lparr>dev := d\<rparr>)))"

section \<open>Guest memory\<close>

definition memory_access_is_direct :: "'d memory_region \<Rightarrow> bool \<Rightarrow> bool res" where
  "memory_access_is_direct mr is_write =
     res_bind (memory_region_is_ram mr) (\<lambda>r. Inr (if is_write then r \<and> \<not> readonly mr else r))"

fun pow2floor :: "nat \<Rightarrow> nat" where
  "pow2floor n = (if n = 0 then 0 else if n = 1 then 1 else 2 * pow2floor (n div 2))"

declare pow2floor.simps [simp del]

definition memory_access_size :: "'d memory_region \<Rightarrow> nat \<Rightarrow> hwaddr \<Rightarrow> nat res" where
  "memory_access_size mr l addr =
     (case ops mr of
        None \<Rightarrow> Inl NullDeref
      | Some o' \<Rightarrow>
          let mx = (if valid_max_access_size o' = 0 then 4 else valid_max_access_size o');
              al = unat (ucast ((of_nat addr :: u64) AND - of_nat addr) :: u32);
              mx = (if \<not> impl_unaligned o' \<and> al \<noteq> 0 \<and> al < mx then al else mx)
          in Inr (pow2floor (if l > mx then mx else l)))"

text \<open>\<open>ramblock_ptr\<close> with its assertion, for \<open>qemu_map_ram_ptr\<close> and \<open>qemu_ram_ptr_length\<close>.\<close>

definition ramblock_ptr :: "ram_block option \<Rightarrow> nat \<Rightarrow> nat res" where
  "ramblock_ptr b off =
     (case b of None \<Rightarrow> Inl AssertFail | Some b \<Rightarrow> if host b \<noteq> 0 \<and> off < max_length b then Inr (host b + off) else Inl AssertFail)"

definition qemu_ram_ptr_length :: "ram_block option \<Rightarrow> nat \<Rightarrow> nat \<Rightarrow> (nat \<times> nat) res" where
  "qemu_ram_ptr_length b addr l =
     (case b of
        None \<Rightarrow> Inl AssertFail
      | Some blk \<Rightarrow> res_bind (ramblock_ptr b addr) (\<lambda>ptr. Inr (ptr, min l (max_length blk - addr))))"

definition invalidate_and_set_dirty :: "mr_ptr \<Rightarrow> hwaddr \<Rightarrow> nat \<Rightarrow> 'd mem_state \<Rightarrow> 'd mem_state res" where
  "invalidate_and_set_dirty p addr l st =
     (case ram_block (mrs st p) of
        None \<Rightarrow> Inl AssertFail
      | Some b \<Rightarrow> Inr (st\<lparr>dirtied := (addr + rb_offset b, l) # dirtied st\<rparr>))"

text \<open>The address spaces: ports, memory, and memory as seen in SMM.\<close>

datatype address_space = AS_Io | AS_Memory | AS_Smm_Memory

definition address_space_translate :: "address_space \<Rightarrow> hwaddr \<Rightarrow> nat \<Rightarrow> 'd mem_state \<Rightarrow> 'd look_up_res" where
  "address_space_translate as addr l st =
     (case as of
        AS_Io \<Rightarrow> io_mr_look_up addr l st
      | AS_Memory \<Rightarrow> mem_mr_look_up False addr l st
      | AS_Smm_Memory \<Rightarrow> mem_mr_look_up True addr l st)"

text \<open>
  The bulk transfers. Each iteration moves at least one byte, so that as much fuel as there are
  bytes is enough; \<open>None\<close> is out of fuel.
\<close>

fun flatview_write_continue ::
  "nat \<Rightarrow> address_space \<Rightarrow> hwaddr \<Rightarrow> u8 list \<Rightarrow> hwaddr \<Rightarrow> nat \<Rightarrow> mr_ptr \<Rightarrow> 'd mem_state \<Rightarrow> 'd mem_state res option" where
  "flatview_write_continue 0 as addr buf addr1 l p st = None"
| "flatview_write_continue (Suc fuel) as addr buf addr1 l p st =
     (case res_bind (memory_access_is_direct (mrs st p) True) (\<lambda>direct.
             if \<not> direct then
               res_bind (memory_access_size (mrs st p) l addr1) (\<lambda>l.
               res_bind (memory_region_dispatch_write p addr1 (of_le (take l buf)) (size_memop l) st) (\<lambda>st. Inr (l, st)))
             else
               res_bind (qemu_ram_ptr_length (ram_block (mrs st p)) addr1 l) (\<lambda>(ptr, l).
               res_bind (invalidate_and_set_dirty p addr1 l (st\<lparr>hostmem := host_put (hostmem st) ptr (take l buf)\<rparr>)) (\<lambda>st.
                 Inr (l, st)))) of
        Inl e \<Rightarrow> Some (Inl e)
      | Inr (l, st) \<Rightarrow>
          if length buf \<le> l then Some (Inr st)
          else (case address_space_translate as (addr + l) (length buf - l) st of
                  Inl e \<Rightarrow> Some (Inl e)
                | Inr (p, addr1, l', st) \<Rightarrow>
                    flatview_write_continue fuel as (addr + l) (drop l buf) addr1 l' p st))"

definition flatview_write :: "address_space \<Rightarrow> hwaddr \<Rightarrow> u8 list \<Rightarrow> 'd mem_state \<Rightarrow> 'd mem_state res option" where
  "flatview_write as addr buf st =
     (case address_space_translate as addr (length buf) st of
        Inl e \<Rightarrow> Some (Inl e)
      | Inr (p, addr1, l, st) \<Rightarrow> flatview_write_continue (length buf) as addr buf addr1 l p st)"

definition address_space_write :: "address_space \<Rightarrow> hwaddr \<Rightarrow> u8 list \<Rightarrow> 'd mem_state \<Rightarrow> 'd mem_state res option" where
  "address_space_write as addr buf st = (if buf = [] then Some (Inr st) else flatview_write as addr buf st)"

fun flatview_read_continue ::
  "nat \<Rightarrow> address_space \<Rightarrow> hwaddr \<Rightarrow> nat \<Rightarrow> hwaddr \<Rightarrow> nat \<Rightarrow> mr_ptr \<Rightarrow> 'd mem_state \<Rightarrow> (u8 list \<times> 'd mem_state) res option" where
  "flatview_read_continue 0 as addr len addr1 l p st = None"
| "flatview_read_continue (Suc fuel) as addr len addr1 l p st =
     (case res_bind (memory_access_is_direct (mrs st p) False) (\<lambda>direct.
             if \<not> direct then
               res_bind (memory_access_size (mrs st p) l addr1) (\<lambda>l.
               res_bind (memory_region_dispatch_read p addr1 (size_memop l) st) (\<lambda>(v, st). Inr (l, le_bytes l v, st)))
             else
               res_bind (qemu_ram_ptr_length (ram_block (mrs st p)) addr1 l) (\<lambda>(ptr, l).
                 Inr (l, host_bytes (hostmem st) ptr l, st))) of
        Inl e \<Rightarrow> Some (Inl e)
      | Inr (l, bs, st) \<Rightarrow>
          if len \<le> l then Some (Inr (bs, st))
          else (case address_space_translate as (addr + l) (len - l) st of
                  Inl e \<Rightarrow> Some (Inl e)
                | Inr (p, addr1, l', st) \<Rightarrow>
                    map_option (\<lambda>r. res_bind r (\<lambda>(bs', st). Inr (bs @ bs', st)))
                      (flatview_read_continue fuel as (addr + l) (len - l) addr1 l' p st)))"

definition flatview_read :: "address_space \<Rightarrow> hwaddr \<Rightarrow> nat \<Rightarrow> 'd mem_state \<Rightarrow> (u8 list \<times> 'd mem_state) res option" where
  "flatview_read as addr len st =
     (case address_space_translate as addr len st of
        Inl e \<Rightarrow> Some (Inl e)
      | Inr (p, addr1, l, st) \<Rightarrow> flatview_read_continue len as addr len addr1 l p st)"

definition address_space_read_full :: "address_space \<Rightarrow> hwaddr \<Rightarrow> nat \<Rightarrow> 'd mem_state \<Rightarrow> (u8 list \<times> 'd mem_state) res option" where
  "address_space_read_full as addr len st = (if len = 0 then Some (Inr ([], st)) else flatview_read as addr len st)"

definition address_space_rw ::
  "address_space \<Rightarrow> hwaddr \<Rightarrow> u8 list \<Rightarrow> bool \<Rightarrow> 'd mem_state \<Rightarrow> (u8 list \<times> 'd mem_state) res option" where
  "address_space_rw as addr buf is_write st =
     (if is_write then map_option (\<lambda>r. res_bind r (\<lambda>st. Inr (buf, st))) (address_space_write as addr buf st)
      else address_space_read_full as addr (length buf) st)"

section \<open>Loads and stores\<close>

text \<open>Host words in memory order of the host, which is the order of the guest.\<close>

definition ld_p :: "nat \<Rightarrow> device_endian \<Rightarrow> (nat \<Rightarrow> u8) \<Rightarrow> nat \<Rightarrow> u64" where
  "ld_p n e m ptr =
     (case e of
        DEVICE_BIG_ENDIAN \<Rightarrow> of_le (rev (host_bytes m ptr n))
      | _ \<Rightarrow> of_le (host_bytes m ptr n))"

definition st_p :: "nat \<Rightarrow> device_endian \<Rightarrow> (nat \<Rightarrow> u8) \<Rightarrow> nat \<Rightarrow> u64 \<Rightarrow> nat \<Rightarrow> u8" where
  "st_p n e m ptr v =
     (case e of
        DEVICE_BIG_ENDIAN \<Rightarrow> host_put m ptr (rev (le_bytes n v))
      | _ \<Rightarrow> host_put m ptr (le_bytes n v))"

text \<open>The common shape of the loads and of the stores, at width \<open>2 ^ lg\<close>.\<close>

definition ld_internal ::
  "nat \<Rightarrow> address_space \<Rightarrow> hwaddr \<Rightarrow> device_endian \<Rightarrow> 'd mem_state \<Rightarrow> (u64 \<times> 'd mem_state) res" where
  "ld_internal lg as addr e st =
     res_bind (address_space_translate as addr (2 ^ lg) st) (\<lambda>(p, addr1, l, st).
     res_bind (memory_access_is_direct (mrs st p) False) (\<lambda>direct.
       if l < 2 ^ lg \<or> \<not> direct
       then memory_region_dispatch_read p addr1 \<lparr>mo_size = lg, mo_bswap = devend_memop e\<rparr> st
       else res_bind (ramblock_ptr (ram_block (mrs st p)) addr1) (\<lambda>ptr.
         Inr (ld_p (2 ^ lg) e (hostmem st) ptr, st))))"

definition st_internal ::
  "bool \<Rightarrow> nat \<Rightarrow> address_space \<Rightarrow> hwaddr \<Rightarrow> u64 \<Rightarrow> device_endian \<Rightarrow> 'd mem_state \<Rightarrow> 'd mem_state res" where
  "st_internal dirty lg as addr v e st =
     res_bind (address_space_translate as addr (2 ^ lg) st) (\<lambda>(p, addr1, l, st).
     res_bind (memory_access_is_direct (mrs st p) True) (\<lambda>direct.
       if l < 2 ^ lg \<or> \<not> direct
       then memory_region_dispatch_write p addr1 v \<lparr>mo_size = lg, mo_bswap = devend_memop e\<rparr> st
       else res_bind (ramblock_ptr (ram_block (mrs st p)) addr1) (\<lambda>ptr.
         let st = st\<lparr>hostmem := st_p (2 ^ lg) e (hostmem st) ptr v\<rparr>
         in if dirty then invalidate_and_set_dirty p addr1 (2 ^ lg) st else Inr st)))"

text \<open>The loads of up to 32 bits return a \<open>uint32_t\<close>, the stores take one.\<close>

definition ret32 :: "(u64 \<times> 'd mem_state) res \<Rightarrow> (u64 \<times> 'd mem_state) res" where
  "ret32 r = res_bind r (\<lambda>(v, st). Inr (take_bit 32 v, st))"

definition address_space_ldub :: "address_space \<Rightarrow> hwaddr \<Rightarrow> 'd mem_state \<Rightarrow> (u64 \<times> 'd mem_state) res" where
  "address_space_ldub as addr st = ret32 (ld_internal 0 as addr DEVICE_NATIVE_ENDIAN st)"

definition address_space_lduw_internal :: "address_space \<Rightarrow> hwaddr \<Rightarrow> device_endian \<Rightarrow> 'd mem_state \<Rightarrow> (u64 \<times> 'd mem_state) res" where
  "address_space_lduw_internal as addr e st = ret32 (ld_internal 1 as addr e st)"

definition address_space_lduw :: "address_space \<Rightarrow> hwaddr \<Rightarrow> 'd mem_state \<Rightarrow> (u64 \<times> 'd mem_state) res" where
  "address_space_lduw as addr st = address_space_lduw_internal as addr DEVICE_NATIVE_ENDIAN st"

definition address_space_ldl_internal :: "address_space \<Rightarrow> hwaddr \<Rightarrow> device_endian \<Rightarrow> 'd mem_state \<Rightarrow> (u64 \<times> 'd mem_state) res" where
  "address_space_ldl_internal as addr e st = ret32 (ld_internal 2 as addr e st)"

definition address_space_ldl :: "address_space \<Rightarrow> hwaddr \<Rightarrow> 'd mem_state \<Rightarrow> (u64 \<times> 'd mem_state) res" where
  "address_space_ldl as addr st = address_space_ldl_internal as addr DEVICE_NATIVE_ENDIAN st"

definition address_space_ldq_internal :: "address_space \<Rightarrow> hwaddr \<Rightarrow> device_endian \<Rightarrow> 'd mem_state \<Rightarrow> (u64 \<times> 'd mem_state) res" where
  "address_space_ldq_internal as addr e st = ld_internal 3 as addr e st"

definition address_space_ldq :: "address_space \<Rightarrow> hwaddr \<Rightarrow> 'd mem_state \<Rightarrow> (u64 \<times> 'd mem_state) res" where
  "address_space_ldq as addr st = address_space_ldq_internal as addr DEVICE_NATIVE_ENDIAN st"

definition address_space_stb :: "address_space \<Rightarrow> hwaddr \<Rightarrow> u32 \<Rightarrow> 'd mem_state \<Rightarrow> 'd mem_state res" where
  "address_space_stb as addr v st = st_internal True 0 as addr (ucast v) DEVICE_NATIVE_ENDIAN st"

definition address_space_stw_internal :: "address_space \<Rightarrow> hwaddr \<Rightarrow> u32 \<Rightarrow> device_endian \<Rightarrow> 'd mem_state \<Rightarrow> 'd mem_state res" where
  "address_space_stw_internal as addr v e st = st_internal True 1 as addr (ucast v) e st"

definition address_space_stw :: "address_space \<Rightarrow> hwaddr \<Rightarrow> u32 \<Rightarrow> 'd mem_state \<Rightarrow> 'd mem_state res" where
  "address_space_stw as addr v st = address_space_stw_internal as addr v DEVICE_NATIVE_ENDIAN st"

definition address_space_stl_internal :: "address_space \<Rightarrow> hwaddr \<Rightarrow> u32 \<Rightarrow> device_endian \<Rightarrow> 'd mem_state \<Rightarrow> 'd mem_state res" where
  "address_space_stl_internal as addr v e st = st_internal True 2 as addr (ucast v) e st"

definition address_space_stl :: "address_space \<Rightarrow> hwaddr \<Rightarrow> u32 \<Rightarrow> 'd mem_state \<Rightarrow> 'd mem_state res" where
  "address_space_stl as addr v st = address_space_stl_internal as addr v DEVICE_NATIVE_ENDIAN st"

definition address_space_stl_le :: "address_space \<Rightarrow> hwaddr \<Rightarrow> u32 \<Rightarrow> 'd mem_state \<Rightarrow> 'd mem_state res" where
  "address_space_stl_le as addr v st = address_space_stl_internal as addr v DEVICE_LITTLE_ENDIAN st"

definition address_space_stl_notdirty :: "address_space \<Rightarrow> hwaddr \<Rightarrow> u32 \<Rightarrow> 'd mem_state \<Rightarrow> 'd mem_state res" where
  "address_space_stl_notdirty as addr v st = st_internal False 2 as addr (ucast v) DEVICE_NATIVE_ENDIAN st"

definition address_space_stq_internal :: "address_space \<Rightarrow> hwaddr \<Rightarrow> u64 \<Rightarrow> device_endian \<Rightarrow> 'd mem_state \<Rightarrow> 'd mem_state res" where
  "address_space_stq_internal as addr v e st = st_internal True 3 as addr v e st"

definition address_space_stq :: "address_space \<Rightarrow> hwaddr \<Rightarrow> u64 \<Rightarrow> 'd mem_state \<Rightarrow> 'd mem_state res" where
  "address_space_stq as addr v st = address_space_stq_internal as addr v DEVICE_NATIVE_ENDIAN st"

section \<open>Byte order\<close>

lemma bit_of_le: "bit (of_le bs) k \<longleftrightarrow> k < 64 \<and> k div 8 < length bs \<and> bit (bs ! (k div 8)) (k mod 8)"
proof (induction bs arbitrary: k)
  case (Cons b bs)
  show ?case
  proof (cases "k < 8")
    case True
    then show ?thesis by (simp add: bit_or_iff bit_push_bit_iff bit_ucast_iff)
  next
    case False
    then have "k div 8 = Suc ((k - 8) div 8)" "(k - 8) mod 8 = k mod 8"
      using le_div_geq [of 8 k] le_mod_geq [of 8 k] by simp_all
    moreover have "\<not> bit b k" using False bit_imp_le_length [of b k] by auto
    ultimately show ?thesis using False Cons [of "k - 8"]
      by (simp add: bit_or_iff bit_push_bit_iff bit_ucast_iff) linarith
  qed
qed simp

lemma length_le_bytes [simp]: "length (le_bytes n v) = n"
  by (simp add: le_bytes_def)

lemma nth_le_bytes [simp]: "i < n \<Longrightarrow> le_bytes n v ! i = ucast (drop_bit (8 * i) v)"
  by (simp add: le_bytes_def)

lemma of_le_le_bytes: "of_le (le_bytes n v) = take_bit (8 * n) v"
proof (rule bit_word_eqI)
  fix k assume "k < LENGTH(64)"
  moreover have "k div 8 < n \<longleftrightarrow> k < 8 * n" by (simp add: div_less_iff_less_mult mult.commute)
  moreover have "8 * (k div 8) + k mod 8 = k" by simp
  ultimately show "bit (of_le (le_bytes n v)) k = bit (take_bit (8 * n) v) k"
    by (auto simp: bit_of_le bit_take_bit_iff bit_ucast_iff bit_drop_bit_eq)
qed

lemma le_bytes_of_le:
  assumes "length bs \<le> 8"
  shows "le_bytes (length bs) (of_le bs) = bs"
proof (rule nth_equalityI)
  fix i assume "i < length (le_bytes (length bs) (of_le bs))"
  then have i: "i < length bs" by simp
  have "bit (ucast (drop_bit (8 * i) (of_le bs)) :: u8) k = bit (bs ! i) k" if "k < 8" for k
    using that i assms by (auto simp: bit_ucast_iff bit_drop_bit_eq bit_of_le)
  then have "(ucast (drop_bit (8 * i) (of_le bs)) :: u8) = bs ! i" by (intro bit_word_eqI) simp
  then show "le_bytes (length bs) (of_le bs) ! i = bs ! i" using i by simp
qed simp

lemma bswap_of_le: "length bs \<le> 8 \<Longrightarrow> bswap (length bs) (of_le bs) = of_le (rev bs)"
  by (simp add: bswap_def le_bytes_of_le)

lemma length_host_bytes [simp]: "length (host_bytes m ptr n) = n"
  by (simp add: host_bytes_def)

lemma host_bytes_put: "length bs = n \<Longrightarrow> host_bytes (host_put m ptr bs) ptr n = bs"
  by (intro nth_equalityI) (simp_all add: host_bytes_def host_put_def)

lemma ld_st_p: "ld_p n e (st_p n e m ptr v) ptr = take_bit (8 * n) v"
  by (cases e) (simp_all add: ld_p_def st_p_def host_bytes_put of_le_le_bytes)

section \<open>What a look-up leaves alone\<close>

definition same_map :: "'d mem_state \<Rightarrow> 'd mem_state \<Rightarrow> bool" where
  "same_map st st' \<longleftrightarrow> mrs st' = mrs st \<and> mem_segs st' = mem_segs st \<and> io_segs st' = io_segs st \<and>
     smram_region_enable st' = smram_region_enable st \<and> smram_enable st' = smram_enable st \<and>
     pam_current st' = pam_current st \<and> guest_ram_num st' = guest_ram_num st"

lemma same_map_refl [simp]: "same_map st st"
  by (simp add: same_map_def)

lemma same_map_trans: "same_map a b \<Longrightarrow> same_map b c \<Longrightarrow> same_map a c"
  by (simp add: same_map_def)

lemma found_same:
  assumes "mem_found p hit off plen st = Inr (q, x, l, st')"
  shows "same_map st st' \<and> hostmem st' = hostmem st \<and> dirtied st' = dirtied st"
  using assms by (auto simp: mem_found_def Let_def res_bind_def same_map_def split: sum.splits if_splits)

lemma mem_look_up_same:
  assumes "mem_mr_look_up smm off plen st = Inr (p, x, l, st')"
  shows "same_map st st' \<and> hostmem st' = hostmem st \<and> dirtied st' = dirtied st"
proof -
  from assms consider "st' = st" | q hit where "mem_found q hit off plen st = Inr (p, x, l, st')"
    unfolding mem_mr_look_up_def
    by (auto simp: res_bind_def split: sum.splits if_splits option.splits prod.splits)
  then show ?thesis by cases (auto dest: found_same)
qed

lemma mem_route_same: "same_map st st' \<Longrightarrow> mem_route smm off plen st' = mem_route smm off plen st"
  unfolding same_map_def by (elim conjE)
    (simp only: mem_route_def isa_bios_access_def is_isa_bios_access_def pam_type_is_pci_def smram_hidden_def)

definition smm_of :: "address_space \<Rightarrow> bool" where
  "smm_of as \<longleftrightarrow> as = AS_Smm_Memory"

lemma translate_route:
  assumes "map_inv st" "as \<noteq> AS_Io" "mem_route (smm_of as) addr l st = Inr (p, x, l')"
  shows "\<exists>st'. address_space_translate as addr l st = Inr (p, x, l', st') \<and> map_inv st' \<and> same_map st st' \<and>
    hostmem st' = hostmem st \<and> dirtied st' = dirtied st"
proof -
  have t: "address_space_translate as addr l st = mem_mr_look_up (smm_of as) addr l st"
    using assms(2) by (cases as) (auto simp: address_space_translate_def smm_of_def)
  have "drop_state (mem_mr_look_up (smm_of as) addr l st) = Inr (p, x, l')"
    using mem_look_up_route [OF assms(1)] assms(3) by simp
  then obtain st' where st': "mem_mr_look_up (smm_of as) addr l st = Inr (p, x, l', st')"
    by (auto simp: drop_state_def res_bind_def split: sum.splits prod.splits)
  then show ?thesis using t mem_look_up_same [OF st'] mem_look_up_inv [OF assms(1) st'] by auto
qed

section \<open>Loads and stores of guest RAM\<close>

lemma map_inv_memory [simp]: "map_inv (st\<lparr>hostmem := m\<rparr>) = map_inv st" "map_inv (st\<lparr>dirtied := w\<rparr>) = map_inv st"
    "map_inv (st\<lparr>dev := d\<rparr>) = map_inv st"
  by (simp_all add: map_inv_def registered_def)

lemma same_map_memory [simp]: "same_map st (st'\<lparr>hostmem := m\<rparr>) = same_map st st'"
    "same_map st (st'\<lparr>dirtied := w\<rparr>) = same_map st st'" "same_map st (st'\<lparr>dev := d\<rparr>) = same_map st st'"
  by (simp_all add: same_map_def)

definition ram_mr :: "'d memory_region \<Rightarrow> ram_block \<Rightarrow> bool" where
  "ram_mr mr b \<longleftrightarrow> ram mr \<and> ram_block mr = Some b \<and> host b \<noteq> 0"

lemma ram_mr_direct:
  "ram_mr mr b \<Longrightarrow> memory_access_is_direct mr w = Inr (w \<longrightarrow> \<not> readonly mr)"
  by (simp add: ram_mr_def memory_access_is_direct_def memory_region_is_ram_def)

lemma ram_mr_ptr: "ram_mr mr b \<Longrightarrow> x < max_length b \<Longrightarrow> ramblock_ptr (ram_block mr) x = Inr (host b + x)"
  by (simp add: ram_mr_def ramblock_ptr_def)

lemma st_ram:
  assumes "map_inv st" "as \<noteq> AS_Io" "mem_route (smm_of as) addr (2 ^ lg) st = Inr (p, x, 2 ^ lg)"
    and "ram_mr (mrs st p) b" "\<not> readonly (mrs st p)" "x < max_length b"
  shows "\<exists>st'. st_internal dirty lg as addr v e st = Inr st' \<and> map_inv st' \<and> same_map st st' \<and>
    hostmem st' = st_p (2 ^ lg) e (hostmem st) (host b + x) v \<and>
    dirtied st' = (if dirty then [(x + rb_offset b, 2 ^ lg)] else []) @ dirtied st"
proof -
  from translate_route [OF assms(1-3)] obtain st1 where
    t: "address_space_translate as addr (2 ^ lg) st = Inr (p, x, 2 ^ lg, st1)" and
    s1: "map_inv st1" "same_map st st1" "hostmem st1 = hostmem st" "dirtied st1 = dirtied st" by auto
  have m1: "mrs st1 = mrs st" using s1(2) by (simp add: same_map_def)
  have "ram_block (mrs st p) = Some b" using assms(4) by (simp add: ram_mr_def)
  then show ?thesis using t s1 m1 ram_mr_direct [OF assms(4), of True] ram_mr_ptr [OF assms(4,6)] assms(5)
    by (auto simp: st_internal_def Let_def invalidate_and_set_dirty_def)
qed

lemma ld_ram:
  assumes "map_inv st" "as \<noteq> AS_Io" "mem_route (smm_of as) addr (2 ^ lg) st = Inr (p, x, 2 ^ lg)"
    and "ram_mr (mrs st p) b" "x < max_length b"
  shows "\<exists>st'. ld_internal lg as addr e st = Inr (ld_p (2 ^ lg) e (hostmem st) (host b + x), st') \<and> map_inv st' \<and> same_map st st' \<and>
    hostmem st' = hostmem st"
proof -
  from translate_route [OF assms(1-3)] obtain st1 where
    t: "address_space_translate as addr (2 ^ lg) st = Inr (p, x, 2 ^ lg, st1)" and
    s1: "map_inv st1" "same_map st st1" "hostmem st1 = hostmem st" by auto
  have m1: "mrs st1 = mrs st" using s1(2) by (simp add: same_map_def)
  then show ?thesis using t s1 ram_mr_direct [OF assms(4), of False] ram_mr_ptr [OF assms(4,5)]
    by (auto simp: ld_internal_def)
qed

text \<open>The small map with its low RAM, for the concrete instances.\<close>

abbreviation demo_ram :: "unit mem_state" where
  "demo_ram \<equiv> demo\<lparr>mem_segs := [Ram_Mr 0]\<rparr>"

abbreviation demo_block :: ram_block where
  "demo_block \<equiv> \<lparr>host = 0x1000, rb_offset = 0, max_length = SMRAM_C_BASE\<rparr>"

lemma demo_look_up: "memory_region_look_up (mrs demo_ram) (mem_segs demo_ram) a = (if a < SMRAM_C_BASE then Inr (Ram_Mr 0) else Inl Exit)"
  by (simp add: demo_def demo_mrs_def blank_mr_def in_mr_def mr_end_def)

lemma demo_region: "ram (mrs demo_ram (Ram_Mr 0))" "\<not> readonly (mrs demo_ram (Ram_Mr 0))"
    "ram_block (mrs demo_ram (Ram_Mr 0)) = Some demo_block" "ops (mrs demo_ram (Ram_Mr 0)) = None"
    "mr_offset (mrs demo_ram (Ram_Mr 0)) = 0" "mr_size (mrs demo_ram (Ram_Mr 0)) = SMRAM_C_BASE"
  by (simp_all add: demo_def demo_mrs_def blank_mr_def)

lemma demo_route: "a < SMRAM_C_BASE \<Longrightarrow> mem_route False a n demo_ram = Inr (Ram_Mr 0, a, min (SMRAM_C_BASE - a) n)"
  unfolding mem_route_def demo_look_up
  by (simp add: isa_bios_access_def is_isa_bios_access_def is_smram_access_def memory_region_is_ram_def demo_region del: simp_thms)
    (simp add: demo_def demo_mrs_def blank_mr_def)



text \<open>
  C8. A load that starts in RAM and runs over the end of its region is sent to the callbacks of the
  region, and RAM regions have none: the model faults on a null pointer. The same happens to every
  store into a read-only RAM region, so that a write of the guest to a shadowed BIOS segment, which
  the chip ignores, stops the machine.
\<close>

theorem ram_without_callbacks:
  assumes "map_reach st" "as \<noteq> AS_Io" "mem_route (smm_of as) addr (2 ^ lg) st = Inr (p, x, l)"
    and "ram (mrs st p)" "ram_block (mrs st p) \<noteq> None" "ops (mrs st p) = None"
  shows "(l < 2 ^ lg \<longrightarrow> ld_internal lg as addr e st = Inl NullDeref) \<and>
    (l < 2 ^ lg \<or> readonly (mrs st p) \<longrightarrow> st_internal dirty lg as addr v e st = Inl NullDeref)"
proof -
  from translate_route [OF reach_inv [OF assms(1)] assms(2,3)] obtain st1 where
    t: "address_space_translate as addr (2 ^ lg) st = Inr (p, x, l, st1)" and s1: "same_map st st1" by auto
  have m1: "mrs st1 = mrs st" using s1 by (simp add: same_map_def)
  have "memory_access_is_direct (mrs st p) w = Inr (w \<longrightarrow> \<not> readonly (mrs st p))" for w
    using assms(4,5) by (simp add: memory_access_is_direct_def memory_region_is_ram_def)
  then show ?thesis using t m1 assms(6)
    by (auto simp: ld_internal_def st_internal_def memory_region_dispatch_read_def memory_region_dispatch_write_def)
qed

theorem ram_without_callbacks_witness:
  "ld_internal 2 AS_Memory 0x9fffe DEVICE_NATIVE_ENDIAN demo_ram = Inl NullDeref"
proof -
  have "mem_route (smm_of AS_Memory) 0x9fffe (2 ^ 2) demo_ram = Inr (Ram_Mr 0, 0x9fffe, 2)"
    by (simp add: smm_of_def demo_route)
  from ram_without_callbacks [OF demo_ram_reach _ this demo_region(1) _ demo_region(4)] demo_region(3) show ?thesis by simp
qed

section \<open>Device accesses keep the order of bytes\<close>

lemma of_le_append: "of_le (xs @ ys) = of_le xs OR push_bit (8 * length xs) (of_le ys)"
  by (induction xs) (simp_all add: push_bit_or ac_simps)

lemma host_bytes_append: "host_bytes m x (i + j) = host_bytes m x i @ host_bytes m (x + i) j"
proof -
  have "[i..<i + j] = map (\<lambda>k. k + i) [0..<j]" using map_add_upt [of i j] by (simp add: add.commute)
  then have "[0..<i + j] = [0..<i] @ map (\<lambda>k. k + i) [0..<j]" using upt_add_eq_append [of 0 i j] by simp
  then show ?thesis by (simp add: host_bytes_def ac_simps)
qed

lemma mask_width: "n \<le> 8 \<Longrightarrow> MAKE_64BIT_MASK 0 (n * 8) = mask (8 * n)"
  by (rule bit_word_eqI) (auto simp: MAKE_64BIT_MASK_def bit_push_bit_iff bit_drop_bit_eq bit_mask_iff)

lemma of_le_masked: "length bs = n \<Longrightarrow> of_le bs AND mask (8 * n) = of_le bs"
  by (rule bit_word_eqI) (auto simp: bit_and_iff bit_mask_iff bit_of_le div_less_iff_less_mult)

text \<open>What a device of bytes \<open>m\<close> returns for a read, and the value the guest is to see.\<close>

definition dev_value :: "bool \<Rightarrow> u8 list \<Rightarrow> u64" where
  "dev_value big bs = (if big then of_le (rev bs) else of_le bs)"

lemma read_parts_bytes:
  assumes rd: "\<And>x. rd d x a = Inr (dev_value big (host_bytes m x a), d)"
    and a: "0 < a" "a dvd sz" "sz \<le> 8" and i: "a dvd i" "i \<le> sz"
    and v: "v = (if big then push_bit (8 * (sz - i)) (of_le (rev (host_bytes m addr i))) else of_le (host_bytes m addr i))"
  shows "read_parts rd big addr sz a i v d = Inr (dev_value big (host_bytes m addr sz), d)"
  using i v
proof (induction "sz - i" arbitrary: i v rule: less_induct)
  case less
  show ?case
  proof (cases "i < sz")
    case False
    with less.prems have "i = sz" by simp
    with less.prems(3) show ?thesis by (subst read_parts.simps) (simp add: dev_value_def)
  next
    case True
    have "a dvd sz - i" using a(2) less.prems(1) by (rule dvd_diff_nat)
    then have ia: "i + a \<le> sz" using True dvd_imp_le [of a "sz - i"] by simp
    define tmp where "tmp = dev_value big (host_bytes m (addr + i) a)"
    define v' where "v' = memory_region_shift_read_access v (access_shift big sz a i) (MAKE_64BIT_MASK 0 (a * 8)) tmp"
    have tm: "tmp AND MAKE_64BIT_MASK 0 (a * 8) = tmp"
      using mask_width [of a] ia a(3) by (simp add: tmp_def dev_value_def of_le_masked)
    have "v' = (if big then push_bit (8 * (sz - (i + a))) (of_le (rev (host_bytes m addr (i + a)))) else of_le (host_bytes m addr (i + a)))"
    proof (cases big)
      case False
      have "nat (int i * 8) = 8 * i" by simp
      then show ?thesis using False less.prems(3) tm
        by (simp add: v'_def memory_region_shift_read_access_def access_shift_def host_bytes_append of_le_append tmp_def dev_value_def)
    next
      case True
      have sh: "access_shift True sz a i = int (8 * (sz - (i + a)))" using ia by (simp add: access_shift_def)
      define k where "k = sz - (i + a)"
      have e: "8 * (sz - i) = 8 * k + 8 * a" using ia by (simp add: k_def)
      have "of_le (rev (host_bytes m addr (i + a))) =
          of_le (rev (host_bytes m (addr + i) a)) OR push_bit (8 * a) (of_le (rev (host_bytes m addr i)))"
        by (simp add: host_bytes_append of_le_append)
      then have "push_bit (8 * k) (of_le (rev (host_bytes m addr (i + a)))) =
          push_bit (8 * (sz - i)) (of_le (rev (host_bytes m addr i))) OR push_bit (8 * k) (of_le (rev (host_bytes m (addr + i) a)))"
        by (simp add: e push_bit_or or.commute)
      moreover have "v' = v OR push_bit (8 * k) tmp"
        using True tm sh by (simp add: v'_def memory_region_shift_read_access_def k_def nat_mult_distrib)
      ultimately show ?thesis using True less.prems(3) by (simp add: tmp_def dev_value_def k_def)
    qed
    moreover have "read_parts rd big addr sz a i v d = read_parts rd big addr sz a (i + a) v' d"
      using True a(1) rd by (subst read_parts.simps) (simp add: v'_def tmp_def)
    ultimately show ?thesis using less.hyps [of "i + a" v'] True a(1) ia less.prems(1) by auto
  qed
qed

definition dev_bytes :: "bool \<Rightarrow> nat \<Rightarrow> u64 \<Rightarrow> u8 list" where
  "dev_bytes big n v = (if big then rev (le_bytes n v) else le_bytes n v)"

lemma length_dev_bytes [simp]: "length (dev_bytes big n v) = n"
  by (simp add: dev_bytes_def)

lemma part_byte:
  assumes "j < a" "a \<le> 8"
  shows "(ucast (drop_bit (8 * j) (drop_bit s v AND mask (8 * a))) :: u8) = ucast (drop_bit (8 * j + s) (v :: u64))"
  by (rule bit_word_eqI) (use assms in \<open>auto simp: bit_ucast_iff bit_drop_bit_eq bit_and_iff bit_mask_iff ac_simps\<close>)

lemma write_part:
  assumes "i + a \<le> sz" "sz \<le> 8"
  shows "dev_bytes big a (memory_region_shift_write_access v (access_shift big sz a i) (MAKE_64BIT_MASK 0 (a * 8))) =
    take a (drop i (dev_bytes big sz v))"
proof -
  define s where "s = (if big then 8 * (sz - (i + a)) else 8 * i)"
  have sh: "access_shift big sz a i = int s" using assms(1) by (auto simp: access_shift_def s_def)
  have w: "memory_region_shift_write_access v (access_shift big sz a i) (MAKE_64BIT_MASK 0 (a * 8)) = drop_bit s v AND mask (8 * a)"
    using mask_width [of a] assms by (simp add: memory_region_shift_write_access_def sh)
  show ?thesis unfolding w
  proof (rule nth_equalityI)
    fix k assume "k < length (dev_bytes big a (drop_bit s v AND mask (8 * a)))"
    then have k: "k < a" by simp
    show "dev_bytes big a (drop_bit s v AND mask (8 * a)) ! k = take a (drop i (dev_bytes big sz v)) ! k"
    proof (cases big)
      case True
      have e: "8 * (a - Suc k) + s = 8 * (sz - Suc (i + k))" using True k assms(1) by (simp add: s_def)
      show ?thesis using True k assms part_byte [of "a - Suc k" a s v]
        by (simp add: dev_bytes_def rev_nth e)
    next
      case False
      have "8 * k + s = 8 * (i + k)" using False by (simp add: s_def)
      then show ?thesis using False k assms part_byte [of k a s v] by (simp add: dev_bytes_def ac_simps)
    qed
  qed (use assms in simp)
qed

lemma host_put_append:
  "host_put (host_put m x xs) (x + length xs) ys = host_put m x (xs @ ys)"
  by (rule ext) (auto simp: host_put_def nth_append)

lemma host_put_Nil [simp]: "host_put m x [] = m"
  by (rule ext) (auto simp: host_put_def)

lemma write_parts_bytes:
  assumes wr: "\<And>d x v. \<exists>d'. wr d x v a = Inr d' \<and> m d' = host_put (m d) x (dev_bytes big a v)"
    and a: "0 < a" "a dvd sz" "sz \<le> 8" and i: "a dvd i" "i \<le> sz"
  shows "\<exists>d'. write_parts wr big addr sz a i v d = Inr d' \<and> m d' = host_put (m d) (addr + i) (drop i (dev_bytes big sz v))"
  using i
proof (induction "sz - i" arbitrary: i d rule: less_induct)
  case less
  show ?case
  proof (cases "i < sz")
    case False
    with less.prems have "i = sz" by simp
    then show ?thesis by (subst write_parts.simps) simp
  next
    case True
    have "a dvd sz - i" using a(2) less.prems(1) by (rule dvd_diff_nat)
    then have ia: "i + a \<le> sz" using True dvd_imp_le [of a "sz - i"] by simp
    define w where "w = memory_region_shift_write_access v (access_shift big sz a i) (MAKE_64BIT_MASK 0 (a * 8))"
    obtain d1 where d1: "wr d (addr + i) w a = Inr d1" "m d1 = host_put (m d) (addr + i) (dev_bytes big a w)"
      using wr by blast
    have step: "write_parts wr big addr sz a i v d = write_parts wr big addr sz a (i + a) v d1"
      using True a(1) d1(1) by (subst write_parts.simps) (simp add: w_def)
    obtain d' where d': "write_parts wr big addr sz a (i + a) v d1 = Inr d'"
      "m d' = host_put (m d1) (addr + (i + a)) (drop (i + a) (dev_bytes big sz v))"
      using less.hyps [OF _ _ ia, of d1] True a(1) less.prems(1) by (auto simp: diff_less_mono2)
    have "drop i (dev_bytes big sz v) = dev_bytes big a w @ drop (i + a) (dev_bytes big sz v)"
      using write_part [OF ia a(3), of big v] by (simp add: w_def add.commute flip: drop_drop)
    then show ?thesis using step d' d1(2) host_put_append [of "m d" "addr + i" "dev_bytes big a w"]
      by (simp add: add.assoc)
  qed
qed

text \<open>
  The contract of a device that is an array of bytes: a read returns the bytes at its address in
  the byte order the device declares, a write stores them in that order.
\<close>

definition byte_device :: "'d mr_ops \<Rightarrow> ('d \<Rightarrow> hwaddr \<Rightarrow> u8) \<Rightarrow> bool" where
  "byte_device o' m \<longleftrightarrow>
     (\<exists>rd wr. op_read o' = Some rd \<and> op_write o' = Some wr \<and>
        (\<forall>d x a. rd d x a = Inr (dev_value (memory_region_big_endian o') (host_bytes (m d) x a), d)) \<and>
        (\<forall>d x v a. \<exists>d'. wr d x v a = Inr d' \<and> m d' = host_put (m d) x (dev_bytes (memory_region_big_endian o') a v)))"

lemma memop_size_le: "memop_size op \<le> 8"
  using power_increasing [of "mo_size op mod 4" 3 "2::nat"] by (simp add: memop_size_def)

text \<open>
  C4. The splitting of device accesses preserves the bytes and their order. For a device that is an
  array of bytes, whatever access sizes it implements and in whatever byte order, a read through
  the dispatcher returns the bytes at the address, least significant first (or last, for a
  byte-swapped access), and a write stores exactly the bytes of the value in that order.
\<close>

theorem device_bytes_in_order:
  assumes "ops (mrs st p) = Some o'" "byte_device o' m"
    and "memory_region_access_valid o' (dev st) addr (memop_size op) False"
    and "memory_region_access_valid o' (dev st) addr (memop_size op) True"
    and "adjusted_size (memop_size op) (impl_min_access_size o') (impl_max_access_size o') dvd memop_size op"
  shows "memory_region_dispatch_read p addr op st =
      Inr (dev_value (mo_bswap op) (host_bytes (m (dev st)) addr (memop_size op)), st) \<and>
    (\<exists>st'. memory_region_dispatch_write p addr v op st = Inr st' \<and>
       m (dev st') = host_put (m (dev st)) addr (dev_bytes (mo_bswap op) (memop_size op) v))"
proof -
  define sz big where "sz = memop_size op" and "big = memory_region_big_endian o'"
  define a where "a = adjusted_size sz (impl_min_access_size o') (impl_max_access_size o')"
  have "0 < adjusted_size n mn mx" for n mn mx by (auto simp: adjusted_size_def Let_def max_def)
  then have a: "0 < a" "a dvd sz" "sz \<le> 8"
    using assms(5) memop_size_le [of op] by (simp_all add: a_def sz_def)
  obtain rd wr where o: "op_read o' = Some rd" "op_write o' = Some wr"
    and rd: "\<And>d x a. rd d x a = Inr (dev_value big (host_bytes (m d) x a), d)"
    and wr: "\<And>d x v a. \<exists>d'. wr d x v a = Inr d' \<and> m d' = host_put (m d) x (dev_bytes big a v)"
    using assms(2) by (auto simp: byte_device_def big_def)
  define bs where "bs = host_bytes (m (dev st)) addr sz"
  have r: "read_parts rd big addr sz a 0 0 (dev st) = Inr (dev_value big bs, dev st)"
    unfolding bs_def by (rule read_parts_bytes) (use rd a in \<open>auto simp: host_bytes_def\<close>)
  have l: "length bs = sz" by (simp add: bs_def)
  have be: "devend_memop (endianness o') = big" by (simp add: big_def devend_memop_def memory_region_big_endian_def)
  have one: "rev xs = xs" if "length xs = 1" for xs :: "u8 list" using that by (cases xs) auto
  have "adjust_endianness o' (dev_value big bs) op = dev_value (mo_bswap op) bs"
    using bswap_of_le [of bs] bswap_of_le [of "rev bs"] l a(3) one [of bs]
    by (auto simp: adjust_endianness_def be dev_value_def sz_def)
  moreover have "dev_bytes big sz (adjust_endianness o' v op) = dev_bytes (mo_bswap op) sz v"
    using le_bytes_of_le [of "rev (le_bytes sz v)"] a(3) one [of "le_bytes sz v"]
    by (auto simp: adjust_endianness_def be dev_bytes_def bswap_def simp flip: sz_def)
  moreover obtain d' where "write_parts wr big addr sz a 0 (adjust_endianness o' v op) (dev st) = Inr d'"
    "m d' = host_put (m (dev st)) addr (dev_bytes big sz (adjust_endianness o' v op))"
    using write_parts_bytes [where wr = wr and a = a and m = m and big = big and sz = sz and i = 0 and addr = addr
        and d = "dev st" and v = "adjust_endianness o' v op", OF wr a] by auto
  ultimately show ?thesis using assms(1,3,4) o r
    by (simp add: memory_region_dispatch_read_def memory_region_dispatch_write_def flip: sz_def big_def a_def bs_def)
qed

text \<open>A device that is a plain array of bytes.\<close>

definition array_ops :: "(hwaddr \<Rightarrow> u8) mr_ops" where
  "array_ops = \<lparr>op_read = Some (\<lambda>d x n. Inr (of_le (rev (host_bytes d x n)), d)),
     op_write = Some (\<lambda>d x v n. Inr (host_put d x (rev (le_bytes n v)))), endianness = DEVICE_BIG_ENDIAN,
     valid_min_access_size = 0, valid_max_access_size = 0, valid_unaligned = False, valid_accepts = None,
     impl_min_access_size = 1, impl_max_access_size = 2, impl_unaligned = False\<rparr>"

definition array_demo :: "(hwaddr \<Rightarrow> u8) mem_state" where
  "array_demo = \<lparr>mrs = (\<lambda>_. \<lparr>ram = False, readonly = False, ram_block = None, ops = Some array_ops, mr_offset = 0xfed00000,
       mr_size = 0x400, mr_name = []\<rparr>), mem_segs = [], io_segs = [], cache = None, cache1 = None, cache2 = None,
     smram_region_enable = False, smram_enable = False, pam_current = replicate 13 PAM_PCI, guest_ram_num = 1,
     hostmem = (\<lambda>_. 0), dirtied = [], dev = (\<lambda>a. of_nat a)\<rparr>"

lemma nat_4_and_3: "(4::nat) AND 3 = 0"
  by code_simp

theorem device_bytes_in_order_witness:
  "byte_device array_ops (\<lambda>d. d) \<and>
   memory_region_dispatch_read (Dev_Mr 0) 4 \<lparr>mo_size = 2, mo_bswap = False\<rparr> array_demo = Inr (of_le [4, 5, 6, 7], array_demo)"
proof -
  have o: "ops (mrs array_demo (Dev_Mr 0)) = Some array_ops" by (simp add: array_demo_def)
  have b: "byte_device array_ops (\<lambda>d. d)"
    by (simp add: byte_device_def array_ops_def memory_region_big_endian_def dev_value_def dev_bytes_def)
  have v: "memory_region_access_valid array_ops d 4 (memop_size \<lparr>mo_size = 2, mo_bswap = False\<rparr>) w" for d w
    using nat_4_and_3 by (simp add: memory_region_access_valid_def array_ops_def memop_size_def)
  have a: "adjusted_size (memop_size \<lparr>mo_size = 2, mo_bswap = False\<rparr>) (impl_min_access_size array_ops) (impl_max_access_size array_ops)
      dvd memop_size \<lparr>mo_size = 2, mo_bswap = False\<rparr>" by code_simp
  have h: "host_bytes (dev array_demo) 4 4 = [4, 5, 6, 7]" by (simp add: host_bytes_def array_demo_def upt_rec)
  from device_bytes_in_order [OF o b v v a] h b show ?thesis by (simp add: memop_size_def dev_value_def)
qed

section \<open>Bulk transfers\<close>

text \<open>Addresses that no overlay of the first megabyte touches.\<close>

definition plain :: "hwaddr \<Rightarrow> bool" where
  "plain a \<longleftrightarrow> a < SMRAM_C_BASE \<or> 0x100000 \<le> a"

text \<open>The host address of a byte of guest RAM, and the byte there.\<close>

definition guest_ptr :: "'d mem_state \<Rightarrow> hwaddr \<Rightarrow> nat option" where
  "guest_ptr st a =
     (case memory_region_look_up (mrs st) (mem_segs st) a of
        Inl _ \<Rightarrow> None
      | Inr p \<Rightarrow>
          (case ram_block (mrs st p) of
             None \<Rightarrow> None
           | Some b \<Rightarrow>
               if ram (mrs st p) \<and> host b \<noteq> 0 \<and> max_length b = mr_size (mrs st p)
               then Some (host b + (a - mr_offset (mrs st p))) else None))"

definition guest_byte :: "'d mem_state \<Rightarrow> hwaddr \<Rightarrow> u8 option" where
  "guest_byte st a = map_option (hostmem st) (guest_ptr st a)"

definition writable :: "'d mem_state \<Rightarrow> hwaddr \<Rightarrow> bool" where
  "writable st a \<longleftrightarrow> (\<exists>p. memory_region_look_up (mrs st) (mem_segs st) a = Inr p \<and> \<not> readonly (mrs st p))"

definition no_alias :: "'d mem_state \<Rightarrow> bool" where
  "no_alias st \<longleftrightarrow> (\<forall>a a' h. guest_ptr st a = Some h \<longrightarrow> guest_ptr st a' = Some h \<longrightarrow> a = a')"

lemma guest_ptr_same: "same_map st st' \<Longrightarrow> guest_ptr st' a = guest_ptr st a"
  unfolding same_map_def by (elim conjE) (simp only: guest_ptr_def)

lemma writable_same: "same_map st st' \<Longrightarrow> writable st' a = writable st a"
  unfolding same_map_def by (elim conjE) (simp only: writable_def)

lemma guest_ptrE:
  assumes "guest_ptr st a = Some h"
  obtains p b where "memory_region_look_up (mrs st) (mem_segs st) a = Inr p" "ram_mr (mrs st p) b"
    "max_length b = mr_size (mrs st p)" "h = host b + (a - mr_offset (mrs st p))" "in_mr (mrs st p) a"
proof -
  from assms obtain p b where "memory_region_look_up (mrs st) (mem_segs st) a = Inr p" "ram_block (mrs st p) = Some b"
    "ram (mrs st p)" "host b \<noteq> 0" "max_length b = mr_size (mrs st p)" "h = host b + (a - mr_offset (mrs st p))"
    by (auto simp: guest_ptr_def split: sum.splits option.splits if_splits)
  then show thesis using that look_up_sound [of "mrs st" "mem_segs st" a p] by (auto simp: ram_mr_def)
qed

text \<open>One step of a transfer: the run of bytes that the look-up grants.\<close>

lemma route_plain:
  assumes "map_inv st" "plain a" "guest_ptr st a = Some h" "0 < n"
  shows "\<exists>p b x l. mem_route smm a n st = Inr (p, x, l) \<and> ram_mr (mrs st p) b \<and> x + l \<le> max_length b \<and> 0 < l \<and> l \<le> n \<and>
    readonly (mrs st p) = (\<not> writable st a) \<and> h = host b + x \<and> (\<forall>k < l. guest_ptr st (a + k) = Some (host b + x + k))"
proof -
  from assms(3) obtain p b where p: "memory_region_look_up (mrs st) (mem_segs st) a = Inr p" "ram_mr (mrs st p) b"
    "max_length b = mr_size (mrs st p)" "h = host b + (a - mr_offset (mrs st p))" "in_mr (mrs st p) a"
    by (rule guest_ptrE)
  define x l where "x = a - mr_offset (mrs st p)" and "l = min (mr_size (mrs st p) - x) n"
  have nb: "isa_bios_access a n st = Inr None" "\<not> is_smram_access a"
    using assms(2) by (auto simp: plain_def isa_bios_access_def is_isa_bios_access_def is_smram_access_def)
  have r: "memory_region_is_ram (mrs st p) = Inr True" using p(2) by (simp add: ram_mr_def memory_region_is_ram_def)
  have "mem_route smm a n st = Inr (p, x, l)" using p(1) nb r by (simp add: mem_route_def x_def l_def Let_def)
  moreover have x: "x < mr_size (mrs st p)" "mr_offset (mrs st p) + x = a"
    using p(5) by (auto simp: in_mr_def mr_end_def x_def)
  moreover have "guest_ptr st (a + k) = Some (host b + x + k)" if k: "k < l" for k
  proof -
    have "in_mr (mrs st p) (a + k)" using k x by (auto simp: in_mr_def mr_end_def l_def)
    then have "memory_region_look_up (mrs st) (mem_segs st) (a + k) = Inr p"
      using look_up_hit [OF map_invD(1) [OF assms(1)]] look_up_sound [OF p(1)] by simp
    then show ?thesis using p(2,3) x(2) by (auto simp: guest_ptr_def ram_mr_def)
  qed
  moreover have "readonly (mrs st p) = (\<not> writable st a)" using p(1) by (simp add: writable_def)
  ultimately show ?thesis using p assms(4) by (intro exI [of _ p] exI [of _ b] exI [of _ x] exI [of _ l]) (auto simp: l_def x_def)
qed

lemma ram_ptr_length:
  "ram_mr mr b \<Longrightarrow> 0 < l \<Longrightarrow> x + l \<le> max_length b \<Longrightarrow> qemu_ram_ptr_length (ram_block mr) x l = Inr (host b + x, l)"
  by (auto simp: qemu_ram_ptr_length_def ram_mr_def ramblock_ptr_def)

lemma guest_byte_put:
  assumes "no_alias st" "\<And>k. k < length bs \<Longrightarrow> guest_ptr st (addr + k) = Some (ptr + k)"
  shows "guest_byte (st\<lparr>hostmem := host_put (hostmem st) ptr bs\<rparr>) a =
    (if addr \<le> a \<and> a < addr + length bs then Some (bs ! (a - addr)) else guest_byte st a)"
proof (cases "guest_ptr st a")
  case None
  have "\<not> (addr \<le> a \<and> a < addr + length bs)"
  proof
    assume "addr \<le> a \<and> a < addr + length bs"
    then have "addr + (a - addr) = a" "a - addr < length bs" by auto
    with assms(2) [of "a - addr"] None show False by simp
  qed
  with None guest_ptr_same [of st "st\<lparr>hostmem := host_put (hostmem st) ptr bs\<rparr>" a] show ?thesis
    by (simp add: guest_byte_def)
next
  case (Some h)
  have g: "guest_ptr (st\<lparr>hostmem := host_put (hostmem st) ptr bs\<rparr>) a = Some h"
    using Some guest_ptr_same [of st "st\<lparr>hostmem := host_put (hostmem st) ptr bs\<rparr>" a] by simp
  show ?thesis
  proof (cases "addr \<le> a \<and> a < addr + length bs")
    case True
    with assms(2) [of "a - addr"] Some g show ?thesis by (auto simp: guest_byte_def host_put_def)
  next
    case False
    have "\<not> (ptr \<le> h \<and> h < ptr + length bs)"
    proof
      assume "ptr \<le> h \<and> h < ptr + length bs"
      then have "guest_ptr st (addr + (h - ptr)) = Some h" "h - ptr < length bs" using assms(2) [of "h - ptr"] by auto
      with assms(1) Some False show False unfolding no_alias_def by (metis le_add1 nat_add_left_cancel_less)
    qed
    with g Some False show ?thesis by (auto simp: guest_byte_def host_put_def)
  qed
qed

definition all_ram :: "bool \<Rightarrow> hwaddr \<Rightarrow> nat \<Rightarrow> 'd mem_state \<Rightarrow> bool" where
  "all_ram w addr n st \<longleftrightarrow> (\<forall>a. addr \<le> a \<and> a < addr + n \<longrightarrow> plain a \<and> guest_ptr st a \<noteq> None \<and> (w \<longrightarrow> writable st a))"

lemma all_ram_same: "same_map st st' \<Longrightarrow> all_ram w addr n st' = all_ram w addr n st"
  by (simp only: all_ram_def guest_ptr_same writable_same)

lemma no_alias_same: "same_map st st' \<Longrightarrow> no_alias st' = no_alias st"
  by (simp add: no_alias_def guest_ptr_same)

lemma guest_byte_same: "same_map st st' \<Longrightarrow> hostmem st' = hostmem st \<Longrightarrow> guest_byte st' a = guest_byte st a"
  by (simp add: guest_byte_def guest_ptr_same)

lemma write_loop:
  assumes "map_inv st" "as \<noteq> AS_Io" "no_alias st" "buf \<noteq> []" "length buf \<le> fuel" "all_ram True addr (length buf) st"
    and "mem_route (smm_of as) addr (length buf) st = Inr (p, addr1, l)"
  shows "\<exists>st'. flatview_write_continue fuel as addr buf addr1 l p st = Some (Inr st') \<and> map_inv st' \<and> same_map st st' \<and>
    (\<forall>a. guest_byte st' a = (if addr \<le> a \<and> a < addr + length buf then Some (buf ! (a - addr)) else guest_byte st a))"
  using assms
proof (induction fuel arbitrary: st addr buf addr1 l p)
  case (Suc fuel)
  from Suc.prems(4) have pos: "0 < length buf" by simp
  with Suc.prems(6) have pl: "plain addr" "guest_ptr st addr \<noteq> None" "writable st addr" by (auto simp: all_ram_def)
  then obtain h where "guest_ptr st addr = Some h" by auto
  from route_plain [OF Suc.prems(1) pl(1) this pos, of "smm_of as"] Suc.prems(7) pl(3) obtain b where
    b: "ram_mr (mrs st p) b" "addr1 + l \<le> max_length b" "0 < l" "l \<le> length buf" "\<not> readonly (mrs st p)"
      "\<And>k. k < l \<Longrightarrow> guest_ptr st (addr + k) = Some (host b + addr1 + k)" by auto
  define st1 where "st1 = st\<lparr>hostmem := host_put (hostmem st) (host b + addr1) (take l buf),
    dirtied := (addr1 + rb_offset b, l) # dirtied st\<rparr>"
  have inv: "invalidate_and_set_dirty p addr1 l (st\<lparr>hostmem := host_put (hostmem st) (host b + addr1) (take l buf)\<rparr>) = Inr st1"
    using b(1) by (simp add: invalidate_and_set_dirty_def ram_mr_def st1_def)
  have s1: "map_inv st1" "same_map st st1" using Suc.prems(1) by (simp_all add: st1_def)
  have g1: "guest_byte st1 a = (if addr \<le> a \<and> a < addr + l then Some (buf ! (a - addr)) else guest_byte st a)" for a
    using guest_byte_put [OF Suc.prems(3), of "take l buf" addr "host b + addr1" a] b(4,6)
      guest_byte_same [of "st\<lparr>hostmem := host_put (hostmem st) (host b + addr1) (take l buf)\<rparr>" st1 a]
    by (auto simp: st1_def add.assoc)
  note run = ram_mr_direct [OF b(1), of True] ram_ptr_length [OF b(1,3,2)] inv b(5)
  show ?case
  proof (cases "length buf \<le> l")
    case True
    with b(4) have "l = length buf" by simp
    then show ?thesis using run s1 g1 by auto
  next
    case False
    define rest where "rest = drop l buf"
    have r: "rest \<noteq> []" "length rest = length buf - l" "length rest \<le> fuel"
      using False b(3) Suc.prems(5) by (auto simp: rest_def)
    have ar: "all_ram True (addr + l) (length rest) st1"
      using Suc.prems(6) b(4) r(2) unfolding all_ram_same [OF s1(2)] by (auto simp: all_ram_def)
    then have "plain (addr + l)" "guest_ptr st1 (addr + l) \<noteq> None" using r(1) by (auto simp: all_ram_def)
    then obtain p' x' l' where ro: "mem_route (smm_of as) (addr + l) (length rest) st1 = Inr (p', x', l')"
      using route_plain [OF s1(1), of "addr + l" _ "length rest" "smm_of as"] r(1) by fastforce
    from translate_route [OF s1(1) Suc.prems(2) ro] obtain st2 where
      t: "address_space_translate as (addr + l) (length rest) st1 = Inr (p', x', l', st2)" and
      s2: "map_inv st2" "same_map st1 st2" "hostmem st2 = hostmem st1" by auto
    have ss: "same_map st st2" by (rule same_map_trans [OF s1(2) s2(2)])
    from Suc.IH [OF s2(1) Suc.prems(2) _ r(1,3)] ar ro Suc.prems(3) obtain st' where
      st': "flatview_write_continue fuel as (addr + l) rest x' l' p' st2 = Some (Inr st')" "map_inv st'" "same_map st2 st'"
        "\<And>a. guest_byte st' a = (if addr + l \<le> a \<and> a < addr + l + length rest then Some (rest ! (a - (addr + l))) else guest_byte st2 a)"
      by (metis all_ram_same [OF s2(2)] mem_route_same [OF s2(2)] no_alias_same [OF ss])
    have "flatview_write_continue (Suc fuel) as addr buf addr1 l p st = Some (Inr st')"
      using run False t st'(1) r(2) by (simp flip: rest_def)
    moreover have "guest_byte st' a = (if addr \<le> a \<and> a < addr + length buf then Some (buf ! (a - addr)) else guest_byte st a)" for a
      using st'(4) [of a] g1 [of a] guest_byte_same [OF s2(2,3), of a] r(2) b(4) by (auto simp: rest_def)
    ultimately show ?thesis using st'(2) same_map_trans [OF ss st'(3)] by auto
  qed
qed simp

lemma read_loop:
  assumes "map_inv st" "as \<noteq> AS_Io" "0 < len" "len \<le> fuel" "all_ram False addr len st"
    and "mem_route (smm_of as) addr len st = Inr (p, addr1, l)"
  shows "\<exists>bs st'. flatview_read_continue fuel as addr len addr1 l p st = Some (Inr (bs, st')) \<and> length bs = len \<and>
    (\<forall>k < len. guest_byte st (addr + k) = Some (bs ! k))"
  using assms
proof (induction fuel arbitrary: st addr len addr1 l p)
  case (Suc fuel)
  from Suc.prems(3,5) have pl: "plain addr" "guest_ptr st addr \<noteq> None" by (auto simp: all_ram_def)
  then obtain h where "guest_ptr st addr = Some h" by auto
  from route_plain [OF Suc.prems(1) pl(1) this Suc.prems(3), of "smm_of as"] Suc.prems(6) obtain b where
    b: "ram_mr (mrs st p) b" "addr1 + l \<le> max_length b" "0 < l" "l \<le> len"
      "\<And>k. k < l \<Longrightarrow> guest_ptr st (addr + k) = Some (host b + addr1 + k)" by auto
  define cs where "cs = host_bytes (hostmem st) (host b + addr1) l"
  have cs: "length cs = l" "\<And>k. k < l \<Longrightarrow> guest_byte st (addr + k) = Some (cs ! k)"
    using b(5) by (simp_all add: cs_def guest_byte_def host_bytes_def)
  note run = ram_mr_direct [OF b(1), of False] ram_ptr_length [OF b(1,3,2)]
  show ?case
  proof (cases "len \<le> l")
    case True
    with b(4) have "l = len" by simp
    then show ?thesis using run cs by (auto simp: cs_def)
  next
    case False
    have r: "0 < len - l" "len - l \<le> fuel" using False b(3) Suc.prems(4) by auto
    have ar: "all_ram False (addr + l) (len - l) st" using Suc.prems(5) b(4) by (auto simp: all_ram_def)
    then have "plain (addr + l)" "guest_ptr st (addr + l) \<noteq> None" using r(1) by (auto simp: all_ram_def)
    then obtain p' x' l' where ro: "mem_route (smm_of as) (addr + l) (len - l) st = Inr (p', x', l')"
      using route_plain [OF Suc.prems(1), of "addr + l" _ "len - l" "smm_of as"] r(1) by fastforce
    from translate_route [OF Suc.prems(1,2) ro] obtain st2 where
      t: "address_space_translate as (addr + l) (len - l) st = Inr (p', x', l', st2)" and
      s2: "map_inv st2" "same_map st st2" "hostmem st2 = hostmem st" by auto
    from Suc.IH [OF s2(1) Suc.prems(2) r] ar ro obtain bs st' where
      st': "flatview_read_continue fuel as (addr + l) (len - l) x' l' p' st2 = Some (Inr (bs, st'))" "length bs = len - l"
        "\<And>k. k < len - l \<Longrightarrow> guest_byte st2 (addr + l + k) = Some (bs ! k)"
      by (metis all_ram_same [OF s2(2)] mem_route_same [OF s2(2)])
    have "flatview_read_continue (Suc fuel) as addr len addr1 l p st = Some (Inr (cs @ bs, st'))"
      using run False t st'(1) by (simp flip: cs_def)
    moreover have "guest_byte st (addr + k) = Some ((cs @ bs) ! k)" if k: "k < len" for k
    proof (cases "k < l")
      case False
      then have "guest_byte st2 (addr + k) = Some (bs ! (k - l))" using st'(3) [of "k - l"] k by (simp add: add.assoc)
      then show ?thesis using False cs(1) guest_byte_same [OF s2(2,3), of "addr + k"] by (simp add: nth_append)
    qed (use cs in \<open>simp add: nth_append\<close>)
    ultimately show ?thesis using cs(1) st'(2) b(4) by (intro exI [of _ "cs @ bs"] exI [of _ st']) auto
  qed
qed simp

text \<open>
  C3. Bulk transfers are memory. In a reachable state where no two guest addresses share a host
  byte, a transfer to addresses that are all writable RAM outside the overlays of the first
  megabyte ends, however many regions it crosses; it changes exactly the bytes of the range, and a
  transfer back returns what was written.
\<close>

theorem bulk_write_read:
  assumes "map_reach st" "as \<noteq> AS_Io" "no_alias st" "all_ram True addr (length buf) st"
  shows "\<exists>st' st''. address_space_write as addr buf st = Some (Inr st') \<and>
    (\<forall>a. guest_byte st' a = (if addr \<le> a \<and> a < addr + length buf then Some (buf ! (a - addr)) else guest_byte st a)) \<and>
    address_space_read_full as addr (length buf) st' = Some (Inr (buf, st''))"
proof (cases "buf = []")
  case True
  then show ?thesis by (auto simp: address_space_write_def address_space_read_full_def)
next
  case False
  have inv: "map_inv st" by (rule reach_inv [OF assms(1)])
  have ar: "plain addr" "guest_ptr st addr \<noteq> None" using assms(4) False by (auto simp: all_ram_def)
  obtain p x l where ro: "mem_route (smm_of as) addr (length buf) st = Inr (p, x, l)"
    using route_plain [OF inv ar(1), of _ "length buf" "smm_of as"] ar(2) False by fastforce
  from translate_route [OF inv assms(2) ro] obtain st1 where
    t: "address_space_translate as addr (length buf) st = Inr (p, x, l, st1)" and
    s1: "map_inv st1" "same_map st st1" "hostmem st1 = hostmem st" by auto
  from write_loop [OF s1(1) assms(2) _ False order.refl, of addr p x l] obtain st' where
    w: "flatview_write_continue (length buf) as addr buf x l p st1 = Some (Inr st')" "map_inv st'" "same_map st1 st'"
      "\<And>a. guest_byte st' a = (if addr \<le> a \<and> a < addr + length buf then Some (buf ! (a - addr)) else guest_byte st1 a)"
    using assms(3,4) ro by (auto simp only: no_alias_same [OF s1(2)] all_ram_same [OF s1(2)] mem_route_same [OF s1(2)])
  have ss: "same_map st st'" by (rule same_map_trans [OF s1(2) w(3)])
  have ro': "mem_route (smm_of as) addr (length buf) st' = Inr (p, x, l)" using ro mem_route_same [OF ss] by simp
  from translate_route [OF w(2) assms(2) ro'] obtain st2 where
    t2: "address_space_translate as addr (length buf) st' = Inr (p, x, l, st2)" and
    s2: "map_inv st2" "same_map st' st2" "hostmem st2 = hostmem st'" by auto
  have "all_ram False addr (length buf) st" using assms(4) by (simp add: all_ram_def)
  then have ar2: "all_ram False addr (length buf) st2" by (simp only: all_ram_same [OF same_map_trans [OF ss s2(2)]])
  obtain bs st'' where r: "flatview_read_continue (length buf) as addr (length buf) x l p st2 = Some (Inr (bs, st''))"
      "length bs = length buf" "\<And>k. k < length buf \<Longrightarrow> guest_byte st2 (addr + k) = Some (bs ! k)"
    using read_loop [OF s2(1) assms(2) _ order.refl ar2] False ro' mem_route_same [OF s2(2)] by auto
  have "bs = buf" using r(2,3) w(4) guest_byte_same [OF s2(2,3)] by (intro nth_equalityI) auto
  then show ?thesis using t w t2 r False guest_byte_same [OF s1(2,3)]
    by (auto simp: address_space_write_def flatview_write_def address_space_read_full_def flatview_read_def)
qed

theorem bulk_write_read_witness:
  "\<exists>st' st''. address_space_write AS_Memory 0x7c00 [0x55, 0xaa] demo_ram = Some (Inr st') \<and>
     guest_byte st' 0x7c01 = Some 0xaa \<and> address_space_read_full AS_Memory 0x7c00 2 st' = Some (Inr ([0x55, 0xaa], st''))"
proof -
  have g: "guest_ptr demo_ram a = (if a < SMRAM_C_BASE then Some (0x1000 + a) else None)" for a
    unfolding guest_ptr_def demo_look_up using demo_region by (simp add: demo_def demo_mrs_def blank_mr_def)
  have "no_alias demo_ram" unfolding no_alias_def g by (auto split: if_splits)
  moreover have "writable demo_ram a" if "a < SMRAM_C_BASE" for a
    unfolding writable_def demo_look_up using that demo_region(2) by simp
  then have "all_ram True 0x7c00 (length [0x55 :: u8, 0xaa]) demo_ram"
    unfolding all_ram_def plain_def g by auto
  ultimately obtain st' st'' where "address_space_write AS_Memory 0x7c00 [0x55, 0xaa] demo_ram = Some (Inr st')"
    and e: "\<And>a. guest_byte st' a = (if 0x7c00 \<le> a \<and> a < 0x7c00 + length [0x55 :: u8, 0xaa] then Some ([0x55, 0xaa] ! (a - 0x7c00)) else guest_byte demo_ram a)"
    and "address_space_read_full AS_Memory 0x7c00 (length [0x55 :: u8, 0xaa]) st' = Some (Inr ([0x55, 0xaa], st''))"
    using bulk_write_read [OF demo_ram_reach, of AS_Memory "0x7c00" "[0x55, 0xaa]"] by auto
  moreover have "guest_byte st' 0x7c01 = Some 0xaa" unfolding e by simp
  ultimately show ?thesis by (auto simp: numeral_2_eq_2)
qed

end
