(* ===== verification/Page_Alloc.thy ===== *)
theory Page_Alloc
  imports Buddy
begin

text \<open>
  The memory manager of the bare-metal kernel (\<open>env/loongarch/syscall/memory.c\<close>): a list of free
  ranges, ordered by address between two sentinels and built from a pool of 100 nodes, which serves
  the mappings of 16 pages and more, and the buddy system in one such range for the smaller ones.
  Addresses are natural numbers below \<open>2 ^ 64\<close>. The nodes of the pool are interchangeable, so that
  only their number is kept; the free list is the list of the ranges in its order.
\<close>

section \<open>State and operations\<close>

type_synonym range = "nat \<times> nat"

record page_alloc =
  free_mem :: "range list"
  free_nodes :: nat
  bud :: "buddy option"
  memory_ready :: bool
  bytes :: "nat \<Rightarrow> u8"

definition BUDDY_LEVEL :: nat where "BUDDY_LEVEL = 17"
definition BUDDY_MAX_PAGE_NUM :: nat where "BUDDY_MAX_PAGE_NUM = 16"
definition POOL_SIZE :: nat where "POOL_SIZE = 100"
definition MAX_ADDR :: nat where "MAX_ADDR = 2 ^ 64 - 1"

definition len_pagesize_up :: "nat \<Rightarrow> nat" where
  "len_pagesize_up len = (len + PAGE_SIZE - 1) div PAGE_SIZE * PAGE_SIZE"

definition init_pages :: "page_alloc \<Rightarrow> page_alloc" where
  "init_pages st = st\<lparr>free_mem := [(0, 0), (MAX_ADDR, 0)], free_nodes := POOL_SIZE - 2\<rparr>"

definition add_head_sentinel :: "page_alloc \<Rightarrow> page_alloc res" where
  "add_head_sentinel st =
     (case free_mem st of
        [] \<Rightarrow> Inl AssertFail
      | x # _ \<Rightarrow>
          if snd x \<noteq> 0 then
            (if free_nodes st = 0 then Inl AssertFail
             else Inr (st\<lparr>free_mem := (0, 0) # free_mem st, free_nodes := free_nodes st - 1\<rparr>))
          else Inr st)"

definition zero_bytes :: "nat \<Rightarrow> nat \<Rightarrow> page_alloc \<Rightarrow> page_alloc" where
  "zero_bytes addr len st = st\<lparr>bytes := (\<lambda>a. if addr \<le> a \<and> a < addr + len then 0 else bytes st a)\<rparr>"

text \<open>The search of \<open>kernel_mmap\<close>: the address, the new list, and whether a node was given back.\<close>

fun first_fit :: "nat \<Rightarrow> range list \<Rightarrow> (nat \<times> range list \<times> bool) option" where
  "first_fit len [] = None"
| "first_fit len ((s, l) # xs) =
     (if len > l then map_option (\<lambda>(a, ys, fr). (a, (s, l) # ys, fr)) (first_fit len xs)
      else if len = l then Some (s, xs, True)
      else Some (s, (s + len, l - len) # xs, False))"

definition valid_prot :: u64 where "valid_prot = 7"
definition valid_flags :: u64 where "valid_flags = 0x22"

definition kernel_mmap ::
  "nat \<Rightarrow> nat \<Rightarrow> u64 \<Rightarrow> u64 \<Rightarrow> u64 \<Rightarrow> nat \<Rightarrow> page_alloc \<Rightarrow> (nat \<times> page_alloc) res option" where
  "kernel_mmap addr len prot flags fd off st =
     (if \<not> memory_ready st \<or> addr \<noteq> 0 \<or> fd \<noteq> - 1 \<or> flags AND NOT valid_flags \<noteq> 0 \<or> prot AND NOT valid_prot \<noteq> 0 \<or> off \<noteq> 0
      then Some (Inl AssertFail)
      else let len = len_pagesize_up len in
        if len < PAGE_SIZE * BUDDY_MAX_PAGE_NUM then
          (case bud st of
             None \<Rightarrow> Some (Inl NullDeref)
           | Some b \<Rightarrow>
               map_option (\<lambda>r. res_bind r (\<lambda>(o', b').
                 case o' of
                   None \<Rightarrow> Inl NotReached
                 | Some i \<Rightarrow>
                     let a = unat (base b) + i * PAGE_SIZE
                     in Inr (a, zero_bytes a len (st\<lparr>bud := Some b'\<rparr>))))
                 (buddy_alloc b (of_nat (len div PAGE_SIZE))))
        else
          (case first_fit len (free_mem st) of
             None \<Rightarrow> Some (Inl NotReached)
           | Some (a, xs, fr) \<Rightarrow>
               Some (Inr (a, zero_bytes a len
                 (st\<lparr>free_mem := xs, free_nodes := free_nodes st + (if fr then 1 else 0)\<rparr>)))))"

text \<open>
  The index of a small mapping is an \<open>int\<close>. A negative one passes the first assertion, and the
  descent of \<open>buddy_free\<close> then runs down the left edge of the tree, where a used and an unused node
  both end in an assertion.

  The insertion of \<open>kernel_unmmap\<close> is between the last range that does not start behind the address
  and the first that does, with the two merges; each merge gives a node back.
\<close>

definition insert_range :: "nat \<Rightarrow> nat \<Rightarrow> range list \<Rightarrow> range list \<Rightarrow> range list \<times> nat" where
  "insert_range addr len xs ys =
     (let left = last xs; right = hd ys;
          (pre, cur, fr) = (if fst left + snd left = addr then (butlast xs, (fst left, snd left + len), 1) else (xs, (addr, len), 0))
      in if fst cur + snd cur = fst right then (pre @ (fst cur, snd cur + snd right) # tl ys, fr + 1)
         else (pre @ cur # ys, fr))"

definition kernel_unmmap :: "nat \<Rightarrow> nat \<Rightarrow> page_alloc \<Rightarrow> page_alloc res option" where
  "kernel_unmmap addr len st =
     (if addr mod PAGE_SIZE \<noteq> 0 \<or> len mod 0x1000 \<noteq> 0 then Some (Inl AssertFail)
      else let len = len_pagesize_up len in
        if len < 16 * PAGE_SIZE then
          (case bud st of
             None \<Rightarrow> Some (Inl NullDeref)
           | Some b \<Rightarrow>
               let i = sint (word_of_int ((int addr - int (unat (base b))) div int PAGE_SIZE) :: u32) in
                 if i \<ge> 2 ^ BUDDY_LEVEL \<or> i < 0 then Some (Inl AssertFail)
                 else map_option (\<lambda>r. res_bind r (\<lambda>b'. Inr (st\<lparr>bud := Some b'\<rparr>))) (buddy_free b (nat i)))
        else
          let xs = takeWhile (\<lambda>x. fst x \<le> addr) (free_mem st);
              ys = dropWhile (\<lambda>x. fst x \<le> addr) (free_mem st)
          in if ys = [] \<or> xs = [] then Some (Inl AssertFail)
             else if addr < fst (last xs) + snd (last xs) \<or> fst (hd ys) < addr + len \<or> free_nodes st = 0
             then Some (Inl AssertFail)
             else let (zs, fr) = insert_range addr len xs ys
                  in Some (add_head_sentinel (st\<lparr>free_mem := zs, free_nodes := free_nodes st - 1 + fr\<rparr>)))"

text \<open>\<open>TO_CAC\<close> of a physical address: the cached window of the address space.\<close>

definition TO_CAC :: "nat \<Rightarrow> nat" where
  "TO_CAC x = 0x9000000000000000 + x mod 2 ^ 48"

definition fw_add_mem :: "nat \<Rightarrow> nat \<Rightarrow> page_alloc \<Rightarrow> page_alloc res option" where
  "fw_add_mem start end' st =
     (if end' < start \<or> start mod PAGE_SIZE \<noteq> 0 \<or> end' mod PAGE_SIZE \<noteq> 0 then Some (Inl AssertFail)
      else if start = end' then Some (Inr st)
      else kernel_unmmap (TO_CAC start) (end' - start) st)"

definition setup_buddy :: "page_alloc \<Rightarrow> page_alloc res option" where
  "setup_buddy st =
     map_option (\<lambda>r. res_bind r (\<lambda>(self, st). Inr (st\<lparr>bud := Some (buddy_new BUDDY_LEVEL (of_nat self))\<rparr>)))
       (kernel_mmap 0 ((buddy_size_page BUDDY_LEVEL + 2 ^ BUDDY_LEVEL) * PAGE_SIZE) 0 0 (- 1) 0 st)"

section \<open>The free list\<close>

text \<open>Ranges in order, none empty, none touching the next.\<close>

fun sep :: "nat \<Rightarrow> range list \<Rightarrow> bool" where
  "sep e [] = True"
| "sep e ((s, l) # xs) = (e < s \<and> 0 < l \<and> sep (s + l) xs)"

definition range_end :: "range \<Rightarrow> nat" where
  "range_end x = fst x + snd x"

definition end_of :: "nat \<Rightarrow> range list \<Rightarrow> nat" where
  "end_of e xs = (if xs = [] then e else range_end (last xs))"

definition free_set :: "range list \<Rightarrow> nat set" where
  "free_set xs = (\<Union>x \<in> set xs. {fst x ..< range_end x})"

lemma sep_append: "sep e (xs @ ys) \<longleftrightarrow> sep e xs \<and> sep (end_of e xs) ys"
proof (induction xs arbitrary: e)
  case (Cons x xs)
  then show ?case by (cases x) (auto simp: end_of_def range_end_def)
qed (simp add: end_of_def)

lemma sep_end: "sep e xs \<Longrightarrow> e \<le> end_of e xs"
proof (induction xs arbitrary: e)
  case (Cons x xs)
  obtain s l where x: "x = (s, l)" by (cases x)
  with Cons.prems have p: "e < s" "sep (s + l) xs" by auto
  have "end_of e (x # xs) = end_of (s + l) xs" by (simp add: end_of_def x range_end_def)
  then show ?case using p(1) Cons.IH [OF p(2)] by simp
qed (simp add: end_of_def)

lemma sep_mem: "sep e xs \<Longrightarrow> x \<in> set xs \<Longrightarrow> e < fst x \<and> 0 < snd x \<and> range_end x \<le> end_of e xs"
proof (induction xs arbitrary: e)
  case (Cons y xs)
  obtain s l where y: "y = (s, l)" by (cases y)
  from Cons.prems y have p: "e < s" "0 < l" "sep (s + l) xs" by auto
  have en: "end_of e (y # xs) = end_of (s + l) xs" by (simp add: end_of_def y range_end_def)
  show ?case
  proof (cases "x = y")
    case True
    then show ?thesis using p sep_end [OF p(3)] unfolding en by (simp add: y range_end_def)
  next
    case False
    then show ?thesis using Cons.IH [OF p(3)] Cons.prems(2) p(1,2) unfolding en by auto
  qed
qed simp

lemma free_set_simps [simp]: "free_set [] = {}" "free_set (x # xs) = {fst x ..< range_end x} \<union> free_set xs"
    "free_set (xs @ ys) = free_set xs \<union> free_set ys"
  by (auto simp: free_set_def)

lemma sep_mono: "sep e xs \<Longrightarrow> e' \<le> e \<Longrightarrow> sep e' xs"
  by (cases xs) auto

lemma first_fit_spec:
  assumes "sep e xs" "first_fit len xs = Some (a, ys, fr)" "0 < len"
  shows "sep e ys \<and> free_set ys = free_set xs - {a ..< a + len} \<and> {a ..< a + len} \<subseteq> free_set xs \<and> e < a \<and>
    length ys + (if fr then 1 else 0) = length xs \<and> (\<exists>l. (a, l) \<in> set xs) \<and>
    (\<forall>y \<in> set ys. y \<in> set xs \<or> (\<exists>l. (a, l) \<in> set xs \<and> len < l \<and> y = (a + len, l - len)))"
  using assms
proof (induction len xs arbitrary: e ys rule: first_fit.induct)
  case (2 len s l xs)
  from 2(2) have p: "e < s" "0 < l" "sep (s + l) xs" by auto
  have dis: "free_set xs \<inter> {..< s + l} = {}"
    using sep_mem [OF p(3)] by (fastforce simp: free_set_def)
  show ?case
  proof (cases "len > l")
    case True
    with 2(3) obtain ys' where y: "first_fit len xs = Some (a, ys', fr)" "ys = (s, l) # ys'" by auto
    from 2(1) [OF True p(3) y(1) 2(4)] have IH: "sep (s + l) ys'" "free_set ys' = free_set xs - {a ..< a + len}"
      "{a ..< a + len} \<subseteq> free_set xs" "s + l < a" "length ys' + (if fr then 1 else 0) = length xs" "\<exists>l. (a, l) \<in> set xs"
      "\<forall>y \<in> set ys'. y \<in> set xs \<or> (\<exists>l. (a, l) \<in> set xs \<and> len < l \<and> y = (a + len, l - len))" by auto
    have "{s ..< s + l} \<inter> {a ..< a + len} = {}" using IH(4) by auto
    then show ?thesis using p IH y(2) by (auto simp: range_end_def)
  next
    case False
    show ?thesis
    proof (cases "len = l")
      case True
      with 2(3) have "a = s" "ys = xs" "fr" by auto
      then show ?thesis using True p dis sep_mono [OF p(3), of e] by (auto simp: range_end_def)
    next
      case nl: False
      with False 2(3) have r: "a = s" "ys = (s + len, l - len) # xs" "\<not> fr" "len < l" by auto
      then show ?thesis using p dis 2(4) by (auto simp: range_end_def)
    qed
  qed
qed simp

text \<open>A released range joins the free ranges it touches.\<close>

lemma insert_range_spec:
  assumes "sep 0 (xs @ ys)" "end_of 0 xs \<le> addr" "0 < addr" "0 < len" "addr + len < MAX_ADDR"
    and "ys \<noteq> [] \<Longrightarrow> addr + len \<le> fst (hd ys)"
  shows "\<exists>body fr. insert_range addr len ((0, 0) # xs) (ys @ [(MAX_ADDR, 0)]) = ((0, 0) # body @ [(MAX_ADDR, 0)], fr) \<and>
    sep 0 body \<and> free_set body = free_set (xs @ ys) \<union> {addr ..< addr + len} \<and>
    length body + fr = length xs + length ys + 1 \<and>
    (\<forall>x \<in> set body. fst x \<in> insert addr (fst ` set (xs @ ys)) \<and> range_end x \<in> insert (addr + len) (range_end ` set (xs @ ys)))"
proof -
  have sx: "sep 0 xs" and sy: "sep (end_of 0 xs) ys" using assms(1) by (auto simp: sep_append)
  obtain pre cur fr where c: "(pre, cur, fr) = (if xs \<noteq> [] \<and> range_end (last xs) = addr
       then (butlast xs, (fst (last xs), snd (last xs) + len), 1) else (xs, (addr, len), 0 :: nat))"
    by (metis prod_cases3)
  have "sep 0 (pre @ [cur]) \<and> range_end cur = addr + len \<and> free_set (pre @ [cur]) = free_set xs \<union> {addr ..< addr + len} \<and>
      length pre + fr = length xs \<and> set pre \<subseteq> set xs \<and> fst cur \<in> insert addr (fst ` set xs)"
  proof (cases "xs \<noteq> [] \<and> range_end (last xs) = addr")
    case True
    then obtain zs z where z: "xs = zs @ [z]" by (metis append_butlast_last_id)
    with True c have e: "pre = zs" "cur = (fst z, snd z + len)" "fr = 1" "range_end z = addr" by auto
    then show ?thesis using sx z by (cases z) (auto simp: sep_append range_end_def)
  next
    case False
    then have "end_of 0 xs < addr" using assms(2,3) by (auto simp: end_of_def split: if_splits)
    then show ?thesis using False c sx assms(4) by (auto simp: sep_append range_end_def)
  qed
  then have cur: "sep 0 (pre @ [cur])" "range_end cur = addr + len" "free_set (pre @ [cur]) = free_set xs \<union> {addr ..< addr + len}"
    "length pre + fr = length xs" "set pre \<subseteq> set xs" "fst cur \<in> insert addr (fst ` set xs)" by blast+
  have ins: "insert_range addr len ((0, 0) # xs) (ys @ [(MAX_ADDR, 0)]) =
      (let right = hd (ys @ [(MAX_ADDR, 0)]) in
       if fst cur + snd cur = fst right then ((0, 0) # pre @ (fst cur, snd cur + snd right) # tl (ys @ [(MAX_ADDR, 0)]), fr + 1)
       else ((0, 0) # pre @ cur # ys @ [(MAX_ADDR, 0)], fr))"
    using c assms(3) by (auto simp: insert_range_def Let_def range_end_def split: if_splits)
  show ?thesis
  proof (cases "ys \<noteq> [] \<and> addr + len = fst (hd ys)")
    case True
    then obtain y ys' where y: "ys = y # ys'" by (cases ys) auto
    define new where "new = (fst cur, snd cur + snd y)"
    have "fst cur + snd cur = fst y" using True y cur(2) by (simp add: range_end_def)
    then have "insert_range addr len ((0, 0) # xs) (ys @ [(MAX_ADDR, 0)]) = ((0, 0) # (pre @ new # ys') @ [(MAX_ADDR, 0)], fr + 1)"
      using ins y by (simp add: new_def)
    moreover have "sep 0 (pre @ new # ys')"
      using cur(1,2) True y sy by (cases cur; cases y) (simp add: sep_append new_def range_end_def add.assoc [symmetric])
    moreover have "free_set (pre @ new # ys') = free_set (xs @ ys) \<union> {addr ..< addr + len}"
    proof -
      have "range_end cur = fst y" using True y cur(2) by simp
      then have "{fst new ..< range_end new} = {fst cur ..< range_end cur} \<union> {fst y ..< range_end y}"
        by (auto simp: new_def range_end_def)
      then have e: "free_set (pre @ new # ys') = free_set (pre @ [cur]) \<union> free_set ys" using y by (simp add: ac_simps)
      show ?thesis unfolding e cur(3) by (simp add: ac_simps)
    qed
    moreover have "range_end new = range_end y" "fst new = fst cur"
      using True y cur(2) by (simp_all add: new_def range_end_def)
    ultimately show ?thesis using cur(4-6) y by (intro exI [of _ "pre @ new # ys'"] exI [of _ "fr + 1"]) auto
  next
    case False
    then have "insert_range addr len ((0, 0) # xs) (ys @ [(MAX_ADDR, 0)]) = ((0, 0) # (pre @ cur # ys) @ [(MAX_ADDR, 0)], fr)"
      using ins cur(2) assms(5) by (cases ys) (auto simp: range_end_def)
    moreover have "sep 0 (pre @ cur # ys)"
    proof -
      have "sep (range_end cur) ys" using False assms(6) sy cur(2) by (cases ys; cases "hd ys") auto
      then show ?thesis using cur(1) by (cases cur) (auto simp: sep_append range_end_def)
    qed
    ultimately show ?thesis using cur(2-6) by (intro exI [of _ "pre @ cur # ys"] exI [of _ fr]) auto
  qed
qed

definition aligned :: "nat \<Rightarrow> bool" where
  "aligned a \<longleftrightarrow> PAGE_SIZE dvd a"

text \<open>The free list between its sentinels, and the set of addresses it holds.\<close>

definition list_inv :: "page_alloc \<Rightarrow> range list \<Rightarrow> bool" where
  "list_inv st body \<longleftrightarrow> free_mem st = (0, 0) # body @ [(MAX_ADDR, 0)] \<and> sep 0 body \<and>
     length body + 2 + free_nodes st = POOL_SIZE \<and>
     (\<forall>x \<in> set body. aligned (fst x) \<and> aligned (snd x)) \<and> free_set body \<subseteq> {..< MAX_ADDR}"

lemma init_list_inv: "list_inv (init_pages st) []"
  by (simp add: list_inv_def init_pages_def POOL_SIZE_def)

lemma page_pos [simp]: "0 < PAGE_SIZE"
  by (simp add: PAGE_SIZE_def)

lemma len_up_aligned [simp]: "aligned (len_pagesize_up n)"
  by (simp add: aligned_def len_pagesize_up_def)

lemma len_up_id: "aligned n \<Longrightarrow> len_pagesize_up n = n"
proof -
  assume "aligned n"
  then obtain k where n: "n = k * PAGE_SIZE" by (metis aligned_def dvdE mult.commute)
  have "(k * PAGE_SIZE + (PAGE_SIZE - 1)) div PAGE_SIZE = k"
    by (rule div_nat_eqI) (simp_all add: PAGE_SIZE_def)
  then show ?thesis by (simp add: len_pagesize_up_def n PAGE_SIZE_def)
qed

abbreviation big :: "nat \<Rightarrow> bool" where
  "big l \<equiv> PAGE_SIZE * BUDDY_MAX_PAGE_NUM \<le> l"

lemma big_pos: "big l \<Longrightarrow> 0 < l"
  by (rule ccontr) (simp add: BUDDY_MAX_PAGE_NUM_def PAGE_SIZE_def)

lemma big_16: "l < 16 * PAGE_SIZE \<longleftrightarrow> \<not> big l"
  by (auto simp: BUDDY_MAX_PAGE_NUM_def)

text \<open>Taking a range from the free list.\<close>

lemma fit_list:
  assumes "list_inv st body" "first_fit len (free_mem st) = Some (a, zs, fr)" "big len" "aligned len"
  shows "\<exists>body'. list_inv (st\<lparr>free_mem := zs, free_nodes := free_nodes st + (if fr then 1 else 0)\<rparr>) body' \<and>
    free_set body' = free_set body - {a ..< a + len} \<and> {a ..< a + len} \<subseteq> free_set body \<and> aligned a \<and> 0 < a"
proof -
  note p = big_pos [OF assms(3)]
  have tail: "first_fit len (xs @ [(MAX_ADDR, 0)]) = map_option (\<lambda>(a, ys, fr). (a, ys @ [(MAX_ADDR, 0)], fr)) (first_fit len xs)" for xs
    using p by (induction xs) (auto simp: option.map_comp comp_def intro!: option.map_cong0)
  from assms(1,2) p tail [of body] obtain ys where y: "first_fit len body = Some (a, ys, fr)" "zs = (0, 0) # ys @ [(MAX_ADDR, 0)]"
    by (auto simp: list_inv_def)
  have b: "sep 0 body" "\<forall>x \<in> set body. aligned (fst x) \<and> aligned (snd x)" using assms(1) by (auto simp: list_inv_def)
  note f = first_fit_spec [OF b(1) y(1) p]
  obtain l where al: "(a, l) \<in> set body" using f by auto
  have aa: "aligned a" using b(2) al by auto
  have "aligned (fst x) \<and> aligned (snd x)" if "x \<in> set ys" for x
  proof -
    from f that consider "x \<in> set body" | l where "(a, l) \<in> set body" "len < l" "x = (a + len, l - len)" by blast
    then show ?thesis
    proof cases
      case 2
      then have "aligned l" using b(2) by auto
      with 2 aa assms(4) show ?thesis by (auto simp: aligned_def intro: dvd_diff_nat)
    qed (use b(2) in auto)
  qed
  then have "list_inv (st\<lparr>free_mem := zs, free_nodes := free_nodes st + (if fr then 1 else 0)\<rparr>) ys"
    using f y(2) assms(1) by (auto simp: list_inv_def)
  then show ?thesis using f aa by auto
qed

text \<open>Giving a range back to it.\<close>

lemma sep_split:
  assumes "sep e body"
  shows "x \<in> set (takeWhile (\<lambda>x. fst x \<le> a) body) \<Longrightarrow> fst x \<le> a"
    and "dropWhile (\<lambda>x. fst x \<le> a) body = y # ys \<Longrightarrow> a < fst y"
  by (auto dest: set_takeWhileD simp: dropWhile_eq_Cons_conv)

lemma split_list:
  assumes "free_mem st = (0, 0) # body @ [(MAX_ADDR, 0)]" "a < MAX_ADDR"
  shows "takeWhile (\<lambda>x. fst x \<le> a) (free_mem st) = (0, 0) # takeWhile (\<lambda>x. fst x \<le> a) body"
    "dropWhile (\<lambda>x. fst x \<le> a) (free_mem st) = dropWhile (\<lambda>x. fst x \<le> a) body @ [(MAX_ADDR, 0)]"
  using assms by (auto simp: takeWhile_append dropWhile_append) (metis dropWhile_eq_Nil_conv takeWhile_eq_all_conv)+

lemma give_list:
  assumes "list_inv st body" "free_set body \<inter> {a ..< a + len} = {}" "0 < a" "aligned a" "aligned len" "big len"
    and "a + len < MAX_ADDR" "0 < free_nodes st"
  shows "\<exists>st' body'. kernel_unmmap a len st = Some (Inr st') \<and> list_inv st' body' \<and>
    free_set body' = free_set body \<union> {a ..< a + len} \<and> bud st' = bud st \<and> memory_ready st' = memory_ready st \<and> bytes st' = bytes st"
proof -
  define xs ys where "xs = takeWhile (\<lambda>x. fst x \<le> a) body" and "ys = dropWhile (\<lambda>x. fst x \<le> a) body"
  have body: "body = xs @ ys" by (simp add: xs_def ys_def)
  from assms(1) have fm: "free_mem st = (0, 0) # body @ [(MAX_ADDR, 0)]" and sp: "sep 0 body"
    and al: "\<forall>x \<in> set body. aligned (fst x) \<and> aligned (snd x)" by (auto simp: list_inv_def)
  have sx: "sep 0 xs" and sy: "sep (end_of 0 xs) ys" using sp by (auto simp: body sep_append)
  have "a < MAX_ADDR" using assms(7) by simp
  note tw = split_list [OF fm this, folded xs_def ys_def]
  have ex: "end_of 0 xs \<le> a"
  proof (cases "xs = []")
    case False
    then have l: "last xs \<in> set xs" by simp
    then have "fst (last xs) \<le> a" "0 < snd (last xs)"
      using sep_split(1) [OF sp, of "last xs" a] sep_mem [OF sx l] by (auto simp: xs_def)
    moreover have "{fst (last xs) ..< range_end (last xs)} \<inter> {a ..< a + len} = {}"
      using assms(2) l by (fastforce simp: body free_set_def)
    ultimately show ?thesis using False big_pos [OF assms(6)] by (auto simp: end_of_def range_end_def)
  qed (simp add: end_of_def)
  have yy: "a + len \<le> fst (hd ys)" if ne: "ys \<noteq> []"
  proof -
    obtain y ys' where y: "ys = y # ys'" using ne by (cases ys) auto
    have "a < fst y" using sep_split(2) [OF sp, of a y ys'] y by (simp add: ys_def)
    moreover have "0 < snd y" using sep_mem [OF sy, of y] y by simp
    moreover have "{fst y ..< range_end y} \<inter> {a ..< a + len} = {}" using assms(2) y by (fastforce simp: body free_set_def)
    ultimately show ?thesis using y by (auto simp: range_end_def)
  qed
  from insert_range_spec [OF sp [unfolded body] ex assms(3) big_pos [OF assms(6)] assms(7) yy] obtain body' fr where
    i: "insert_range a len ((0, 0) # xs) (ys @ [(MAX_ADDR, 0)]) = ((0, 0) # body' @ [(MAX_ADDR, 0)], fr)"
      "sep 0 body'" "free_set body' = free_set body \<union> {a ..< a + len}" "length body' + fr = length body + 1"
      "\<forall>x \<in> set body'. fst x \<in> insert a (fst ` set body) \<and> range_end x \<in> insert (a + len) (range_end ` set body)"
    by (auto simp: body)
  define st' where "st' = st\<lparr>free_mem := (0, 0) # body' @ [(MAX_ADDR, 0)], free_nodes := free_nodes st - 1 + fr\<rparr>"
  have g: "\<not> (a < fst (last ((0, 0) # xs)) + snd (last ((0, 0) # xs)) \<or> fst (hd (ys @ [(MAX_ADDR, 0)])) < a + len \<or> free_nodes st = 0)"
    using ex yy assms(7,8) by (cases ys) (auto simp: end_of_def range_end_def split: if_splits)
  have am: "a mod PAGE_SIZE = 0" "len mod 0x1000 = 0"
    using assms(4,5) by (auto simp: aligned_def PAGE_SIZE_def dest: dvd_mod_imp_dvd intro: mod_eq_0_iff_dvd [THEN iffD2] dvd_trans [of 4096 16384])
  have "kernel_unmmap a len st = Some (Inr st')"
    unfolding kernel_unmmap_def tw using am g i(1) assms(6) big_16 [of len]
    by (simp add: len_up_id [OF assms(5)] Let_def add_head_sentinel_def st'_def)
  moreover have "list_inv st' body'"
  proof -
    have "\<forall>x \<in> set body'. aligned (fst x) \<and> aligned (snd x)"
    proof
      fix x assume "x \<in> set body'"
      moreover have "aligned (fst z)" "aligned (range_end z)" if "z \<in> set body" for z
        using al that by (auto simp: aligned_def range_end_def)
      moreover have "aligned (a + len)" using assms(4,5) by (simp add: aligned_def)
      ultimately have "aligned (fst x)" "aligned (range_end x)" using i(5) assms(4) by auto
      then show "aligned (fst x) \<and> aligned (snd x)"
        by (auto simp: aligned_def range_end_def dvd_add_right_iff)
    qed
    then show ?thesis using i assms(1,7,8) by (auto simp: list_inv_def st'_def)
  qed
  ultimately show ?thesis using i(3) by (auto simp: st'_def)
qed

lemma overlap_caught:
  assumes "list_inv st body" "big (len_pagesize_up len)" "x \<in> set (free_mem st)"
    and "{a ..< a + len_pagesize_up len} \<inter> {fst x ..< fst x + snd x} \<noteq> {}"
  shows "kernel_unmmap a len st = Some (Inl AssertFail)"
proof (rule ccontr)
  assume ne: "kernel_unmmap a len st \<noteq> Some (Inl AssertFail)"
  define l where "l = len_pagesize_up len"
  have nb: "\<not> l < 16 * PAGE_SIZE" using assms(2) by (simp add: l_def BUDDY_MAX_PAGE_NUM_def mult.commute)
  have body: "free_mem st = (0, 0) # body @ [(MAX_ADDR, 0)]" "sep 0 body" "free_set body \<subseteq> {..< MAX_ADDR}"
    using assms(1) by (auto simp: list_inv_def)
  have xb: "x \<in> set body" using assms(3,4) body(1) by auto
  have le: "fst y \<le> a" if "MAX_ADDR \<le> a" "y \<in> set (free_mem st)" for y
  proof (cases "y \<in> set body")
    case True
    then have "fst y \<in> {fst y ..< range_end y}" using sep_mem [OF body(2) True] by (simp add: range_end_def)
    then have "fst y \<in> free_set body" using True by (auto simp: free_set_def)
    then show ?thesis using body(3) that(1) by auto
  qed (use that body(1) in auto)
  have lt: "a < MAX_ADDR"
  proof (rule ccontr)
    assume "\<not> a < MAX_ADDR"
    with le have "dropWhile (\<lambda>x. fst x \<le> a) (free_mem st) = []" by (simp add: dropWhile_eq_Nil_conv)
    then show False using ne nb by (auto simp: kernel_unmmap_def Let_def l_def split: if_splits)
  qed
  define xs ys where "xs = takeWhile (\<lambda>x. fst x \<le> a) body" and "ys = dropWhile (\<lambda>x. fst x \<le> a) body"
  note tw = split_list [OF body(1) lt, folded xs_def ys_def]
  have c: "fst (last ((0, 0) # xs)) + snd (last ((0, 0) # xs)) \<le> a" "a + l \<le> fst (hd (ys @ [(MAX_ADDR, 0)]))"
    using ne nb by (auto simp: kernel_unmmap_def Let_def tw l_def split: if_splits)
  have sp: "sep 0 xs" "sep (end_of 0 xs) ys" using body(2) by (metis sep_append takeWhile_dropWhile_id xs_def ys_def)+
  from xb have "x \<in> set xs \<or> x \<in> set ys" by (metis Un_iff set_append takeWhile_dropWhile_id xs_def ys_def)
  then have "range_end x \<le> a \<or> a + l \<le> fst x"
  proof
    assume m: "x \<in> set xs"
    then have ne: "xs \<noteq> []" by auto
    have "range_end x \<le> range_end (last xs)" using sep_mem [OF sp(1) m] ne by (simp add: end_of_def)
    note this ne
    then show ?thesis using c(1) by (simp add: range_end_def)
  next
    assume m: "x \<in> set ys"
    then obtain y ys' where y: "ys = y # ys'" by (cases ys) auto
    have "fst y \<le> fst x"
    proof (cases "x = y")
      case False
      then have "x \<in> set ys'" using m y by simp
      moreover have "sep (range_end y) ys'" using sp(2) y by (cases y) (simp add: range_end_def)
      ultimately show ?thesis using sep_mem [of "range_end y" ys' x] by (simp add: range_end_def)
    qed simp
    then show ?thesis using c(2) y by simp
  qed
  then show False using assms(4) by (auto simp: range_end_def l_def)
qed

section \<open>Mappings\<close>

text \<open>The addresses of a mapping, of a block of the buddy system, and of its whole area.\<close>

definition extent :: "range \<Rightarrow> nat set" where
  "extent x = {fst x ..< fst x + snd x}"

definition block_range :: "buddy \<Rightarrow> block \<Rightarrow> range" where
  "block_range b blk = (unat (base b) + fst blk * PAGE_SIZE, snd blk * PAGE_SIZE)"

definition area :: "buddy \<Rightarrow> range" where
  "area b = (unat (base b), 2 ^ level b * PAGE_SIZE)"

text \<open>
  \<open>mp\<close> are the mappings that have been handed out, with their lengths rounded to pages. The large
  ones are apart from the free list and from the area of the buddy system; the small ones are in
  blocks of the buddy system, one in each.
\<close>

definition pages_inv :: "page_alloc \<Rightarrow> range set \<Rightarrow> bool" where
  "pages_inv st mp \<longleftrightarrow> memory_ready st \<and>
     (\<exists>body b. list_inv st body \<and> bud st = Some b \<and> buddy_inv b \<and> level b = BUDDY_LEVEL \<and>
        aligned (unat (base b)) \<and> free_set body \<inter> extent (area b) = {} \<and>
        inj_on fst mp \<and> (\<forall>x \<in> mp. aligned (fst x) \<and> aligned (snd x)) \<and>
        (\<forall>x \<in> mp. big (snd x) \<longrightarrow> 0 < fst x \<and> fst x + snd x < MAX_ADDR \<and>
           extent x \<inter> free_set body = {} \<and> extent x \<inter> extent (area b) = {}) \<and>
        (\<forall>x \<in> mp. \<forall>y \<in> mp. big (snd x) \<longrightarrow> big (snd y) \<longrightarrow> x \<noteq> y \<longrightarrow> extent x \<inter> extent y = {}) \<and>
        (\<forall>x \<in> mp. \<not> big (snd x) \<longrightarrow> (\<exists>blk \<in> blocks b. fst x = fst (block_range b blk) \<and> snd x \<le> snd (block_range b blk))))"

lemma block_in_area: "buddy_inv b \<Longrightarrow> blk \<in> blocks b \<Longrightarrow> extent (block_range b blk) \<subseteq> extent (area b)"
proof -
  assume i: "buddy_inv b" "blk \<in> blocks b"
  then obtain l p where x: "(l, p) \<in> used (level b) (tree b)" "blk = page_block (level b) (l, p)" by (auto simp: blocks_def)
  then have lp: "l \<le> level b" "p < 2 ^ l" by (auto simp: used_def)
  have "(p + 1) * 2 ^ (level b - l) \<le> 2 ^ l * 2 ^ (level b - l)" using lp(2) by (intro mult_right_mono) auto
  also have "\<dots> = 2 ^ level b" using lp(1) by (simp flip: power_add)
  finally have "fst blk + snd blk \<le> 2 ^ level b" by (simp add: x(2) page_block_def)
  then have "(fst blk + snd blk) * PAGE_SIZE \<le> 2 ^ level b * PAGE_SIZE" by (rule mult_right_mono) simp
  then show ?thesis by (auto simp: extent_def block_range_def area_def add_mult_distrib)
qed

lemma blocks_apart:
  assumes "x \<in> blocks b" "y \<in> blocks b" "x \<noteq> y"
  shows "extent (block_range b x) \<inter> extent (block_range b y) = {}"
proof (rule ccontr)
  assume "extent (block_range b x) \<inter> extent (block_range b y) \<noteq> {}"
  then obtain a where a: "a \<in> extent (block_range b x)" "a \<in> extent (block_range b y)" by auto
  define k where "k = (a - unat (base b)) div PAGE_SIZE"
  have "k \<in> pages z" if "a \<in> extent (block_range b z)" for z
  proof -
    from that have "fst z * PAGE_SIZE \<le> a - unat (base b)" "a - unat (base b) < (fst z + snd z) * PAGE_SIZE"
      by (auto simp: extent_def block_range_def add_mult_distrib)
    then show ?thesis
      by (auto simp: k_def pages_def div_less_iff_less_mult less_eq_div_iff_mult_less_eq)
  qed
  with a have "k \<in> pages x \<inter> pages y" by auto
  moreover have "pages x \<inter> pages y = {}" by (rule disjoint_blocksD [OF blocks_disjoint assms])
  ultimately show False by auto
qed

lemma small_pages:
  assumes "\<not> big l" "aligned l"
  shows "request_ok (of_nat (l div PAGE_SIZE))" "unat (of_nat (l div PAGE_SIZE) :: u32) = l div PAGE_SIZE"
    "l div PAGE_SIZE * PAGE_SIZE = l" "l div PAGE_SIZE < 16"
proof -
  show s: "l div PAGE_SIZE < 16" using assms(1) by (simp add: BUDDY_MAX_PAGE_NUM_def div_less_iff_less_mult mult.commute)
  then show u: "unat (of_nat (l div PAGE_SIZE) :: u32) = l div PAGE_SIZE"
    by (simp add: unsigned_of_nat take_bit_nat_eq_self)
  show "request_ok (of_nat (l div PAGE_SIZE))" using s u by (simp add: request_ok_def)
  show "l div PAGE_SIZE * PAGE_SIZE = l" using assms(2) by (simp add: aligned_def)
qed

lemma mmap_big:
  assumes "pages_inv st mp" "kernel_mmap 0 len prot flags (- 1) 0 st = Some (Inr (a, st'))"
    and l: "l = len_pagesize_up len" "big l"
  shows "pages_inv st' (insert (a, l) mp)" "\<forall>x \<in> mp. extent (a, l) \<inter> extent x = {}"
    "\<forall>i < l. bytes st' (a + i) = 0"
proof -
  from assms(1) obtain body b where li: "list_inv st body" and bd: "bud st = Some b" "buddy_inv b" "level b = BUDDY_LEVEL"
    "aligned (unat (base b))" and fa: "free_set body \<inter> extent (area b) = {}" and inj: "inj_on fst mp"
    and al: "\<forall>x \<in> mp. aligned (fst x) \<and> aligned (snd x)"
    and lg: "\<forall>x \<in> mp. big (snd x) \<longrightarrow> 0 < fst x \<and> fst x + snd x < MAX_ADDR \<and> extent x \<inter> free_set body = {} \<and> extent x \<inter> extent (area b) = {}"
    and ll: "\<forall>x \<in> mp. \<forall>y \<in> mp. big (snd x) \<longrightarrow> big (snd y) \<longrightarrow> x \<noteq> y \<longrightarrow> extent x \<inter> extent y = {}"
    and sm: "\<forall>x \<in> mp. \<not> big (snd x) \<longrightarrow> (\<exists>blk \<in> blocks b. fst x = fst (block_range b blk) \<and> snd x \<le> snd (block_range b blk))"
    and rdy: "memory_ready st"
    unfolding pages_inv_def by blast
  have "\<not> l < PAGE_SIZE * BUDDY_MAX_PAGE_NUM" using l(2) by simp
  with assms(2) l(1) obtain zs fr where f: "first_fit l (free_mem st) = Some (a, zs, fr)"
    and st': "st' = zero_bytes a l (st\<lparr>free_mem := zs, free_nodes := free_nodes st + (if fr then 1 else 0)\<rparr>)"
    by (auto simp: kernel_mmap_def Let_def split: if_splits option.splits)
  have lal: "aligned l" by (simp add: l(1))
  from fit_list [OF li f l(2) lal] obtain body' where
    b': "list_inv (st\<lparr>free_mem := zs, free_nodes := free_nodes st + (if fr then 1 else 0)\<rparr>) body'"
      "free_set body' = free_set body - {a ..< a + l}" "{a ..< a + l} \<subseteq> free_set body" "aligned a" "0 < a" by blast
  have lp: "0 < l" by (rule big_pos [OF l(2)])
  have end': "a + l < MAX_ADDR"
  proof -
    have "a + l - 1 \<in> free_set body" using b'(3) lp by auto
    then have "a + l - 1 < MAX_ADDR" using li by (auto simp: list_inv_def)
    moreover have "a + l \<noteq> MAX_ADDR"
    proof
      assume "a + l = MAX_ADDR"
      then have "aligned MAX_ADDR" using b'(4) lal by (metis aligned_def dvd_add)
      then show False by (simp add: aligned_def PAGE_SIZE_def MAX_ADDR_def)
    qed
    ultimately show ?thesis by linarith
  qed
  have sub: "extent (a, l) \<subseteq> free_set body" using b'(3) by (simp add: extent_def)
  have apart: "extent (a, l) \<inter> extent x = {}" if x: "x \<in> mp" for x
  proof (cases "big (snd x)")
    case True
    then show ?thesis using lg x sub by auto
  next
    case False
    with sm x obtain blk where blk: "blk \<in> blocks b" "fst x = fst (block_range b blk)" "snd x \<le> snd (block_range b blk)" by auto
    then have "extent x \<subseteq> extent (area b)" using block_in_area [OF bd(2) blk(1)] by (auto simp: extent_def)
    then show ?thesis using fa sub by auto
  qed
  then show "\<forall>x \<in> mp. extent (a, l) \<inter> extent x = {}" by blast
  have ne: "fst x \<noteq> a" if x: "x \<in> mp" for x
  proof
    assume "fst x = a"
    have "a \<in> extent (a, l)" using lp by (simp add: extent_def)
    show False
    proof (cases "big (snd x)")
      case True
      then have "a \<in> extent x" using \<open>fst x = a\<close> big_pos [OF True] by (simp add: extent_def)
      then show False using apart [OF x] \<open>a \<in> extent (a, l)\<close> by auto
    next
      case False
      with sm x obtain blk where blk: "blk \<in> blocks b" "fst x = fst (block_range b blk)" by auto
      have "0 < snd blk" using bd.positive [OF bd(2) blk(1)] .
      then have "a \<in> extent (block_range b blk)" using blk(2) \<open>fst x = a\<close> by (simp add: extent_def block_range_def)
      then show False using block_in_area [OF bd(2) blk(1)] fa sub \<open>a \<in> extent (a, l)\<close> by auto
    qed
  qed
  have inj': "inj_on fst (insert (a, l) mp)" using inj ne by (auto simp: inj_on_def)
  have li': "list_inv st' body'" using b'(1) by (simp add: st' zero_bytes_def list_inv_def)
  have "bud st' = Some b" "memory_ready st'" using bd(1) rdy by (simp_all add: st' zero_bytes_def)
  moreover have "free_set body' \<inter> extent (area b) = {}" using fa b'(2) by auto
  moreover have "\<forall>x \<in> insert (a, l) mp. big (snd x) \<longrightarrow> 0 < fst x \<and> fst x + snd x < MAX_ADDR \<and>
      extent x \<inter> free_set body' = {} \<and> extent x \<inter> extent (area b) = {}"
  proof -
    have "extent (a, l) \<inter> free_set body' = {}" using b'(2) by (auto simp: extent_def)
    moreover have "extent (a, l) \<inter> extent (area b) = {}" using sub fa by auto
    moreover have "free_set body' \<subseteq> free_set body" using b'(2) by auto
    ultimately show ?thesis using lg b'(5) end' by fastforce
  qed
  moreover have "\<forall>x \<in> insert (a, l) mp. \<forall>y \<in> insert (a, l) mp. big (snd x) \<longrightarrow> big (snd y) \<longrightarrow> x \<noteq> y \<longrightarrow> extent x \<inter> extent y = {}"
    using ll apart by (metis (no_types, lifting) inf_commute insert_iff)
  moreover have "\<forall>x \<in> insert (a, l) mp. \<not> big (snd x) \<longrightarrow> (\<exists>blk \<in> blocks b. fst x = fst (block_range b blk) \<and> snd x \<le> snd (block_range b blk))"
    using sm l(2) by auto
  moreover have "\<forall>x \<in> insert (a, l) mp. aligned (fst x) \<and> aligned (snd x)" using al b'(4) lal by auto
  ultimately show "pages_inv st' (insert (a, l) mp)"
    unfolding pages_inv_def using li' bd inj' by blast
  show "\<forall>i < l. bytes st' (a + i) = 0" by (simp add: st' zero_bytes_def)
qed

lemma mmap_small:
  assumes "pages_inv st mp" "kernel_mmap 0 len prot flags (- 1) 0 st = Some (Inr (a, st'))"
    and l: "l = len_pagesize_up len" "\<not> big l"
  shows "pages_inv st' (insert (a, l) mp)" "\<forall>x \<in> mp. extent (a, l) \<inter> extent x = {}" "\<forall>i < l. bytes st' (a + i) = 0"
proof -
  from assms(1) obtain body b where li: "list_inv st body" and bd: "bud st = Some b" "buddy_inv b" "level b = BUDDY_LEVEL"
    "aligned (unat (base b))" and fa: "free_set body \<inter> extent (area b) = {}" and inj: "inj_on fst mp"
    and al: "\<forall>x \<in> mp. aligned (fst x) \<and> aligned (snd x)"
    and lg: "\<forall>x \<in> mp. big (snd x) \<longrightarrow> 0 < fst x \<and> fst x + snd x < MAX_ADDR \<and> extent x \<inter> free_set body = {} \<and> extent x \<inter> extent (area b) = {}"
    and ll: "\<forall>x \<in> mp. \<forall>y \<in> mp. big (snd x) \<longrightarrow> big (snd y) \<longrightarrow> x \<noteq> y \<longrightarrow> extent x \<inter> extent y = {}"
    and sm: "\<forall>x \<in> mp. \<not> big (snd x) \<longrightarrow> (\<exists>blk \<in> blocks b. fst x = fst (block_range b blk) \<and> snd x \<le> snd (block_range b blk))"
    and rdy: "memory_ready st"
    unfolding pages_inv_def by blast
  have lal: "aligned l" by (simp add: l(1))
  note sp = small_pages [OF l(2) lal]
  obtain o' b' where r': "buddy_alloc b (of_nat (l div PAGE_SIZE)) = Some (Inr (o', b'))"
    using bd.alloc_total [OF bd(2) sp(1)] by auto
  with assms(2) l bd(1) obtain i where "o' = Some i" and a: "a = unat (base b) + i * PAGE_SIZE"
    and st': "st' = zero_bytes a l (st\<lparr>bud := Some b'\<rparr>)"
    by (cases o') (auto simp: kernel_mmap_def Let_def split: if_splits)
  with r' have r: "buddy_alloc b (of_nat (l div PAGE_SIZE)) = Some (Inr (Some i, b'))" by simp
  note same = alloc_outcome [OF bd(2) sp(1), unfolded r, simplified]
  from bd.alloc_some [OF bd(2) sp(1) r] obtain n where
    n: "buddy_inv b'" "fits (of_nat (l div PAGE_SIZE)) n" "(i, n) \<notin> blocks b" "blocks b' = insert (i, n) (blocks b)" by auto
  have lv: "level b' = level b" "base b' = base b" using same by auto
  have br: "block_range b' blk = block_range b blk" "area b' = area b" for blk using lv by (simp_all add: block_range_def area_def)
  have "l div PAGE_SIZE \<le> n" using n(2) sp(2) by (simp add: fits_def)
  then have ln: "l \<le> n * PAGE_SIZE" using sp(3) mult_right_mono [of "l div PAGE_SIZE" n PAGE_SIZE] by simp
  have new: "(i, n) \<in> blocks b'" "(a, n * PAGE_SIZE) = block_range b (i, n)" using n(4) a by (simp_all add: block_range_def)
  have sub: "extent (a, l) \<subseteq> extent (block_range b (i, n))" using ln a by (auto simp: extent_def block_range_def)
  have nb: "extent (block_range b (i, n)) \<inter> extent (block_range b blk) = {}" if "blk \<in> blocks b" for blk
    using blocks_apart [of "(i, n)" b' blk] that n(3,4) br by auto
  have ia: "extent (block_range b (i, n)) \<subseteq> extent (area b)" using block_in_area [OF n(1) new(1)] br by simp
  have ap: "extent (a, l) \<inter> extent x = {}" if x: "x \<in> mp" for x
  proof (cases "big (snd x)")
    case True
    then show ?thesis using lg x sub ia by blast
  next
    case False
    with sm x obtain blk where blk: "blk \<in> blocks b" "fst x = fst (block_range b blk)" "snd x \<le> snd (block_range b blk)" by auto
    then have "extent x \<subseteq> extent (block_range b blk)" by (auto simp: extent_def)
    then show ?thesis using nb [OF blk(1)] sub by blast
  qed
  then show "\<forall>x \<in> mp. extent (a, l) \<inter> extent x = {}" by blast
  have np: "0 < n" using bd.positive [OF n(1) new(1)] by simp
  have ain: "a \<in> extent (block_range b (i, n))" using np a by (simp add: extent_def block_range_def)
  have ne: "fst x \<noteq> a" if x: "x \<in> mp" for x
  proof (cases "big (snd x)")
    case True
    have "fst x \<in> extent x" using big_pos [OF True] by (simp add: extent_def)
    then show ?thesis using lg x True ain ia by blast
  next
    case False
    with sm x obtain blk where blk: "blk \<in> blocks b" "fst x = fst (block_range b blk)" by auto
    then have "fst x \<in> extent (block_range b blk)" using bd.positive [OF bd(2) blk(1)] by (simp add: extent_def block_range_def)
    then show ?thesis using nb [OF blk(1)] ain by blast
  qed
  have "inj_on fst (insert (a, l) mp)" using inj ne by (auto simp: inj_on_def)
  moreover have "list_inv st' body" "bud st' = Some b'" "memory_ready st'" using li rdy
    by (simp_all add: st' zero_bytes_def list_inv_def)
  moreover have "aligned a" using bd(4) a by (simp add: aligned_def)
  then have "\<forall>x \<in> insert (a, l) mp. aligned (fst x) \<and> aligned (snd x)" using al lal by auto
  moreover have "\<forall>x \<in> insert (a, l) mp. \<not> big (snd x) \<longrightarrow> (\<exists>blk \<in> blocks b'. fst x = fst (block_range b' blk) \<and> snd x \<le> snd (block_range b' blk))"
    using sm n(4) new ln unfolding br by (metis fst_conv insert_iff snd_conv)
  moreover have "\<forall>x \<in> insert (a, l) mp. big (snd x) \<longrightarrow> 0 < fst x \<and> fst x + snd x < MAX_ADDR \<and>
      extent x \<inter> free_set body = {} \<and> extent x \<inter> extent (area b') = {}" using lg l(2) br by auto
  moreover have "\<forall>x \<in> insert (a, l) mp. \<forall>y \<in> insert (a, l) mp. big (snd x) \<longrightarrow> big (snd y) \<longrightarrow> x \<noteq> y \<longrightarrow> extent x \<inter> extent y = {}"
    using ll l(2) by auto
  ultimately show "pages_inv st' (insert (a, l) mp)"
    unfolding pages_inv_def using n(1) bd lv fa br by (intro conjI exI [of _ body] exI [of _ b']) auto
  show "\<forall>i < l. bytes st' (a + i) = 0" by (simp add: st' zero_bytes_def)
qed

lemma unmap_rounded:
  "len mod 0x1000 = 0 \<Longrightarrow> kernel_unmmap a len st = kernel_unmmap a (len_pagesize_up len) st"
proof -
  assume "len mod 0x1000 = 0"
  moreover have "len_pagesize_up len mod 0x1000 = 0"
    using len_up_aligned [of len] by (auto simp: aligned_def PAGE_SIZE_def intro: mod_eq_0_iff_dvd [THEN iffD2] dvd_trans [of 4096 16384])
  ultimately show ?thesis by (simp add: kernel_unmmap_def len_up_id Let_def)
qed

lemma unmap_big:
  assumes "pages_inv st mp" "(a, l) \<in> mp" "big l" "0 < free_nodes st"
  shows "\<exists>st'. kernel_unmmap a l st = Some (Inr st') \<and> pages_inv st' (mp - {(a, l)})"
proof -
  from assms(1) obtain body b where li: "list_inv st body" and bd: "bud st = Some b" "buddy_inv b" "level b = BUDDY_LEVEL"
    "aligned (unat (base b))" and fa: "free_set body \<inter> extent (area b) = {}" and inj: "inj_on fst mp"
    and al: "\<forall>x \<in> mp. aligned (fst x) \<and> aligned (snd x)"
    and lg: "\<forall>x \<in> mp. big (snd x) \<longrightarrow> 0 < fst x \<and> fst x + snd x < MAX_ADDR \<and> extent x \<inter> free_set body = {} \<and> extent x \<inter> extent (area b) = {}"
    and ll: "\<forall>x \<in> mp. \<forall>y \<in> mp. big (snd x) \<longrightarrow> big (snd y) \<longrightarrow> x \<noteq> y \<longrightarrow> extent x \<inter> extent y = {}"
    and sm: "\<forall>x \<in> mp. \<not> big (snd x) \<longrightarrow> (\<exists>blk \<in> blocks b. fst x = fst (block_range b blk) \<and> snd x \<le> snd (block_range b blk))"
    and rdy: "memory_ready st"
    unfolding pages_inv_def by blast
  have x: "0 < a" "a + l < MAX_ADDR" "extent (a, l) \<inter> free_set body = {}" "extent (a, l) \<inter> extent (area b) = {}" "aligned a" "aligned l"
    using lg al assms(2,3) by auto
  from give_list [OF li _ x(1,5,6) assms(3) x(2) assms(4)] x(3) obtain st' body' where
    st': "kernel_unmmap a l st = Some (Inr st')" "list_inv st' body'" "free_set body' = free_set body \<union> extent (a, l)"
      "bud st' = bud st" "memory_ready st' = memory_ready st"
    by (auto simp: extent_def Int_commute)
  have "\<forall>y \<in> mp - {(a, l)}. big (snd y) \<longrightarrow> 0 < fst y \<and> fst y + snd y < MAX_ADDR \<and>
      extent y \<inter> free_set body' = {} \<and> extent y \<inter> extent (area b) = {}"
  proof (intro ballI impI)
    fix y assume y: "y \<in> mp - {(a, l)}" "big (snd y)"
    then have "extent y \<inter> extent (a, l) = {}" using ll assms(2,3) by auto
    then show "0 < fst y \<and> fst y + snd y < MAX_ADDR \<and> extent y \<inter> free_set body' = {} \<and> extent y \<inter> extent (area b) = {}"
      using lg y unfolding st'(3) by (auto simp: Int_Un_distrib)
  qed
  moreover have "free_set body' \<inter> extent (area b) = {}" using fa x(4) unfolding st'(3) by auto
  moreover have "inj_on fst (mp - {(a, l)})" using inj by (rule inj_on_subset) auto
  ultimately have "pages_inv st' (mp - {(a, l)})"
    unfolding pages_inv_def using st' bd al ll sm rdy by (intro conjI exI [of _ body'] exI [of _ b]) auto
  with st'(1) show ?thesis by blast
qed

lemma unmap_small:
  assumes "pages_inv st mp" "(a, l) \<in> mp" "\<not> big l"
  shows "\<exists>st'. kernel_unmmap a l st = Some (Inr st') \<and> pages_inv st' (mp - {(a, l)})"
proof -
  from assms(1) obtain body b where li: "list_inv st body" and bd: "bud st = Some b" "buddy_inv b" "level b = BUDDY_LEVEL"
    "aligned (unat (base b))" and fa: "free_set body \<inter> extent (area b) = {}" and inj: "inj_on fst mp"
    and al: "\<forall>x \<in> mp. aligned (fst x) \<and> aligned (snd x)"
    and lg: "\<forall>x \<in> mp. big (snd x) \<longrightarrow> 0 < fst x \<and> fst x + snd x < MAX_ADDR \<and> extent x \<inter> free_set body = {} \<and> extent x \<inter> extent (area b) = {}"
    and ll: "\<forall>x \<in> mp. \<forall>y \<in> mp. big (snd x) \<longrightarrow> big (snd y) \<longrightarrow> x \<noteq> y \<longrightarrow> extent x \<inter> extent y = {}"
    and sm: "\<forall>x \<in> mp. \<not> big (snd x) \<longrightarrow> (\<exists>blk \<in> blocks b. fst x = fst (block_range b blk) \<and> snd x \<le> snd (block_range b blk))"
    and rdy: "memory_ready st"
    unfolding pages_inv_def by blast
  from sm assms(2,3) obtain i n where blk: "(i, n) \<in> blocks b" "a = unat (base b) + i * PAGE_SIZE"
    by (auto simp: block_range_def)
  from free_outcome [OF bd(2) blk(1)] obtain b' where
    b': "buddy_free b i = Some (Inr b')" "buddy_inv b'" "level b' = level b" "base b' = base b" "blocks b' = blocks b - {(i, n)}" by auto
  have al2: "aligned a" "aligned l" using al assms(2) by auto
  have i17: "i < 2 ^ 17"
    using b'(1) bd(3) by (auto simp: buddy_free_def BUDDY_LEVEL_def split: if_splits)
  have "(int a - int (unat (base b))) div int PAGE_SIZE = int i"
    using blk(2) page_pos by (simp del: page_pos)
  moreover have "sint (word_of_int (int i) :: u32) = int i"
  proof -
    have "unat (of_nat i :: u32) = i" using i17 by (simp add: unsigned_of_nat take_bit_nat_eq_self)
    moreover have "unat (of_nat i :: u32) < 2 ^ 31" using i17 calculation by simp
    ultimately show ?thesis using sint_small [of "of_nat i"] by simp
  qed
  ultimately have ix: "sint (word_of_int ((int a - int (unat (base b))) div int PAGE_SIZE) :: u32) = int i" by simp
  have am: "a mod PAGE_SIZE = 0" "l mod 0x1000 = 0"
    using al2 by (auto simp: aligned_def PAGE_SIZE_def intro: mod_eq_0_iff_dvd [THEN iffD2] dvd_trans [of 4096 16384])
  have "int i < 2 ^ 17" using i17 by simp
  then have "kernel_unmmap a l st = Some (Inr (st\<lparr>bud := Some b'\<rparr>))"
    unfolding kernel_unmmap_def using am bd(1) assms(3) big_16 [of l] b'(1) ix
    by (simp add: len_up_id [OF al2(2)] Let_def BUDDY_LEVEL_def)
  moreover have "pages_inv (st\<lparr>bud := Some b'\<rparr>) (mp - {(a, l)})"
  proof -
    have br: "block_range b' blk = block_range b blk" "area b' = area b" for blk using b'(3,4) by (simp_all add: block_range_def area_def)
    have "\<forall>x \<in> mp - {(a, l)}. \<not> big (snd x) \<longrightarrow> (\<exists>blk \<in> blocks b'. fst x = fst (block_range b' blk) \<and> snd x \<le> snd (block_range b' blk))"
    proof (intro ballI impI)
      fix x assume x: "x \<in> mp - {(a, l)}" "\<not> big (snd x)"
      then obtain y where y: "y \<in> blocks b" "fst x = fst (block_range b y)" "snd x \<le> snd (block_range b y)" using sm by auto
      have "fst x \<noteq> a" using inj x assms(2) by (auto simp: inj_on_def)
      then have "y \<noteq> (i, n)" using y(2) blk(2) by (auto simp: block_range_def)
      then show "\<exists>blk \<in> blocks b'. fst x = fst (block_range b' blk) \<and> snd x \<le> snd (block_range b' blk)"
        using y b'(5) unfolding br by auto
    qed
    moreover have "inj_on fst (mp - {(a, l)})" using inj by (rule inj_on_subset) auto
    moreover have "list_inv (st\<lparr>bud := Some b'\<rparr>) body" using li by (simp add: list_inv_def)
    ultimately show ?thesis
      unfolding pages_inv_def using b' bd fa al lg ll rdy br
      by (intro conjI exI [of _ body] exI [of _ b']) auto
  qed
  ultimately show ?thesis by blast
qed

section \<open>Boot and runs\<close>

lemma size_pages_17: "buddy_size_page 17 = 17"
  by (simp add: buddy_size_page_def PAGE_SIZE_def)

lemma boot_inv:
  assumes "list_inv st body" "memory_ready st" "setup_buddy st = Some (Inr st')"
  shows "pages_inv st' {} \<and> free_set (free_mem st') \<subseteq> free_set body \<and> (\<exists>b. bud st' = Some b \<and> extent (area b) \<subseteq> free_set body)"
proof -
  define l where "l = (buddy_size_page 17 + 2 ^ 17) * PAGE_SIZE"
  have lal: "aligned l" by (simp add: l_def aligned_def)
  have lb: "big l" unfolding l_def size_pages_17 by (simp add: PAGE_SIZE_def BUDDY_MAX_PAGE_NUM_def)
  then have nb: "\<not> l < PAGE_SIZE * BUDDY_MAX_PAGE_NUM" by simp
  have km: "kernel_mmap 0 l 0 0 (- 1) 0 st =
      (case first_fit l (free_mem st) of None \<Rightarrow> Some (Inl NotReached)
       | Some (a, xs, fr) \<Rightarrow> Some (Inr (a, zero_bytes a l (st\<lparr>free_mem := xs, free_nodes := free_nodes st + (if fr then 1 else 0)\<rparr>))))"
    unfolding kernel_mmap_def Let_def len_up_id [OF lal] using assms(2) nb by simp
  have su: "setup_buddy st = map_option (\<lambda>r. res_bind r (\<lambda>(self, st). Inr (st\<lparr>bud := Some (buddy_new 17 (of_nat self))\<rparr>)))
      (kernel_mmap 0 l 0 0 (- 1) 0 st)" by (simp only: setup_buddy_def BUDDY_LEVEL_def l_def)
  from assms(3) km su obtain a zs fr where f: "first_fit l (free_mem st) = Some (a, zs, fr)"
    and st': "st' = (zero_bytes a l (st\<lparr>free_mem := zs, free_nodes := free_nodes st + (if fr then 1 else 0)\<rparr>))
      \<lparr>bud := Some (buddy_new 17 (of_nat a))\<rparr>"
    by (auto split: option.splits)
  from fit_list [OF assms(1) f lb lal] obtain body' where
    b': "list_inv (st\<lparr>free_mem := zs, free_nodes := free_nodes st + (if fr then 1 else 0)\<rparr>) body'"
      "free_set body' = free_set body - {a ..< a + l}" "{a ..< a + l} \<subseteq> free_set body" "aligned a" by blast
  have "a + l - 1 \<in> free_set body" using b'(3) big_pos [OF lb] by auto
  then have end': "a + l - 1 < 2 ^ 64 - 1" using assms(1) by (auto simp: list_inv_def MAX_ADDR_def)
  define b where "b = buddy_new 17 (of_nat a)"
  have bi: "buddy_inv b" "blocks b = {}" "level b = 17" unfolding b_def by (rule inv_new, simp)+ (simp add: buddy_new_def)
  have "base b = of_nat (a + PAGE_SIZE * 17)" by (simp add: b_def buddy_new_def size_pages_17)
  moreover have "a + PAGE_SIZE * 17 < 2 ^ 64" using end' by (simp add: l_def size_pages_17 PAGE_SIZE_def)
  ultimately have ub: "unat (base b) = a + PAGE_SIZE * 17"
    by (simp add: unsigned_of_nat take_bit_nat_eq_self del: of_nat_add)
  have ar: "extent (area b) \<subseteq> {a ..< a + l}"
    by (auto simp: extent_def area_def ub bi(3) l_def size_pages_17 add_mult_distrib)
  have "list_inv st' body'" "bud st' = Some b" "memory_ready st'"
    using b'(1) assms(2) by (simp_all add: st' zero_bytes_def list_inv_def b_def)
  note st'' = this
  have "pages_inv st' {}"
    unfolding pages_inv_def using st'' bi b'(2) ar b'(4) by (intro conjI exI [of _ body'] exI [of _ b]) (auto simp: BUDDY_LEVEL_def ub aligned_def)
  moreover have "free_set (free_mem st') \<subseteq> free_set body"
    using st''(1) b'(2) by (auto simp: list_inv_def free_set_def range_end_def)
  ultimately show ?thesis using st''(2) ar b'(3) by blast
qed

text \<open>Runs from the end of the boot: mappings, and releases of whole mappings.\<close>

inductive pages_run :: "page_alloc \<Rightarrow> range set \<Rightarrow> bool" where
  Boot: "list_inv st body \<Longrightarrow> memory_ready st \<Longrightarrow> setup_buddy st = Some (Inr st') \<Longrightarrow> pages_run st' {}"
| Map: "pages_run st mp \<Longrightarrow> kernel_mmap 0 len prot flags (- 1) 0 st = Some (Inr (a, st')) \<Longrightarrow>
    pages_run st' (insert (a, len_pagesize_up len) mp)"
| Unmap: "pages_run st mp \<Longrightarrow> (a, len_pagesize_up len) \<in> mp \<Longrightarrow> len mod 0x1000 = 0 \<Longrightarrow>
    kernel_unmmap a len st = Some (Inr st') \<Longrightarrow> pages_run st' (mp - {(a, len_pagesize_up len)})"

lemma unmap_live:
  assumes "pages_inv st mp" "(a, len_pagesize_up len) \<in> mp" "len mod 0x1000 = 0" "big (len_pagesize_up len) \<longrightarrow> 0 < free_nodes st"
  shows "\<exists>st'. kernel_unmmap a len st = Some (Inr st') \<and> pages_inv st' (mp - {(a, len_pagesize_up len)})"
  using unmap_big [OF assms(1,2)] unmap_small [OF assms(1,2)] assms(4) unmap_rounded [OF assms(3), of a st]
  by (cases "big (len_pagesize_up len)") auto

lemma run_inv: "pages_run st mp \<Longrightarrow> pages_inv st mp"
proof (induction rule: pages_run.induct)
  case (Boot st body st')
  then show ?case using boot_inv by blast
next
  case (Map st mp len prot flags a st')
  show ?case
    by (cases "big (len_pagesize_up len)")
      (rule mmap_big(1) [OF Map.IH Map.hyps(2) refl], assumption, rule mmap_small(1) [OF Map.IH Map.hyps(2) refl])
next
  case (Unmap st mp a len st')
  have "0 < free_nodes st" if b: "big (len_pagesize_up len)"
  proof (rule ccontr)
    assume z: "\<not> 0 < free_nodes st"
    have "kernel_unmmap a len st \<noteq> Some (Inr st')"
      using z b big_16 [of "len_pagesize_up len"] by (simp add: kernel_unmmap_def Let_def)
    with Unmap show False by simp
  qed
  with unmap_live [OF Unmap.IH Unmap(2,3)] Unmap(4) show ?case by auto
qed

text \<open>A machine with 8 GiB for the manager, for the concrete instances.\<close>

definition boot_state :: page_alloc where
  "boot_state = \<lparr>free_mem = [(0, 0), (0x9000000100000000, 2 ^ 33), (MAX_ADDR, 0)], free_nodes = 97, bud = None,
     memory_ready = True, bytes = (\<lambda>_. 0xff)\<rparr>"

definition ready_state :: page_alloc where
  "ready_state = boot_state\<lparr>free_mem := [(0, 0), (0x9000000180044000, 2 ^ 33 - 0x80044000), (MAX_ADDR, 0)],
     bud := Some (buddy_new BUDDY_LEVEL 0x9000000100000000),
     bytes := (\<lambda>a. if 0x9000000100000000 \<le> a \<and> a < 0x9000000180044000 then 0 else 0xff)\<rparr>"

lemma boot_list: "list_inv boot_state [(0x9000000100000000, 2 ^ 33)]"
  by (auto simp: list_inv_def boot_state_def POOL_SIZE_def aligned_def PAGE_SIZE_def range_end_def MAX_ADDR_def)

lemma ready_run: "pages_run ready_state {}"
proof -
  have "(buddy_size_page BUDDY_LEVEL + 2 ^ BUDDY_LEVEL) * PAGE_SIZE = 0x80044000"
    by (simp add: BUDDY_LEVEL_def size_pages_17 PAGE_SIZE_def)
  moreover have "len_pagesize_up 0x80044000 = 0x80044000" by (rule len_up_id) (simp add: aligned_def PAGE_SIZE_def)
  ultimately have "setup_buddy boot_state = Some (Inr ready_state)"
    by (simp add: setup_buddy_def kernel_mmap_def boot_state_def ready_state_def zero_bytes_def BUDDY_MAX_PAGE_NUM_def PAGE_SIZE_def MAX_ADDR_def
        cong: if_cong)
  moreover have "memory_ready boot_state" by (simp add: boot_state_def)
  ultimately show ?thesis using pages_run.Boot [OF boot_list] by blast
qed

abbreviation mapped_state :: page_alloc where
  "mapped_state \<equiv> zero_bytes 0x9000000180044000 0x40000 (ready_state\<lparr>free_mem := [(0, 0), (0x9000000180084000, 2 ^ 33 - 0x80084000), (MAX_ADDR, 0)]\<rparr>)"

lemma ready_map: "kernel_mmap 0 0x40000 3 0x22 (- 1) 0 ready_state = Some (Inr (0x9000000180044000, mapped_state))"
proof -
  have "len_pagesize_up 0x40000 = 0x40000" by (rule len_up_id) (simp add: aligned_def PAGE_SIZE_def)
  moreover have "(0x22 :: u64) AND NOT valid_flags = 0" "(3 :: u64) AND NOT valid_prot = 0"
    unfolding valid_flags_def valid_prot_def by code_simp+
  ultimately show ?thesis
    by (simp add: kernel_mmap_def ready_state_def boot_state_def BUDDY_MAX_PAGE_NUM_def PAGE_SIZE_def MAX_ADDR_def)
qed

lemma mapped_run: "pages_run mapped_state {(0x9000000180044000, 0x40000)}"
proof -
  have "len_pagesize_up 0x40000 = 0x40000" by (rule len_up_id) (simp add: aligned_def PAGE_SIZE_def)
  with pages_run.Map [OF ready_run ready_map] show ?thesis by simp
qed

section \<open>Properties\<close>





text \<open>
  Releasing memory that is already free is caught: a release of a range that overlaps the free
  list stops at an assertion and never corrupts the list.
\<close>

theorem double_release_caught:
  assumes "pages_run st mp" "PAGE_SIZE * BUDDY_MAX_PAGE_NUM \<le> len_pagesize_up len" "x \<in> set (free_mem st)"
    and "{a ..< a + len_pagesize_up len} \<inter> {fst x ..< fst x + snd x} \<noteq> {}"
  shows "kernel_unmmap a len st = Some (Inl AssertFail)"
proof -
  obtain body where "list_inv st body" using run_inv [OF assms(1)] by (auto simp: pages_inv_def)
  then show ?thesis using overlap_caught assms(2-4) by blast
qed

theorem double_release_caught_witness:
  "pages_run ready_state {} \<and> kernel_unmmap 0x9000000180044000 0x40000 ready_state = Some (Inl AssertFail)"
proof -
  have l: "len_pagesize_up 0x40000 = 0x40000" by (rule len_up_id) (simp add: aligned_def PAGE_SIZE_def)
  have "kernel_unmmap 0x9000000180044000 0x40000 ready_state = Some (Inl AssertFail)"
    by (rule double_release_caught [OF ready_run, where x = "(0x9000000180044000, 2 ^ 33 - 0x80044000)"])
      (simp_all add: l PAGE_SIZE_def BUDDY_MAX_PAGE_NUM_def ready_state_def)
  with ready_run show ?thesis by simp
qed

text \<open>
  A range of less than 16 pages cannot be handed to the manager at boot: \<open>fw_add_mem\<close> sends it
  to the buddy system, which is set up only after all ranges have been added.
\<close>

theorem small_boot_range_faults:
  assumes "bud st = None" "start mod PAGE_SIZE = 0" "end' mod PAGE_SIZE = 0" "start < end'" "end' - start < 16 * PAGE_SIZE"
  shows "fw_add_mem start end' st = Some (Inl NullDeref)"
proof -
  have "aligned (end' - start)" using assms(2,3) by (metis aligned_def dvd_diff_nat mod_0_imp_dvd)
  moreover have "TO_CAC start mod PAGE_SIZE = 0"
  proof -
    have "PAGE_SIZE dvd start" using assms(2) by auto
    moreover have "PAGE_SIZE dvd 2 ^ 48" "PAGE_SIZE dvd 0x9000000000000000" by (simp_all add: PAGE_SIZE_def)
    ultimately show ?thesis by (auto simp: TO_CAC_def dvd_mod intro!: mod_eq_0_iff_dvd [THEN iffD2] dvd_add)
  qed
  moreover have "(end' - start) mod 0x1000 = 0"
    using calculation(1) by (auto simp: aligned_def PAGE_SIZE_def intro: mod_eq_0_iff_dvd [THEN iffD2] dvd_trans [of 4096 16384])
  ultimately show ?thesis using assms by (simp add: fw_add_mem_def kernel_unmmap_def len_up_id Let_def)
qed

theorem small_boot_range_faults_witness:
  "fw_add_mem 0x200000 0x204000 (init_pages boot_state) = Some (Inl NullDeref)"
  by (rule small_boot_range_faults) (simp_all add: init_pages_def boot_state_def PAGE_SIZE_def)

end
