(* ===== verification/Ram_Partition.thy ===== *)
theory Ram_Partition
  imports Page_Alloc
begin

text \<open>
  Division of the physical memory at boot (\<open>env/loongarch/la64/mem.c\<close>): the RAM that the firmware
  reports is split into the RAM of the guest (what lies below 3.5 GiB), the image of the program
  itself, and the ranges handed to the memory manager. A range is its first address and its end.
\<close>

section \<open>State and operations\<close>

type_synonym ram_range = "nat \<times> nat"

record partition =
  host_ram_list :: "ram_range list"
  guest_ram_list :: "ram_range list"
  desc_num :: nat
  pager :: page_alloc

definition RAM_DESC_NUM :: nat where "RAM_DESC_NUM = 40"

definition guest_range :: ram_range where "guest_range = (0, 0xe0000000)"

text \<open>\<open>alloc_ram_desc\<close> takes one of the 40 descriptors; only their number is kept.\<close>

definition alloc_ram_desc :: "partition \<Rightarrow> partition res" where
  "alloc_ram_desc st = (if desc_num st < RAM_DESC_NUM then Inr (st\<lparr>desc_num := desc_num st + 1\<rparr>) else Inl AssertFail)"

definition add_host_ram :: "ram_range \<Rightarrow> partition \<Rightarrow> partition res" where
  "add_host_ram r st = res_bind (alloc_ram_desc st) (\<lambda>st. Inr (st\<lparr>host_ram_list := host_ram_list st @ [r]\<rparr>))"

definition add_guest_ram :: "ram_range \<Rightarrow> partition \<Rightarrow> partition res" where
  "add_guest_ram r st = res_bind (alloc_ram_desc st) (\<lambda>st. Inr (st\<lparr>guest_ram_list := guest_ram_list st @ [r]\<rparr>))"

definition is_overlap :: "ram_range \<Rightarrow> ram_range \<Rightarrow> bool" where
  "is_overlap a b \<longleftrightarrow> \<not> (snd a \<le> fst b \<or> snd b \<le> fst a)"

definition check_cover :: "ram_range \<Rightarrow> ram_range \<Rightarrow> bool" where
  "check_cover bigger smaller \<longleftrightarrow> fst bigger \<le> fst smaller \<and> snd bigger \<ge> snd smaller"

definition get_overlap :: "ram_range \<Rightarrow> ram_range \<Rightarrow> ram_range" where
  "get_overlap l r = (let (l, r) = (if fst l > fst r then (r, l) else (l, r)) in (fst r, min (snd l) (snd r)))"

text \<open>The new range of the descriptor, and the range of a second descriptor if one is made.\<close>

definition overlap_with_guest_ram :: "ram_range \<Rightarrow> partition \<Rightarrow> (ram_range \<times> ram_range option \<times> partition) res" where
  "overlap_with_guest_ram ram st =
     (if is_overlap ram guest_range then
        let ov = get_overlap ram guest_range in
        res_bind (add_guest_ram ov st) (\<lambda>st.
          if fst ov > fst ram \<and> snd ov < snd ram then
            res_bind (alloc_ram_desc st) (\<lambda>st. Inr ((fst ram, fst ov), Some (snd ov, snd ram), st))
          else if fst ram < fst ov then Inr ((fst ram, fst ov), None, st)
          else if snd ram > snd ov then Inr ((snd ov, snd ram), None, st)
          else if fst ram = fst ov \<and> snd ram = snd ov then Inr ((0, 0), None, st)
          else Inl AssertFail)
      else Inr (ram, None, st))"

definition overlap_with_kernel_iamge :: "ram_range \<Rightarrow> ram_range \<Rightarrow> partition \<Rightarrow> (ram_range \<times> ram_range option \<times> partition) res" where
  "overlap_with_kernel_iamge img ram st =
     (if is_overlap ram img then
        if \<not> check_cover ram img then Inl AssertFail
        else res_bind (alloc_ram_desc st) (\<lambda>st. Inr ((fst ram, fst img), Some (snd img, snd ram), st))
      else Inr (ram, None, st))"

text \<open>
  The two loops of \<open>reserve_memory\<close>. A second descriptor is inserted behind the current one, so that
  the loop visits it next; every insertion takes a descriptor, which bounds the loop. \<open>visited\<close> is the
  part of the list already visited.
\<close>

function carve_image :: "ram_range \<Rightarrow> ram_range list \<Rightarrow> ram_range list \<Rightarrow> partition \<Rightarrow> partition res" where
  "carve_image img visited [] st = Inr (st\<lparr>host_ram_list := visited\<rparr>)"
| "carve_image img visited (r # rs) st =
     (if desc_num st \<le> RAM_DESC_NUM then
        (case overlap_with_kernel_iamge img r st of
           Inl e \<Rightarrow> Inl e
         | Inr (r', None, st') \<Rightarrow> carve_image img (visited @ [r']) rs st'
         | Inr (r', Some r2, st') \<Rightarrow> carve_image img (visited @ [r']) (r2 # rs) st')
      else Inl AssertFail)"
  by pat_completeness auto
termination
  by (relation "measure (\<lambda>(img, visited, rs, st). length rs + (RAM_DESC_NUM + 1 - desc_num st))")
    (auto simp: overlap_with_kernel_iamge_def alloc_ram_desc_def res_bind_def split: if_splits sum.splits)

definition hand_over :: "ram_range \<Rightarrow> partition \<Rightarrow> partition res option" where
  "hand_over r st = map_option (\<lambda>x. res_bind x (\<lambda>pg. Inr (st\<lparr>pager := pg\<rparr>))) (fw_add_mem (fst r) (snd r) (pager st))"

lemma hand_over_desc: "hand_over r st = Some (Inr st') \<Longrightarrow> desc_num st' = desc_num st"
  by (auto simp: hand_over_def res_bind_Inr_iff)

lemma guest_desc: "overlap_with_guest_ram r st = Inr (r', r2, st') \<Longrightarrow> desc_num st + (if r2 = None then 0 else 1) \<le> desc_num st'"
  by (auto simp: overlap_with_guest_ram_def add_guest_ram_def alloc_ram_desc_def Let_def res_bind_Inr_iff split: if_splits)

function carve_guest :: "ram_range list \<Rightarrow> ram_range list \<Rightarrow> partition \<Rightarrow> partition res option" where
  "carve_guest visited [] st = Some (Inr (st\<lparr>host_ram_list := visited\<rparr>))"
| "carve_guest visited (r # rs) st =
     (if desc_num st \<le> RAM_DESC_NUM then
        (case overlap_with_guest_ram r st of
           Inl e \<Rightarrow> Some (Inl e)
         | Inr (r', None, st1) \<Rightarrow>
             (case hand_over r' st1 of
                Some (Inr st2) \<Rightarrow> carve_guest (visited @ [r']) rs st2
              | other \<Rightarrow> other)
         | Inr (r', Some r2, st1) \<Rightarrow>
             (case hand_over r2 st1 of
                Some (Inr st2) \<Rightarrow>
                  (case hand_over r' st2 of
                     Some (Inr st3) \<Rightarrow> carve_guest (visited @ [r']) (r2 # rs) st3
                   | other \<Rightarrow> other)
              | other \<Rightarrow> other))
      else Some (Inl AssertFail))"
  by pat_completeness auto
termination
  by (relation "measure (\<lambda>(visited, rs, st). length rs + (RAM_DESC_NUM + 1 - desc_num st))")
    (auto dest!: hand_over_desc guest_desc)

definition reserve_memory :: "ram_range \<Rightarrow> partition \<Rightarrow> partition res option" where
  "reserve_memory img st =
     (case carve_image img [] (host_ram_list st) st of
        Inl e \<Rightarrow> Some (Inl e)
      | Inr st \<Rightarrow> carve_guest [] (host_ram_list st) st)"

text \<open>\<open>PFN_ALIGN\<close> and \<open>TO_PHYS\<close> on 64-bit addresses; the image lies between two linker symbols.\<close>

definition PFN_ALIGN :: "nat \<Rightarrow> nat" where
  "PFN_ALIGN x = (x + (PAGE_SIZE - 1)) mod 2 ^ 64 div PAGE_SIZE * PAGE_SIZE"

definition TO_PHYS :: "nat \<Rightarrow> nat" where "TO_PHYS x = x mod 2 ^ 48"

definition init_ram_range :: "nat \<Rightarrow> nat \<Rightarrow> partition \<Rightarrow> ram_range \<times> partition" where
  "init_ram_range text_start bss_stop st =
     ((TO_PHYS (PFN_ALIGN text_start), TO_PHYS (PFN_ALIGN bss_stop)), st\<lparr>guest_ram_list := [], host_ram_list := []\<rparr>)"

record mem_entry =
  mem_type :: u32
  mem_start :: nat
  mem_size :: nat

definition ADDRESS_TYPE_SYSRAM :: u32 where "ADDRESS_TYPE_SYSRAM = 1"

text \<open>The range of an entry of the firmware's memory map, if it is RAM and holds a whole page.\<close>

definition entry_range :: "mem_entry \<Rightarrow> ram_range option" where
  "entry_range e =
     (if mem_type e = ADDRESS_TYPE_SYSRAM then
        let mem_end = (mem_start e + mem_size e) mod 2 ^ 64;
            s = PFN_ALIGN (mem_start e);
            e' = PFN_ALIGN ((mem_end + 2 ^ 64 - PAGE_SIZE + 1) mod 2 ^ 64)
        in if s \<ge> e' then None else Some (s, e')
      else None)"

fun parse_memory :: "mem_entry list \<Rightarrow> bool \<Rightarrow> partition \<Rightarrow> (bool \<times> partition) res" where
  "parse_memory [] chk st = Inr (chk, st)"
| "parse_memory (e # es) chk st =
     (case entry_range e of
        None \<Rightarrow> parse_memory es chk st
      | Some (s, e') \<Rightarrow>
          if s = 0x200000 then res_bind (add_host_ram (0, e') st) (parse_memory es True)
          else res_bind (add_host_ram (s, e') st) (parse_memory es chk))"

definition fw_init_memory :: "mem_entry list \<Rightarrow> nat \<Rightarrow> nat \<Rightarrow> partition \<Rightarrow> partition res option" where
  "fw_init_memory fwmap text_start bss_stop st =
     (let st = st\<lparr>pager := init_pages (pager st)\<rparr>;
          (img, st) = init_ram_range text_start bss_stop st
      in case parse_memory fwmap False st of
           Inl e \<Rightarrow> Some (Inl e)
         | Inr (chk, st) \<Rightarrow>
             if \<not> chk then Some (Inl AssertFail)
             else (case reserve_memory img st of
                     Some (Inr st) \<Rightarrow>
                       map_option (\<lambda>x. res_bind x (\<lambda>pg. Inr (st\<lparr>pager := pg\<rparr>)))
                         (setup_buddy ((pager st)\<lparr>memory_ready := True\<rparr>))
                   | other \<Rightarrow> other))"

definition MAX_PC_RAM_NUM :: nat where "MAX_PC_RAM_NUM = 10"

definition get_guest_ram_num :: "partition \<Rightarrow> nat res" where
  "get_guest_ram_num st = (if MAX_PC_RAM_NUM > length (guest_ram_list st) then Inr (length (guest_ram_list st)) else Inl AssertFail)"

definition guest_ram :: "nat \<Rightarrow> partition \<Rightarrow> ram_range res" where
  "guest_ram i st = (if i < length (guest_ram_list st) then Inr (guest_ram_list st ! i) else Inl Abort)"

fun total_ram_loop :: "nat \<Rightarrow> partition \<Rightarrow> nat \<Rightarrow> nat res" where
  "total_ram_loop 0 st i = Inl AssertFail"
| "total_ram_loop (Suc f) st i =
     res_bind (get_guest_ram_num st) (\<lambda>n.
       if i < n then
         res_bind (guest_ram i st) (\<lambda>r.
           res_bind (total_ram_loop f st (i + 1)) (\<lambda>t. Inr (((snd r + 2 ^ 64 - fst r) + t) mod 2 ^ 64)))
       else Inr 0)"

definition get_guest_total_ram :: "partition \<Rightarrow> nat res" where
  "get_guest_total_ram st = total_ram_loop MAX_PC_RAM_NUM st 0"

section \<open>What the carving keeps\<close>

definition ram_set :: "ram_range list \<Rightarrow> nat set" where
  "ram_set rs = (\<Union>r \<in> set rs. {fst r ..< snd r})"

lemma ram_set_simps [simp]:
  "ram_set [] = {}" "ram_set (r # rs) = {fst r ..< snd r} \<union> ram_set rs" "ram_set (xs @ ys) = ram_set xs \<union> ram_set ys"
  by (auto simp: ram_set_def)

lemma image_split:
  assumes "overlap_with_kernel_iamge img r st = Inr (r', o', st')" "fst img \<le> snd img"
  shows "{fst r' ..< snd r'} \<union> (case o' of None \<Rightarrow> {} | Some r2 \<Rightarrow> {fst r2 ..< snd r2} - {fst img ..< snd img}) = {fst r ..< snd r} - {fst img ..< snd img}"
    and "guest_ram_list st' = guest_ram_list st" "pager st' = pager st" "snd r' \<le> max (snd r) (snd img)" "case o' of None \<Rightarrow> True | Some r2 \<Rightarrow> snd r2 = snd r"
  using assms
  by (auto simp: overlap_with_kernel_iamge_def is_overlap_def check_cover_def alloc_ram_desc_def res_bind_Inr_iff split: if_splits)

lemma carve_image_spec:
  assumes "carve_image img vs rs st = Inr st'" "fst img \<le> snd img" "\<forall>r \<in> set vs \<union> set rs. snd r \<le> m" "snd img \<le> m"
  shows "ram_set (host_ram_list st') = ram_set vs \<union> (ram_set rs - {fst img ..< snd img}) \<and>
    guest_ram_list st' = guest_ram_list st \<and> pager st' = pager st \<and> (\<forall>r \<in> set (host_ram_list st'). snd r \<le> m)"
  using assms
proof (induction img vs rs st rule: carve_image.induct)
  case (2 img vs r rs st)
  from "2.prems"(1) obtain r' o' st1 where o: "desc_num st \<le> RAM_DESC_NUM" "overlap_with_kernel_iamge img r st = Inr (r', o', st1)"
    by (auto split: if_splits sum.splits)
  note sp = image_split [OF o(2) "2.prems"(2)]
  have m: "snd r' \<le> m" using sp(4) "2.prems"(3,4) by (meson UnCI list.set_intros(1) max.bounded_iff order_trans)
  show ?case
  proof (cases o')
    case None
    have "carve_image img (vs @ [r']) rs st1 = Inr st'" using "2.prems"(1) o None by simp
    from "2.IH"(1) [OF o(1) o(2) refl refl _ this "2.prems"(2)] None m "2.prems"(3,4) sp show ?thesis by (auto split: option.splits)
  next
    case (Some r2)
    have c: "carve_image img (vs @ [r']) (r2 # rs) st1 = Inr st'" using "2.prems"(1) o Some by simp
    have "snd r2 \<le> m" using sp(5) Some "2.prems"(3) by simp
    with "2.IH"(2) [OF o(1) o(2) refl refl Some c "2.prems"(2)] Some m "2.prems"(3,4) sp(1-3) show ?thesis
      by (simp add: Un_Diff) (metis (no_types, lifting) Un_assoc Un_left_commute)
  qed
qed auto

lemma guest_split:
  assumes "overlap_with_guest_ram r st = Inr (r', o', st')"
  shows "o' = None" "{fst r' ..< snd r'} = {fst r ..< snd r} - {..< snd guest_range}" "pager st' = pager st"
    "ram_set (guest_ram_list st') = ram_set (guest_ram_list st) \<union> ({fst r ..< snd r} \<inter> {..< snd guest_range})" "snd r' \<le> snd r"
  using assms
  by (auto simp: overlap_with_guest_ram_def is_overlap_def get_overlap_def guest_range_def add_guest_ram_def alloc_ram_desc_def Let_def
      res_bind_Inr_iff split: if_splits)

lemma to_cac_image: "e \<le> 2 ^ 48 \<Longrightarrow> s \<le> e \<Longrightarrow> s < 2 ^ 48 \<Longrightarrow> TO_CAC ` {s ..< e} = {TO_CAC s ..< TO_CAC s + (e - s)}"
proof -
  assume a: "e \<le> 2 ^ 48" "s \<le> e" "s < 2 ^ 48"
  have "TO_CAC ` {s ..< e} = (\<lambda>x. 0x9000000000000000 + x) ` {s ..< e}"
    using a(1) by (intro image_cong refl) (simp add: TO_CAC_def)
  also have "\<dots> = {0x9000000000000000 + s ..< 0x9000000000000000 + e}" by (simp add: add.commute)
  also have "\<dots> = {TO_CAC s ..< TO_CAC s + (e - s)}" using a by (simp add: TO_CAC_def)
  finally show ?thesis .
qed

lemma release_big:
  assumes "kernel_unmmap a l st = Some (Inr st')" "list_inv st body" "bud st = None" "aligned l"
  shows "big l" "aligned a" "0 < free_nodes st" "free_set body \<inter> {a ..< a + l} = {}"
proof -
  show "aligned a" using assms(1) by (auto simp: kernel_unmmap_def aligned_def split: if_splits)
  show b: "big l" using assms by (auto simp: kernel_unmmap_def len_up_id Let_def big_16 split: if_splits)
  show "0 < free_nodes st"
    using assms b by (auto simp: kernel_unmmap_def len_up_id Let_def big_16 split: if_splits)
  show "free_set body \<inter> {a ..< a + l} = {}"
  proof (rule ccontr)
    assume "free_set body \<inter> {a ..< a + l} \<noteq> {}"
    then obtain x where x: "x \<in> set body" "{a ..< a + l} \<inter> {fst x ..< fst x + snd x} \<noteq> {}"
      unfolding free_set_def range_end_def by blast
    then have "kernel_unmmap a l st = Some (Inl AssertFail)"
      using overlap_caught [OF assms(2), of l x a] assms(2) b by (simp add: len_up_id [OF assms(4)] list_inv_def)
    with assms(1) show False by simp
  qed
qed

lemma fw_add_list:
  assumes "fw_add_mem s e st = Some (Inr st')" "list_inv st body" "bud st = None" "e \<le> 2 ^ 48"
  shows "\<exists>body'. list_inv st' body' \<and> free_set body' = free_set body \<union> TO_CAC ` {s ..< e} \<and> bud st' = None"
proof (cases "s = e")
  case True
  with assms show ?thesis by (auto simp: fw_add_mem_def split: if_splits)
next
  case False
  then have u: "kernel_unmmap (TO_CAC s) (e - s) st = Some (Inr st')" and se: "s < e" and m: "s mod PAGE_SIZE = 0" "e mod PAGE_SIZE = 0"
    using assms(1) by (auto simp: fw_add_mem_def split: if_splits)
  have al: "aligned (e - s)" using m by (metis aligned_def dvd_diff_nat mod_0_imp_dvd)
  note r = release_big [OF u assms(2,3) al]
  have b: "TO_CAC s + (e - s) < MAX_ADDR" "0 < TO_CAC s" using se assms(4) by (simp_all add: TO_CAC_def MAX_ADDR_def)
  from give_list [OF assms(2) r(4) b(2) r(2) al r(1) b(1) r(3)] u assms(3) show ?thesis
    using to_cac_image [OF assms(4), of s] se assms(4) by auto
qed

lemma carve_guest_spec:
  assumes "carve_guest vs rs st = Some (Inr st')" "list_inv (pager st) body" "bud (pager st) = None" "\<forall>r \<in> set rs. snd r \<le> 2 ^ 48"
  shows "\<exists>body'. list_inv (pager st') body' \<and> bud (pager st') = None \<and>
    free_set body' = free_set body \<union> TO_CAC ` (ram_set rs - {..< snd guest_range}) \<and>
    ram_set (guest_ram_list st') = ram_set (guest_ram_list st) \<union> (ram_set rs \<inter> {..< snd guest_range})"
  using assms
proof (induction vs rs st arbitrary: body rule: carve_guest.induct)
  case (2 vs r rs st)
  from "2.prems"(1) obtain r' o' st1 where o: "desc_num st \<le> RAM_DESC_NUM" "overlap_with_guest_ram r st = Inr (r', o', st1)"
    by (auto split: if_splits sum.splits)
  note sp = guest_split [OF o(2)]
  from "2.prems"(1) o sp(1) obtain st2 where h: "hand_over r' st1 = Some (Inr st2)" and c: "carve_guest (vs @ [r']) rs st2 = Some (Inr st')"
    by (auto split: option.splits sum.splits)
  from h have fw: "fw_add_mem (fst r') (snd r') (pager st1) = Some (Inr (pager st2))" and g: "guest_ram_list st2 = guest_ram_list st1"
    by (auto simp: hand_over_def res_bind_Inr_iff)
  have "snd r' \<le> 2 ^ 48" using sp(5) "2.prems"(4) by (meson list.set_intros(1) order_trans)
  from fw_add_list [OF fw, of body] this "2.prems"(2,3) sp(3) obtain body1 where
    b1: "list_inv (pager st2) body1" "free_set body1 = free_set body \<union> TO_CAC ` {fst r' ..< snd r'}" "bud (pager st2) = None" by auto
  from "2.IH"(1) [OF o(1) o(2) refl refl sp(1) h refl c b1(1,3)] sp(1) "2.prems"(4) obtain body' where
    b': "list_inv (pager st') body'" "bud (pager st') = None" "free_set body' = free_set body1 \<union> TO_CAC ` (ram_set rs - {..< snd guest_range})"
      "ram_set (guest_ram_list st') = ram_set (guest_ram_list st2) \<union> (ram_set rs \<inter> {..< snd guest_range})" by auto
  show ?case
    by (intro exI [of _ body'] conjI b'(1,2)) (auto simp: b'(3,4) b1(2) sp(2,4) g)
qed auto

section \<open>The whole boot\<close>

text \<open>
  The RAM the firmware reports, in whole pages; the range that starts at 2 MiB is taken to start at
  0, where the guest's firmware and low memory live.
\<close>

definition firmware_ram :: "mem_entry list \<Rightarrow> nat set" where
  "firmware_ram es = (\<Union>e \<in> set es. case entry_range e of None \<Rightarrow> {} | Some (s, e') \<Rightarrow> {(if s = 0x200000 then 0 else s) ..< e'})"

lemma firmware_ram_simps [simp]:
  "firmware_ram [] = {}"
  "firmware_ram (e # es) = (case entry_range e of None \<Rightarrow> {} | Some (s, e') \<Rightarrow> {(if s = 0x200000 then 0 else s) ..< e'}) \<union> firmware_ram es"
  by (simp_all add: firmware_ram_def)

definition entry_end_ok :: "mem_entry \<Rightarrow> bool" where
  "entry_end_ok e \<longleftrightarrow> (case entry_range e of None \<Rightarrow> True | Some r \<Rightarrow> snd r \<le> 2 ^ 48)"

lemma parse_spec:
  assumes "parse_memory es chk st = Inr (c, st')" "\<forall>e \<in> set es. entry_end_ok e" "\<forall>r \<in> set (host_ram_list st). snd r \<le> 2 ^ 48"
  shows "ram_set (host_ram_list st') = ram_set (host_ram_list st) \<union> firmware_ram es \<and> guest_ram_list st' = guest_ram_list st \<and>
    pager st' = pager st \<and> (\<forall>r \<in> set (host_ram_list st'). snd r \<le> 2 ^ 48)"
  using assms
proof (induction es arbitrary: chk st)
  case (Cons e es)
  show ?case
  proof (cases "entry_range e")
    case None
    with Cons show ?thesis by simp
  next
    case (Some r)
    define r' where "r' = (if fst r = 0x200000 then 0 else fst r, snd r)"
    have "parse_memory (e # es) chk st = res_bind (add_host_ram r' st) (parse_memory es (if fst r = 0x200000 then True else chk))"
      using Some by (cases r) (simp add: r'_def)
    with Cons.prems(1) obtain st1 c1 where a: "add_host_ram r' st = Inr st1" "parse_memory es c1 st1 = Inr (c, st')"
      by (metis res_bind_Inr_iff)
    have st1: "host_ram_list st1 = host_ram_list st @ [r']" "guest_ram_list st1 = guest_ram_list st" "pager st1 = pager st"
      using a(1) by (auto simp: add_host_ram_def alloc_ram_desc_def split: if_splits)
    have "snd r' \<le> 2 ^ 48" using Cons.prems(2) Some by (simp add: entry_end_ok_def r'_def)
    then have "\<forall>r \<in> set (host_ram_list st1). snd r \<le> 2 ^ 48" using Cons.prems(3) unfolding st1 by auto
    with Cons.IH [OF a(2)] Cons.prems(2) have "ram_set (host_ram_list st') = ram_set (host_ram_list st1) \<union> firmware_ram es \<and>
       guest_ram_list st' = guest_ram_list st1 \<and> pager st' = pager st1 \<and> (\<forall>r \<in> set (host_ram_list st'). snd r \<le> 2 ^ 48)"
      by (meson list.set_intros(2))
    note ih = this [unfolded st1, simplified]
    moreover have "firmware_ram (e # es) = {fst r' ..< snd r'} \<union> firmware_ram es" using Some by (simp add: r'_def split: prod.splits)
    ultimately show ?thesis using ih by (simp add: Un_assoc)
  qed
qed simp

abbreviation image_range :: "nat \<Rightarrow> nat \<Rightarrow> ram_range" where
  "image_range text_start bss_stop \<equiv> (TO_PHYS (PFN_ALIGN text_start), TO_PHYS (PFN_ALIGN bss_stop))"

lemma boot_steps:
  assumes "fw_init_memory fwmap ts bs st = Some (Inr st')" "\<forall>e \<in> set fwmap. entry_end_ok e" "bud (pager st) = None"
    and "fst (image_range ts bs) \<le> snd (image_range ts bs)"
  obtains body pg where "list_inv pg body" "memory_ready pg" "setup_buddy pg = Some (Inr (pager st'))"
    and "free_set body = TO_CAC ` (firmware_ram fwmap - {fst (image_range ts bs) ..< snd (image_range ts bs)} - {..< snd guest_range})"
    and "ram_set (guest_ram_list st') = (firmware_ram fwmap - {fst (image_range ts bs) ..< snd (image_range ts bs)}) \<inter> {..< snd guest_range}"
proof -
  define img where "img = image_range ts bs"
  define st0 where "st0 = st\<lparr>pager := init_pages (pager st), guest_ram_list := [], host_ram_list := []\<rparr>"
  from assms(1) obtain st1 where p: "parse_memory fwmap False st0 = Inr (True, st1)"
    and r: "\<exists>st3. reserve_memory img st1 = Some (Inr st3) \<and> setup_buddy ((pager st3)\<lparr>memory_ready := True\<rparr>) = Some (Inr (pager st')) \<and>
      guest_ram_list st' = guest_ram_list st3"
    by (auto simp: fw_init_memory_def init_ram_range_def img_def st0_def Let_def res_bind_Inr_iff split: sum.splits if_splits option.splits)
  from r obtain st3 where st3: "reserve_memory img st1 = Some (Inr st3)"
    "setup_buddy ((pager st3)\<lparr>memory_ready := True\<rparr>) = Some (Inr (pager st'))" "guest_ram_list st' = guest_ram_list st3" by blast
  from st3(1) obtain st2 where c: "carve_image img [] (host_ram_list st1) st1 = Inr st2" "carve_guest [] (host_ram_list st2) st2 = Some (Inr st3)"
    by (auto simp: reserve_memory_def split: sum.splits)
  have im: "fst img \<le> snd img" "snd img \<le> 2 ^ 48" using assms(4) by (simp_all add: img_def TO_PHYS_def less_imp_le)
  have 1: "ram_set (host_ram_list st1) = firmware_ram fwmap" "guest_ram_list st1 = []" "pager st1 = init_pages (pager st)"
    "\<forall>r \<in> set (host_ram_list st1). snd r \<le> 2 ^ 48"
    using parse_spec [OF p assms(2)] by (simp_all add: st0_def)
  then have 2: "ram_set (host_ram_list st2) = firmware_ram fwmap - {fst img ..< snd img}" "guest_ram_list st2 = []"
    "pager st2 = init_pages (pager st)" "\<forall>r \<in> set (host_ram_list st2). snd r \<le> 2 ^ 48"
    using carve_image_spec [OF c(1) im(1) _ im(2)] by simp_all
  have "list_inv (pager st2) []" "bud (pager st2) = None" using init_list_inv assms(3) by (simp_all add: 2(3) init_pages_def)
  from carve_guest_spec [OF c(2) this 2(4)] obtain body where
    b: "list_inv (pager st3) body" "free_set body = TO_CAC ` (ram_set (host_ram_list st2) - {..< snd guest_range})"
      "ram_set (guest_ram_list st3) = ram_set (host_ram_list st2) \<inter> {..< snd guest_range}" by (auto simp: 2(2))
  show thesis
    by (rule that [of "(pager st3)\<lparr>memory_ready := True\<rparr>" body])
      (use b 2(1) st3 in \<open>simp_all add: list_inv_def img_def\<close>)
qed

section \<open>Properties\<close>


text \<open>A machine with two ranges of RAM; the image is at 4 GiB, in the second.\<close>

definition sample_map :: "mem_entry list" where
  "sample_map = [\<lparr>mem_type = 1, mem_start = 0x200000, mem_size = 0xee00000\<rparr>, \<lparr>mem_type = 2, mem_start = 0xf000000, mem_size = 0x1000000\<rparr>,
     \<lparr>mem_type = 1, mem_start = 0x90000000, mem_size = 0x170000000\<rparr>]"

definition sample_start :: partition where
  "sample_start = \<lparr>host_ram_list = [], guest_ram_list = [], desc_num = 0,
     pager = \<lparr>free_mem = [], free_nodes = 0, bud = None, memory_ready = False, bytes = (\<lambda>_. 0)\<rparr>\<rparr>"

lemma sample_ranges:
  "map entry_range sample_map = [Some (0x200000, 0xf000000), None, Some (0x90000000, 0x200000000)]"
  by (simp add: sample_map_def entry_range_def PFN_ALIGN_def PAGE_SIZE_def ADDRESS_TYPE_SYSRAM_def Let_def)

lemma sample_image: "image_range 0x9000000100000000 0x9000000100400000 = (0x100000000, 0x100400000)"
  by (simp add: TO_PHYS_def PFN_ALIGN_def PAGE_SIZE_def)

abbreviation sample_pager :: "range list \<Rightarrow> nat \<Rightarrow> page_alloc" where
  "sample_pager xs n \<equiv> \<lparr>free_mem = (0, 0) # xs @ [(MAX_ADDR, 0)], free_nodes = n, bud = None, memory_ready = False, bytes = (\<lambda>_. 0)\<rparr>"

lemma sample_parse:
  "parse_memory sample_map False (sample_start\<lparr>pager := sample_pager [] 98\<rparr>) =
     Inr (True, \<lparr>host_ram_list = [(0, 0xf000000), (0x90000000, 0x200000000)], guest_ram_list = [], desc_num = 2, pager = sample_pager [] 98\<rparr>)"
  using sample_ranges
  by (simp add: sample_map_def sample_start_def add_host_ram_def alloc_ram_desc_def RAM_DESC_NUM_def)

lemma sample_give:
  "fw_add_mem 0xe0000000 0x100000000 (sample_pager [] 98) = Some (Inr (sample_pager [(0x90000000e0000000, 0x20000000)] 97))"
  "fw_add_mem 0x100400000 0x200000000 (sample_pager [(0x90000000e0000000, 0x20000000)] 97) =
     Some (Inr (sample_pager [(0x90000000e0000000, 0x20000000), (0x9000000100400000, 0xffc00000)] 96))"
  by (simp_all add: fw_add_mem_def kernel_unmmap_def TO_CAC_def PAGE_SIZE_def len_pagesize_up_def MAX_ADDR_def insert_range_def
      add_head_sentinel_def Let_def)

lemma sample_carve:
  "reserve_memory (0x100000000, 0x100400000)
     \<lparr>host_ram_list = [(0, 0xf000000), (0x90000000, 0x200000000)], guest_ram_list = [], desc_num = 2, pager = sample_pager [] 98\<rparr> =
   Some (Inr \<lparr>host_ram_list = [(0, 0), (0xe0000000, 0x100000000), (0x100400000, 0x200000000)],
     guest_ram_list = [(0, 0xf000000), (0x90000000, 0xe0000000)], desc_num = 5,
     pager = sample_pager [(0x90000000e0000000, 0x20000000), (0x9000000100400000, 0xffc00000)] 96\<rparr>)"
  using sample_give
  by (simp add: reserve_memory_def overlap_with_kernel_iamge_def overlap_with_guest_ram_def is_overlap_def check_cover_def get_overlap_def
      guest_range_def add_guest_ram_def alloc_ram_desc_def RAM_DESC_NUM_def hand_over_def fw_add_mem_def [of 0 0] PAGE_SIZE_def Let_def)

lemma sample_boot:
  "\<exists>st'. fw_init_memory sample_map 0x9000000100000000 0x9000000100400000 sample_start = Some (Inr st') \<and>
     guest_ram_list st' = [(0, 0xf000000), (0x90000000, 0xe0000000)]"
proof -
  define pg where "pg = (sample_pager [(0x90000000e0000000, 0x20000000), (0x9000000100400000, 0xffc00000)] 96)\<lparr>memory_ready := True\<rparr>"
  have "(buddy_size_page BUDDY_LEVEL + 2 ^ BUDDY_LEVEL) * PAGE_SIZE = 0x80044000"
    by (simp add: BUDDY_LEVEL_def size_pages_17 PAGE_SIZE_def)
  moreover have "len_pagesize_up 0x80044000 = 0x80044000" by (rule len_up_id) (simp add: aligned_def PAGE_SIZE_def)
  ultimately have "\<exists>pg'. setup_buddy pg = Some (Inr pg')"
    by (simp add: setup_buddy_def kernel_mmap_def pg_def BUDDY_MAX_PAGE_NUM_def PAGE_SIZE_def)
  then obtain pg' where "setup_buddy pg = Some (Inr pg')" by blast
  moreover have "sample_start\<lparr>pager := init_pages (pager sample_start)\<rparr> = sample_start\<lparr>pager := sample_pager [] 98\<rparr>"
    by (simp add: sample_start_def init_pages_def POOL_SIZE_def)
  moreover have "init_ram_range 0x9000000100000000 0x9000000100400000 (sample_start\<lparr>pager := sample_pager [] 98\<rparr>) =
      ((0x100000000, 0x100400000), sample_start\<lparr>pager := sample_pager [] 98\<rparr>)"
    using sample_image by (simp add: init_ram_range_def sample_start_def)
  ultimately show ?thesis using sample_parse sample_carve by (simp add: fw_init_memory_def pg_def)
qed


text \<open>
  The guest is told all of its RAM: when \<open>get_guest_total_ram\<close> returns, its value is the sum of
  the lengths of the guest's ranges; it returns exactly if there are at most nine ranges.
\<close>

theorem guest_total_exact:
  assumes "\<forall>r \<in> set (guest_ram_list st). fst r \<le> snd r" "(\<Sum>r \<leftarrow> guest_ram_list st. snd r - fst r) < 2 ^ 64"
  shows "get_guest_total_ram st =
    (if length (guest_ram_list st) \<le> 9 then Inr (\<Sum>r \<leftarrow> guest_ram_list st. snd r - fst r) else Inl AssertFail)"
proof -
  let ?g = "guest_ram_list st"
  have lp: "total_ram_loop f st i = Inr (\<Sum>r \<leftarrow> drop i ?g. snd r - fst r)"
    if "length ?g < 10" "i \<le> length ?g" "length ?g < i + f" for f i
    using that
  proof (induction f arbitrary: i)
    case (Suc f)
    show ?case
    proof (cases "i < length ?g")
      case True
      have d: "drop i ?g = ?g ! i # drop (i + 1) ?g" using True by (simp add: Cons_nth_drop_Suc)
      have "(\<Sum>r \<leftarrow> drop i ?g. snd r - fst r) \<le> (\<Sum>r \<leftarrow> ?g. snd r - fst r)"
        by (metis append_take_drop_id le_add2 map_append sum_list_append)
      then have lt: "snd (?g ! i) - fst (?g ! i) + (\<Sum>r \<leftarrow> drop (i + 1) ?g. snd r - fst r) < 2 ^ 64" using assms(2) d by simp
      have le: "fst (?g ! i) \<le> snd (?g ! i)" using assms(1) True by auto
      have "snd (?g ! i) + 2 ^ 64 - fst (?g ! i) + t = (snd (?g ! i) - fst (?g ! i) + t) + 2 ^ 64" for t using le by simp
      then have "(snd (?g ! i) + 2 ^ 64 - fst (?g ! i) + (\<Sum>r \<leftarrow> drop (i + 1) ?g. snd r - fst r)) mod 2 ^ 64 =
          (\<Sum>r \<leftarrow> drop i ?g. snd r - fst r)"
        unfolding d using lt by (simp only: mod_add_self2 list.map sum_list.Cons mod_less)
      then show ?thesis
        using Suc True by (simp add: get_guest_ram_num_def MAX_PC_RAM_NUM_def guest_ram_def)
    next
      case False
      then show ?thesis using Suc.prems by (simp add: get_guest_ram_num_def MAX_PC_RAM_NUM_def)
    qed
  qed simp
  show ?thesis
  proof (cases "length ?g \<le> 9")
    case True
    then show ?thesis using lp [of 0 10] by (simp add: get_guest_total_ram_def MAX_PC_RAM_NUM_def)
  next
    case False
    then show ?thesis by (simp add: get_guest_total_ram_def MAX_PC_RAM_NUM_def get_guest_ram_num_def numeral_eq_Suc)
  qed
qed

theorem guest_total_exact_witness:
  "get_guest_total_ram (sample_start\<lparr>guest_ram_list := [(0, 0xf000000), (0x90000000, 0xe0000000)]\<rparr>) = Inr 0x5f000000"
  using guest_total_exact [of "sample_start\<lparr>guest_ram_list := [(0, 0xf000000), (0x90000000, 0xe0000000)]\<rparr>"] by simp

end
