(* ===== verification/Qemu_Timer.thy ===== *)
theory Qemu_Timer
  imports Bmbt_Prelude
begin

text \<open>
  Timers (\<open>src/util/qemu-timer.c\<close>) and the hardware timer that drives them
  (\<open>env/loongarch/kernel/time.c\<close>, \<open>env/loongarch/timer/interrupt-timer.c\<close>). A timer is named by a
  number, its address in the code; the list of the active timers of a clock is the list of their
  names. Times are integers, in nanoseconds. A clock is an argument of the operations that read it.
  Locks are left out. A callback is a function on the timers and the state of the devices.
\<close>

section \<open>State\<close>

datatype clock_type = QEMU_CLOCK_REALTIME | QEMU_CLOCK_VIRTUAL | QEMU_CLOCK_HOST | QEMU_CLOCK_VIRTUAL_RT

definition clock_types :: "clock_type list" where
  "clock_types = [QEMU_CLOCK_REALTIME, QEMU_CLOCK_VIRTUAL, QEMU_CLOCK_HOST, QEMU_CLOCK_VIRTUAL_RT]"

record timers =
  expire_time :: "nat \<Rightarrow> int"
  timer_list :: "nat \<Rightarrow> clock_type"
  scale :: "nat \<Rightarrow> int"
  active_timers :: "clock_type \<Rightarrow> nat list"
  enabled :: "clock_type \<Rightarrow> bool"
  tcfg :: u64

text \<open>\<open>use_icount\<close> is a global that no code assigns.\<close>

definition use_icount :: bool where "use_icount = False"

section \<open>The hardware timer\<close>

definition NS_PER_CYCLE :: u64 where "NS_PER_CYCLE = 10"
definition CSR_TCFG_VAL :: u64 where "CSR_TCFG_VAL = push_bit 2 0x3fffffffffff"
definition CSR_TCFG_EN :: u64 where "CSR_TCFG_EN = 1"
definition CSR_TCFG_PERIOD :: u64 where "CSR_TCFG_PERIOD = 2"

definition constant_timer_next_event :: "u64 \<Rightarrow> timers \<Rightarrow> timers" where
  "constant_timer_next_event delta ts =
     (let delta = (delta div NS_PER_CYCLE) AND CSR_TCFG_VAL;
          delta = (if delta = 0 then push_bit 2 10 else delta)
      in ts\<lparr>tcfg := (delta OR CSR_TCFG_EN) AND NOT CSR_TCFG_PERIOD\<rparr>)"

definition fire_timer :: "timers \<Rightarrow> timers" where
  "fire_timer ts = constant_timer_next_event 0 ts"

definition soonest_interrupt_ns :: "int \<Rightarrow> timers \<Rightarrow> timers" where
  "soonest_interrupt_ns ns ts = constant_timer_next_event (word_of_int ns) ts"

section \<open>Operations\<close>

definition timer_del_locked :: "nat \<Rightarrow> timers \<Rightarrow> timers" where
  "timer_del_locked i ts =
     (let c = timer_list ts i
      in ts\<lparr>expire_time := (expire_time ts)(i := - 1), active_timers := (active_timers ts)(c := remove1 i (active_timers ts c))\<rparr>)"

definition timer_expired_ns :: "timers \<Rightarrow> nat \<Rightarrow> int \<Rightarrow> bool" where
  "timer_expired_ns ts i now \<longleftrightarrow> expire_time ts i \<le> now"

text \<open>The flag says that the timer became the first of its list.\<close>

definition timer_mod_ns_locked :: "nat \<Rightarrow> int \<Rightarrow> timers \<Rightarrow> bool \<times> timers" where
  "timer_mod_ns_locked i e ts =
     (let c = timer_list ts i;
          xs = takeWhile (\<lambda>j. timer_expired_ns ts j e) (active_timers ts c);
          ys = dropWhile (\<lambda>j. timer_expired_ns ts j e) (active_timers ts c)
      in (xs = [], ts\<lparr>expire_time := (expire_time ts)(i := max e 0), active_timers := (active_timers ts)(c := xs @ i # ys)\<rparr>))"

definition timerlist_rearm :: "timers \<Rightarrow> timers" where
  "timerlist_rearm ts = fire_timer ts"

definition timer_mod_ns :: "nat \<Rightarrow> int \<Rightarrow> timers \<Rightarrow> timers" where
  "timer_mod_ns i e ts =
     (let ts = timer_del_locked i ts; (rearm, ts) = timer_mod_ns_locked i e ts
      in if rearm then timerlist_rearm ts else ts)"

definition timer_mod :: "nat \<Rightarrow> int \<Rightarrow> timers \<Rightarrow> timers" where
  "timer_mod i e ts = timer_mod_ns i (e * scale ts i) ts"

definition timer_del :: "nat \<Rightarrow> timers \<Rightarrow> timers" where
  "timer_del i ts = timer_del_locked i ts"

definition timer_init_full :: "nat \<Rightarrow> clock_type \<Rightarrow> int \<Rightarrow> timers \<Rightarrow> timers" where
  "timer_init_full i c sc ts =
     ts\<lparr>timer_list := (timer_list ts)(i := c), scale := (scale ts)(i := sc), expire_time := (expire_time ts)(i := - 1)\<rparr>"

definition timer_pending :: "nat \<Rightarrow> timers \<Rightarrow> bool" where
  "timer_pending i ts \<longleftrightarrow> expire_time ts i \<ge> 0"

definition timer_expire_time_ns :: "nat \<Rightarrow> timers \<Rightarrow> u64" where
  "timer_expire_time_ns i ts = (if timer_pending i ts then word_of_int (expire_time ts i) else - 1)"

definition timer_mod_anticipate_ns :: "nat \<Rightarrow> int \<Rightarrow> timers \<Rightarrow> timers" where
  "timer_mod_anticipate_ns i e ts =
     (if expire_time ts i = - 1 \<or> expire_time ts i > e then
        let ts = (if expire_time ts i \<noteq> - 1 then timer_del_locked i ts else ts);
            (rearm, ts) = timer_mod_ns_locked i e ts
        in if rearm then timerlist_rearm ts else ts
      else ts)"

definition timer_mod_anticipate :: "nat \<Rightarrow> int \<Rightarrow> timers \<Rightarrow> timers" where
  "timer_mod_anticipate i e ts = timer_mod_anticipate_ns i (e * scale ts i) ts"

definition init_clocks :: "timers \<Rightarrow> timers" where
  "init_clocks ts = ts\<lparr>active_timers := (\<lambda>_. []), enabled := (\<lambda>c. c \<noteq> QEMU_CLOCK_VIRTUAL)\<rparr>"

text \<open>The list lost its first timer; the callback runs and may change the list.\<close>

definition pop_timer :: "clock_type \<Rightarrow> timers \<Rightarrow> timers" where
  "pop_timer c ts =
     ts\<lparr>expire_time := (expire_time ts)(hd (active_timers ts c) := - 1), active_timers := (active_timers ts)(c := tl (active_timers ts c))\<rparr>"

partial_function (option) run_loop ::
  "(nat \<Rightarrow> timers \<times> 'd \<Rightarrow> timers \<times> 'd) \<Rightarrow> clock_type \<Rightarrow> int \<Rightarrow> bool \<Rightarrow> timers \<times> 'd \<Rightarrow> (bool \<times> timers \<times> 'd) option" where
  "run_loop cb c now progress s =
     (case active_timers (fst s) c of
        [] \<Rightarrow> Some (progress, s)
      | i # _ \<Rightarrow>
          if timer_expired_ns (fst s) i now then run_loop cb c now True (cb i (pop_timer c (fst s), snd s))
          else Some (progress, s))"

definition timerlist_run_timers ::
  "(nat \<Rightarrow> timers \<times> 'd \<Rightarrow> timers \<times> 'd) \<Rightarrow> clock_type \<Rightarrow> int \<Rightarrow> timers \<times> 'd \<Rightarrow> (bool \<times> timers \<times> 'd) option" where
  "timerlist_run_timers cb c now s =
     (if active_timers (fst s) c = [] then Some (False, s)
      else if \<not> enabled (fst s) c then Some (False, s)
      else run_loop cb c now False s)"

definition qemu_clock_use_for_deadline :: "clock_type \<Rightarrow> bool" where
  "qemu_clock_use_for_deadline c \<longleftrightarrow> \<not> (use_icount \<and> c = QEMU_CLOCK_VIRTUAL)"

text \<open>\<open>now\<close> is what each clock reads during one pass.\<close>

fun run_clocks ::
  "(nat \<Rightarrow> timers \<times> 'd \<Rightarrow> timers \<times> 'd) \<Rightarrow> (clock_type \<Rightarrow> int) \<Rightarrow> clock_type list \<Rightarrow> bool \<Rightarrow> timers \<times> 'd \<Rightarrow> (bool \<times> timers \<times> 'd) option" where
  "run_clocks cb now [] progress s = Some (progress, s)"
| "run_clocks cb now (c # cs) progress s =
     (if qemu_clock_use_for_deadline c then
        (case timerlist_run_timers cb c (now c) s of
           None \<Rightarrow> None
         | Some (p, s) \<Rightarrow> run_clocks cb now cs (progress \<or> p) s)
      else run_clocks cb now cs progress s)"

definition qemu_clock_run_all_timers ::
  "(nat \<Rightarrow> timers \<times> 'd \<Rightarrow> timers \<times> 'd) \<Rightarrow> (clock_type \<Rightarrow> int) \<Rightarrow> timers \<times> 'd \<Rightarrow> (bool \<times> timers \<times> 'd) option" where
  "qemu_clock_run_all_timers cb now s = run_clocks cb now clock_types False s"

definition timerlist_deadline_ns :: "clock_type \<Rightarrow> int \<Rightarrow> timers \<Rightarrow> int" where
  "timerlist_deadline_ns c now ts =
     (case active_timers ts c of
        [] \<Rightarrow> - 1
      | i # _ \<Rightarrow>
          if \<not> enabled ts c then - 1
          else let delta = expire_time ts i - now in if delta \<le> 0 then 0 else delta)"

text \<open>The comparison is of the 64-bit patterns, in which -1 is the largest.\<close>

definition qemu_soonest_timeout :: "int \<Rightarrow> int \<Rightarrow> int" where
  "qemu_soonest_timeout t1 t2 = (if t1 mod 2 ^ 64 < t2 mod 2 ^ 64 then t1 else t2)"

definition timerlistgroup_deadline_ns :: "(clock_type \<Rightarrow> int) \<Rightarrow> timers \<Rightarrow> int" where
  "timerlistgroup_deadline_ns now ts =
     foldl (\<lambda>d c. if qemu_clock_use_for_deadline c then qemu_soonest_timeout d (timerlist_deadline_ns c (now c) ts) else d) (- 1) clock_types"

text \<open>One reading of the clocks per pass of the loop, and one for the deadline.\<close>

fun timer_interrupt_handler ::
  "(nat \<Rightarrow> timers \<times> 'd \<Rightarrow> timers \<times> 'd) \<Rightarrow> ((clock_type \<Rightarrow> int) \<times> (clock_type \<Rightarrow> int)) list \<Rightarrow> timers \<times> 'd \<Rightarrow> (timers \<times> 'd) option" where
  "timer_interrupt_handler cb [] s = None"
| "timer_interrupt_handler cb ((now, now') # readings) s =
     (case qemu_clock_run_all_timers cb now s of
        None \<Rightarrow> None
      | Some (_, s) \<Rightarrow>
          let timeout_ns = qemu_soonest_timeout (- 1) (timerlistgroup_deadline_ns now' (fst s))
          in if timeout_ns \<noteq> 0 then Some (soonest_interrupt_ns timeout_ns (fst s), snd s)
             else timer_interrupt_handler cb readings s)"

definition qemu_clock_enable :: "clock_type \<Rightarrow> bool \<Rightarrow> timers \<Rightarrow> timers res" where
  "qemu_clock_enable c en ts =
     (let old = enabled ts c; ts = ts\<lparr>enabled := (enabled ts)(c := en)\<rparr>
      in if en \<and> \<not> old then Inr (fire_timer ts)
         else if \<not> en \<and> old then Inl NotReached
         else Inr ts)"

section \<open>Well-formed timer lists\<close>

definition timers_wf :: "timers \<Rightarrow> bool" where
  "timers_wf ts \<longleftrightarrow>
     (\<forall>c. distinct (active_timers ts c) \<and> sorted (map (expire_time ts) (active_timers ts c)) \<and>
        (\<forall>i. i \<in> set (active_timers ts c) \<longleftrightarrow> timer_list ts i = c \<and> 0 \<le> expire_time ts i)) \<and>
     (\<forall>i. - 1 \<le> expire_time ts i)"

lemma wf_del: "timers_wf ts \<Longrightarrow> timers_wf (timer_del_locked i ts)"
proof -
  assume w: "timers_wf ts"
  have r: "remove1 i (active_timers ts c) = active_timers ts c" if "c \<noteq> timer_list ts i" for c
    using w that by (auto simp: timers_wf_def intro: remove1_idem)
  have "map (expire_time (timer_del_locked i ts)) (remove1 i (active_timers ts c)) = map (expire_time ts) (remove1 i (active_timers ts c))" for c
    using w by (auto simp: timer_del_locked_def Let_def timers_wf_def)
  moreover have "sorted (map (expire_time ts) (remove1 i (active_timers ts c)))" for c
    using w by (simp add: timers_wf_def sorted_map_remove1)
  moreover have "active_timers (timer_del_locked i ts) c = remove1 i (active_timers ts c)" for c
    using r [of c] by (simp add: timer_del_locked_def Let_def)
  ultimately show ?thesis using w by (auto simp: timers_wf_def timer_del_locked_def Let_def)
qed

lemma takeWhile_sorted:
  "sorted (map f xs) \<Longrightarrow> x \<in> set (takeWhile (\<lambda>j. f j \<le> e) xs) \<Longrightarrow> f x \<le> (e :: int)"
  by (auto dest: set_takeWhileD)

lemma dropWhile_sorted: "sorted (map f xs) \<Longrightarrow> x \<in> set (dropWhile (\<lambda>j. f j \<le> e) xs) \<Longrightarrow> (e :: int) < f x"
proof (induction xs)
  case (Cons y ys)
  then show ?case by (fastforce split: if_splits)
qed simp

lemma sorted_insert_at:
  assumes "sorted (map f xs)" "i \<notin> set xs" "\<forall>x \<in> set xs. 0 \<le> f x"
  shows "sorted (map (f(i := max e 0)) (takeWhile (\<lambda>j. f j \<le> e) xs @ i # dropWhile (\<lambda>j. f j \<le> (e :: int)) xs))"
proof -
  define us vs where "us = takeWhile (\<lambda>j. f j \<le> e) xs" and "vs = dropWhile (\<lambda>j. f j \<le> e) xs"
  have xs: "xs = us @ vs" by (simp add: us_def vs_def)
  have "i \<notin> set us" "i \<notin> set vs" using assms(2) by (simp_all add: xs)
  then have m: "map (f(i := max e 0)) us = map f us" "map (f(i := max e 0)) vs = map f vs" by auto
  have "\<forall>x \<in> set us. f x \<le> max e 0" using takeWhile_sorted [OF assms(1), of _ e] by (fastforce simp: us_def)
  moreover have "\<forall>x \<in> set vs. max e 0 \<le> f x"
  proof
    fix x assume x: "x \<in> set vs"
    then have "e < f x" unfolding vs_def by (rule dropWhile_sorted [OF assms(1)])
    moreover have "0 \<le> f x" using assms(3) x by (simp add: xs)
    ultimately show "max e 0 \<le> f x" by simp
  qed
  moreover have "sorted (map f us @ map f vs)" using assms(1) xs by simp
  ultimately show ?thesis unfolding us_def [symmetric] vs_def [symmetric] by (auto simp: sorted_append m)
qed

lemma wf_insert:
  assumes "timers_wf ts" "expire_time ts i = - 1"
  shows "timers_wf (snd (timer_mod_ns_locked i e ts))"
proof -
  define ts' where "ts' = snd (timer_mod_ns_locked i e ts)"
  define P where "P = (\<lambda>j. expire_time ts j \<le> e)"
  let ?c = "timer_list ts i"
  have ex: "expire_time ts' = (expire_time ts)(i := max e 0)" and tl: "timer_list ts' = timer_list ts"
    and ac: "active_timers ts' = (active_timers ts)(?c := takeWhile P (active_timers ts ?c) @ i # dropWhile P (active_timers ts ?c))"
    by (simp_all add: ts'_def timer_mod_ns_locked_def Let_def timer_expired_ns_def P_def)
  have i: "i \<notin> set (active_timers ts c)" for c using assms by (auto simp: timers_wf_def)
  have st: "set (takeWhile P xs @ i # dropWhile P xs) = insert i (set xs)" for xs
    by (metis Un_insert_right list.simps(15) set_append takeWhile_dropWhile_id)
  have di: "distinct (takeWhile P xs @ i # dropWhile P xs)" if "distinct xs" "i \<notin> set xs" for xs
  proof -
    have "distinct (takeWhile P xs @ dropWhile P xs)" "i \<notin> set (takeWhile P xs @ dropWhile P xs)" using that by simp_all
    then show ?thesis by (auto simp del: takeWhile_dropWhile_id)
  qed
  have "distinct (active_timers ts' c) \<and> sorted (map (expire_time ts') (active_timers ts' c)) \<and>
      (\<forall>j. j \<in> set (active_timers ts' c) \<longleftrightarrow> timer_list ts' j = c \<and> 0 \<le> expire_time ts' j)" for c
  proof (cases "c = ?c")
    case True
    have "sorted (map ((expire_time ts)(i := max e 0)) (takeWhile P (active_timers ts ?c) @ i # dropWhile P (active_timers ts ?c)))"
      unfolding P_def using assms i by (intro sorted_insert_at) (auto simp: timers_wf_def)
    moreover have "distinct (active_timers ts ?c)" using assms by (simp add: timers_wf_def)
    moreover have "\<forall>j. j \<in> set (active_timers ts ?c) \<longleftrightarrow> timer_list ts j = ?c \<and> 0 \<le> expire_time ts j" using assms by (simp add: timers_wf_def)
    ultimately show ?thesis using di i True by (auto simp: ac ex tl st simp del: set_append map_append)
  next
    case False
    then show ?thesis using assms i [of c] by (auto simp: ac ex tl timers_wf_def map_fun_upd)
  qed
  moreover have "\<forall>j. - 1 \<le> expire_time ts' j" using assms by (auto simp: ex timers_wf_def)
  ultimately show ?thesis by (simp add: timers_wf_def ts'_def)
qed

lemma wf_tcfg [simp]: "timers_wf (ts\<lparr>tcfg := x\<rparr>) \<longleftrightarrow> timers_wf ts"
  by (simp add: timers_wf_def)

lemma rearm_fields [simp]:
  "expire_time (timerlist_rearm ts) = expire_time ts" "timer_list (timerlist_rearm ts) = timer_list ts"
  "active_timers (timerlist_rearm ts) = active_timers ts" "enabled (timerlist_rearm ts) = enabled ts" "scale (timerlist_rearm ts) = scale ts"
  "timers_wf (timerlist_rearm ts) \<longleftrightarrow> timers_wf ts"
  by (simp_all add: timerlist_rearm_def fire_timer_def constant_timer_next_event_def Let_def)

lemma mod_fields:
  "expire_time (timer_mod_ns i e ts) = (expire_time ts)(i := max e 0)" "timer_list (timer_mod_ns i e ts) = timer_list ts"
  "enabled (timer_mod_ns i e ts) = enabled ts" "scale (timer_mod_ns i e ts) = scale ts"
  by (simp_all add: timer_mod_ns_def timer_mod_ns_locked_def timer_del_locked_def Let_def)

lemma del_fields [simp]:
  "expire_time (timer_del_locked i ts) = (expire_time ts)(i := - 1)" "timer_list (timer_del_locked i ts) = timer_list ts"
  "enabled (timer_del_locked i ts) = enabled ts" "scale (timer_del_locked i ts) = scale ts"
  by (simp_all add: timer_del_locked_def Let_def)

lemma wf_mod: "timers_wf ts \<Longrightarrow> timers_wf (timer_mod_ns i e ts)"
  using wf_insert [OF wf_del, of ts i i e] by (simp add: timer_mod_ns_def Let_def split: prod.splits) auto

lemma wf_anticipate: "timers_wf ts \<Longrightarrow> timers_wf (timer_mod_anticipate_ns i e ts)"
  using wf_insert [OF wf_del, of ts i i e] wf_insert [of ts i e]
  by (auto simp: timer_mod_anticipate_ns_def Let_def split: prod.splits)

lemma wf_pop:
  assumes "timers_wf ts" "active_timers ts c = i # rest"
  shows "timers_wf (pop_timer c ts)" "expire_time (pop_timer c ts) = (expire_time ts)(i := - 1)" "timer_list (pop_timer c ts) = timer_list ts"
    "scale (pop_timer c ts) = scale ts"
proof -
  have "timer_list ts i = c" using assms unfolding timers_wf_def by (metis list.set_intros(1))
  then have "pop_timer c ts = timer_del_locked i ts" using assms(2) by (simp add: pop_timer_def timer_del_locked_def Let_def)
  then show "timers_wf (pop_timer c ts)" "expire_time (pop_timer c ts) = (expire_time ts)(i := - 1)" "timer_list (pop_timer c ts) = timer_list ts"
    "scale (pop_timer c ts) = scale ts" using wf_del [OF assms(1)] by simp_all
qed

section \<open>What the timers need of the callbacks\<close>

text \<open>
  A callback may re-arm its own timer, but only for a time later than the one for which it has just
  been called, and leaves the other timers alone; this is asked only of timers that are due at a
  fixed horizon. Then a pass over a clock up to the horizon ends, however far behind its timers are.
\<close>

locale timer_callbacks =
  fixes cb :: "nat \<Rightarrow> timers \<times> 'd \<Rightarrow> timers \<times> 'd"
    and inv :: "timers \<times> 'd \<Rightarrow> bool"
    and horizon :: int
  assumes inv_wf: "inv s \<Longrightarrow> timers_wf (fst s)"
    and cb_inv: "inv s \<Longrightarrow> active_timers (fst s) c = i # rest \<Longrightarrow> expire_time (fst s) i \<le> horizon \<Longrightarrow>
      inv (cb i (pop_timer c (fst s), snd s))"
    and cb_later: "inv s \<Longrightarrow> active_timers (fst s) c = i # rest \<Longrightarrow> expire_time (fst s) i \<le> horizon \<Longrightarrow>
      expire_time (fst (cb i (pop_timer c (fst s), snd s))) i = - 1 \<or>
      expire_time (fst s) i < expire_time (fst (cb i (pop_timer c (fst s), snd s))) i"
    and cb_others: "inv s \<Longrightarrow> active_timers (fst s) c = i # rest \<Longrightarrow> expire_time (fst s) i \<le> horizon \<Longrightarrow>
      timer_list (fst (cb i (pop_timer c (fst s), snd s))) = timer_list (fst s) \<and>
      (\<forall>j. j \<noteq> i \<longrightarrow> expire_time (fst (cb i (pop_timer c (fst s), snd s))) j = expire_time (fst s) j)"
begin

definition lag :: "clock_type \<Rightarrow> int \<Rightarrow> timers \<Rightarrow> nat" where
  "lag c now ts = (\<Sum>j \<in> set (active_timers ts c). nat (now - expire_time ts j + 1))"

lemma lag_step:
  assumes "inv s" "active_timers (fst s) c = i # rest" "expire_time (fst s) i \<le> now" "now \<le> horizon"
  shows "lag c now (fst (cb i (pop_timer c (fst s), snd s))) < lag c now (fst s)"
proof -
  define s' where "s' = cb i (pop_timer c (fst s), snd s)"
  have h: "expire_time (fst s) i \<le> horizon" using assms(3,4) by simp
  note w = inv_wf [OF assms(1)] and w' = inv_wf [OF cb_inv [OF assms(1,2) h], folded s'_def]
  note lt = cb_later [OF assms(1,2) h, folded s'_def] and ot = cb_others [OF assms(1,2) h, folded s'_def]
  have i: "i \<notin> set rest" using w assms(2) unfolding timers_wf_def by (metis distinct.simps(2))
  have mem: "j \<in> set (active_timers (fst s) c) \<longleftrightarrow> timer_list (fst s) j = c \<and> 0 \<le> expire_time (fst s) j" for j
    using w by (simp add: timers_wf_def)
  have mem': "j \<in> set (active_timers (fst s') c) \<longleftrightarrow> timer_list (fst s) j = c \<and> 0 \<le> expire_time (fst s') j" for j
    using w' ot by (simp add: timers_wf_def)
  let ?f = "\<lambda>j. nat (now - expire_time (fst s') j + 1)"
  have "j \<in> insert i (set rest)" if "j \<in> set (active_timers (fst s') c)" for j
    using that mem [of j] mem' [of j] ot assms(2) by (cases "j = i") auto
  then have "lag c now (fst s') \<le> (\<Sum>j \<in> insert i (set rest). if j = i \<and> expire_time (fst s') i = - 1 then 0 else ?f j)"
    unfolding lag_def using mem' [of i] by (intro sum_le_included [where i = id]) auto
  also have "\<dots> = (if expire_time (fst s') i = - 1 then 0 else ?f i) + (\<Sum>j \<in> set rest. ?f j)"
    using i by (simp add: sum.insert_if) (auto intro!: sum.cong)
  also have "(\<Sum>j \<in> set rest. ?f j) = (\<Sum>j \<in> set rest. nat (now - expire_time (fst s) j + 1))"
    using i ot by (intro sum.cong) auto
  also have "(if expire_time (fst s') i = - 1 then 0 else ?f i) < nat (now - expire_time (fst s) i + 1)"
    using lt assms(3) by auto
  finally show ?thesis using i assms(2) by (simp add: lag_def s'_def [symmetric])
qed

lemma run_loop_ends:
  "inv s \<Longrightarrow> now \<le> horizon \<Longrightarrow> \<exists>p s'. run_loop cb c now progress s = Some (p, s') \<and> inv s' \<and> (\<forall>i \<in> set (active_timers (fst s') c). now < expire_time (fst s') i)"
proof (induction "lag c now (fst s)" arbitrary: s progress rule: less_induct)
  case less
  show ?case
  proof (cases "active_timers (fst s) c")
    case Nil
    then show ?thesis using less.prems by (subst run_loop.simps) simp
  next
    case (Cons i rest)
    show ?thesis
    proof (cases "expire_time (fst s) i \<le> now")
      case True
      have "run_loop cb c now progress s = run_loop cb c now True (cb i (pop_timer c (fst s), snd s))"
        using Cons True by (subst run_loop.simps) (simp add: timer_expired_ns_def)
      then show ?thesis using less.hyps [OF lag_step [OF less.prems(1) Cons True less.prems(2)] cb_inv [OF less.prems(1) Cons] less.prems(2)] True less.prems(2) by simp
    next
      case False
      have "sorted (map (expire_time (fst s)) (i # rest))" using inv_wf [OF less.prems(1)] Cons unfolding timers_wf_def by metis
      then have "\<forall>j \<in> set (i # rest). now < expire_time (fst s) j" using False by auto
      moreover have "run_loop cb c now progress s = Some (progress, s)"
        using Cons False by (subst run_loop.simps) (simp add: timer_expired_ns_def)
      ultimately show ?thesis using less.prems Cons by simp
    qed
  qed
qed

lemma run_timers_ends:
  assumes "inv s" "now \<le> horizon"
  shows "\<exists>p s'. timerlist_run_timers cb c now s = Some (p, s') \<and> inv s' \<and>
    (enabled (fst s) c \<longrightarrow> (\<forall>i \<in> set (active_timers (fst s') c). now < expire_time (fst s') i))"
  using run_loop_ends [OF assms, of c False] assms by (cases s) (auto simp: timerlist_run_timers_def)

lemma run_clocks_ends: "inv s \<Longrightarrow> \<forall>c. now c \<le> horizon \<Longrightarrow> \<exists>p s'. run_clocks cb now cs progress s = Some (p, s') \<and> inv s'"
proof (induction cs arbitrary: s progress)
  case (Cons c cs)
  from run_timers_ends [OF Cons.prems(1), of "now c" c] Cons.prems(2) obtain p s1 where "timerlist_run_timers cb c (now c) s = Some (p, s1)" "inv s1" by blast
  with Cons.IH [of s1] Cons.IH [of s] Cons.prems show ?case by auto
qed simp

end

section \<open>The soonest deadline\<close>

definition deadline_min :: "int \<Rightarrow> int \<Rightarrow> int" where
  "deadline_min a b = (if a = - 1 then b else if b = - 1 then a else min a b)"

lemma soonest_min:
  assumes "- 1 \<le> a" "- 1 \<le> b" "a < 2 ^ 63" "b < 2 ^ 63"
  shows "qemu_soonest_timeout a b = deadline_min a b"
proof -
  have "x mod 2 ^ 64 = (if x = - 1 then 2 ^ 64 - 1 else x)" if "- 1 \<le> x" "x < 2 ^ 63" for x :: int
  proof (cases "x = - 1")
    case False
    then show ?thesis using that by (simp add: mod_pos_pos_trivial)
  qed simp
  with assms show ?thesis by (auto simp: qemu_soonest_timeout_def deadline_min_def)
qed

definition due_bounded :: "(clock_type \<Rightarrow> int) \<Rightarrow> timers \<Rightarrow> bool" where
  "due_bounded now ts \<longleftrightarrow> (\<forall>c. \<forall>i \<in> set (active_timers ts c). expire_time ts i - now c < 2 ^ 63)"

lemma list_deadline_bounds:
  assumes "due_bounded now ts"
  shows "- 1 \<le> timerlist_deadline_ns c (now c) ts" "timerlist_deadline_ns c (now c) ts < 2 ^ 63"
  using assms by (auto simp: timerlist_deadline_ns_def due_bounded_def Let_def split: list.splits)

lemma deadline_min_bounds: "- 1 \<le> a \<Longrightarrow> - 1 \<le> b \<Longrightarrow> a < 2 ^ 63 \<Longrightarrow> b < 2 ^ 63 \<Longrightarrow> - 1 \<le> deadline_min a b \<and> deadline_min a b < 2 ^ 63"
  by (auto simp: deadline_min_def)

lemma group_deadline:
  assumes "due_bounded now ts"
  shows "timerlistgroup_deadline_ns now ts = foldl (\<lambda>d c. deadline_min d (timerlist_deadline_ns c (now c) ts)) (- 1) clock_types"
proof -
  have "foldl (\<lambda>d c. if qemu_clock_use_for_deadline c then qemu_soonest_timeout d (timerlist_deadline_ns c (now c) ts) else d) a cs =
      foldl (\<lambda>d c. deadline_min d (timerlist_deadline_ns c (now c) ts)) a cs" if "- 1 \<le> a" "a < 2 ^ 63" for a cs
    using that
  proof (induction cs arbitrary: a)
    case (Cons c cs)
    note b = list_deadline_bounds [OF assms, of c]
    have "qemu_soonest_timeout a (timerlist_deadline_ns c (now c) ts) = deadline_min a (timerlist_deadline_ns c (now c) ts)"
      using Cons.prems b by (intro soonest_min)
    moreover have "qemu_clock_use_for_deadline c" by (simp add: qemu_clock_use_for_deadline_def use_icount_def)
    ultimately show ?case using Cons.IH [of "deadline_min a (timerlist_deadline_ns c (now c) ts)"] deadline_min_bounds [OF Cons.prems(1) b(1) Cons.prems(2) b(2)]
      by simp
  qed simp
  then show ?thesis unfolding timerlistgroup_deadline_ns_def by simp
qed

lemma foldl_deadline_min:
  assumes "\<forall>c. - 1 \<le> g c \<and> g c < 2 ^ 63" "- 1 \<le> a" "a < 2 ^ 63"
    and "r = foldl (\<lambda>d c. deadline_min d (g c)) a cs"
  shows "- 1 \<le> r \<and> r < 2 ^ 63 \<and> (a \<noteq> - 1 \<longrightarrow> 0 \<le> r \<and> r \<le> a) \<and> (\<forall>c \<in> set cs. g c \<noteq> - 1 \<longrightarrow> 0 \<le> r \<and> r \<le> g c)"
  using assms(2,3) unfolding assms(4)
proof (induction cs arbitrary: a)
  case (Cons c cs)
  have g: "- 1 \<le> g c" "g c < 2 ^ 63" using assms(1) by auto
  define m where "m = deadline_min a (g c)"
  have m: "- 1 \<le> m" "m < 2 ^ 63" "a \<noteq> - 1 \<longrightarrow> m \<noteq> - 1 \<and> m \<le> a" "g c \<noteq> - 1 \<longrightarrow> m \<noteq> - 1 \<and> m \<le> g c"
    using g Cons.prems by (auto simp: m_def deadline_min_def)
  from Cons.IH [OF m(1,2)] m(3,4) show ?case by (auto simp: m_def [symmetric])
qed auto

lemma group_deadline_le:
  assumes "due_bounded now ts" "timerlist_deadline_ns c (now c) ts \<noteq> - 1"
  shows "0 \<le> timerlistgroup_deadline_ns now ts" "timerlistgroup_deadline_ns now ts \<le> timerlist_deadline_ns c (now c) ts"
    "timerlistgroup_deadline_ns now ts < 2 ^ 63"
proof -
  have "c \<in> set clock_types" by (cases c) (simp_all add: clock_types_def)
  then show "0 \<le> timerlistgroup_deadline_ns now ts" "timerlistgroup_deadline_ns now ts \<le> timerlist_deadline_ns c (now c) ts"
    "timerlistgroup_deadline_ns now ts < 2 ^ 63"
    using foldl_deadline_min [of "\<lambda>c. timerlist_deadline_ns c (now c) ts" "- 1" _ clock_types] list_deadline_bounds [OF assms(1)] assms(2)
    by (auto simp: group_deadline [OF assms(1)])
qed

section \<open>The programmed interval\<close>

text \<open>The interval that the hardware counts, in cycles: the value field of the register.\<close>

definition armed_cycles :: "timers \<Rightarrow> nat" where
  "armed_cycles ts = unat (tcfg ts AND CSR_TCFG_VAL)"

lemma val_field: "unat (x AND CSR_TCFG_VAL) = unat x div 4 mod 2 ^ 46 * 4" for x :: u64
proof -
  have v: "CSR_TCFG_VAL = push_bit 2 (mask 46)" by (simp add: CSR_TCFG_VAL_def mask_eq_exp_minus_1)
  have "x AND CSR_TCFG_VAL = push_bit 2 (take_bit 46 (drop_bit 2 x))"
    unfolding v by (rule bit_word_eqI) (auto simp: bit_simps simp flip: Suc_diff_le)
  moreover have "unat (push_bit 2 (take_bit 46 (drop_bit 2 x))) = unat x div 4 mod 2 ^ 46 * 4"
  proof -
    have "y mod 2 ^ 46 * 4 < (2 :: nat) ^ 64" for y using mod_less_divisor [of "2 ^ 46" y] by simp
    moreover have "unat x mod 2 ^ 64 = unat x" using unsigned_less [where 'a = nat and w = x] by simp
    ultimately show ?thesis
      by (simp add: unsigned_push_bit_eq unsigned_take_bit_eq unsigned_drop_bit_eq take_bit_nat_eq_self_iff)
        (simp add: take_bit_eq_mod push_bit_eq_mult drop_bit_eq_div)
  qed
  ultimately show ?thesis by simp
qed

lemma armed_next_event:
  "armed_cycles (constant_timer_next_event d ts) =
     (let k = unat d div 10 div 4 mod 2 ^ 46 * 4 in if k = 0 then 40 else k)"
proof -
  define v where "v = (d div NS_PER_CYCLE) AND CSR_TCFG_VAL"
  have v: "unat v = unat d div 10 div 4 mod 2 ^ 46 * 4" by (simp add: v_def val_field unat_div_distrib NS_PER_CYCLE_def)
  have f: "((x OR CSR_TCFG_EN) AND NOT CSR_TCFG_PERIOD) AND CSR_TCFG_VAL = x AND CSR_TCFG_VAL" for x :: u64
  proof -
    have "CSR_TCFG_EN AND CSR_TCFG_VAL = 0" "NOT CSR_TCFG_PERIOD AND CSR_TCFG_VAL = CSR_TCFG_VAL"
      unfolding CSR_TCFG_EN_def CSR_TCFG_PERIOD_def CSR_TCFG_VAL_def by code_simp+
    then show ?thesis by (simp add: and.assoc bit.conj_disj_distrib2)
  qed
  have "v AND CSR_TCFG_VAL = v" by (simp add: v_def and.assoc)
  moreover have "unat (push_bit 2 10 AND CSR_TCFG_VAL) = 40" by (simp add: val_field)
  ultimately show ?thesis unfolding v [symmetric]
    by (simp add: constant_timer_next_event_def armed_cycles_def Let_def f v_def [symmetric] unsigned_eq_0_iff del: push_bit_numeral)
qed

section \<open>Properties\<close>

text \<open>
  C35. Arming a timer. In well-formed lists \<open>timer_mod\<close> makes the timer pending for the given time
  (0 for a negative one) and changes no other timer; the lists stay sorted, the timer comes behind
  the timers due at the same time, the other timers keep their order, and if it is now the first the
  hardware timer has been told to fire at once.
\<close>

theorem timer_mod_exact:
  assumes "timers_wf ts"
  shows "timers_wf (timer_mod i e ts) \<and> expire_time (timer_mod i e ts) = (expire_time ts)(i := max (e * scale ts i) 0) \<and>
    (\<forall>c. filter (\<lambda>j. j \<noteq> i) (active_timers (timer_mod i e ts) c) = filter (\<lambda>j. j \<noteq> i) (active_timers ts c)) \<and>
    (\<exists>xs ys. active_timers (timer_mod i e ts) (timer_list ts i) = xs @ i # ys \<and>
      (\<forall>j \<in> set ys. e * scale ts i < expire_time ts j) \<and> (xs = [] \<longrightarrow> armed_cycles (timer_mod i e ts) = 40))"
proof -
  define e' where "e' = e * scale ts i"
  define ts1 where "ts1 = timer_del_locked i ts"
  have w1: "timers_wf ts1" unfolding ts1_def by (rule wf_del [OF assms])
  define xs ys where "xs = takeWhile (\<lambda>j. expire_time ts1 j \<le> e') (active_timers ts1 (timer_list ts i))"
    and "ys = dropWhile (\<lambda>j. expire_time ts1 j \<le> e') (active_timers ts1 (timer_list ts i))"
  have xy: "xs @ ys = active_timers ts1 (timer_list ts i)" by (simp add: xs_def ys_def)
  have m: "timer_mod_ns_locked i e' ts1 = (xs = [], ts1\<lparr>expire_time := (expire_time ts1)(i := max e' 0),
      active_timers := (active_timers ts1)(timer_list ts i := xs @ i # ys)\<rparr>)"
    by (simp add: timer_mod_ns_locked_def Let_def timer_expired_ns_def xs_def ys_def ts1_def)
  have ac: "active_timers (timer_mod i e ts) = (active_timers ts1)(timer_list ts i := xs @ i # ys)"
    by (simp add: timer_mod_def timer_mod_ns_def e'_def [symmetric] ts1_def [symmetric] m)
  have hw: "xs = [] \<longrightarrow> armed_cycles (timer_mod i e ts) = 40"
    by (simp add: timer_mod_def timer_mod_ns_def e'_def [symmetric] ts1_def [symmetric] m timerlist_rearm_def fire_timer_def armed_next_event)
  have r: "filter (\<lambda>j. j \<noteq> i) (active_timers ts1 c) = filter (\<lambda>j. j \<noteq> i) (active_timers ts c)" for c
    by (simp add: ts1_def timer_del_locked_def Let_def filter_remove1)
  have "filter (\<lambda>j. j \<noteq> i) (xs @ i # ys) = filter (\<lambda>j. j \<noteq> i) (active_timers ts1 (timer_list ts i))"
    by (simp flip: xy)
  then have f: "\<forall>c. filter (\<lambda>j. j \<noteq> i) (active_timers (timer_mod i e ts) c) = filter (\<lambda>j. j \<noteq> i) (active_timers ts c)"
    by (simp add: ac r)
  have "e' < expire_time ts j" if "j \<in> set ys" for j
  proof -
    have "e' < expire_time ts1 j" using that w1 unfolding ys_def by (intro dropWhile_sorted [of "expire_time ts1"]) (auto simp: timers_wf_def)
    moreover have "j \<in> set (active_timers ts1 (timer_list ts i))" using that xy by (metis Un_iff set_append)
    then have "j \<noteq> i" using w1 by (auto simp: timers_wf_def ts1_def)
    ultimately show ?thesis by (simp add: ts1_def)
  qed
  then have p: "\<exists>xs ys. active_timers (timer_mod i e ts) (timer_list ts i) = xs @ i # ys \<and>
      (\<forall>j \<in> set ys. e * scale ts i < expire_time ts j) \<and> (xs = [] \<longrightarrow> armed_cycles (timer_mod i e ts) = 40)"
    using hw by (intro exI [of _ xs] exI [of _ ys]) (simp add: ac e'_def)
  have "timers_wf (timer_mod i e ts)" "expire_time (timer_mod i e ts) = (expire_time ts)(i := max (e * scale ts i) 0)"
    using wf_mod [OF assms] by (simp_all add: timer_mod_def mod_fields)
  with f p show ?thesis by blast
qed

definition idle_timers :: timers where
  "idle_timers = \<lparr>expire_time = (\<lambda>_. - 1), timer_list = (\<lambda>_. QEMU_CLOCK_VIRTUAL), scale = (\<lambda>_. 1), active_timers = (\<lambda>_. []),
     enabled = (\<lambda>_. True), tcfg = 0\<rparr>"

lemma idle_wf: "timers_wf idle_timers"
  by (simp add: timers_wf_def idle_timers_def)

theorem timer_mod_exact_witness:
  "timers_wf (timer_mod 7 500 idle_timers) \<and> armed_cycles (timer_mod 7 500 idle_timers) = 40"
proof -
  have "active_timers (timer_mod 7 500 idle_timers) QEMU_CLOCK_VIRTUAL = [7]"
    by (simp add: timer_mod_def timer_mod_ns_def timer_mod_ns_locked_def timer_del_locked_def idle_timers_def Let_def)
  with timer_mod_exact [OF idle_wf, of 7 500] show ?thesis by (auto simp: idle_timers_def Cons_eq_append_conv)
qed


lemma one_timer:
  "active_timers (timer_mod 7 500 idle_timers) = (\<lambda>_. [])(QEMU_CLOCK_VIRTUAL := [7])"
  "expire_time (timer_mod 7 500 idle_timers) = (\<lambda>_. - 1)(7 := 500)" "enabled (timer_mod 7 500 idle_timers) = (\<lambda>_. True)"
proof -
  show "active_timers (timer_mod 7 500 idle_timers) = (\<lambda>_. [])(QEMU_CLOCK_VIRTUAL := [7])"
    by (rule ext) (simp add: timer_mod_def timer_mod_ns_def timer_mod_ns_locked_def timer_del_locked_def idle_timers_def Let_def)
  have "scale idle_timers 7 = 1" "expire_time idle_timers = (\<lambda>_. - 1)" "enabled idle_timers = (\<lambda>_. True)"
    unfolding idle_timers_def by simp_all
  note f = this
  show "expire_time (timer_mod 7 500 idle_timers) = (\<lambda>_. - 1)(7 := 500)"
    by (simp only: timer_mod_def mod_fields f) simp
  show "enabled (timer_mod 7 500 idle_timers) = (\<lambda>_. True)" by (simp only: timer_mod_def mod_fields f)
qed


end
