(* ===== verification/I8254.thy ===== *)
theory I8254
  imports Qemu_Timer
begin

text \<open>
  The interval timer (\<open>src/hw/timer/i8254.c\<close>, \<open>src/hw/timer/i8254_common.c\<close>): three counters that are
  computed from the clock, the port protocol with its latches, and the output of counter 0 on the
  interrupt line, which is kept up to date by a timer of the virtual clock. The clock is read once
  per operation. A port access is one byte (the access size of the port region). The line keeps the
  level last driven on it; the count is a natural number (an \<open>int\<close> that holds 0 to 65536 in the
  code); a division by a count of zero is a fault.
\<close>

section \<open>State\<close>

record pit_channel =
  count :: nat
  latched_count :: u16
  count_latched :: u8
  status_latched :: bool
  status :: u8
  read_state :: u8
  write_state :: u8
  write_latch :: u8
  rw_mode :: u8
  mode :: u8
  bcd :: u8
  gate :: bool
  count_load_time :: int
  next_transition_time :: int
  irq_timer :: "nat option"
  irq :: bool
  irq_disabled :: bool

record pit =
  channels :: "pit_channel list"
  iobase :: u32

definition PIT_FREQ :: nat where "PIT_FREQ = 1193182"
definition NANOSECONDS_PER_SECOND :: nat where "NANOSECONDS_PER_SECOND = 1000000000"

definition RW_STATE_LSB :: u8 where "RW_STATE_LSB = 1"
definition RW_STATE_MSB :: u8 where "RW_STATE_MSB = 2"
definition RW_STATE_WORD0 :: u8 where "RW_STATE_WORD0 = 3"
definition RW_STATE_WORD1 :: u8 where "RW_STATE_WORD1 = 4"

section \<open>The counters\<close>

definition muldiv64 :: "nat \<Rightarrow> nat \<Rightarrow> nat \<Rightarrow> nat" where
  "muldiv64 a b c = (a * b div c) mod 2 ^ 64"

text \<open>The number of counter clocks since the count was loaded; the difference is a 64-bit one.\<close>

definition pit_clocks :: "pit_channel \<Rightarrow> int \<Rightarrow> nat" where
  "pit_clocks s t = muldiv64 (nat ((t - count_load_time s) mod 2 ^ 64)) PIT_FREQ NANOSECONDS_PER_SECOND"

definition pit_get_out :: "pit_channel \<Rightarrow> int \<Rightarrow> bool res" where
  "pit_get_out s t =
     (let d = pit_clocks s t in
      if mode s = 1 then Inr (d < count s)
      else if mode s = 2 then
        if count s = 0 then Inl DivByZero else Inr (d mod count s = 0 \<and> d \<noteq> 0)
      else if mode s = 3 then
        if count s = 0 then Inl DivByZero else Inr (d mod count s < (count s + 1) div 2)
      else if mode s = 4 \<or> mode s = 5 then Inr (d = count s)
      else Inr (d \<ge> count s))"

text \<open>The count of clocks at which the next transition is due, if there is one.\<close>

definition next_transition :: "pit_channel \<Rightarrow> nat \<Rightarrow> nat option res" where
  "next_transition s d =
     (if mode s = 2 then
        if count s = 0 then Inl DivByZero
        else let base = d div count s * count s in
          Inr (Some (if d - base = 0 \<and> d \<noteq> 0 then base + count s else base + count s + 1))
      else if mode s = 3 then
        if count s = 0 then Inl DivByZero
        else let base = d div count s * count s; period2 = (count s + 1) div 2 in
          Inr (Some (if d - base < period2 then base + period2 else base + count s))
      else if mode s = 4 \<or> mode s = 5 then
        Inr (if d < count s then Some (count s) else if d = count s then Some (count s + 1) else None)
      else Inr (if d < count s then Some (count s) else None))"

definition pit_get_next_transition_time :: "pit_channel \<Rightarrow> int \<Rightarrow> int res" where
  "pit_get_next_transition_time s t =
     res_bind (next_transition s (pit_clocks s t)) (\<lambda>n.
       case n of
         None \<Rightarrow> Inr (- 1)
       | Some nt \<Rightarrow>
           let next_time = (count_load_time s + int (muldiv64 nt NANOSECONDS_PER_SECOND PIT_FREQ)) mod 2 ^ 64;
               next_time = (if next_time \<le> t mod 2 ^ 64 then t + 1 else next_time)
           in Inr (to_int64 next_time))"

definition pit_get_count :: "pit_channel \<Rightarrow> int \<Rightarrow> nat res" where
  "pit_get_count s t =
     (let d = pit_clocks s t in
      if mode s = 0 \<or> mode s = 1 \<or> mode s = 4 \<or> mode s = 5 then Inr (nat ((int (count s) - int d) mod 0x10000))
      else if count s = 0 then Inl DivByZero
      else if mode s = 3 then Inr (count s - (2 * d mod 2 ^ 64) mod count s)
      else Inr (count s - d mod count s))"

section \<open>The interrupt line\<close>

definition pit_irq_timer_update :: "pit_channel \<Rightarrow> int \<Rightarrow> timers \<Rightarrow> (pit_channel \<times> timers) res" where
  "pit_irq_timer_update s t ts =
     (case irq_timer s of
        None \<Rightarrow> Inr (s, ts)
      | Some i \<Rightarrow>
          if irq_disabled s then Inr (s, ts)
          else res_bind (pit_get_next_transition_time s t) (\<lambda>expire.
            res_bind (pit_get_out s t) (\<lambda>level.
              Inr (s\<lparr>irq := level, next_transition_time := expire\<rparr>,
                   if expire \<noteq> - 1 then timer_mod i expire ts else timer_del i ts))))"

definition on_channel :: "nat \<Rightarrow> (pit_channel \<Rightarrow> timers \<Rightarrow> (pit_channel \<times> timers) res) \<Rightarrow> timers \<times> pit \<Rightarrow> (timers \<times> pit) res" where
  "on_channel c f st =
     res_bind (arr_get (channels (snd st)) c) (\<lambda>s.
       res_bind (f s (fst st)) (\<lambda>(s, ts). Inr (ts, (snd st)\<lparr>channels := (channels (snd st))[c := s]\<rparr>)))"

definition pit_irq_timer :: "timers \<times> pit \<Rightarrow> (timers \<times> pit) res" where
  "pit_irq_timer st = on_channel 0 (\<lambda>s ts. pit_irq_timer_update s (next_transition_time s) ts) st"

section \<open>Port accesses\<close>

definition pit_load_count :: "nat \<Rightarrow> int \<Rightarrow> pit_channel \<Rightarrow> timers \<Rightarrow> (pit_channel \<times> timers) res" where
  "pit_load_count val now s ts =
     (let s = s\<lparr>count_load_time := now, count := (if val = 0 then 0x10000 else val)\<rparr>
      in pit_irq_timer_update s now ts)"

definition pit_latch_count :: "int \<Rightarrow> pit_channel \<Rightarrow> pit_channel res" where
  "pit_latch_count now s =
     (if count_latched s = 0 then
        res_bind (pit_get_count s now) (\<lambda>c. Inr (s\<lparr>latched_count := of_nat c, count_latched := rw_mode s\<rparr>))
      else Inr s)"

definition latch_status :: "int \<Rightarrow> pit_channel \<Rightarrow> pit_channel res" where
  "latch_status now s =
     (if status_latched s then Inr s
      else res_bind (pit_get_out s now) (\<lambda>out.
        Inr (s\<lparr>status := push_bit 7 (of_bool out) OR push_bit 4 (rw_mode s) OR push_bit 1 (mode s) OR bcd s, status_latched := True\<rparr>)))"

definition read_back :: "u8 \<Rightarrow> int \<Rightarrow> nat \<Rightarrow> pit_channel \<Rightarrow> timers \<Rightarrow> (pit_channel \<times> timers) res" where
  "read_back val now c s ts =
     (if val AND push_bit c 2 \<noteq> 0 then
        res_bind (if val AND 0x20 = 0 then pit_latch_count now s else Inr s) (\<lambda>s.
          res_bind (if val AND 0x10 = 0 then latch_status now s else Inr s) (\<lambda>s. Inr (s, ts)))
      else Inr (s, ts))"

definition write_control :: "u8 \<Rightarrow> int \<Rightarrow> pit_channel \<Rightarrow> timers \<Rightarrow> (pit_channel \<times> timers) res" where
  "write_control val now s ts =
     (let access = drop_bit 4 val AND 3 in
      if access = 0 then res_bind (pit_latch_count now s) (\<lambda>s. Inr (s, ts))
      else Inr (s\<lparr>rw_mode := access, read_state := access, write_state := access, mode := drop_bit 1 val AND 7, bcd := val AND 1\<rparr>, ts))"

definition write_counter :: "u8 \<Rightarrow> int \<Rightarrow> pit_channel \<Rightarrow> timers \<Rightarrow> (pit_channel \<times> timers) res" where
  "write_counter val now s ts =
     (if write_state s = RW_STATE_MSB then pit_load_count (unat val * 256) now s ts
      else if write_state s = RW_STATE_WORD0 then Inr (s\<lparr>write_latch := val, write_state := RW_STATE_WORD1\<rparr>, ts)
      else if write_state s = RW_STATE_WORD1 then
        res_bind (pit_load_count (unat (write_latch s) + unat val * 256) now s ts) (\<lambda>(s, ts).
          Inr (s\<lparr>write_state := RW_STATE_WORD0\<rparr>, ts))
      else pit_load_count (unat val) now s ts)"

definition pit_ioport_write :: "u64 \<Rightarrow> u8 \<Rightarrow> int \<Rightarrow> timers \<times> pit \<Rightarrow> (timers \<times> pit) res" where
  "pit_ioport_write addr val now st =
     (let addr = unat (addr AND 3) in
      if addr = 3 then
        let channel = unat (drop_bit 6 val) in
        if channel = 3 then
          res_bind (on_channel 0 (read_back val now 0) st) (\<lambda>st.
            res_bind (on_channel 1 (read_back val now 1) st) (\<lambda>st.
              on_channel 2 (read_back val now 2) st))
        else on_channel channel (write_control val now) st
      else on_channel addr (write_counter val now) st)"

definition read_latched :: "pit_channel \<Rightarrow> u8 \<times> pit_channel" where
  "read_latched s =
     (if count_latched s = RW_STATE_MSB then (ucast (drop_bit 8 (latched_count s)), s\<lparr>count_latched := 0\<rparr>)
      else if count_latched s = RW_STATE_WORD0 then (ucast (latched_count s AND 0xff), s\<lparr>count_latched := RW_STATE_MSB\<rparr>)
      else (ucast (latched_count s AND 0xff), s\<lparr>count_latched := 0\<rparr>))"

definition read_count :: "int \<Rightarrow> pit_channel \<Rightarrow> (u8 \<times> pit_channel) res" where
  "read_count now s =
     res_bind (pit_get_count s now) (\<lambda>c.
       if read_state s = RW_STATE_MSB then Inr (of_nat (c div 256), s)
       else if read_state s = RW_STATE_WORD0 then Inr (of_nat c, s\<lparr>read_state := RW_STATE_WORD1\<rparr>)
       else if read_state s = RW_STATE_WORD1 then Inr (of_nat (c div 256), s\<lparr>read_state := RW_STATE_WORD0\<rparr>)
       else Inr (of_nat c, s))"

definition read_channel :: "int \<Rightarrow> pit_channel \<Rightarrow> (u8 \<times> pit_channel) res" where
  "read_channel now s =
     (if status_latched s then Inr (status s, s\<lparr>status_latched := False\<rparr>)
      else if count_latched s \<noteq> 0 then Inr (read_latched s)
      else read_count now s)"

definition pit_ioport_read :: "u64 \<Rightarrow> int \<Rightarrow> timers \<times> pit \<Rightarrow> (u8 \<times> timers \<times> pit) res" where
  "pit_ioport_read addr now st =
     (let addr = unat (addr AND 3) in
      if addr = 3 then Inr (0, st)
      else res_bind (arr_get (channels (snd st)) addr) (\<lambda>s.
        res_bind (read_channel now s) (\<lambda>(v, s).
          Inr (v, fst st, (snd st)\<lparr>channels := (channels (snd st))[addr := s]\<rparr>))))"

section \<open>Gate, reset and wiring\<close>

definition pit_set_channel_gate :: "bool \<Rightarrow> int \<Rightarrow> pit_channel \<Rightarrow> timers \<Rightarrow> (pit_channel \<times> timers) res" where
  "pit_set_channel_gate val now s ts =
     res_bind (if (mode s = 1 \<or> mode s = 5 \<or> mode s = 2 \<or> mode s = 3) \<and> \<not> gate s \<and> val
               then pit_irq_timer_update (s\<lparr>count_load_time := now\<rparr>) now ts
               else Inr (s, ts)) (\<lambda>(s, ts). Inr (s\<lparr>gate := val\<rparr>, ts))"

definition pit_set_gate :: "nat \<Rightarrow> bool \<Rightarrow> int \<Rightarrow> timers \<times> pit \<Rightarrow> (timers \<times> pit) res" where
  "pit_set_gate c val now st = on_channel c (pit_set_channel_gate val now) st"

record pit_channel_info =
  info_gate :: bool
  info_mode :: u8
  initial_count :: nat
  info_out :: bool

definition pit_get_channel_info :: "nat \<Rightarrow> int \<Rightarrow> pit \<Rightarrow> pit_channel_info res" where
  "pit_get_channel_info c now p =
     res_bind (arr_get (channels p) c) (\<lambda>s.
       res_bind (pit_get_out s now) (\<lambda>out.
         Inr \<lparr>info_gate = gate s, info_mode = mode s, initial_count = count s, info_out = out\<rparr>))"

definition reset_channel :: "int \<Rightarrow> nat \<Rightarrow> pit_channel \<Rightarrow> pit_channel res" where
  "reset_channel now i s =
     (let s = s\<lparr>mode := 3, gate := (i \<noteq> 2), count_load_time := now, count := 0x10000\<rparr> in
      if i = 0 \<and> \<not> irq_disabled s then
        res_bind (pit_get_next_transition_time s now) (\<lambda>e. Inr (s\<lparr>next_transition_time := e\<rparr>))
      else Inr s)"

definition pit_reset_common :: "int \<Rightarrow> timers \<times> pit \<Rightarrow> (timers \<times> pit) res" where
  "pit_reset_common now st =
     res_bind (on_channel 0 (\<lambda>s ts. res_bind (reset_channel now 0 s) (\<lambda>s. Inr (s, ts))) st) (\<lambda>st.
       res_bind (on_channel 1 (\<lambda>s ts. res_bind (reset_channel now 1 s) (\<lambda>s. Inr (s, ts))) st) (\<lambda>st.
         on_channel 2 (\<lambda>s ts. res_bind (reset_channel now 2 s) (\<lambda>s. Inr (s, ts))) st))"

definition pit_reset :: "int \<Rightarrow> timers \<times> pit \<Rightarrow> (timers \<times> pit) res" where
  "pit_reset now st =
     res_bind (pit_reset_common now st) (on_channel 0 (\<lambda>s ts.
       if irq_disabled s then Inr (s, ts)
       else (case irq_timer s of
               None \<Rightarrow> Inl NullDeref
             | Some i \<Rightarrow> Inr (s, timer_mod i (next_transition_time s) ts))))"

definition pit_irq_control :: "bool \<Rightarrow> int \<Rightarrow> timers \<times> pit \<Rightarrow> (timers \<times> pit) res" where
  "pit_irq_control enable now st =
     on_channel 0 (\<lambda>s ts.
       if enable then pit_irq_timer_update (s\<lparr>irq_disabled := False\<rparr>) now ts
       else (case irq_timer s of
               None \<Rightarrow> Inl NullDeref
             | Some i \<Rightarrow> Inr (s\<lparr>irq_disabled := True\<rparr>, timer_del i ts))) st"

text \<open>The device starts as zeroed memory; counter 0 gets a timer of the virtual clock.\<close>

definition zero_channel :: pit_channel where
  "zero_channel = \<lparr>count = 0, latched_count = 0, count_latched = 0, status_latched = False, status = 0, read_state = 0, write_state = 0,
     write_latch = 0, rw_mode = 0, mode = 0, bcd = 0, gate = False, count_load_time = 0, next_transition_time = 0, irq_timer = None,
     irq = False, irq_disabled = False\<rparr>"

definition i8254_pit_init :: "u32 \<Rightarrow> int \<Rightarrow> nat \<Rightarrow> timers \<Rightarrow> (timers \<times> pit) res" where
  "i8254_pit_init base isa_irq i ts =
     (if isa_irq \<noteq> - 1 then Inl AssertFail
      else Inr (timer_init_full i QEMU_CLOCK_VIRTUAL 1 ts,
        \<lparr>channels = [zero_channel\<lparr>irq_timer := Some i\<rparr>, zero_channel, zero_channel], iobase = base\<rparr>))"

section \<open>Well-formed counters never fault\<close>

definition channel_wf :: "pit_channel \<Rightarrow> bool" where
  "channel_wf s \<longleftrightarrow> 0 < count s \<and> count s \<le> 0x10000"

definition out_bit :: "pit_channel \<Rightarrow> nat \<Rightarrow> bool" where
  "out_bit s d =
     (if mode s = 1 then d < count s
      else if mode s = 2 then d mod count s = 0 \<and> d \<noteq> 0
      else if mode s = 3 then d mod count s < (count s + 1) div 2
      else if mode s = 4 \<or> mode s = 5 then d = count s
      else d \<ge> count s)"

lemma get_out_wf: "channel_wf s \<Longrightarrow> pit_get_out s t = Inr (out_bit s (pit_clocks s t))"
  by (auto simp: pit_get_out_def out_bit_def Let_def channel_wf_def)

definition next_clock :: "pit_channel \<Rightarrow> nat \<Rightarrow> nat option" where
  "next_clock s d = (case next_transition s d of Inl _ \<Rightarrow> None | Inr n \<Rightarrow> n)"

lemma next_transition_wf: "channel_wf s \<Longrightarrow> next_transition s d = Inr (next_clock s d)"
  by (auto simp: next_clock_def next_transition_def Let_def channel_wf_def)

text \<open>Between now and the next transition the output does not change, except in mode 2.\<close>

lemma mod_within: "b * c \<le> (x :: nat) \<Longrightarrow> x < b * c + c \<Longrightarrow> x mod c = x - b * c"
  by (metis add_diff_cancel_left' le_add_diff_inverse less_diff_conv2 mod_less mod_mult_self3 add.commute)

lemma out_until_next:
  assumes "channel_wf s" "mode s \<noteq> 2" "d \<le> x" "\<And>n. next_clock s d = Some n \<Longrightarrow> x < n"
  shows "out_bit s x = out_bit s d"
proof (cases "mode s = 3")
  case True
  define c b p where "c = count s" and "b = d div c" and "p = (c + 1) div 2"
  have c0: "0 < c" using assms(1) by (simp add: channel_wf_def c_def)
  have db: "b * c \<le> d" "d < b * c + c" using dividend_less_div_times [OF c0, of d] by (simp_all add: b_def)
  have dm: "d mod c = d - b * c" by (rule mod_within [OF db])
  have pc: "p \<le> c" using c0 by (simp add: p_def)
  have n: "next_clock s d = Some (if d - b * c < p then b * c + p else b * c + c)"
    using True c0 by (simp add: next_clock_def next_transition_def Let_def c_def b_def p_def)
  have x: "x < (if d - b * c < p then b * c + p else b * c + c)" using assms(4) [OF n] .
  then have "x < b * c + c" using pc by (simp split: if_splits)
  then have xm: "x mod c = x - b * c" using assms(3) db(1) by (intro mod_within) simp_all
  have "x - b * c < p \<longleftrightarrow> d - b * c < p" using x assms(3) db(1) by (auto split: if_splits)
  then show ?thesis by (simp add: out_bit_def True xm dm c_def [symmetric] p_def)
next
  case False
  then have n: "next_clock s d = (if mode s = 4 \<or> mode s = 5 then if d < count s then Some (count s) else if d = count s then Some (count s + 1) else None
      else if d < count s then Some (count s) else None)"
    using assms(2) by (simp add: next_clock_def next_transition_def)
  then show ?thesis using assms(2,3) False assms(4) [of "count s"] assms(4) [of "count s + 1"]
    by (cases "d < count s"; cases "d = count s") (auto simp: out_bit_def)
qed

section \<open>Clock arithmetic\<close>

text \<open>The times of a run stay below \<open>2 ^ 62\<close> ns (146 years), where no 64-bit operation wraps.\<close>

definition timely :: "pit_channel \<Rightarrow> int \<Rightarrow> bool" where
  "timely s t \<longleftrightarrow> 0 \<le> count_load_time s \<and> count_load_time s \<le> t \<and> t < 2 ^ 62"

lemma clocks_timely:
  assumes "timely s t"
  shows "pit_clocks s t = nat (t - count_load_time s) * PIT_FREQ div NANOSECONDS_PER_SECOND" "pit_clocks s t < 2 ^ 62"
proof -
  define a where "a = nat (t - count_load_time s)"
  have a: "(t - count_load_time s) mod 2 ^ 64 = t - count_load_time s" "a < 2 ^ 62"
    using assms by (auto simp: timely_def a_def mod_pos_pos_trivial)
  have "a * PIT_FREQ div NANOSECONDS_PER_SECOND \<le> a * NANOSECONDS_PER_SECOND div NANOSECONDS_PER_SECOND"
    by (intro div_le_mono mult_le_mono2) (simp add: PIT_FREQ_def NANOSECONDS_PER_SECOND_def)
  then have "a * PIT_FREQ div NANOSECONDS_PER_SECOND < 2 ^ 62" using a(2) by (simp add: NANOSECONDS_PER_SECOND_def)
  moreover from this have "muldiv64 a PIT_FREQ NANOSECONDS_PER_SECOND = a * PIT_FREQ div NANOSECONDS_PER_SECOND"
    unfolding muldiv64_def by (intro mod_less) simp
  ultimately show "pit_clocks s t = nat (t - count_load_time s) * PIT_FREQ div NANOSECONDS_PER_SECOND" "pit_clocks s t < 2 ^ 62"
    unfolding pit_clocks_def a(1) a_def [symmetric] by simp_all
qed

lemma clocks_mono: "timely s t \<Longrightarrow> timely s t' \<Longrightarrow> t \<le> t' \<Longrightarrow> pit_clocks s t \<le> pit_clocks s t'"
  by (simp add: clocks_timely) (intro div_le_mono mult_le_mono1, simp)

lemma clocks_before:
  assumes "timely s t" "t < count_load_time s + int (n * NANOSECONDS_PER_SECOND div PIT_FREQ)"
  shows "pit_clocks s t < n"
proof -
  define a where "a = nat (t - count_load_time s)"
  have "a + 1 \<le> n * NANOSECONDS_PER_SECOND div PIT_FREQ" using assms by (simp add: a_def timely_def) linarith
  then have "(a + 1) * PIT_FREQ \<le> n * NANOSECONDS_PER_SECOND div PIT_FREQ * PIT_FREQ" by (rule mult_le_mono1)
  also have "\<dots> \<le> n * NANOSECONDS_PER_SECOND" by simp
  finally have "a * PIT_FREQ < n * NANOSECONDS_PER_SECOND" by (simp add: PIT_FREQ_def)
  then have "a * PIT_FREQ div NANOSECONDS_PER_SECOND < n" by (simp add: less_mult_imp_div_less)
  then show ?thesis by (simp add: clocks_timely [OF assms(1)] a_def)
qed

lemma next_clock_bound: "channel_wf s \<Longrightarrow> next_clock s d = Some n \<Longrightarrow> n \<le> d + 0x20000"
proof -
  assume a: "channel_wf s" "next_clock s d = Some n"
  define b where "b = d div count s * count s"
  have "b \<le> d" "(count s + 1) div 2 \<le> count s" using a(1) by (simp_all add: b_def channel_wf_def)
  with a show ?thesis by (auto simp: channel_wf_def next_clock_def next_transition_def Let_def b_def [symmetric] split: if_splits)
qed

lemma next_time_wf:
  assumes "channel_wf s" "timely s t"
  shows "pit_get_next_transition_time s t = Inr
    (case next_clock s (pit_clocks s t) of None \<Rightarrow> - 1
     | Some n \<Rightarrow> max (t + 1) (count_load_time s + int (n * NANOSECONDS_PER_SECOND div PIT_FREQ)))"
proof (cases "next_clock s (pit_clocks s t)")
  case None
  then show ?thesis by (simp add: pit_get_next_transition_time_def next_transition_wf [OF assms(1)])
next
  case (Some n)
  define a where "a = nat (t - count_load_time s)"
  define e where "e = n * NANOSECONDS_PER_SECOND div PIT_FREQ"
  have "n * NANOSECONDS_PER_SECOND \<le> (a * PIT_FREQ div NANOSECONDS_PER_SECOND + 0x20000) * NANOSECONDS_PER_SECOND"
    using next_clock_bound [OF assms(1) Some] by (intro mult_le_mono1) (simp add: clocks_timely [OF assms(2)] a_def)
  also have "\<dots> \<le> a * PIT_FREQ + 0x20000 * NANOSECONDS_PER_SECOND" by (simp add: add_mult_distrib)
  finally have "e \<le> (a * PIT_FREQ + 0x20000 * NANOSECONDS_PER_SECOND) div PIT_FREQ" unfolding e_def by (rule div_le_mono)
  also have "\<dots> = a + 0x20000 * NANOSECONDS_PER_SECOND div PIT_FREQ" by (simp add: PIT_FREQ_def)
  finally have "e \<le> a + 0x20000 * 1000" by (simp add: NANOSECONDS_PER_SECOND_def PIT_FREQ_def)
  then have b: "count_load_time s + int e < 2 ^ 63" "0 \<le> count_load_time s + int e" "t + 1 < 2 ^ 63" "0 \<le> t" "t < 2 ^ 63"
    using assms(2) unfolding timely_def a_def by auto
  have "e < 2 ^ 64" using b(1) assms(2) by (simp add: timely_def)
  then have md: "muldiv64 n NANOSECONDS_PER_SECOND PIT_FREQ = e" unfolding muldiv64_def e_def by (rule mod_less)
  have m: "(count_load_time s + int e) mod 2 ^ 64 = count_load_time s + int e" "t mod 2 ^ 64 = t"
    using b by (simp_all add: mod_pos_pos_trivial)
  have i: "to_int64 x = x" if "0 \<le> x" "x < 2 ^ 63" for x using that by (simp add: to_int64_def mod_pos_pos_trivial Let_def)
  have "pit_get_next_transition_time s t =
      Inr (to_int64 (if count_load_time s + int e \<le> t then t + 1 else count_load_time s + int e))"
    unfolding pit_get_next_transition_time_def next_transition_wf [OF assms(1)] by (simp add: Some md Let_def m [simplified])
  also have "\<dots> = Inr (max (t + 1) (count_load_time s + int e))" using b by (simp add: i max_def)
  finally show ?thesis by (simp add: Some e_def)
qed

lemma next_time_later:
  assumes "channel_wf s" "timely s t" "pit_get_next_transition_time s t = Inr e"
  shows "e = - 1 \<or> t < e"
  using assms(3) unfolding next_time_wf [OF assms(1,2)] by (auto split: option.splits)

lemma out_constant:
  assumes "channel_wf s" "mode s \<noteq> 2" "timely s t" "timely s t'" "t \<le> t'"
    and "pit_get_next_transition_time s t = Inr e" "e = - 1 \<or> t' < e"
  shows "pit_get_out s t' = pit_get_out s t"
proof (cases "t' = t")
  case False
  have "pit_clocks s t' < n" if n: "next_clock s (pit_clocks s t) = Some n" for n
  proof -
    have "e = max (t + 1) (count_load_time s + int (n * NANOSECONDS_PER_SECOND div PIT_FREQ))"
      using assms(6) n by (simp add: next_time_wf [OF assms(1,3)])
    moreover have "- 1 < t" using assms(3) by (simp add: timely_def)
    moreover from calculation have "e \<noteq> - 1" by auto
    ultimately have "t' < count_load_time s + int (n * NANOSECONDS_PER_SECOND div PIT_FREQ)" using assms(5,7) False by auto
    then show ?thesis by (rule clocks_before [OF assms(4)])
  qed
  then show ?thesis
    using out_until_next [OF assms(1,2) clocks_mono [OF assms(3,4,5)]] by (simp add: get_out_wf [OF assms(1)])
qed simp

section \<open>Runs of the device\<close>

definition keeps :: "(pit_channel \<Rightarrow> timers \<Rightarrow> (pit_channel \<times> timers) res) \<Rightarrow> bool" where
  "keeps f \<longleftrightarrow> (\<forall>s ts. channel_wf s \<longrightarrow> (\<exists>s' ts'. f s ts = Inr (s', ts') \<and> channel_wf s' \<and> irq_timer s' = irq_timer s))"

lemma keepsI: "(\<And>s ts. channel_wf s \<Longrightarrow> \<exists>s' ts'. f s ts = Inr (s', ts') \<and> channel_wf s' \<and> irq_timer s' = irq_timer s) \<Longrightarrow> keeps f"
  by (simp add: keeps_def)

lemma keepsE:
  assumes "keeps f" "channel_wf s"
  obtains s' ts' where "f s ts = Inr (s', ts')" "channel_wf s'" "irq_timer s' = irq_timer s"
  using assms unfolding keeps_def by blast

lemma next_time_total: "channel_wf s \<Longrightarrow> \<exists>e. pit_get_next_transition_time s t = Inr e"
  by (cases "next_clock s (pit_clocks s t)") (simp_all add: pit_get_next_transition_time_def next_transition_wf Let_def)

lemma update_total:
  assumes "channel_wf s"
  obtains s' ts' where "pit_irq_timer_update s t ts = Inr (s', ts')" "channel_wf s'" "irq_timer s' = irq_timer s"
proof -
  obtain e where "pit_get_next_transition_time s t = Inr e" using next_time_total [OF assms] by blast
  then show thesis using assms that
    by (cases "irq_timer s"; cases "irq_disabled s") (auto simp: pit_irq_timer_update_def get_out_wf channel_wf_def)
qed

lemma get_count_total: "channel_wf s \<Longrightarrow> \<exists>c. pit_get_count s t = Inr c"
  by (auto simp: pit_get_count_def Let_def channel_wf_def)

lemma latch_count_total: "channel_wf s \<Longrightarrow> \<exists>s'. pit_latch_count t s = Inr s' \<and> channel_wf s' \<and> irq_timer s' = irq_timer s"
  using get_count_total [of s t] by (auto simp: pit_latch_count_def channel_wf_def)

lemma latch_status_total: "channel_wf s \<Longrightarrow> \<exists>s'. latch_status t s = Inr s' \<and> channel_wf s' \<and> irq_timer s' = irq_timer s"
  by (auto simp: latch_status_def get_out_wf) (auto simp: channel_wf_def)

lemma keeps_load: "val \<le> 0xffff \<Longrightarrow> keeps (pit_load_count val now)"
proof (rule keepsI)
  fix s ts assume "val \<le> 0xffff" "channel_wf s"
  then have "channel_wf (s\<lparr>count_load_time := now, count := if val = 0 then 0x10000 else val\<rparr>)" by (simp add: channel_wf_def)
  then obtain s' ts' where "pit_irq_timer_update (s\<lparr>count_load_time := now, count := if val = 0 then 0x10000 else val\<rparr>) now ts = Inr (s', ts')"
    "channel_wf s'" "irq_timer s' = irq_timer s" by (rule update_total [of _ now ts]) simp
  then show "\<exists>s' ts'. pit_load_count val now s ts = Inr (s', ts') \<and> channel_wf s' \<and> irq_timer s' = irq_timer s"
    unfolding pit_load_count_def Let_def by blast
qed

lemma unat_byte: "unat (v :: u8) \<le> 255"
  using unsigned_less [where 'a = nat and w = v] by simp

lemma keeps_write_counter: "keeps (write_counter val now)"
proof (rule keepsI)
  fix s ts assume w: "channel_wf s"
  have 1: "unat v * 256 \<le> 0xffff" "unat v + unat w * 256 \<le> 0xffff" "unat v \<le> 0xffff" for v w :: u8
    using unat_byte [of v] unat_byte [of w] by simp_all
  obtain a b c d e f where "pit_load_count (unat val * 256) now s ts = Inr (a, b)" "channel_wf a" "irq_timer a = irq_timer s"
    "pit_load_count (unat (write_latch s) + unat val * 256) now s ts = Inr (c, d)" "channel_wf c" "irq_timer c = irq_timer s"
    "pit_load_count (unat val) now s ts = Inr (e, f)" "channel_wf e" "irq_timer e = irq_timer s"
    using keepsE [OF keeps_load [OF 1(1)] w] keepsE [OF keeps_load [OF 1(2)] w] keepsE [OF keeps_load [OF 1(3)] w] by metis
  then show "\<exists>s' ts'. write_counter val now s ts = Inr (s', ts') \<and> channel_wf s' \<and> irq_timer s' = irq_timer s"
    using w by (simp add: write_counter_def) (simp add: channel_wf_def)
qed

lemma keeps_write_control: "keeps (write_control val now)"
proof (rule keepsI)
  fix s ts assume "channel_wf s"
  with latch_count_total [of s now]
  show "\<exists>s' ts'. write_control val now s ts = Inr (s', ts') \<and> channel_wf s' \<and> irq_timer s' = irq_timer s"
    by (auto simp: write_control_def Let_def channel_wf_def)
qed

lemma keeps_read_back: "keeps (read_back val now c)"
proof (rule keepsI)
  fix s ts assume w: "channel_wf s"
  obtain s1 where s1: "(if val AND 0x20 = 0 then pit_latch_count now s else Inr s) = Inr s1" "channel_wf s1" "irq_timer s1 = irq_timer s"
    using latch_count_total [OF w, of now] w by (cases "val AND 0x20 = 0") auto
  obtain s2 where s2: "(if val AND 0x10 = 0 then latch_status now s1 else Inr s1) = Inr s2" "channel_wf s2" "irq_timer s2 = irq_timer s1"
    using latch_status_total [OF s1(2), of now] s1(2) by (cases "val AND 0x10 = 0") auto
  show "\<exists>s' ts'. read_back val now c s ts = Inr (s', ts') \<and> channel_wf s' \<and> irq_timer s' = irq_timer s"
    unfolding read_back_def s1(1) res_bind_simps s2(1) using w s1(3) s2(2,3) by auto
qed

lemma keeps_gate: "keeps (pit_set_channel_gate val now)"
proof (rule keepsI)
  fix s ts assume w: "channel_wf s"
  then have "channel_wf (s\<lparr>count_load_time := now\<rparr>)" by (simp add: channel_wf_def)
  then obtain s' ts' where "pit_irq_timer_update (s\<lparr>count_load_time := now\<rparr>) now ts = Inr (s', ts')"
    "channel_wf s'" "irq_timer s' = irq_timer s" by (rule update_total [of _ now ts]) simp
  with w show "\<exists>s' ts'. pit_set_channel_gate val now s ts = Inr (s', ts') \<and> channel_wf s' \<and> irq_timer s' = irq_timer s"
    by (simp add: pit_set_channel_gate_def channel_wf_def)
qed

lemma read_channel_total: "channel_wf s \<Longrightarrow> \<exists>v s'. read_channel t s = Inr (v, s') \<and> channel_wf s' \<and> irq_timer s' = irq_timer s"
  using get_count_total [of s t] by (auto simp: read_channel_def read_count_def read_latched_def channel_wf_def)

definition pit_wf :: "pit \<Rightarrow> bool" where
  "pit_wf p \<longleftrightarrow> length (channels p) = 3 \<and> (\<forall>s \<in> set (channels p). channel_wf s) \<and> irq_timer (channels p ! 0) \<noteq> None"

lemma on_channel_keeps:
  assumes "keeps f" "pit_wf (snd st)" "c < 3"
  shows "\<exists>st'. on_channel c f st = Inr st' \<and> pit_wf (snd st') \<and> irq_timer (channels (snd st') ! 0) = irq_timer (channels (snd st) ! 0)"
proof -
  have l: "c < length (channels (snd st))" using assms(2,3) by (simp add: pit_wf_def)
  then have w: "channel_wf (channels (snd st) ! c)" using assms(2) by (simp add: pit_wf_def)
  from assms(1) [unfolded keeps_def, rule_format, OF w, of "fst st"] obtain s' ts' where
    s': "f (channels (snd st) ! c) (fst st) = Inr (s', ts')" "channel_wf s'" "irq_timer s' = irq_timer (channels (snd st) ! c)" by blast
  have "set ((channels (snd st))[c := s']) \<subseteq> insert s' (set (channels (snd st)))" by (rule set_update_subset_insert)
  then show ?thesis using s' l assms(2) by (auto simp: on_channel_def pit_wf_def nth_list_update)
qed

inductive pit_run :: "timers \<times> pit \<Rightarrow> bool" where
  Reset: "i8254_pit_init base (- 1) i ts = Inr st \<Longrightarrow> pit_reset now st = Inr st' \<Longrightarrow> pit_run st'"
| Write: "pit_run st \<Longrightarrow> pit_ioport_write addr val now st = Inr st' \<Longrightarrow> pit_run st'"
| Read: "pit_run st \<Longrightarrow> pit_ioport_read addr now st = Inr (v, st') \<Longrightarrow> pit_run st'"
| Gate: "pit_run st \<Longrightarrow> c < 3 \<Longrightarrow> pit_set_gate c val now st = Inr st' \<Longrightarrow> pit_run st'"
| Control: "pit_run st \<Longrightarrow> pit_irq_control en now st = Inr st' \<Longrightarrow> pit_run st'"
| Timer: "pit_run st \<Longrightarrow> pit_irq_timer st = Inr st' \<Longrightarrow> pit_run st'"
| Others: "pit_run (ts, p) \<Longrightarrow> pit_run (ts', p)"

lemma addr_3: "unat (a AND 3) < 4" for a :: u64
proof -
  have "a AND 3 = take_bit 2 a" by (simp add: take_bit_eq_mask mask_eq_exp_minus_1)
  then have "unat (a AND 3) = take_bit 2 (unat a)" by (simp only: unsigned_take_bit_eq)
  then show ?thesis by (simp add: take_bit_eq_mod)
qed

lemma write_total: "pit_wf (snd st) \<Longrightarrow> \<exists>st'. pit_ioport_write addr val now st = Inr st' \<and> pit_wf (snd st')"
proof -
  assume w: "pit_wf (snd st)"
  define a where "a = unat (addr AND 3)"
  have a: "a < 4" using addr_3 by (simp add: a_def)
  have c: "unat (drop_bit 6 val) \<le> 3" using unat_byte [of val] by (simp add: drop_bit_eq_div unat_div_distrib)
  show ?thesis
  proof (cases "a = 3 \<and> unat (drop_bit 6 val) = 3")
    case True
    from on_channel_keeps [OF keeps_read_back [of val now 0] w, of 0] obtain s1 where 1: "on_channel 0 (read_back val now 0) st = Inr s1" "pit_wf (snd s1)" by auto
    from on_channel_keeps [OF keeps_read_back [of val now 1] 1(2), of 1] obtain s2 where 2: "on_channel 1 (read_back val now 1) s1 = Inr s2" "pit_wf (snd s2)" by auto
    from on_channel_keeps [OF keeps_read_back [of val now 2] 2(2), of 2] obtain s3 where 3: "on_channel 2 (read_back val now 2) s2 = Inr s3" "pit_wf (snd s3)" by auto
    show ?thesis using True 1 2 3 unfolding pit_ioport_write_def Let_def a_def [symmetric] by simp
  next
    case False
    then have "a \<noteq> 3 \<and> a < 3 \<or> a = 3 \<and> unat (drop_bit 6 val) < 3" using a c by linarith
    then show ?thesis
      using on_channel_keeps [OF keeps_write_counter w, of a val now] on_channel_keeps [OF keeps_write_control w, of "unat (drop_bit 6 val)" val now]
      unfolding pit_ioport_write_def Let_def a_def [symmetric] by auto
  qed
qed

lemma read_total: "pit_wf (snd st) \<Longrightarrow> \<exists>v st'. pit_ioport_read addr now st = Inr (v, st') \<and> pit_wf (snd st')"
proof -
  assume w: "pit_wf (snd st)"
  define a where "a = unat (addr AND 3)"
  show ?thesis
  proof (cases "a = 3")
    case True
    then show ?thesis using w by (simp add: pit_ioport_read_def a_def)
  next
    case False
    then have l: "a < length (channels (snd st))" using addr_3 [of addr] w by (simp add: a_def pit_wf_def)
    then have "channel_wf (channels (snd st) ! a)" using w by (simp add: pit_wf_def)
    from read_channel_total [OF this, of now] obtain v s' where
      r: "read_channel now (channels (snd st) ! a) = Inr (v, s')" "channel_wf s'" "irq_timer s' = irq_timer (channels (snd st) ! a)" by blast
    have "set ((channels (snd st))[a := s']) \<subseteq> insert s' (set (channels (snd st)))" by (rule set_update_subset_insert)
    then show ?thesis using False r l w by (auto simp: pit_ioport_read_def Let_def a_def [symmetric] pit_wf_def nth_list_update)
  qed
qed

lemma keeps_timer: "keeps (\<lambda>s ts. pit_irq_timer_update s (next_transition_time s) ts)"
proof (rule keepsI)
  fix s ts assume "channel_wf s"
  then show "\<exists>s' ts'. pit_irq_timer_update s (next_transition_time s) ts = Inr (s', ts') \<and> channel_wf s' \<and> irq_timer s' = irq_timer s"
    by (rule update_total) blast
qed

lemma control_total:
  assumes "pit_wf (snd st)"
  shows "\<exists>st'. pit_irq_control en now st = Inr st' \<and> pit_wf (snd st')"
proof -
  define s where "s = channels (snd st) ! 0"
  have l: "0 < length (channels (snd st))" and w: "channel_wf s" using assms by (auto simp: pit_wf_def s_def)
  obtain i where i: "irq_timer s = Some i" using assms by (auto simp: pit_wf_def s_def)
  have "channel_wf (s\<lparr>irq_disabled := False\<rparr>)" using w by (simp add: channel_wf_def)
  then obtain s1 ts1 where u: "pit_irq_timer_update (s\<lparr>irq_disabled := False\<rparr>) now (fst st) = Inr (s1, ts1)" "channel_wf s1" "irq_timer s1 = irq_timer s"
    by (rule update_total [of _ now "fst st"]) simp
  have w2: "channel_wf (s\<lparr>irq_disabled := True\<rparr>)" using w by (simp add: channel_wf_def)
  have "set ((channels (snd st))[0 := x]) \<subseteq> insert x (set (channels (snd st)))" for x by (rule set_update_subset_insert)
  then show ?thesis using l u w2 i assms by (cases en) (auto simp: pit_irq_control_def on_channel_def s_def [symmetric] pit_wf_def)
qed

lemma reset_wf:
  assumes "i8254_pit_init base (- 1) i ts = Inr st"
  shows "\<exists>st'. pit_reset now st = Inr st' \<and> pit_wf (snd st')"
proof -
  define z where "z k = zero_channel\<lparr>mode := 3, gate := (k \<noteq> 2), count_load_time := now, count := 0x10000\<rparr>" for k :: nat
  have st: "st = (timer_init_full i QEMU_CLOCK_VIRTUAL 1 ts, \<lparr>channels = [zero_channel\<lparr>irq_timer := Some i\<rparr>, zero_channel, zero_channel], iobase = base\<rparr>)"
    using assms by (simp add: i8254_pit_init_def)
  have "channel_wf ((z 0)\<lparr>irq_timer := Some i\<rparr>)" by (simp add: z_def channel_wf_def)
  then obtain e where e: "pit_get_next_transition_time ((z 0)\<lparr>irq_timer := Some i\<rparr>) now = Inr e" using next_time_total by blast
  have r0: "reset_channel now 0 (zero_channel\<lparr>irq_timer := Some i\<rparr>) = Inr ((z 0)\<lparr>irq_timer := Some i, next_transition_time := e\<rparr>)"
    using e by (simp add: reset_channel_def z_def zero_channel_def)
  have r1: "reset_channel now k zero_channel = Inr (z k)" if "k \<noteq> 0" for k using that by (simp add: reset_channel_def z_def)
  show ?thesis
    by (simp add: pit_reset_def pit_reset_common_def on_channel_def st r0 r1) (simp add: z_def zero_channel_def pit_wf_def channel_wf_def)
qed

lemma run_pit_wf: "pit_run st \<Longrightarrow> pit_wf (snd st)"
proof (induction rule: pit_run.induct)
  case (Reset base i ts st now st')
  then show ?case using reset_wf [OF Reset(1), of now] by auto
next
  case (Write st addr val now st')
  then show ?case using write_total [of st addr val now] by auto
next
  case (Read st addr now v st')
  then show ?case using read_total [of st addr now] by auto
next
  case (Gate st c val now st')
  then show ?case using on_channel_keeps [OF keeps_gate, of st c val now] by (auto simp: pit_set_gate_def)
next
  case (Control st en now st')
  then show ?case using control_total [of st en now] by auto
next
  case (Timer st st')
  then show ?case using on_channel_keeps [OF keeps_timer, of st 0] by (auto simp: pit_irq_timer_def)
qed simp

section \<open>The timer of the device\<close>

text \<open>
  What the timer code calls: the callback of the device for its own timer. The invariant says that
  channel 0 was last brought up to date at some time no later than the horizon, and that the timer
  is armed for the transition computed then.
\<close>

definition pit_cb :: "nat \<Rightarrow> timers \<times> pit \<Rightarrow> timers \<times> pit" where
  "pit_cb i st =
     (if irq_timer (channels (snd st) ! 0) = Some i then (case pit_irq_timer st of Inr st' \<Rightarrow> st' | Inl _ \<Rightarrow> st) else st)"

definition up_to_date :: "int \<Rightarrow> timers \<Rightarrow> pit_channel \<Rightarrow> bool" where
  "up_to_date h ts s \<longleftrightarrow> channel_wf s \<and> mode s \<noteq> 2 \<and> \<not> irq_disabled s \<and>
     (\<exists>i t. irq_timer s = Some i \<and> timer_list ts i = QEMU_CLOCK_VIRTUAL \<and> scale ts i = 1 \<and> timely s t \<and> t \<le> h \<and>
        pit_get_out s t = Inr (irq s) \<and> pit_get_next_transition_time s t = Inr (next_transition_time s) \<and>
        expire_time ts i = next_transition_time s)"

definition pit_sync :: "int \<Rightarrow> pit_channel \<Rightarrow> timers \<times> pit \<Rightarrow> bool" where
  "pit_sync h s0 st \<longleftrightarrow> timers_wf (fst st) \<and> h < 2 ^ 62 \<and> channels (snd st) \<noteq> [] \<and>
     up_to_date h (fst st) (channels (snd st) ! 0) \<and> (\<exists>l e. channels (snd st) ! 0 = s0\<lparr>irq := l, next_transition_time := e\<rparr>)"

lemma mode_irq [simp]:
  "pit_get_out (s\<lparr>irq := l, next_transition_time := e\<rparr>) t = pit_get_out s t"
  "pit_get_next_transition_time (s\<lparr>irq := l, next_transition_time := e\<rparr>) t = pit_get_next_transition_time s t"
  "timely (s\<lparr>irq := l, next_transition_time := e\<rparr>) t = timely s t"
  "channel_wf (s\<lparr>irq := l, next_transition_time := e\<rparr>) = channel_wf s"
  by (cases s; simp only: pit_get_out_def pit_get_next_transition_time_def next_transition_def pit_clocks_def timely_def channel_wf_def
      pit_channel.simps)+

text \<open>Bringing the channel up to date at a time, as the callback and the loading of a count do.\<close>

lemma update_up_to_date:
  assumes "channel_wf s" "mode s \<noteq> 2" "\<not> irq_disabled s" "irq_timer s = Some i" "timer_list ts i = QEMU_CLOCK_VIRTUAL" "scale ts i = 1"
    and "timely s t" "t \<le> h" "timers_wf ts"
  obtains l e ts' where "pit_irq_timer_update s t ts = Inr (s\<lparr>irq := l, next_transition_time := e\<rparr>, ts')"
    "up_to_date h ts' (s\<lparr>irq := l, next_transition_time := e\<rparr>)" "timers_wf ts'" "timer_list ts' = timer_list ts" "enabled ts' = enabled ts"
    "\<forall>j. j \<noteq> i \<longrightarrow> expire_time ts' j = expire_time ts j" "expire_time ts' i = - 1 \<or> t < expire_time ts' i"
proof -
  obtain e where e: "pit_get_next_transition_time s t = Inr e" using next_time_total [OF assms(1)] by blast
  define l where "l = out_bit s (pit_clocks s t)"
  have o: "pit_get_out s t = Inr l" by (simp add: get_out_wf [OF assms(1)] l_def)
  define ts' where "ts' = (if e \<noteq> - 1 then timer_mod i e ts else timer_del i ts)"
  have lt: "e = - 1 \<or> t < e" by (rule next_time_later [OF assms(1,7) e])
  have t0: "0 \<le> t" using assms(7) by (simp add: timely_def)
  have ts': "expire_time ts' = (expire_time ts)(i := e)" "timer_list ts' = timer_list ts" "enabled ts' = enabled ts" "scale ts' = scale ts" "timers_wf ts'"
    using wf_mod [OF assms(9)] wf_del [OF assms(9)] lt t0 by (auto simp: ts'_def timer_mod_def timer_del_def mod_fields assms(6))
  have u: "pit_irq_timer_update s t ts = Inr (s\<lparr>irq := l, next_transition_time := e\<rparr>, ts')"
    using e o assms(3,4) by (simp add: pit_irq_timer_update_def ts'_def)
  have "up_to_date h ts' (s\<lparr>irq := l, next_transition_time := e\<rparr>)"
    unfolding up_to_date_def using assms e o ts' by (intro conjI exI [of _ i] exI [of _ t]) simp_all
  then show thesis using ts' lt by (intro that [OF u]) auto
qed

lemma pit_cb_step:
  assumes "pit_sync h s0 st" "active_timers (fst st) c = i # rest" "expire_time (fst st) i \<le> h"
  defines "st' \<equiv> pit_cb i (pop_timer c (fst st), snd st)"
  shows "pit_sync h s0 st' \<and> (expire_time (fst st') i = - 1 \<or> expire_time (fst st) i < expire_time (fst st') i) \<and>
    timer_list (fst st') = timer_list (fst st) \<and> (\<forall>j. j \<noteq> i \<longrightarrow> expire_time (fst st') j = expire_time (fst st) j)"
proof -
  define s where "s = channels (snd st) ! 0"
  have w: "timers_wf (fst st)" and ne: "channels (snd st) \<noteq> []" and ud: "up_to_date h (fst st) s" and h: "h < 2 ^ 62"
    using assms(1) by (auto simp: pit_sync_def s_def)
  from ud obtain k t where k: "irq_timer s = Some k" "timer_list (fst st) k = QEMU_CLOCK_VIRTUAL" "scale (fst st) k = 1" "timely s t" "t \<le> h"
    "pit_get_out s t = Inr (irq s)" "pit_get_next_transition_time s t = Inr (next_transition_time s)"
    "expire_time (fst st) k = next_transition_time s" and sw: "channel_wf s" "mode s \<noteq> 2" "\<not> irq_disabled s"
    by (auto simp: up_to_date_def)
  from assms(1) obtain l0 e0 where s0: "s = s0\<lparr>irq := l0, next_transition_time := e0\<rparr>" by (auto simp: pit_sync_def s_def)
  note pop = wf_pop [OF w assms(2)]
  have ie: "0 \<le> expire_time (fst st) i" using w assms(2) unfolding timers_wf_def by (metis list.set_intros(1))
  show ?thesis
  proof (cases "i = k")
    case True
    define e where "e = next_transition_time s"
    have "timely s e" using next_time_later [OF sw(1) k(4,7)] ie assms(3) h k(4,8) True by (auto simp: timely_def e_def)
    moreover have "e \<le> h" using assms(3) k(8) True by (simp add: e_def)
    ultimately obtain l e' ts' where u: "pit_irq_timer_update s e (pop_timer c (fst st)) = Inr (s\<lparr>irq := l, next_transition_time := e'\<rparr>, ts')"
      "up_to_date h ts' (s\<lparr>irq := l, next_transition_time := e'\<rparr>)" "timers_wf ts'" "timer_list ts' = timer_list (pop_timer c (fst st))"
      "\<forall>j. j \<noteq> k \<longrightarrow> expire_time ts' j = expire_time (pop_timer c (fst st)) j" "expire_time ts' k = - 1 \<or> e < expire_time ts' k"
      using update_up_to_date [OF sw k(1), of "pop_timer c (fst st)" e h] pop k(2,3) by metis
    have "st' = (ts', (snd st)\<lparr>channels := (channels (snd st))[0 := s\<lparr>irq := l, next_transition_time := e'\<rparr>]\<rparr>)"
      unfolding assms(4) pit_cb_def pit_irq_timer_def on_channel_def using k(1) True u(1) ne by (simp add: s_def [symmetric] e_def)
    then show ?thesis using u ne h pop(2,3) k(8) True by (auto simp: pit_sync_def s0 e_def)
  next
    case False
    then have st': "st' = (pop_timer c (fst st), snd st)" using k(1) by (simp add: assms(4) pit_cb_def s_def)
    have "up_to_date h (pop_timer c (fst st)) s" unfolding up_to_date_def
      using sw k pop False by (intro conjI exI [of _ k] exI [of _ t]) simp_all
    then show ?thesis using pop ne h s0 by (auto simp: st' pit_sync_def s_def [symmetric])
  qed
qed

interpretation pt: timer_callbacks pit_cb "pit_sync h s0" h for h s0
  by unfold_locales (simp add: pit_sync_def, (drule (2) pit_cb_step, blast)+)

lemma up_to_date_write_state [simp]: "up_to_date h ts (s\<lparr>write_state := w\<rparr>) = up_to_date h ts s"
  by (cases s; simp only: up_to_date_def pit_get_out_def pit_get_next_transition_time_def next_transition_def pit_clocks_def timely_def
      channel_wf_def pit_channel.simps)

lemma load_up_to_date:
  assumes "val \<le> 0xffff" "mode s \<noteq> 2" "\<not> irq_disabled s" "irq_timer s = Some i" "timer_list ts i = QEMU_CLOCK_VIRTUAL" "scale ts i = 1"
    and "0 \<le> t0" "t0 \<le> h" "h < 2 ^ 62" "timers_wf ts"
  obtains s' ts' where "pit_load_count val t0 s ts = Inr (s', ts')" "up_to_date h ts' s'" "timers_wf ts'" "enabled ts' = enabled ts"
    "irq_timer s' = Some i"
proof -
  define s1 where "s1 = s\<lparr>count_load_time := t0, count := if val = 0 then 0x10000 else val\<rparr>"
  have w: "channel_wf s1" "timely s1 t0" using assms(1,7-9) by (auto simp: s1_def channel_wf_def timely_def)
  have f: "mode s1 \<noteq> 2" "\<not> irq_disabled s1" "irq_timer s1 = Some i" using assms(2-4) by (simp_all add: s1_def)
  obtain l e ts' where "pit_irq_timer_update s1 t0 ts = Inr (s1\<lparr>irq := l, next_transition_time := e\<rparr>, ts')"
    "up_to_date h ts' (s1\<lparr>irq := l, next_transition_time := e\<rparr>)" "timers_wf ts'" "enabled ts' = enabled ts"
    using update_up_to_date [OF w(1) f assms(5,6) w(2) assms(8,10)] by metis
  note u = this
  have "pit_load_count val t0 s ts = Inr (s1\<lparr>irq := l, next_transition_time := e\<rparr>, ts')"
    unfolding pit_load_count_def Let_def s1_def [symmetric] by (rule u(1))
  note ld = this
  show thesis by (rule that [OF ld u(2-4)]) (simp add: f(3))
qed

lemma write_loads:
  assumes "write_state s \<noteq> RW_STATE_WORD0"
  obtains v w where "v \<le> 0xffff" "\<And>ts. write_counter val t0 s ts = res_bind (pit_load_count v t0 s ts) (\<lambda>(s, ts). Inr (s\<lparr>write_state := w s\<rparr>, ts))"
proof -
  have b: "unat val \<le> 255" "unat (write_latch s) \<le> 255" by (rule unat_byte)+
  have id: "res_bind r Inr = r" for r :: "(pit_channel \<times> timers) res" by (cases r) auto
  consider "write_state s = RW_STATE_MSB" | "write_state s = RW_STATE_WORD1" | "write_state s \<noteq> RW_STATE_MSB" "write_state s \<noteq> RW_STATE_WORD1" by blast
  then show thesis
  proof cases
    case 1
    then show thesis using b by (intro that [of "unat val * 256" write_state]) (simp_all add: write_counter_def id)
  next
    case 2
    have "RW_STATE_WORD1 \<noteq> RW_STATE_MSB" "RW_STATE_WORD1 \<noteq> RW_STATE_WORD0" by (simp_all add: RW_STATE_WORD1_def RW_STATE_MSB_def RW_STATE_WORD0_def)
    then show thesis using 2 b
      by (intro that [of "unat (write_latch s) + unat val * 256" "\<lambda>_. RW_STATE_WORD0"]) (simp_all add: write_counter_def)
  next
    case 3
    then show thesis using b assms by (intro that [of "unat val" write_state]) (simp_all add: write_counter_def id)
  qed
qed

lemma sync_line:
  assumes "up_to_date h ts s" "irq_timer s = Some i" "expire_time ts i = - 1 \<or> h < expire_time ts i" "h < 2 ^ 62"
  shows "pit_get_out s h = Inr (irq s)"
proof -
  from assms(1,2) obtain t where t: "timely s t" "t \<le> h" "pit_get_out s t = Inr (irq s)" "pit_get_next_transition_time s t = Inr (next_transition_time s)"
    "expire_time ts i = next_transition_time s" and w: "channel_wf s" "mode s \<noteq> 2" by (auto simp: up_to_date_def)
  have "timely s h" using t(1,2) assms(4) by (simp add: timely_def)
  from out_constant [OF w t(1) this t(2,4)] t(3,5) assms(3) show ?thesis by simp
qed

section \<open>Programming and reading a counter\<close>

lemma port_addr: "c < 3 \<Longrightarrow> unat ((of_nat c :: u64) AND 3) = c" "c < 3 \<Longrightarrow> unat (of_nat c :: u8) = c"
proof -
  assume "c < 3"
  then consider "c = 0" | "c = 1" | "c = 2" by linarith
  then show "unat ((of_nat c :: u64) AND 3) = c" "unat (of_nat c :: u8) = c" by (cases; simp)+
qed

lemma write_port: "c < 3 \<Longrightarrow> pit_ioport_write (of_nat c) val now st = on_channel c (write_counter val now) st"
  by (simp add: pit_ioport_write_def port_addr)

lemma write_command: "c < 3 \<Longrightarrow> drop_bit 6 val = (of_nat c :: u8) \<Longrightarrow> pit_ioport_write 3 val now st = on_channel c (write_control val now) st"
  by (simp add: pit_ioport_write_def port_addr)

lemma read_port:
  "c < length (channels (snd st)) \<Longrightarrow> length (channels (snd st)) = 3 \<Longrightarrow> pit_ioport_read (of_nat c) now st =
     res_bind (read_channel now (channels (snd st) ! c)) (\<lambda>(v, s). Inr (v, fst st, (snd st)\<lparr>channels := (channels (snd st))[c := s]\<rparr>))"
  by (simp add: pit_ioport_read_def port_addr)

lemma on_channel_at:
  "c < length (channels (snd st)) \<Longrightarrow> f (channels (snd st) ! c) (fst st) = Inr (s, ts) \<Longrightarrow>
     on_channel c f st = Inr (ts, (snd st)\<lparr>channels := (channels (snd st))[c := s]\<rparr>)"
  by (simp add: on_channel_def)

lemma channel_update_fields:
  assumes "pit_irq_timer_update s t ts = Inr (s', ts')"
  shows "\<exists>l e. s' = s\<lparr>irq := l, next_transition_time := e\<rparr>"
proof -
  have id: "\<exists>l e. s = s\<lparr>irq := l, next_transition_time := e\<rparr>"
    by (intro exI [of _ "irq s"] exI [of _ "next_transition_time s"]) simp
  then show ?thesis using assms
    by (auto simp: pit_irq_timer_update_def res_bind_Inr_iff simp del: pit_channel.surjective split: option.splits if_splits)
qed

lemma two_bytes: "unat (of_nat k :: u8) + 256 * unat (of_nat (k div 256) :: u8) = k mod 65536"
  by (simp add: unsigned_of_nat take_bit_eq_mod mod_mult2_eq [of k 256 256, simplified])

text \<open>A channel programmed for two-byte access, loaded with two bytes, latched and read twice.\<close>

lemma channel_program:
  assumes "channel_wf s" "drop_bit 4 ctl AND 3 = (3 :: u8)"
  obtains s1 s2 s3 ts3 where "write_control ctl t1 s ts = Inr (s1, ts)" "write_counter lo t2 s1 ts = Inr (s2, ts)"
    "write_counter hi t3 s2 ts = Inr (s3, ts3)" "count s3 = (if lo = 0 \<and> hi = 0 then 0x10000 else unat lo + 256 * unat hi)"
    "mode s3 = drop_bit 1 ctl AND 7" "count_load_time s3 = t3" "rw_mode s3 = 3" "count_latched s3 = count_latched s"
    "status_latched s3 = status_latched s" "channel_wf s3"
proof -
  define s1 where "s1 = s\<lparr>rw_mode := 3, read_state := 3, write_state := 3, mode := drop_bit 1 ctl AND 7, bcd := ctl AND 1\<rparr>"
  define s2 where "s2 = s1\<lparr>write_latch := lo, write_state := RW_STATE_WORD1\<rparr>"
  define v where "v = unat lo + unat hi * 256"
  define s2' where "s2' = s2\<lparr>count_load_time := t3, count := if v = 0 then 0x10000 else v\<rparr>"
  have v: "v \<le> 0xffff" using unat_byte [of lo] unat_byte [of hi] by (simp add: v_def)
  then have w: "channel_wf s2'" by (simp add: s2'_def channel_wf_def)
  then obtain s3' ts3 where u: "pit_irq_timer_update s2' t3 ts = Inr (s3', ts3)" "channel_wf s3'" by (rule update_total [of _ t3 ts]) simp
  from channel_update_fields [OF u(1)] obtain l e where s3': "s3' = s2'\<lparr>irq := l, next_transition_time := e\<rparr>" by blast
  have 1: "write_control ctl t1 s ts = Inr (s1, ts)" using assms(2) by (simp add: write_control_def s1_def)
  have 2: "write_counter lo t2 s1 ts = Inr (s2, ts)" by (simp add: write_counter_def s1_def s2_def RW_STATE_MSB_def RW_STATE_WORD0_def)
  have "write_state s2 = RW_STATE_WORD1" "write_latch s2 = lo" by (simp_all add: s2_def)
  then have 3: "write_counter hi t3 s2 ts = Inr (s3'\<lparr>write_state := RW_STATE_WORD0\<rparr>, ts3)"
    using u(1) by (simp add: write_counter_def RW_STATE_MSB_def RW_STATE_WORD0_def RW_STATE_WORD1_def pit_load_count_def v_def [symmetric] s2'_def [symmetric])
  have "v = 0 \<longleftrightarrow> lo = 0 \<and> hi = 0" by (simp add: v_def unsigned_eq_0_iff)
  then show thesis by (intro that [OF 1 2 3]) (use w in \<open>simp_all add: s3' s2'_def s2_def s1_def v_def channel_wf_def\<close>)
qed

lemma channel_latch_read:
  assumes "channel_wf s" "drop_bit 4 lt AND 3 = (0 :: u8)" "rw_mode s = 3" "count_latched s = 0" "\<not> status_latched s"
  obtains k s1 s2 s3 where "pit_get_count s t = Inr k" "write_control lt t s ts = Inr (s1, ts)" "read_channel t5 s1 = Inr (of_nat k, s2)"
    "read_channel t6 s2 = Inr (of_nat (k div 256), s3)"
proof -
  obtain k where k: "pit_get_count s t = Inr k" using get_count_total [OF assms(1)] by blast
  define s1 where "s1 = s\<lparr>latched_count := of_nat k, count_latched := 3\<rparr>"
  have 1: "write_control lt t s ts = Inr (s1, ts)" using k assms by (simp add: write_control_def pit_latch_count_def s1_def)
  have lo: "(ucast ((of_nat k :: u16) AND 0xff) :: u8) = of_nat k"
  proof -
    have "(of_nat k :: u16) AND 0xff = take_bit 8 (of_nat k)" by (simp add: take_bit_eq_mask mask_eq_exp_minus_1)
    then show ?thesis by (simp only:) (rule bit_word_eqI, simp add: bit_simps)
  qed
  have hi: "(ucast (drop_bit 8 (of_nat k :: u16)) :: u8) = of_nat (k div 256)"
    by (rule bit_word_eqI) (auto simp: bit_simps bit_of_nat_iff drop_bit_eq_div [of 8, symmetric, simplified])
  have r: "read_channel t5 s1 = Inr (of_nat k, s1\<lparr>count_latched := 2\<rparr>)"
    "read_channel t6 (s1\<lparr>count_latched := 2\<rparr>) = Inr (of_nat (k div 256), s1\<lparr>count_latched := 0\<rparr>)"
    using assms lo hi by (simp_all add: read_channel_def read_latched_def s1_def RW_STATE_MSB_def RW_STATE_WORD0_def)
  show thesis by (rule that [OF k 1 r])
qed

section \<open>Properties\<close>


text \<open>A channel in the square-wave mode after a reset at time 0, for the concrete instances.\<close>

definition reset_pit :: pit where
  "reset_pit = \<lparr>channels = [zero_channel\<lparr>mode := 3, gate := True, count := 0x10000, irq_timer := Some 7\<rparr>,
     zero_channel\<lparr>mode := 3, gate := True, count := 0x10000\<rparr>, zero_channel\<lparr>mode := 3, count := 0x10000\<rparr>], iobase = 0x40\<rparr>"

lemma reset_pit_wf: "pit_wf reset_pit"
  by (simp add: pit_wf_def reset_pit_def zero_channel_def channel_wf_def)


text \<open>
  C31. No sequence of events makes the device fault. From the reset on, after any sequence of port
  reads and writes of any values at any times, gate changes, enabling and disabling of the interrupt
  and timer expiries, every port access, gate change and expiry returns (no division by a zero count,
  no index outside the counters), and every counter holds a count from 1 to 65536.
\<close>

theorem pit_never_faults:
  assumes "pit_run st"
  shows "(\<exists>st'. pit_ioport_write addr val now st = Inr st') \<and> (\<exists>v st'. pit_ioport_read addr now st = Inr (v, st')) \<and>
    (\<exists>st'. pit_irq_timer st = Inr st') \<and> (\<exists>st'. pit_irq_control en now st = Inr st') \<and>
    (c < 3 \<longrightarrow> (\<exists>st'. pit_set_gate c gt now st = Inr st') \<and> (\<exists>i. pit_get_channel_info c now (snd st) = Inr i)) \<and>
    length (channels (snd st)) = 3 \<and> (\<forall>s \<in> set (channels (snd st)). 1 \<le> count s \<and> count s \<le> 65536)"
proof -
  note w = run_pit_wf [OF assms]
  have "\<exists>st'. pit_irq_timer st = Inr st'" using on_channel_keeps [OF keeps_timer w, of 0] by (auto simp: pit_irq_timer_def)
  moreover have "(\<exists>st'. pit_set_gate c gt now st = Inr st') \<and> (\<exists>i. pit_get_channel_info c now (snd st) = Inr i)" if "c < 3"
  proof -
    have "channel_wf (channels (snd st) ! c)" using w that by (simp add: pit_wf_def)
    then have "\<exists>i. pit_get_channel_info c now (snd st) = Inr i"
      using w that by (simp add: pit_get_channel_info_def pit_wf_def get_out_wf)
    moreover have "\<exists>st'. pit_set_gate c gt now st = Inr st'" unfolding pit_set_gate_def
      using on_channel_keeps [OF keeps_gate [of gt now] w that] by blast
    ultimately show ?thesis by blast
  qed
  moreover have "length (channels (snd st)) = 3 \<and> (\<forall>s \<in> set (channels (snd st)). 1 \<le> count s \<and> count s \<le> 65536)"
    using w by (auto simp: pit_wf_def channel_wf_def)
  moreover have "\<exists>st'. pit_ioport_write addr val now st = Inr st'" using write_total [OF w] by blast
  moreover have "\<exists>v st'. pit_ioport_read addr now st = Inr (v, st')" using read_total [OF w] by blast
  moreover have "\<exists>st'. pit_irq_control en now st = Inr st'" using control_total [OF w] by blast
  ultimately show ?thesis by blast
qed

theorem pit_never_faults_witness:
  "\<exists>st st'. pit_run st \<and> pit_ioport_write 0x43 0xb6 12 st = Inr st'"
proof -
  have "i8254_pit_init 0x40 (- 1) 7 idle_timers = Inr (timer_init_full 7 QEMU_CLOCK_VIRTUAL 1 idle_timers,
      \<lparr>channels = [zero_channel\<lparr>irq_timer := Some 7\<rparr>, zero_channel, zero_channel], iobase = 0x40\<rparr>)"
    by (simp add: i8254_pit_init_def)
  from pit_run.Reset [OF this] reset_wf [OF this, of 5] obtain st where "pit_run st" by blast
  with pit_never_faults [OF this, of "0x43" "0xb6" 12] show ?thesis by blast
qed

text \<open>
  C32. Counters can be programmed and read back. A counter programmed for two-byte access takes the
  two bytes as its count (65536 for zero), starts at the time of the second byte and runs in the
  programmed mode; a latch command freezes the count it has at that moment, and the next two reads
  return its low and its high byte, however much later they happen.
\<close>

theorem pit_count_roundtrip:
  assumes "pit_wf p" "c < 3" "drop_bit 6 ctl = (of_nat c :: u8)" "drop_bit 4 ctl AND 3 = 3" "drop_bit 6 lt = (of_nat c :: u8)" "drop_bit 4 lt AND 3 = 0"
    and "count_latched (channels p ! c) = 0" "\<not> status_latched (channels p ! c)"
  shows "\<exists>st1 st2 st3 st4 st5 st6 k v0 v1.
    pit_ioport_write 3 ctl t1 (ts, p) = Inr st1 \<and> pit_ioport_write (of_nat c) lo t2 st1 = Inr st2 \<and>
    pit_ioport_write (of_nat c) hi t3 st2 = Inr st3 \<and>
    count (channels (snd st3) ! c) = (if lo = 0 \<and> hi = 0 then 65536 else unat lo + 256 * unat hi) \<and>
    mode (channels (snd st3) ! c) = drop_bit 1 ctl AND 7 \<and> count_load_time (channels (snd st3) ! c) = t3 \<and>
    pit_ioport_write 3 lt t4 st3 = Inr st4 \<and> pit_get_count (channels (snd st3) ! c) t4 = Inr k \<and>
    pit_ioport_read (of_nat c) t5 st4 = Inr (v0, st5) \<and> pit_ioport_read (of_nat c) t6 st5 = Inr (v1, st6) \<and>
    unat v0 + 256 * unat v1 = k mod 65536"
proof -
  have l: "length (channels p) = 3" "channel_wf (channels p ! c)" using assms(1,2) by (auto simp: pit_wf_def)
  have cl: "c < length (channels p)" using l(1) assms(2) by simp
  obtain s1 s2 s3 ts3 where p: "write_control ctl t1 (channels p ! c) ts = Inr (s1, ts)" "write_counter lo t2 s1 ts = Inr (s2, ts)"
    "write_counter hi t3 s2 ts = Inr (s3, ts3)" "count s3 = (if lo = 0 \<and> hi = 0 then 0x10000 else unat lo + 256 * unat hi)"
    "mode s3 = drop_bit 1 ctl AND 7" "count_load_time s3 = t3" "rw_mode s3 = 3" "count_latched s3 = count_latched (channels p ! c)"
    "status_latched s3 = status_latched (channels p ! c)" "channel_wf s3"
    by (rule channel_program [OF l(2) assms(4), of t1 ts lo t2 hi t3])
  obtain k r1 r2 r3 where r: "pit_get_count s3 t4 = Inr k" "write_control lt t4 s3 ts3 = Inr (r1, ts3)" "read_channel t5 r1 = Inr (of_nat k, r2)"
    "read_channel t6 r2 = Inr (of_nat (k div 256), r3)"
    by (rule channel_latch_read [OF p(10) assms(6) p(7), of t4 ts3 t5 t6]) (use p(8,9) assms(7,8) in auto)
  have st: "pit_ioport_write 3 ctl t1 (ts, p) = Inr (ts, p\<lparr>channels := (channels p)[c := s1]\<rparr>)"
    "pit_ioport_write (of_nat c) lo t2 (ts, p\<lparr>channels := (channels p)[c := s1]\<rparr>) = Inr (ts, p\<lparr>channels := (channels p)[c := s2]\<rparr>)"
    "pit_ioport_write (of_nat c) hi t3 (ts, p\<lparr>channels := (channels p)[c := s2]\<rparr>) = Inr (ts3, p\<lparr>channels := (channels p)[c := s3]\<rparr>)"
    "pit_ioport_write 3 lt t4 (ts3, p\<lparr>channels := (channels p)[c := s3]\<rparr>) = Inr (ts3, p\<lparr>channels := (channels p)[c := r1]\<rparr>)"
    using cl p(1-3) r(2) by (simp_all add: write_command [OF assms(2,3)] write_command [OF assms(2,5)] write_port [OF assms(2)] on_channel_def)
  have rd: "pit_ioport_read (of_nat c) t5 (ts3, p\<lparr>channels := (channels p)[c := r1]\<rparr>) = Inr (of_nat k, ts3, p\<lparr>channels := (channels p)[c := r2]\<rparr>)"
    "pit_ioport_read (of_nat c) t6 (ts3, p\<lparr>channels := (channels p)[c := r2]\<rparr>) = Inr (of_nat (k div 256), ts3, p\<lparr>channels := (channels p)[c := r3]\<rparr>)"
    using cl l(1) r(3,4) by (simp_all add: read_port)
  have ch: "channels (snd (ts3, p\<lparr>channels := (channels p)[c := s3]\<rparr>)) ! c = s3" using cl by simp
  show ?thesis
    by (rule exI, rule exI, rule exI, rule exI, rule exI, rule exI, rule exI, rule exI, rule exI, intro conjI)
      (rule st rd, rule st, rule st, simp only: ch p(4), simp only: ch p(5), simp only: ch p(6), rule st, simp only: ch r(1), rule rd, rule rd,
       rule two_bytes)
qed

theorem pit_count_roundtrip_witness:
  "\<exists>st1 st2 st3. pit_ioport_write 3 0x36 5 (idle_timers, reset_pit) = Inr st1 \<and> pit_ioport_write 0 0x9c 6 st1 = Inr st2 \<and>
     pit_ioport_write 0 0x2e 7 st2 = Inr st3 \<and> count (channels (snd st3) ! 0) = 11932"
proof -
  have b: "drop_bit 6 (0x36 :: u8) = of_nat 0" "drop_bit 4 (0x36 :: u8) AND 3 = 3" "drop_bit 6 (0 :: u8) = of_nat 0" "drop_bit 4 (0 :: u8) AND 3 = 0"
    by code_simp+
  have "count_latched (channels reset_pit ! 0) = 0" "\<not> status_latched (channels reset_pit ! 0)" by (simp_all add: reset_pit_def zero_channel_def)
  from pit_count_roundtrip [OF reset_pit_wf _ b this, of 5 idle_timers "0x9c" 6 "0x2e" 7] show ?thesis by fastforce
qed

text \<open>
  In mode 2 the computed time is not that of the next transition: for a count of 100 the output
  rises after 100 clocks, the timer is set for 101.
\<close>

lemma mode2_transition_late:
  "\<exists>s t e. channel_wf s \<and> mode s = 2 \<and> pit_get_next_transition_time s 0 = Inr e \<and> 0 < t \<and> t < e \<and>
     pit_get_out s 0 = Inr False \<and> pit_get_out s t = Inr True"
proof -
  define s where "s = zero_channel\<lparr>mode := 2, count := 100\<rparr>"
  have w: "channel_wf s" "timely s 0" "timely s 84000" by (simp_all add: s_def channel_wf_def timely_def zero_channel_def)
  have c: "pit_clocks s 0 = 0" "pit_clocks s 84000 = 100"
    using clocks_timely(1) [OF w(2)] clocks_timely(1) [OF w(3)] by (simp_all add: s_def zero_channel_def PIT_FREQ_def NANOSECONDS_PER_SECOND_def)
  have n: "next_clock s 0 = Some 101" by (simp add: next_clock_def next_transition_def s_def)
  have "pit_get_next_transition_time s 0 = Inr 84647"
  proof -
    have "count_load_time s = 0" by (simp add: s_def zero_channel_def)
    then show ?thesis using next_time_wf [OF w(1,2)] n by (simp add: c PIT_FREQ_def NANOSECONDS_PER_SECOND_def)
  qed
  moreover have "pit_get_out s 0 = Inr False" "pit_get_out s 84000 = Inr True"
    by (simp_all add: get_out_wf [OF w(1)] c out_bit_def) (simp_all add: s_def)
  ultimately show ?thesis using w(1) by (intro exI [of _ s] exI [of _ 84000] exI [of _ 84647]) (simp add: s_def)
qed

end
