(* ===== verification/Local_Apic.thy ===== *)
theory Local_Apic
  imports Qemu_Timer
begin

text \<open>
  The registers of the local interrupt controller (\<open>include/hw/i386/apic_internal.h\<close>) and the part of
  \<open>src/hw/intc/apic.c\<close> and \<open>apic_common.c\<close> that looks at nothing else: the bit tables, the priority
  rules and the timer arithmetic. Times are integers; the shadow page of the task priority (VAPIC) is
  left out, its address is zero and asserted to stay so.
\<close>

section \<open>Registers\<close>

record lapic =
  apicbase :: u32
  apic_id :: u8
  initial_apic_id :: u32
  version :: u8
  arb_id :: u8
  tpr :: u8
  spurious_vec :: u32
  log_dest :: u8
  dest_mode :: u8
  isr_tab :: "u32 list"
  tmr_tab :: "u32 list"
  irr_tab :: "u32 list"
  lvt :: "u32 list"
  esr :: u32
  icr :: "u32 list"
  divide_conf :: u32
  count_shift :: nat
  initial_count :: u32
  initial_count_load_time :: int
  next_time :: int
  apic_timer_id :: nat
  timer_expiry :: int
  sipi_vector :: u8
  wait_for_sipi :: bool

definition APIC_LVT_TIMER :: nat where "APIC_LVT_TIMER = 0"
definition APIC_LVT_LINT0 :: nat where "APIC_LVT_LINT0 = 3"
definition APIC_LVT_LINT1 :: nat where "APIC_LVT_LINT1 = 4"
definition APIC_LVT_NB :: nat where "APIC_LVT_NB = 6"
definition APIC_LVT_TIMER_PERIODIC :: u32 where "APIC_LVT_TIMER_PERIODIC = BIT 17"
definition APIC_LVT_MASKED :: u32 where "APIC_LVT_MASKED = BIT 16"
definition APIC_LVT_LEVEL_TRIGGER :: u32 where "APIC_LVT_LEVEL_TRIGGER = BIT 15"
definition APIC_SV_DIRECTED_IO :: u32 where "APIC_SV_DIRECTED_IO = BIT 12"
definition APIC_SV_ENABLE :: u32 where "APIC_SV_ENABLE = BIT 8"
definition APIC_ESR_ILLEGAL_ADDRESS :: u32 where "APIC_ESR_ILLEGAL_ADDRESS = BIT 7"
definition MSR_IA32_APICBASE_BSP :: u32 where "MSR_IA32_APICBASE_BSP = BIT 8"
definition MSR_IA32_APICBASE_EXTD :: u32 where "MSR_IA32_APICBASE_EXTD = BIT 10"
definition MSR_IA32_APICBASE_ENABLE :: u32 where "MSR_IA32_APICBASE_ENABLE = BIT 11"
definition APIC_DEFAULT_ADDRESS :: u32 where "APIC_DEFAULT_ADDRESS = 0xfee00000"

section \<open>Bit tables\<close>

definition apic_set_bit :: "u32 list \<Rightarrow> nat \<Rightarrow> u32 list" where
  "apic_set_bit tab index = (let i = index div 32 in tab[i := tab ! i OR BIT (index mod 32)])"

definition apic_reset_bit :: "u32 list \<Rightarrow> nat \<Rightarrow> u32 list" where
  "apic_reset_bit tab index = (let i = index div 32 in tab[i := tab ! i AND NOT (BIT (index mod 32))])"

definition apic_get_bit :: "u32 list \<Rightarrow> nat \<Rightarrow> bool" where
  "apic_get_bit tab index \<longleftrightarrow> tst (tab ! (index div 32)) (BIT (index mod 32))"

definition clz32 :: "u32 \<Rightarrow> nat" where
  "clz32 v = length (takeWhile (\<lambda>i. \<not> bit v i) (rev [0..<32]))"

definition ctz32 :: "u32 \<Rightarrow> nat" where
  "ctz32 v = length (takeWhile (\<lambda>i. \<not> bit v i) [0..<32])"

definition apic_fls_bit :: "u32 \<Rightarrow> int" where
  "apic_fls_bit v = 31 - int (clz32 v)"

definition apic_ffs_bit :: "u32 \<Rightarrow> int" where
  "apic_ffs_bit v = int (ctz32 v)"

text \<open>The loop looks at the words \<open>n - 1\<close> down to 0.\<close>

fun highest_from :: "u32 list \<Rightarrow> nat \<Rightarrow> int" where
  "highest_from tab 0 = - 1"
| "highest_from tab (Suc n) = (if tab ! n \<noteq> 0 then int n * 32 + apic_fls_bit (tab ! n) else highest_from tab n)"

definition get_highest_priority_int :: "u32 list \<Rightarrow> int" where
  "get_highest_priority_int tab = highest_from tab 8"

section \<open>Priorities\<close>

definition apic_get_ppr :: "lapic \<Rightarrow> int" where
  "apic_get_ppr s =
     (let t = uint (tpr s) div 16;
          isrv = get_highest_priority_int (isr_tab s);
          isrv = (if isrv < 0 then 0 else isrv) div 16
      in if t \<ge> isrv then uint (tpr s) else isrv * 16)"

text \<open>Negative for an interrupt of too low a priority, 0 for none, else the vector.\<close>

definition apic_irq_pending :: "lapic \<Rightarrow> int" where
  "apic_irq_pending s =
     (if spurious_vec s AND APIC_SV_ENABLE = 0 then 0
      else let irrv = get_highest_priority_int (irr_tab s) in
        if irrv < 0 then 0
        else let ppr = apic_get_ppr s in
          if ppr \<noteq> 0 \<and> irrv AND 0xf0 \<le> ppr AND 0xf0 then - 1 else irrv)"

section \<open>The timer\<close>

definition apic_get_current_count :: "int \<Rightarrow> lapic \<Rightarrow> u32" where
  "apic_get_current_count now s =
     (let d = (now - initial_count_load_time s) div 2 ^ count_shift s in
      if lvt s ! APIC_LVT_TIMER AND APIC_LVT_TIMER_PERIODIC \<noteq> 0 then
        word_of_int (uint (initial_count s) - (d mod 2 ^ 64) mod (uint (initial_count s) + 1))
      else if d \<ge> uint (initial_count s) then 0
      else word_of_int (uint (initial_count s) - d))"

definition apic_next_timer :: "int \<Rightarrow> lapic \<Rightarrow> bool \<times> lapic" where
  "apic_next_timer now s =
     (let s = s\<lparr>timer_expiry := - 1\<rparr>; ic = uint (initial_count s) in
      if lvt s ! APIC_LVT_TIMER AND APIC_LVT_MASKED \<noteq> 0 then (False, s)
      else let d = (now - initial_count_load_time s) div 2 ^ count_shift s in
        if lvt s ! APIC_LVT_TIMER AND APIC_LVT_TIMER_PERIODIC \<noteq> 0 then
          if ic = 0 then (False, s)
          else let d = to_int64 (((d mod 2 ^ 64) div (ic + 1) + 1) * (ic + 1));
                   n = initial_count_load_time s + d * 2 ^ count_shift s
               in (True, s\<lparr>next_time := n, timer_expiry := n\<rparr>)
        else if d \<ge> ic then (False, s)
        else let n = initial_count_load_time s + (ic + 1) * 2 ^ count_shift s
             in (True, s\<lparr>next_time := n, timer_expiry := n\<rparr>))"

section \<open>Facts about the bit tables\<close>

definition tab_wf :: "u32 list \<Rightarrow> bool" where
  "tab_wf tab \<longleftrightarrow> length tab = 8"

lemma get_bit_iff: "apic_get_bit tab i \<longleftrightarrow> bit (tab ! (i div 32)) (i mod 32)"
  by (simp add: apic_get_bit_def and_exp_eq_0_iff_not_bit)

lemma set_bit_wf [simp]: "tab_wf (apic_set_bit tab i) = tab_wf tab" "tab_wf (apic_reset_bit tab i) = tab_wf tab"
  by (simp_all add: tab_wf_def apic_set_bit_def apic_reset_bit_def Let_def)

lemma index_eq: "(i :: nat) = j \<longleftrightarrow> i div 32 = j div 32 \<and> i mod 32 = j mod 32"
  by (metis div_mult_mod_eq)

lemma get_set_bit: "tab_wf tab \<Longrightarrow> i < 256 \<Longrightarrow> j < 256 \<Longrightarrow> apic_get_bit (apic_set_bit tab i) j \<longleftrightarrow> j = i \<or> apic_get_bit tab j"
  by (auto simp: get_bit_iff apic_set_bit_def Let_def tab_wf_def nth_list_update index_eq [of j i] bit_simps)

lemma get_reset_bit: "tab_wf tab \<Longrightarrow> i < 256 \<Longrightarrow> j < 256 \<Longrightarrow> apic_get_bit (apic_reset_bit tab i) j \<longleftrightarrow> j \<noteq> i \<and> apic_get_bit tab j"
  by (auto simp: get_bit_iff apic_reset_bit_def Let_def tab_wf_def nth_list_update index_eq [of j i] bit_simps)

lemma clz_spec:
  assumes "v \<noteq> 0"
  shows "clz32 v < 32" "bit v (31 - clz32 v)" "\<And>i. 31 - clz32 v < i \<Longrightarrow> \<not> bit v i"
proof -
  define xs where "xs = rev [0..<32::nat]"
  have nth: "xs ! k = 31 - k" if "k < 32" for k using that by (simp add: xs_def rev_nth)
  have len: "length xs = 32" by (simp add: xs_def)
  obtain n where n: "bit v n" using assms by (auto simp: bit_eq_iff)
  then have n32: "n < 32" using bit_imp_le_length [OF n] by simp
  then have "\<not> (\<forall>x \<in> set xs. \<not> bit v x)" using n by (auto simp: xs_def)
  then have lt: "clz32 v < 32" unfolding clz32_def xs_def [symmetric] using len
    by (metis nat_less_le length_takeWhile_le takeWhile_eq_all_conv takeWhile_eq_take take_all)
  then show "clz32 v < 32" .
  show "bit v (31 - clz32 v)"
    using nth_length_takeWhile [of "\<lambda>i. \<not> bit v i" xs] lt len nth unfolding clz32_def xs_def [symmetric] by simp
  show "\<not> bit v i" if "31 - clz32 v < i" for i
  proof (cases "i < 32")
    case True
    have "31 - i < length (takeWhile (\<lambda>i. \<not> bit v i) xs)" using that lt True unfolding clz32_def xs_def [symmetric] by simp
    then have "\<not> bit v (takeWhile (\<lambda>i. \<not> bit v i) xs ! (31 - i))" using nth_mem set_takeWhileD by fast
    moreover have "takeWhile (\<lambda>i. \<not> bit v i) xs ! (31 - i) = i"
      using takeWhile_nth [OF \<open>31 - i < _\<close>] nth [of "31 - i"] True by simp
    ultimately show ?thesis by simp
  next
    case False
    then show ?thesis using bit_imp_le_length [of v i] by auto
  qed
qed

lemma fls_spec: "v \<noteq> 0 \<Longrightarrow> apic_fls_bit v = int (31 - clz32 v)"
  using clz_spec(1) [of v] by (simp add: apic_fls_bit_def)

text \<open>The result of the search is the number of the highest bit that is set, or -1.\<close>

lemma highest_from_spec:
  assumes "tab_wf tab" "n \<le> 8"
  shows "(highest_from tab n = - 1 \<and> (\<forall>i < 32 * n. \<not> apic_get_bit tab i)) \<or>
    (\<exists>k < 32 * n. highest_from tab n = int k \<and> apic_get_bit tab k \<and> (\<forall>i < 32 * n. k < i \<longrightarrow> \<not> apic_get_bit tab i))"
  using assms(2)
proof (induction n)
  case (Suc n)
  show ?case
  proof (cases "tab ! n = 0")
    case True
    have "\<not> apic_get_bit tab i" if "32 * n \<le> i" "i < 32 * Suc n" for i
    proof -
      have "i div 32 = n" using that by (simp add: div_nat_eqI)
      then show ?thesis using True by (simp add: get_bit_iff)
    qed
    moreover have "highest_from tab (Suc n) = highest_from tab n" using True by simp
    moreover have "32 * n < 32 * Suc n" by simp
    moreover have "n \<le> 8" using Suc.prems by simp
    from Suc.IH [OF this] consider "highest_from tab n = - 1" "\<forall>i < 32 * n. \<not> apic_get_bit tab i"
      | k where "k < 32 * n" "highest_from tab n = int k" "apic_get_bit tab k" "\<forall>i < 32 * n. k < i \<longrightarrow> \<not> apic_get_bit tab i" by blast
    then show ?thesis
    proof cases
      case 1
      then show ?thesis using calculation by (metis not_le)
    next
      case (2 k)
      then have "k < 32 * Suc n" by simp
      then show ?thesis using 2 calculation by (metis not_le)
    qed
  next
    case False
    define b where "b = 31 - clz32 (tab ! n)"
    define k where "k = n * 32 + b"
    note c = clz_spec [OF False, folded b_def]
    have "b < 32" by (simp add: b_def)
    then have kd: "k div 32 = n" "k mod 32 = b" by (simp_all add: k_def)
    have "\<not> apic_get_bit tab i" if "k < i" "i < 32 * Suc n" for i
    proof -
      have "i div 32 = n" using that by (simp add: k_def div_nat_eqI)
      moreover from this have "b < i mod 32" using that(1) by (simp add: k_def minus_div_mult_eq_mod [symmetric])
      ultimately show ?thesis using c(3) by (simp add: get_bit_iff)
    qed
    moreover have "apic_get_bit tab k" using c(2) kd by (simp add: get_bit_iff)
    moreover have "highest_from tab (Suc n) = int k" using False by (simp add: fls_spec k_def b_def [symmetric])
    moreover have "k < 32 * Suc n" using \<open>b < 32\<close> by (simp add: k_def)
    ultimately show ?thesis by blast
  qed
qed simp

lemma highest_spec:
  assumes "tab_wf tab"
  obtains "get_highest_priority_int tab = - 1" "\<And>i. i < 256 \<Longrightarrow> \<not> apic_get_bit tab i"
  | k where "k < 256" "get_highest_priority_int tab = int k" "apic_get_bit tab k" "\<And>i. i < 256 \<Longrightarrow> k < i \<Longrightarrow> \<not> apic_get_bit tab i"
  using highest_from_spec [OF assms, of 8] unfolding get_highest_priority_int_def by auto

end
