(* ===== verification/Irq_Chips.thy ===== *)
theory Irq_Chips
  imports I8259 Local_Apic
begin

text \<open>
  The interrupt controllers of the machine together: the local controller (\<open>src/hw/intc/apic.c\<close>,
  \<open>apic_common.c\<close>), the I/O controller (\<open>src/hw/intc/ioapic.c\<close>, \<open>ioapic_common.c\<close>), the pair of 8259s of
  theory \<open>I8259\<close>, and the wiring between them and the processor (\<open>src/hw/i386/pc.c\<close>,
  \<open>src/target/i386/seg_helper.c\<close>). The machine has one processor and one static local controller, at
  index 0 of \<open>local_apics\<close>. The I/O controller sends its messages by a store to the window of the local
  controller; a message can in principle be taken for a register access, which may signal an end of
  interrupt and reach the I/O controller again, so that the operations on this path take the store as
  an argument and the knot is tied with fuel.
\<close>

section \<open>State\<close>

record ioapic =
  ioapic_id :: u8
  ioregsel :: u8
  ioapic_irr :: u32
  ioredtbl :: "u64 list"
  ioapic_version :: u8
  irq_eoi :: "nat list"
  delayed_ioapic_service_timer :: nat

record chips =
  apic :: lapic
  io_apic :: ioapic
  isa_pic :: pics
  tmrs :: timers
  interrupt_request :: u32
  interrupt_context :: bool
  apic_irq_delivered :: int

definition CPU_INTERRUPT_HARD :: u32 where "CPU_INTERRUPT_HARD = 0x2"
definition CPU_INTERRUPT_POLL :: u32 where "CPU_INTERRUPT_POLL = 0x10"
definition CPU_INTERRUPT_SMI :: u32 where "CPU_INTERRUPT_SMI = 0x40"
definition CPU_INTERRUPT_NMI :: u32 where "CPU_INTERRUPT_NMI = 0x200"
definition CPU_INTERRUPT_INIT :: u32 where "CPU_INTERRUPT_INIT = 0x400"
definition CPU_INTERRUPT_SIPI :: u32 where "CPU_INTERRUPT_SIPI = 0x800"

text \<open>The request to leave the translated code, which goes with a new request, is left out.\<close>

definition cpu_interrupt :: "u32 \<Rightarrow> chips \<Rightarrow> chips" where
  "cpu_interrupt m st = st\<lparr>interrupt_request := interrupt_request st OR m\<rparr>"

definition cpu_reset_interrupt :: "u32 \<Rightarrow> chips \<Rightarrow> chips" where
  "cpu_reset_interrupt m st = st\<lparr>interrupt_request := interrupt_request st AND NOT m\<rparr>"

definition qemu_cpu_is_self :: "chips \<Rightarrow> bool" where
  "qemu_cpu_is_self st \<longleftrightarrow> \<not> interrupt_context st"

section \<open>The local controller and the processor\<close>

definition apic_accept_pic_intr :: "lapic \<Rightarrow> bool" where
  "apic_accept_pic_intr s \<longleftrightarrow> apicbase s AND MSR_IA32_APICBASE_ENABLE = 0 \<or> lvt s ! APIC_LVT_LINT0 AND APIC_LVT_MASKED = 0"

definition apic_update_irq :: "chips \<Rightarrow> chips" where
  "apic_update_irq st =
     (if \<not> qemu_cpu_is_self st then cpu_interrupt CPU_INTERRUPT_POLL st
      else if apic_irq_pending (apic st) > 0 then cpu_interrupt CPU_INTERRUPT_HARD st
      else if \<not> apic_accept_pic_intr (apic st) \<or> \<not> pic_get_output (mst (isa_pic st)) then cpu_reset_interrupt CPU_INTERRUPT_HARD st
      else st)"

definition apic_poll_irq :: "chips \<Rightarrow> chips" where
  "apic_poll_irq st = apic_update_irq st"

definition apic_report_irq_delivered :: "bool \<Rightarrow> chips \<Rightarrow> chips" where
  "apic_report_irq_delivered d st = st\<lparr>apic_irq_delivered := apic_irq_delivered st + (if d then 1 else 0)\<rparr>"

definition apic_set_irq :: "nat \<Rightarrow> bool \<Rightarrow> chips \<Rightarrow> chips" where
  "apic_set_irq v level st =
     (let st = apic_report_irq_delivered (\<not> apic_get_bit (irr_tab (apic st)) v) st; s = apic st
      in apic_update_irq (st\<lparr>apic := s\<lparr>irr_tab := apic_set_bit (irr_tab s) v,
           tmr_tab := (if level then apic_set_bit (tmr_tab s) v else apic_reset_bit (tmr_tab s) v)\<rparr>\<rparr>))"

definition lvt_mode :: "u32 \<Rightarrow> u32" where
  "lvt_mode l = drop_bit 8 l AND 7"

definition apic_local_deliver :: "nat \<Rightarrow> chips \<Rightarrow> chips" where
  "apic_local_deliver vector st =
     (let l = lvt (apic st) ! vector in
      if l AND APIC_LVT_MASKED \<noteq> 0 then st
      else if lvt_mode l = 2 then cpu_interrupt CPU_INTERRUPT_SMI st
      else if lvt_mode l = 4 then cpu_interrupt CPU_INTERRUPT_NMI st
      else if lvt_mode l = 7 then cpu_interrupt CPU_INTERRUPT_HARD st
      else if lvt_mode l = 0 then
        apic_set_irq (unat (l AND 0xff))
          ((vector = APIC_LVT_LINT0 \<or> vector = APIC_LVT_LINT1) \<and> l AND APIC_LVT_LEVEL_TRIGGER \<noteq> 0) st
      else st)"

definition apic_deliver_pic_intr :: "bool \<Rightarrow> chips \<Rightarrow> chips" where
  "apic_deliver_pic_intr level st =
     (if level then apic_local_deliver APIC_LVT_LINT0 st
      else let l = lvt (apic st) ! APIC_LVT_LINT0 in
        if lvt_mode l = 0 then
          if l AND APIC_LVT_LEVEL_TRIGGER = 0 then st
          else apic_update_irq (st\<lparr>apic := (apic st)\<lparr>irr_tab := apic_reset_bit (irr_tab (apic st)) (unat (l AND 0xff))\<rparr>\<rparr>)
        else if lvt_mode l = 7 then apic_update_irq st
        else st)"

definition apic_external_nmi :: "chips \<Rightarrow> chips" where
  "apic_external_nmi st = apic_local_deliver APIC_LVT_LINT1 st"

text \<open>
  The output line of the 8259s. A step of the pair drives the line at most once, as its last action;
  the theory of the pair keeps the levels driven in the list \<open>parent_irq\<close>.
\<close>

definition pic_irq_request :: "bool \<Rightarrow> chips \<Rightarrow> chips" where
  "pic_irq_request level st = (if apic_accept_pic_intr (apic st) then apic_deliver_pic_intr level st else st)"

definition pic_step :: "(pics \<Rightarrow> pics) \<Rightarrow> chips \<Rightarrow> chips" where
  "pic_step f st =
     (let ps = f ((isa_pic st)\<lparr>parent_irq := []\<rparr>)
      in fold pic_irq_request (rev (parent_irq ps)) (st\<lparr>isa_pic := ps\<lparr>parent_irq := parent_irq ps @ parent_irq (isa_pic st)\<rparr>\<rparr>))"

text \<open>\<open>pic_read_irq\<close> on the whole machine, one acknowledge cycle at a time.\<close>

definition chips_read_irq :: "chips \<Rightarrow> nat \<times> chips" where
  "chips_read_irq st =
     (case pic_get_irq (mst (isa_pic st)) of
        Some irq \<Rightarrow>
          if irq = 2 then
            (case pic_get_irq (slv (isa_pic st)) of
               Some irq2 \<Rightarrow>
                 let st = pic_step (pic_intack Slave irq2) st
                 in (unat (irq_base (slv (isa_pic st))) + irq2, pic_step (pic_intack Master irq) st)
             | None \<Rightarrow> (unat (irq_base (slv (isa_pic st))) + 7, pic_step (pic_intack Master irq) st))
          else (unat (irq_base (mst (isa_pic st))) + irq, pic_step (pic_intack Master irq) st)
      | None \<Rightarrow> (unat (irq_base (mst (isa_pic st))) + 7, st))"

section \<open>Messages on the bus\<close>

text \<open>\<open>local_apics[i]\<close> is set for \<open>i = 0\<close> only.\<close>

definition local_apic_at :: "nat \<Rightarrow> bool" where
  "local_apic_at i \<longleftrightarrow> i = 0"

definition foreach_apic :: "u32 list \<Rightarrow> (chips \<Rightarrow> chips) \<Rightarrow> chips \<Rightarrow> chips" where
  "foreach_apic bm f st =
     fold (\<lambda>k st. if bit (bm ! (k div 32)) (k mod 32) \<and> local_apic_at k then f st else st) [0..<256] st"

fun first_dest :: "u32 list \<Rightarrow> nat \<Rightarrow> int" where
  "first_dest [] i = - 1"
| "first_dest (w # ws) i = (if w \<noteq> 0 then int i * 32 + apic_ffs_bit w else first_dest ws (i + 1))"

definition apic_bus_deliver :: "u32 list \<Rightarrow> u8 \<Rightarrow> u8 \<Rightarrow> bool \<Rightarrow> chips \<Rightarrow> chips" where
  "apic_bus_deliver bm delivery_mode vector_num trigger_mode st =
     (if delivery_mode = 1 then
        let d = first_dest bm 0 in
        if d \<ge> 0 \<and> local_apic_at (nat d) then apic_set_irq (unat vector_num) trigger_mode st else st
      else if delivery_mode = 2 then foreach_apic bm (cpu_interrupt CPU_INTERRUPT_SMI) st
      else if delivery_mode = 4 then foreach_apic bm (cpu_interrupt CPU_INTERRUPT_NMI) st
      else if delivery_mode = 5 then foreach_apic bm (cpu_interrupt CPU_INTERRUPT_INIT) st
      else if delivery_mode = 0 \<or> delivery_mode = 7 then foreach_apic bm (apic_set_irq (unat vector_num) trigger_mode) st
      else st)"

definition apic_find_dest :: "u8 \<Rightarrow> lapic \<Rightarrow> int" where
  "apic_find_dest dest s =
     (if local_apic_at (unat dest) \<and> apic_id s = dest then int (unat dest)
      else if apic_id s = dest then 0 else - 1)"

definition apic_get_delivery_bitmask :: "u8 \<Rightarrow> bool \<Rightarrow> lapic \<Rightarrow> u32 list" where
  "apic_get_delivery_bitmask dest logical s =
     (if \<not> logical then
        if dest = 0xff then replicate 8 (- 1)
        else let idx = apic_find_dest dest s in
          if idx \<ge> 0 then apic_set_bit (replicate 8 0) (nat idx) else replicate 8 0
      else if dest_mode s = 0xf then
        if dest AND log_dest s \<noteq> 0 then apic_set_bit (replicate 8 0) 0 else replicate 8 0
      else if dest_mode s = 0 then
        if dest AND 0xf0 = log_dest s AND 0xf0 \<and> dest AND log_dest s AND 0x0f \<noteq> 0 then apic_set_bit (replicate 8 0) 0 else replicate 8 0
      else replicate 8 0)"

definition apic_deliver_irq :: "u8 \<Rightarrow> bool \<Rightarrow> u8 \<Rightarrow> u8 \<Rightarrow> bool \<Rightarrow> chips \<Rightarrow> chips" where
  "apic_deliver_irq dest logical delivery_mode vector_num trigger_mode st =
     apic_bus_deliver (apic_get_delivery_bitmask dest logical (apic st)) delivery_mode vector_num trigger_mode st"

definition apic_send_msi :: "u64 \<Rightarrow> u32 \<Rightarrow> chips \<Rightarrow> chips" where
  "apic_send_msi addr data st =
     apic_deliver_irq (ucast (drop_bit 12 (addr AND 0x000ff000))) (bit addr 2) (ucast (drop_bit 8 data AND 7)) (ucast (data AND 0xff))
       (bit data 15) st"

definition apic_startup :: "u8 \<Rightarrow> chips \<Rightarrow> chips" where
  "apic_startup v st = cpu_interrupt CPU_INTERRUPT_SIPI (st\<lparr>apic := (apic st)\<lparr>sipi_vector := v\<rparr>\<rparr>)"

definition apic_deliver :: "u8 \<Rightarrow> bool \<Rightarrow> u8 \<Rightarrow> u8 \<Rightarrow> bool \<Rightarrow> chips \<Rightarrow> chips" where
  "apic_deliver dest logical delivery_mode vector_num trigger_mode st =
     (let s = apic st; i0 = icr s ! 0; sh = drop_bit 18 i0 AND 3;
          bm = (if sh = 0 then apic_get_delivery_bitmask dest logical s
                else if sh = 1 then apic_set_bit (replicate 8 0) (unat (apic_id s))
                else if sh = 2 then replicate 8 (- 1)
                else apic_reset_bit (replicate 8 (- 1)) (unat (apic_id s)))
      in if delivery_mode = 5 \<and> \<not> bit i0 14 \<and> bit i0 15 then
           foreach_apic bm (\<lambda>st. st\<lparr>apic := (apic st)\<lparr>arb_id := apic_id (apic st)\<rparr>\<rparr>) st
         else if delivery_mode = 6 then foreach_apic bm (apic_startup vector_num) st
         else apic_bus_deliver bm delivery_mode vector_num trigger_mode st)"

section \<open>The I/O controller\<close>

definition IOAPIC_NUM_PINS :: nat where "IOAPIC_NUM_PINS = 24"
definition IOAPIC_LVT_REMOTE_IRR :: u64 where "IOAPIC_LVT_REMOTE_IRR = BIT 14"
definition IOAPIC_LVT_MASKED :: u64 where "IOAPIC_LVT_MASKED = BIT 16"
definition IOAPIC_LVT_TRIGGER_MODE :: u64 where "IOAPIC_LVT_TRIGGER_MODE = BIT 15"
definition IOAPIC_RO_BITS :: u64 where "IOAPIC_RO_BITS = BIT 14 OR BIT 12"
definition SUCCESSIVE_IRQ_MAX_COUNT :: nat where "SUCCESSIVE_IRQ_MAX_COUNT = 10000"

record ioapic_entry_info =
  masked :: bool
  trig_mode :: bool
  dest_idx :: u16
  info_dest_mode :: bool
  delivery_mode :: u8
  vector :: u8
  addr :: u32
  data :: u32

definition ioapic_entry_parse :: "u64 \<Rightarrow> chips \<Rightarrow> ioapic_entry_info \<times> chips" where
  "ioapic_entry_parse entry st =
     (let dm = ucast (drop_bit 8 entry AND 7);
          (v, st) = (if dm = 7 then let (n, st) = chips_read_irq st in (of_nat n, st) else (ucast (entry AND 0xff), st));
          idx = ucast (drop_bit 48 entry AND 0xffff);
          dmode = bit entry 11; tm = bit entry 15
      in (\<lparr>masked = bit entry 16, trig_mode = tm, dest_idx = idx, info_dest_mode = dmode, delivery_mode = dm, vector = v,
           addr = APIC_DEFAULT_ADDRESS OR push_bit 4 (ucast idx) OR push_bit 2 (of_bool dmode),
           data = ucast v OR push_bit 15 (of_bool tm) OR push_bit 8 (ucast dm)\<rparr>, st))"

definition put_ioapic :: "ioapic \<Rightarrow> chips \<Rightarrow> chips" where
  "put_ioapic s st = st\<lparr>io_apic := s\<rparr>"

definition set_redtbl :: "nat \<Rightarrow> u64 \<Rightarrow> chips \<Rightarrow> chips" where
  "set_redtbl i e st = st\<lparr>io_apic := (io_apic st)\<lparr>ioredtbl := (ioredtbl (io_apic st))[i := e]\<rparr>\<rparr>"

definition service_pin :: "(u32 \<Rightarrow> u32 \<Rightarrow> chips \<Rightarrow> chips option) \<Rightarrow> nat \<Rightarrow> chips \<Rightarrow> chips option" where
  "service_pin send i st =
     (if bit (ioapic_irr (io_apic st)) i then
        let (info, st) = ioapic_entry_parse (ioredtbl (io_apic st) ! i) st in
        if masked info then Some st
        else if \<not> trig_mode info then
          send (addr info) (data info) (st\<lparr>io_apic := (io_apic st)\<lparr>ioapic_irr := ioapic_irr (io_apic st) AND NOT (BIT i)\<rparr>\<rparr>)
        else
          let e = ioredtbl (io_apic st) ! i;
              st' = set_redtbl i (e OR IOAPIC_LVT_REMOTE_IRR) st
          in if e AND IOAPIC_LVT_REMOTE_IRR \<noteq> 0 then Some st' else send (addr info) (data info) st'
      else Some st)"

fun service_pins :: "(u32 \<Rightarrow> u32 \<Rightarrow> chips \<Rightarrow> chips option) \<Rightarrow> nat list \<Rightarrow> chips \<Rightarrow> chips option" where
  "service_pins send [] st = Some st"
| "service_pins send (i # is) st = (case service_pin send i st of None \<Rightarrow> None | Some st \<Rightarrow> service_pins send is st)"

definition ioapic_service :: "(u32 \<Rightarrow> u32 \<Rightarrow> chips \<Rightarrow> chips option) \<Rightarrow> chips \<Rightarrow> chips option" where
  "ioapic_service send st = service_pins send [0..<IOAPIC_NUM_PINS] st"

definition set_irr :: "nat \<Rightarrow> bool \<Rightarrow> chips \<Rightarrow> chips" where
  "set_irr n b st =
     st\<lparr>io_apic := (io_apic st)\<lparr>ioapic_irr := (if b then ioapic_irr (io_apic st) OR BIT n else ioapic_irr (io_apic st) AND NOT (BIT n))\<rparr>\<rparr>"

definition ioapic_set_irq :: "(u32 \<Rightarrow> u32 \<Rightarrow> chips \<Rightarrow> chips option) \<Rightarrow> nat \<Rightarrow> bool \<Rightarrow> chips \<Rightarrow> chips option" where
  "ioapic_set_irq send vec level st =
     (let vec = (if vec = 0 then 2 else vec) in
      if vec < IOAPIC_NUM_PINS then
        let entry = ioredtbl (io_apic st) ! vec in
        if bit entry 15 then
          if level then
            let st = set_irr vec True st in
            if entry AND IOAPIC_LVT_REMOTE_IRR = 0 then ioapic_service send st else Some st
          else Some (set_irr vec False st)
        else if level \<and> entry AND IOAPIC_LVT_MASKED = 0 then ioapic_service send (set_irr vec True st)
        else Some st
      else Some st)"

definition put_eoi :: "nat \<Rightarrow> nat \<Rightarrow> chips \<Rightarrow> chips" where
  "put_eoi n v st = st\<lparr>io_apic := (io_apic st)\<lparr>irq_eoi := (irq_eoi (io_apic st))[n := v]\<rparr>\<rparr>"

definition eoi_pin :: "(u32 \<Rightarrow> u32 \<Rightarrow> chips \<Rightarrow> chips option) \<Rightarrow> nat \<Rightarrow> int \<Rightarrow> nat \<Rightarrow> chips \<Rightarrow> chips option" where
  "eoi_pin send vec now n st =
     (let entry = ioredtbl (io_apic st) ! n in
      if unat (entry AND 0xff) \<noteq> vec \<or> \<not> bit entry 15 then Some st
      else if entry AND IOAPIC_LVT_REMOTE_IRR = 0 then Some st
      else
        let st = set_redtbl n (entry AND NOT IOAPIC_LVT_REMOTE_IRR) st in
        if entry AND IOAPIC_LVT_MASKED = 0 \<and> bit (ioapic_irr (io_apic st)) n then
          let c = irq_eoi (io_apic st) ! n + 1 in
          if c \<ge> SUCCESSIVE_IRQ_MAX_COUNT then
            let st = put_eoi n 0 st
            in Some (st\<lparr>tmrs := timer_mod_anticipate (delayed_ioapic_service_timer (io_apic st)) (now + 1000000000 div 100) (tmrs st)\<rparr>)
          else ioapic_service send (put_eoi n c st)
        else Some (put_eoi n 0 st))"

fun eoi_pins :: "(u32 \<Rightarrow> u32 \<Rightarrow> chips \<Rightarrow> chips option) \<Rightarrow> nat \<Rightarrow> int \<Rightarrow> nat list \<Rightarrow> chips \<Rightarrow> chips option" where
  "eoi_pins send vec now [] st = Some st"
| "eoi_pins send vec now (n # ns) st =
     (case eoi_pin send vec now n st of None \<Rightarrow> None | Some st \<Rightarrow> eoi_pins send vec now ns st)"

definition ioapic_eoi_broadcast :: "(u32 \<Rightarrow> u32 \<Rightarrow> chips \<Rightarrow> chips option) \<Rightarrow> nat \<Rightarrow> int \<Rightarrow> chips \<Rightarrow> chips option" where
  "ioapic_eoi_broadcast send vec now st = eoi_pins send vec now [0..<IOAPIC_NUM_PINS] st"

section \<open>Registers of the local controller\<close>

definition apic_eoi :: "(u32 \<Rightarrow> u32 \<Rightarrow> chips \<Rightarrow> chips option) \<Rightarrow> int \<Rightarrow> chips \<Rightarrow> chips option" where
  "apic_eoi send now st =
     (let s = apic st; isrv = get_highest_priority_int (isr_tab s) in
      if isrv < 0 then Some st
      else
        let st = st\<lparr>apic := s\<lparr>isr_tab := apic_reset_bit (isr_tab s) (nat isrv)\<rparr>\<rparr>
        in map_option apic_update_irq
             (if spurious_vec s AND APIC_SV_DIRECTED_IO = 0 \<and> apic_get_bit (tmr_tab s) (nat isrv)
              then ioapic_eoi_broadcast send (nat isrv) now st else Some st))"

definition apic_check_pic :: "chips \<Rightarrow> bool \<times> chips" where
  "apic_check_pic st =
     (if \<not> apic_accept_pic_intr (apic st) \<or> \<not> pic_get_output (mst (isa_pic st)) then (False, st)
      else (True, apic_deliver_pic_intr True st))"

definition apic_timer_update :: "int \<Rightarrow> chips \<Rightarrow> chips" where
  "apic_timer_update now st =
     (let (b, s) = apic_next_timer now (apic st)
      in st\<lparr>apic := s, tmrs := (if b then timer_mod (apic_timer_id s) (next_time s) (tmrs st) else timer_del (apic_timer_id s) (tmrs st))\<rparr>)"

definition apic_timer :: "chips \<Rightarrow> chips" where
  "apic_timer st = (let st = apic_local_deliver APIC_LVT_TIMER st in apic_timer_update (next_time (apic st)) st)"

definition apic_reg_write :: "(u32 \<Rightarrow> u32 \<Rightarrow> chips \<Rightarrow> chips option) \<Rightarrow> nat \<Rightarrow> u64 \<Rightarrow> int \<Rightarrow> chips \<Rightarrow> chips option" where
  "apic_reg_write send index val now st =
     (let s = apic st in
      if index = 0x02 then Some (st\<lparr>apic := s\<lparr>apic_id := ucast (drop_bit 24 val)\<rparr>\<rparr>)
      else if index = 0x03 then Some st
      else if index = 0x08 then Some (apic_update_irq (st\<lparr>apic := s\<lparr>tpr := ucast val\<rparr>\<rparr>))
      else if index = 0x09 \<or> index = 0x0a then Some st
      else if index = 0x0b then apic_eoi send now st
      else if index = 0x0d then Some (st\<lparr>apic := s\<lparr>log_dest := ucast (drop_bit 24 val)\<rparr>\<rparr>)
      else if index = 0x0e then Some (st\<lparr>apic := s\<lparr>dest_mode := ucast (drop_bit 28 val)\<rparr>\<rparr>)
      else if index = 0x0f then Some (apic_update_irq (st\<lparr>apic := s\<lparr>spurious_vec := ucast (val AND 0x1ff)\<rparr>\<rparr>))
      else if 0x10 \<le> index \<and> index \<le> 0x28 then Some st
      else if index = 0x30 then
        let i0 = ucast val :: u32; s = s\<lparr>icr := (icr s)[0 := i0]\<rparr>
        in Some (apic_deliver (ucast (drop_bit 24 (icr s ! 1))) (bit i0 11) (ucast (drop_bit 8 i0 AND 7)) (ucast (i0 AND 0xff)) (bit i0 15)
             (st\<lparr>apic := s\<rparr>))
      else if index = 0x31 then Some (st\<lparr>apic := s\<lparr>icr := (icr s)[1 := ucast val]\<rparr>\<rparr>)
      else if 0x32 \<le> index \<and> index \<le> 0x37 then
        let n = index - 0x32; st = st\<lparr>apic := s\<lparr>lvt := (lvt s)[n := ucast val]\<rparr>\<rparr>
        in Some (if n = APIC_LVT_TIMER then apic_timer_update now st
                 else if n = APIC_LVT_LINT0 then
                   let (b, st) = apic_check_pic st in if b then apic_update_irq st else st
                 else st)
      else if index = 0x38 then
        Some (apic_timer_update now (st\<lparr>apic := s\<lparr>initial_count := ucast val, initial_count_load_time := now\<rparr>\<rparr>))
      else if index = 0x39 then Some st
      else if index = 0x3e then
        let dc = ucast (val AND 0xb) :: u32; v = (dc AND 3) OR (drop_bit 1 dc AND 4)
        in Some (st\<lparr>apic := s\<lparr>divide_conf := dc, count_shift := (unat v + 1) mod 8\<rparr>\<rparr>)
      else Some (st\<lparr>apic := s\<lparr>esr := esr s OR APIC_ESR_ILLEGAL_ADDRESS\<rparr>\<rparr>))"

text \<open>The offset in the window, the value, the size of the access; the fuel bounds the nesting.\<close>

fun apic_mem_write :: "nat \<Rightarrow> u64 \<Rightarrow> u64 \<Rightarrow> nat \<Rightarrow> int \<Rightarrow> chips \<Rightarrow> chips option" where
  "apic_mem_write 0 a val sz now st = None"
| "apic_mem_write (Suc f) a val sz now st =
     (let index = unat (drop_bit 4 a AND 0xff) in
      if sz < 4 then Some st
      else if a > 0xfff \<or> index = 0 then Some (apic_send_msi a (ucast val) st)
      else apic_reg_write (\<lambda>m d. apic_mem_write f (ucast (m - APIC_DEFAULT_ADDRESS)) (ucast d) 4 now) index val now st)"

abbreviation stl_apic :: "nat \<Rightarrow> int \<Rightarrow> u32 \<Rightarrow> u32 \<Rightarrow> chips \<Rightarrow> chips option" where
  "stl_apic f now \<equiv> \<lambda>m d. apic_mem_write f (ucast (m - APIC_DEFAULT_ADDRESS)) (ucast d) 4 now"

definition apic_mem_read :: "u64 \<Rightarrow> nat \<Rightarrow> int \<Rightarrow> chips \<Rightarrow> u32 \<times> chips" where
  "apic_mem_read a sz now st =
     (let s = apic st; index = unat (drop_bit 4 a AND 0xff) in
      if sz < 4 then (0, st)
      else if index = 0x02 then (push_bit 24 (ucast (apic_id s)), st)
      else if index = 0x03 then (ucast (version s) OR push_bit 16 (of_nat (APIC_LVT_NB - 1)), st)
      else if index = 0x08 then (ucast (tpr s), st)
      else if index = 0x09 then (0, st)
      else if index = 0x0a then (word_of_int (apic_get_ppr s), st)
      else if index = 0x0b then (0, st)
      else if index = 0x0d then (push_bit 24 (ucast (log_dest s)), st)
      else if index = 0x0e then (push_bit 28 (ucast (dest_mode s)) OR 0xfffffff, st)
      else if index = 0x0f then (spurious_vec s, st)
      else if 0x10 \<le> index \<and> index \<le> 0x17 then (isr_tab s ! (index mod 8), st)
      else if 0x18 \<le> index \<and> index \<le> 0x1f then (tmr_tab s ! (index mod 8), st)
      else if 0x20 \<le> index \<and> index \<le> 0x27 then (irr_tab s ! (index mod 8), st)
      else if index = 0x28 then (esr s, st)
      else if index = 0x30 \<or> index = 0x31 then (icr s ! (index mod 2), st)
      else if 0x32 \<le> index \<and> index \<le> 0x37 then (lvt s ! (index - 0x32), st)
      else if index = 0x38 then (initial_count s, st)
      else if index = 0x39 then (apic_get_current_count now s, st)
      else if index = 0x3e then (divide_conf s, st)
      else (0, st\<lparr>apic := s\<lparr>esr := esr s OR APIC_ESR_ILLEGAL_ADDRESS\<rparr>\<rparr>))"


section \<open>Registers of the I/O controller\<close>

definition ioapic_mem_read :: "u64 \<Rightarrow> nat \<Rightarrow> ioapic \<Rightarrow> u32" where
  "ioapic_mem_read a sz s =
     (let a = a AND 0xff in
      if a = 0 then ucast (ioregsel s)
      else if a = 0x10 then
        if sz \<noteq> 4 then 0
        else if ioregsel s = 0 \<or> ioregsel s = 2 then push_bit 24 (ucast (ioapic_id s))
        else if ioregsel s = 1 then ucast (ioapic_version s) OR push_bit 16 (of_nat (IOAPIC_NUM_PINS - 1))
        else let index = (sint (ucast (ioregsel s) :: 32 word) - 0x10) div 2 in
          if 0 \<le> index \<and> index < int IOAPIC_NUM_PINS then
            if bit (ioregsel s) 0 then ucast (drop_bit 32 (ioredtbl s ! nat index)) else ucast (ioredtbl s ! nat index AND 0xffffffff)
          else 0
      else 0)"

definition ioapic_fix_edge_remote_irr :: "u64 \<Rightarrow> u64" where
  "ioapic_fix_edge_remote_irr entry = (if entry AND IOAPIC_LVT_TRIGGER_MODE = 0 then entry AND NOT IOAPIC_LVT_REMOTE_IRR else entry)"

text \<open>The value of a redirection entry after a write of its upper or lower half.\<close>

definition redtbl_written :: "bool \<Rightarrow> u64 \<Rightarrow> u64 \<Rightarrow> u64" where
  "redtbl_written high val entry =
     (let ro_bits = entry AND IOAPIC_RO_BITS;
          e = (if high then (entry AND 0xffffffff) OR push_bit 32 val else (entry AND NOT 0xffffffff) OR val)
      in ioapic_fix_edge_remote_irr ((e AND NOT IOAPIC_RO_BITS) OR ro_bits))"

definition ioapic_mem_write :: "(u32 \<Rightarrow> u32 \<Rightarrow> chips \<Rightarrow> chips option) \<Rightarrow> u64 \<Rightarrow> u64 \<Rightarrow> nat \<Rightarrow> int \<Rightarrow> chips \<Rightarrow> chips option" where
  "ioapic_mem_write send a val sz now st =
     (let a = a AND 0xff; s = io_apic st in
      if a = 0 then Some (st\<lparr>io_apic := s\<lparr>ioregsel := ucast val\<rparr>\<rparr>)
      else if a = 0x10 then
        if sz \<noteq> 4 then Some st
        else if ioregsel s = 0 then Some (st\<lparr>io_apic := s\<lparr>ioapic_id := ucast (drop_bit 24 val AND 0xf)\<rparr>\<rparr>)
        else if ioregsel s = 1 \<or> ioregsel s = 2 then Some st
        else let index = (sint (ucast (ioregsel s) :: 32 word) - 0x10) div 2 in
          if 0 \<le> index \<and> index < int IOAPIC_NUM_PINS then
            let n = nat index
            in ioapic_service send (put_eoi n 0 (set_redtbl n (redtbl_written (bit (ioregsel s) 0) val (ioredtbl s ! n)) st))
          else Some st
      else if a = 0x40 then
        if sz \<noteq> 4 \<or> ioapic_version s \<noteq> 0x20 then Some st
        else ioapic_eoi_broadcast send (unat (ucast val :: u32)) now st
      else Some st)"

definition ioapic_reset_common :: "chips \<Rightarrow> chips" where
  "ioapic_reset_common st =
     st\<lparr>io_apic := (io_apic st)\<lparr>ioapic_id := 0, ioregsel := 0, ioapic_irr := 0, ioredtbl := replicate IOAPIC_NUM_PINS IOAPIC_LVT_MASKED\<rparr>\<rparr>"

definition delayed_ioapic_service_cb :: "(u32 \<Rightarrow> u32 \<Rightarrow> chips \<Rightarrow> chips option) \<Rightarrow> chips \<Rightarrow> chips option" where
  "delayed_ioapic_service_cb send st = ioapic_service send st"

text \<open>A global interrupt line: the first sixteen also enter the 8259s.\<close>

definition gsi_handler :: "(u32 \<Rightarrow> u32 \<Rightarrow> chips \<Rightarrow> chips option) \<Rightarrow> nat \<Rightarrow> bool \<Rightarrow> chips \<Rightarrow> chips option" where
  "gsi_handler send n level st =
     (let st = (if n < 16 then pic_step (isa_set_irq n level) st else st) in ioapic_set_irq send n level st)"

section \<open>The processor takes an interrupt\<close>

text \<open>-1 when the local controller has nothing to deliver.\<close>

definition apic_get_interrupt :: "chips \<Rightarrow> int \<times> chips" where
  "apic_get_interrupt st =
     (if spurious_vec (apic st) AND APIC_SV_ENABLE = 0 then (- 1, st)
      else
        let intno = apic_irq_pending (apic st) in
        if intno = 0 then (- 1, st)
        else let (b, st) = apic_check_pic st in
          if b then (- 1, st)
          else if intno < 0 then (uint (spurious_vec (apic st) AND 0xff), st)
          else let s = apic st in
            (intno, apic_update_irq (st\<lparr>apic := s\<lparr>irr_tab := apic_reset_bit (irr_tab s) (nat intno), isr_tab := apic_set_bit (isr_tab s) (nat intno)\<rparr>\<rparr>)))"

definition cpu_get_pic_interrupt :: "chips \<Rightarrow> int \<times> chips" where
  "cpu_get_pic_interrupt st =
     (let (intno, st) = apic_get_interrupt st in
      if intno \<ge> 0 then (intno, st)
      else if \<not> apic_accept_pic_intr (apic st) then (- 1, st)
      else let (n, st) = chips_read_irq st in (int n, st))"

definition apic_sipi :: "chips \<Rightarrow> bool \<times> chips" where
  "apic_sipi st =
     (let st = cpu_reset_interrupt CPU_INTERRUPT_SIPI st in
      if \<not> wait_for_sipi (apic st) then (False, st)
      else (True, st\<lparr>apic := (apic st)\<lparr>wait_for_sipi := False\<rparr>\<rparr>))"

definition CPU_INTERRUPT_MCE :: u32 where "CPU_INTERRUPT_MCE = 0x1000"
definition CPU_INTERRUPT_VIRQ :: u32 where "CPU_INTERRUPT_VIRQ = 0x100"

text \<open>The flags of the processor that decide which request it takes.\<close>

record x86_flags =
  hflags :: u32
  hflags2 :: u32
  eflags :: u32

definition x86_cpu_pending_interrupt :: "x86_flags \<Rightarrow> u32 \<Rightarrow> u32" where
  "x86_cpu_pending_interrupt env ir =
     (let gif = bit (hflags2 env) 0; hif = bit (hflags2 env) 1; nmi = bit (hflags2 env) 2; vintr = bit (hflags2 env) 3;
          inhibit = bit (hflags env) 3; smm = bit (hflags env) 19; ifl = bit (eflags env) 9
      in if tst ir CPU_INTERRUPT_POLL then CPU_INTERRUPT_POLL
         else if tst ir CPU_INTERRUPT_SIPI then CPU_INTERRUPT_SIPI
         else if gif then
           if tst ir CPU_INTERRUPT_SMI \<and> \<not> smm then CPU_INTERRUPT_SMI
           else if tst ir CPU_INTERRUPT_NMI \<and> \<not> nmi then CPU_INTERRUPT_NMI
           else if tst ir CPU_INTERRUPT_MCE then CPU_INTERRUPT_MCE
           else if tst ir CPU_INTERRUPT_HARD \<and> (vintr \<and> hif \<or> \<not> vintr \<and> ifl \<and> \<not> inhibit) then CPU_INTERRUPT_HARD
           else if tst ir CPU_INTERRUPT_VIRQ \<and> ifl \<and> \<not> inhibit then CPU_INTERRUPT_VIRQ
           else 0
         else 0)"

text \<open>
  What the processor does next: nothing, enters system management mode, starts at a page, or takes an
  interrupt through the descriptor table. The intercepts of a nested guest are left out; the vector of
  a virtual interrupt, which lies in the control block of such a guest, is an argument.
\<close>

datatype cpu_action = NoAction | EnterSmm | StartAt u8 | HardIrq int bool

definition x86_cpu_exec_interrupt :: "int \<Rightarrow> x86_flags \<Rightarrow> chips \<Rightarrow> bool \<times> cpu_action \<times> x86_flags \<times> chips" where
  "x86_cpu_exec_interrupt virq env st =
     (let ir = x86_cpu_pending_interrupt env (interrupt_request st) in
      if ir = 0 then (False, NoAction, env, st)
      else if ir = CPU_INTERRUPT_POLL then (True, NoAction, env, apic_poll_irq (cpu_reset_interrupt CPU_INTERRUPT_POLL st))
      else if ir = CPU_INTERRUPT_SIPI then
        let (b, st) = apic_sipi st in (True, if b then StartAt (sipi_vector (apic st)) else NoAction, env, st)
      else if ir = CPU_INTERRUPT_SMI then (True, EnterSmm, env, cpu_reset_interrupt CPU_INTERRUPT_SMI st)
      else if ir = CPU_INTERRUPT_NMI then
        (True, HardIrq 2 True, env\<lparr>hflags2 := hflags2 env OR 4\<rparr>, cpu_reset_interrupt CPU_INTERRUPT_NMI st)
      else if ir = CPU_INTERRUPT_MCE then (True, HardIrq 18 False, env, cpu_reset_interrupt CPU_INTERRUPT_MCE st)
      else if ir = CPU_INTERRUPT_HARD then
        let (intno, st) = cpu_get_pic_interrupt (cpu_reset_interrupt (CPU_INTERRUPT_HARD OR CPU_INTERRUPT_VIRQ) st)
        in (True, HardIrq intno True, env, st)
      else (True, HardIrq virq True, env, cpu_reset_interrupt CPU_INTERRUPT_VIRQ st))"

section \<open>The remaining operations of the local controller\<close>

definition cpu_set_apic_tpr :: "u8 \<Rightarrow> chips \<Rightarrow> chips" where
  "cpu_set_apic_tpr val st = apic_update_irq (st\<lparr>apic := (apic st)\<lparr>tpr := push_bit 4 val\<rparr>\<rparr>)"

definition cpu_get_apic_tpr :: "chips \<Rightarrow> u8" where
  "cpu_get_apic_tpr st = drop_bit 4 (tpr (apic st))"

definition apic_set_base :: "u64 \<Rightarrow> chips \<Rightarrow> chips res" where
  "apic_set_base val st =
     (let s = apic st;
          s = s\<lparr>apicbase := ucast (val AND 0xfffff000) OR (apicbase s AND (MSR_IA32_APICBASE_BSP OR MSR_IA32_APICBASE_ENABLE))\<rparr>
      in if val AND ucast MSR_IA32_APICBASE_ENABLE = 0 then Inl NotReached else Inr (st\<lparr>apic := s\<rparr>))"

definition cpu_set_apic_base :: "u64 \<Rightarrow> chips \<Rightarrow> chips res" where
  "cpu_set_apic_base val st =
     (let s = apic st;
          s = (if apicbase s AND MSR_IA32_APICBASE_EXTD = 0 \<and> val AND ucast MSR_IA32_APICBASE_EXTD \<noteq> 0
               then s\<lparr>apic_id := ucast (initial_apic_id s)\<rparr> else s)
      in apic_set_base val (st\<lparr>apic := s\<rparr>))"

definition cpu_get_apic_base :: "chips \<Rightarrow> u64" where
  "cpu_get_apic_base st = ucast (apicbase (apic st))"

definition cpu_is_bsp :: "chips \<Rightarrow> bool" where
  "cpu_is_bsp st \<longleftrightarrow> cpu_get_apic_base st AND ucast MSR_IA32_APICBASE_BSP \<noteq> 0"

definition apic_init_reset :: "chips \<Rightarrow> chips" where
  "apic_init_reset st =
     st\<lparr>apic := (apic st)\<lparr>tpr := 0, spurious_vec := 0xff, log_dest := 0, dest_mode := 0xf, isr_tab := replicate 8 0,
          tmr_tab := replicate 8 0, irr_tab := replicate 8 0, lvt := replicate APIC_LVT_NB APIC_LVT_MASKED, esr := 0,
          icr := replicate 2 0, divide_conf := 0, count_shift := 0, initial_count := 0, initial_count_load_time := 0,
          next_time := 0, wait_for_sipi := \<not> cpu_is_bsp st, timer_expiry := - 1\<rparr>,
        tmrs := timer_del (apic_timer_id (apic st)) (tmrs st)\<rparr>"

definition apic_designate_bsp :: "bool \<Rightarrow> chips \<Rightarrow> chips" where
  "apic_designate_bsp bsp st =
     st\<lparr>apic := (apic st)\<lparr>apicbase := (if bsp then apicbase (apic st) OR MSR_IA32_APICBASE_BSP else apicbase (apic st) AND NOT MSR_IA32_APICBASE_BSP)\<rparr>\<rparr>"

definition apic_reset_common :: "chips \<Rightarrow> chips" where
  "apic_reset_common st =
     (let s = apic st
      in apic_init_reset (st\<lparr>apic := s\<lparr>apicbase := APIC_DEFAULT_ADDRESS OR (apicbase s AND MSR_IA32_APICBASE_BSP) OR MSR_IA32_APICBASE_ENABLE,
           apic_id := ucast (initial_apic_id s)\<rparr>, apic_irq_delivered := 0\<rparr>))"

definition apic_reset_irq_delivered :: "chips \<Rightarrow> chips" where
  "apic_reset_irq_delivered st = st\<lparr>apic_irq_delivered := 0\<rparr>"

definition enter_interrpt_context :: "bool \<Rightarrow> chips \<Rightarrow> chips res" where
  "enter_interrpt_context blocked st =
     (if blocked \<or> interrupt_context st then Inl AssertFail else Inr (st\<lparr>interrupt_context := True\<rparr>))"

definition leave_interrpt_context :: "bool \<Rightarrow> chips \<Rightarrow> chips res" where
  "leave_interrpt_context blocked st =
     (if blocked \<or> \<not> interrupt_context st then Inl AssertFail else Inr (st\<lparr>interrupt_context := False\<rparr>))"

text \<open>The part of \<open>do_cpu_init\<close> that concerns the controllers; the processor is the first one.\<close>

definition do_cpu_init :: "chips \<Rightarrow> chips" where
  "do_cpu_init st =
     (let sipi = interrupt_request st AND CPU_INTERRUPT_SIPI
      in apic_init_reset ((apic_designate_bsp True st)\<lparr>interrupt_request := sipi\<rparr>))"

end
