(* ===== verification/Irq_Delivery.thy ===== *)
theory Irq_Delivery
  imports Irq_Chips
begin

text \<open>
  The interrupt controllers as one state machine. Everything that can happen to them is an event: an
  access of the guest to one of the register windows, a change of an interrupt line, the expiry of a
  timer, the processor looking at its requests. The invariants of the machine are proved through four
  locales, each the closure of a predicate under more of the operations: what touches the local
  controller only, the service of the pins of
  the I/O controller with the messages it sends, its end-of-interrupt handling, and the whole register window.
\<close>

section \<open>Events\<close>

datatype chip_event =
    ApicWrite u64 u64 nat int
  | ApicRead u64 nat int
  | IoapicWrite u64 u64 nat int
  | Gsi nat bool int
  | PicWrite chip u64 u64
  | PicRead chip u64
  | PicElcr chip u64
  | TimerExpires int
  | EnterIrq
  | LeaveIrq
  | ExecInterrupt int x86_flags
  | SetTpr u8
  | SetBase u64
  | CpuInit

text \<open>Each nested access clears a bit of the 256 in-service bits first.\<close>

definition apic_fuel :: nat where "apic_fuel = 257"

abbreviation stl_le_phys :: "int \<Rightarrow> u32 \<Rightarrow> u32 \<Rightarrow> chips \<Rightarrow> chips option" where
  "stl_le_phys now \<equiv> \<lambda>m d. apic_mem_write apic_fuel (ucast (m - APIC_DEFAULT_ADDRESS)) (ucast d) 4 now"

definition returned :: "'a res \<Rightarrow> 'a option" where
  "returned r = (case r of Inl _ \<Rightarrow> None | Inr x \<Rightarrow> Some x)"

text \<open>One round of the loop over the timers: the first one is taken off the list and its callback runs.\<close>

definition chips_cb :: "nat \<Rightarrow> int \<Rightarrow> chips \<Rightarrow> chips option" where
  "chips_cb i now st =
     (if i = apic_timer_id (apic st) then Some (apic_timer st)
      else if i = delayed_ioapic_service_timer (io_apic st) then delayed_ioapic_service_cb (stl_le_phys now) st
      else Some st)"

definition timer_expires :: "int \<Rightarrow> chips \<Rightarrow> chips option" where
  "timer_expires now st =
     (case active_timers (tmrs st) QEMU_CLOCK_VIRTUAL of
        [] \<Rightarrow> Some st
      | i # _ \<Rightarrow>
          if timer_expired_ns (tmrs st) i now then chips_cb i now (st\<lparr>tmrs := pop_timer QEMU_CLOCK_VIRTUAL (tmrs st)\<rparr>) else Some st)"

fun chip_step :: "chip_event \<Rightarrow> chips \<Rightarrow> chips option" where
  "chip_step (ApicWrite a v sz now) st = apic_mem_write apic_fuel a v sz now st"
| "chip_step (ApicRead a sz now) st = Some (snd (apic_mem_read a sz now st))"
| "chip_step (IoapicWrite a v sz now) st = ioapic_mem_write (stl_le_phys now) a v sz now st"
| "chip_step (Gsi n level now) st = gsi_handler (stl_le_phys now) n level st"
| "chip_step (PicWrite c a v) st = Some (pic_step (pic_ioport_write c a v) st)"
| "chip_step (PicRead c a) st = Some (pic_step (\<lambda>ps. snd (pic_ioport_read c a ps)) st)"
| "chip_step (PicElcr c v) st = Some (pic_step (elcr_ioport_write c v) st)"
| "chip_step (TimerExpires now) st = timer_expires now st"
| "chip_step EnterIrq st = returned (enter_interrpt_context False st)"
| "chip_step LeaveIrq st = returned (leave_interrpt_context False st)"
| "chip_step (ExecInterrupt virq env) st = Some (snd (snd (snd (x86_cpu_exec_interrupt virq env st))))"
| "chip_step (SetTpr v) st = Some (cpu_set_apic_tpr v st)"
| "chip_step (SetBase v) st = returned (cpu_set_apic_base v st)"
| "chip_step CpuInit st = Some (do_cpu_init st)"

fun chip_run :: "chip_event list \<Rightarrow> chips \<Rightarrow> chips option" where
  "chip_run [] st = Some st"
| "chip_run (e # es) st = (case chip_step e st of None \<Rightarrow> None | Some st \<Rightarrow> chip_run es st)"

section \<open>The local controller and the 8259s\<close>

definition same_shape :: "lapic \<Rightarrow> lapic \<Rightarrow> bool" where
  "same_shape s s' \<longleftrightarrow>
     isr_tab s' = isr_tab s \<and> length (tmr_tab s') = length (tmr_tab s) \<and> length (irr_tab s') = length (irr_tab s) \<and>
     length (lvt s') = length (lvt s) \<and> length (icr s') = length (icr s) \<and> apic_timer_id s' = apic_timer_id s \<and> apicbase s' = apicbase s"

definition same_prio :: "lapic \<Rightarrow> lapic \<Rightarrow> bool" where
  "same_prio s s' \<longleftrightarrow> irr_tab s' = irr_tab s \<and> isr_tab s' = isr_tab s \<and> tpr s' = tpr s \<and> spurious_vec s' = spurious_vec s"

lemma set_bit_length [simp]: "length (apic_set_bit tab i) = length tab" "length (apic_reset_bit tab i) = length tab"
  by (simp_all add: apic_set_bit_def apic_reset_bit_def Let_def)

locale chips_leaf =
  fixes P :: "nat \<Rightarrow> chips \<Rightarrow> bool"
  assumes put: "P k st \<Longrightarrow> same_shape (apic st) s \<Longrightarrow> same_prio (apic st) s \<Longrightarrow> P k (st\<lparr>apic := s\<rparr>)"
    and put_update: "P k st \<Longrightarrow> same_shape (apic st) s \<Longrightarrow> P k (apic_update_irq (st\<lparr>apic := s\<rparr>))"
    and request: "P k st \<Longrightarrow> P k (cpu_interrupt m st)"
    and pics: "P k st \<Longrightarrow> P k (st\<lparr>isa_pic := p\<rparr>)"
    and count: "P k st \<Longrightarrow> P k (apic_report_irq_delivered d st)"
    and arm: "P k st \<Longrightarrow> P k (st\<lparr>tmrs := timer_mod (apic_timer_id (apic st)) e (tmrs st)\<rparr>)"
    and disarm: "P k st \<Longrightarrow> P k (st\<lparr>tmrs := timer_del (apic_timer_id (apic st)) (tmrs st)\<rparr>)"
begin

lemma update: "P k st \<Longrightarrow> P k (apic_update_irq st)"
  using put_update [of k st "apic st"] by (simp add: same_shape_def)

lemma set_irq: "P k st \<Longrightarrow> P k (apic_set_irq v l st)"
  unfolding apic_set_irq_def Let_def by (rule put_update) (auto intro: count simp: same_shape_def)

lemma local_deliver: "P k st \<Longrightarrow> P k (apic_local_deliver v st)"
  by (simp add: apic_local_deliver_def Let_def request set_irq)

lemma deliver_pic: "P k st \<Longrightarrow> P k (apic_deliver_pic_intr l st)"
  unfolding apic_deliver_pic_intr_def Let_def
  by (auto intro: local_deliver update put_update simp: same_shape_def)

lemma irq_request: "P k st \<Longrightarrow> P k (pic_irq_request l st)"
  by (simp add: pic_irq_request_def deliver_pic)

lemma irq_requests: "P k st \<Longrightarrow> P k (fold pic_irq_request ls st)"
  by (induction ls arbitrary: st) (simp_all add: irq_request)

lemma step_pic: "P k st \<Longrightarrow> P k (pic_step f st)"
  unfolding pic_step_def Let_def by (intro irq_requests pics)

lemma read_irq: "P k st \<Longrightarrow> P k (snd (chips_read_irq st))"
  by (auto simp: chips_read_irq_def Let_def step_pic split: option.splits)

lemma foreach: "(\<And>st. P k st \<Longrightarrow> P k (f st)) \<Longrightarrow> P k st \<Longrightarrow> P k (foreach_apic bm f st)"
proof -
  assume f: "\<And>st. P k st \<Longrightarrow> P k (f st)" and p: "P k st"
  have "P k (fold (\<lambda>k st. if bit (bm ! (k div 32)) (k mod 32) \<and> local_apic_at k then f st else st) ks st)" for ks
    using p by (induction ks arbitrary: st) (simp_all add: f)
  then show ?thesis unfolding foreach_apic_def .
qed

lemma bus_deliver: "P k st \<Longrightarrow> P k (apic_bus_deliver bm dm v tm st)"
  unfolding apic_bus_deliver_def Let_def by (auto intro: set_irq foreach request)

lemma send_msi: "P k st \<Longrightarrow> P k (apic_send_msi a d st)"
  by (simp add: apic_send_msi_def apic_deliver_irq_def bus_deliver)

lemma put_arb: "P k st \<Longrightarrow> P k (st\<lparr>apic := (apic st)\<lparr>arb_id := x\<rparr>\<rparr>)"
  by (rule put) (simp_all add: same_shape_def same_prio_def)

lemma startup: "P k st \<Longrightarrow> P k (apic_startup v st)"
  unfolding apic_startup_def by (intro request put) (simp_all add: same_shape_def same_prio_def)

lemma deliver: "P k st \<Longrightarrow> P k (apic_deliver dest l dm v tm st)"
  unfolding apic_deliver_def Let_def by (auto intro: bus_deliver foreach put_arb startup)

lemma check_pic: "P k st \<Longrightarrow> P k (snd (apic_check_pic st))"
  by (simp add: apic_check_pic_def deliver_pic)

lemma next_timer_shape: "same_shape s (snd (apic_next_timer now s))" "same_prio s (snd (apic_next_timer now s))"
  by (simp_all add: apic_next_timer_def Let_def same_shape_def same_prio_def)

lemma timer_update: "P k st \<Longrightarrow> P k (apic_timer_update now st)"
proof -
  assume p: "P k st"
  obtain b s where bs: "apic_next_timer now (apic st) = (b, s)" by fastforce
  note sh = next_timer_shape [of "apic st" now, unfolded bs snd_conv]
  have q: "P k (st\<lparr>apic := s\<rparr>)" by (rule put [OF p sh])
  show ?thesis using arm [OF q] disarm [OF q] bs by (cases b) (simp_all add: apic_timer_update_def)
qed

lemma timer_cb: "P k st \<Longrightarrow> P k (apic_timer st)"
  by (simp add: apic_timer_def Let_def timer_update local_deliver)

end


section \<open>Sends of the I/O controller\<close>

definition keeps :: "(chips \<Rightarrow> bool) \<Rightarrow> (chips \<Rightarrow> chips option) \<Rightarrow> bool" where
  "keeps P f \<longleftrightarrow> (\<forall>st st'. P st \<longrightarrow> f st = Some st' \<longrightarrow> P st')"

lemma keepsD: "keeps P f \<Longrightarrow> P st \<Longrightarrow> f st = Some st' \<Longrightarrow> P st'"
  by (simp add: keeps_def)

lemma keeps_intro: "(\<And>st st'. P st \<Longrightarrow> f st = Some st' \<Longrightarrow> P st') \<Longrightarrow> keeps P f"
  by (simp add: keeps_def)

lemma keeps_bind: "keeps P f \<Longrightarrow> keeps P g \<Longrightarrow> keeps P (\<lambda>st. case f st of None \<Rightarrow> None | Some st \<Rightarrow> g st)"
  by (rule keeps_intro) (auto dest: keepsD split: option.splits)

lemma keeps_Some: "keeps P Some"
  by (rule keeps_intro) simp

text \<open>\<open>sends P send\<close>: no message breaks a predicate of the family.\<close>

definition sends :: "(nat \<Rightarrow> chips \<Rightarrow> bool) \<Rightarrow> (u32 \<Rightarrow> u32 \<Rightarrow> chips \<Rightarrow> chips option) \<Rightarrow> bool" where
  "sends P send \<longleftrightarrow> (\<forall>k m d. keeps (P k) (send m d))"

locale chips_pins = chips_leaf +
  assumes pin: "sends P send \<Longrightarrow> i < IOAPIC_NUM_PINS \<Longrightarrow> keeps (P k) (service_pin send i)"
begin

lemma pins: "sends P send \<Longrightarrow> \<forall>i \<in> set is. i < IOAPIC_NUM_PINS \<Longrightarrow> keeps (P k) (service_pins send is)"
proof (induction "is")
  case (Cons i "is")
  from keeps_bind [OF pin [OF Cons.prems(1), of i] Cons.IH] Cons.prems show ?case by (simp add: keeps_def)
qed (simp add: keeps_def)

lemma service: "sends P send \<Longrightarrow> keeps (P k) (ioapic_service send)"
  using pins [of send "[0..<IOAPIC_NUM_PINS]"] by (simp add: keeps_def ioapic_service_def)

end

locale chips_bus = chips_pins +
  assumes eoi_one: "sends P send \<Longrightarrow> i < IOAPIC_NUM_PINS \<Longrightarrow> keeps (P k) (eoi_pin send v now i)"
begin

lemma eois: "sends P send \<Longrightarrow> \<forall>i \<in> set is. i < IOAPIC_NUM_PINS \<Longrightarrow> keeps (P k) (eoi_pins send v now is)"
proof (induction "is")
  case (Cons i "is")
  from keeps_bind [OF eoi_one [OF Cons.prems(1), of i k v now] Cons.IH] Cons.prems show ?case by (simp add: keeps_def)
qed (simp add: keeps_def)

lemma eoi_broadcast: "sends P send \<Longrightarrow> keeps (P k) (ioapic_eoi_broadcast send v now)"
  using eois [of send "[0..<IOAPIC_NUM_PINS]" k v now] by (simp add: keeps_def ioapic_eoi_broadcast_def)

end

locale chips_invariant = chips_bus +
  assumes eoi: "sends P send \<Longrightarrow> keeps (P k) (apic_eoi send now)"
begin

lemma reg_write: "sends P send \<Longrightarrow> keeps (P k) (apic_reg_write send index val now)"
proof (rule keeps_intro)
  fix st st' assume s: "sends P send" and p: "P k st" and w: "apic_reg_write send index val now st = Some st'"
  define n where "n = index - 0x32"
  have lvt: "P k (st\<lparr>apic := (apic st)\<lparr>lvt := (lvt (apic st))[n := x]\<rparr>\<rparr>)" for x
    by (rule put [OF p]) (simp_all add: same_shape_def same_prio_def)
  have lint: "P k (let (b, st) = apic_check_pic (st\<lparr>apic := (apic st)\<lparr>lvt := (lvt (apic st))[n := x]\<rparr>\<rparr>) in if b then apic_update_irq st else st)" for x
    using check_pic [OF lvt, of x] by (auto simp: update split: prod.splits)
  have icr: "P k (st\<lparr>apic := (apic st)\<lparr>icr := (icr (apic st))[0 := x]\<rparr>\<rparr>)" for x
    by (rule put [OF p]) (simp_all add: same_shape_def same_prio_def)
  show "P k st'"
    using w p keepsD [OF eoi [OF s] p, of now st'] lvt lint icr
    unfolding apic_reg_write_def Let_def n_def [symmetric]
    by (auto simp: same_shape_def same_prio_def split: if_splits intro!: put put_update deliver timer_update)
qed

lemma mem_write: "keeps (P k) (apic_mem_write f a val sz now)"
proof (induction f arbitrary: k a val sz)
  case 0
  then show ?case by (simp add: keeps_def)
next
  case (Suc f)
  have "sends P (\<lambda>m d. apic_mem_write f (ucast (m - APIC_DEFAULT_ADDRESS)) (ucast d) 4 now)" using Suc by (simp add: sends_def)
  note r = reg_write [OF this]
  show ?case by (rule keeps_intro) (auto simp: Let_def intro: send_msi keepsD [OF r] split: if_splits)
qed

lemma sends_stl: "sends P (stl_le_phys now)"
  using mem_write by (simp add: sends_def)

lemma mem_read: "P k st \<Longrightarrow> P k (snd (apic_mem_read a sz now st))"
proof -
  assume p: "P k st"
  have "P k (st\<lparr>apic := (apic st)\<lparr>esr := x\<rparr>\<rparr>)" for x by (rule put [OF p]) (simp_all add: same_shape_def same_prio_def)
  moreover have "P k (snd (if b then (x :: u32, st) else r))" if "P k (snd r)" for b x r using that p by simp
  ultimately show ?thesis unfolding apic_mem_read_def Let_def by simp
qed

end


section \<open>Well-formed states\<close>

lemma update_irq_fields [simp]:
  "apic (apic_update_irq st) = apic st" "io_apic (apic_update_irq st) = io_apic st" "tmrs (apic_update_irq st) = tmrs st"
  "isa_pic (apic_update_irq st) = isa_pic st" "interrupt_context (apic_update_irq st) = interrupt_context st"
  by (simp_all add: apic_update_irq_def cpu_interrupt_def cpu_reset_interrupt_def)

definition chips_wf :: "chips \<Rightarrow> bool" where
  "chips_wf st \<longleftrightarrow>
     tab_wf (isr_tab (apic st)) \<and> tab_wf (tmr_tab (apic st)) \<and> tab_wf (irr_tab (apic st)) \<and> length (lvt (apic st)) = APIC_LVT_NB \<and>
     length (icr (apic st)) = 2 \<and> apicbase (apic st) AND MSR_IA32_APICBASE_ENABLE \<noteq> 0 \<and>
     length (ioredtbl (io_apic st)) = IOAPIC_NUM_PINS \<and> length (irq_eoi (io_apic st)) = IOAPIC_NUM_PINS \<and>
     apic_timer_id (apic st) \<noteq> delayed_ioapic_service_timer (io_apic st) \<and> timers_wf (tmrs st)"

lemma wf_timer_ops:
  "timers_wf ts \<Longrightarrow> timers_wf (timer_mod i e ts)" "timers_wf ts \<Longrightarrow> timers_wf (timer_del i ts)"
  "timers_wf ts \<Longrightarrow> timers_wf (timer_mod_anticipate i e ts)"
  by (simp_all add: timer_mod_def wf_mod timer_del_def wf_del timer_mod_anticipate_def wf_anticipate)

interpretation wl: chips_leaf "\<lambda>_. chips_wf"
  by unfold_locales
    (auto simp: chips_wf_def same_shape_def tab_wf_def cpu_interrupt_def apic_report_irq_delivered_def wf_timer_ops)

lemma parse_state: "snd (ioapic_entry_parse e st) = (if (ucast (drop_bit 8 e AND 7) :: u8) = 7 then snd (chips_read_irq st) else st)"
  by (simp add: ioapic_entry_parse_def Let_def split: prod.splits)

lemma parse_info:
  "masked (fst (ioapic_entry_parse e st)) = bit e 16" "trig_mode (fst (ioapic_entry_parse e st)) = bit e 15"
  by (simp_all add: ioapic_entry_parse_def Let_def split: prod.splits)

lemma and_BIT: "x AND BIT n = 0 \<longleftrightarrow> \<not> bit x n" for x :: "'a::len word"
  by (simp add: and_exp_eq_0_iff_not_bit)

lemma entry_flags:
  "e AND IOAPIC_LVT_MASKED = 0 \<longleftrightarrow> \<not> bit e 16" "e AND IOAPIC_LVT_REMOTE_IRR = 0 \<longleftrightarrow> \<not> bit e 14"
  "e AND IOAPIC_LVT_TRIGGER_MODE = 0 \<longleftrightarrow> \<not> bit e 15"
  unfolding IOAPIC_LVT_MASKED_def IOAPIC_LVT_REMOTE_IRR_def IOAPIC_LVT_TRIGGER_MODE_def by (rule and_BIT)+

text \<open>One pin: what happens to it before the message is sent.\<close>

lemma service_pin_cases:
  assumes "service_pin send i st = Some st'"
  obtains "\<not> bit (ioapic_irr (io_apic st)) i" "st' = st"
  | st1 where "st1 = snd (ioapic_entry_parse (ioredtbl (io_apic st) ! i) st)" "bit (ioredtbl (io_apic st) ! i) 16" "st' = st1"
  | st1 m d where "st1 = snd (ioapic_entry_parse (ioredtbl (io_apic st) ! i) st)" "\<not> bit (ioredtbl (io_apic st) ! i) 16"
      "\<not> bit (ioredtbl (io_apic st) ! i) 15" "send m d (set_irr i False st1) = Some st'"
  | st1 st2 m d where "st1 = snd (ioapic_entry_parse (ioredtbl (io_apic st) ! i) st)" "\<not> bit (ioredtbl (io_apic st) ! i) 16"
      "bit (ioredtbl (io_apic st) ! i) 15" "st2 = set_redtbl i (ioredtbl (io_apic st1) ! i OR IOAPIC_LVT_REMOTE_IRR) st1"
      "st' = st2 \<or> send m d st2 = Some st'"
proof -
  obtain info st1 where p: "ioapic_entry_parse (ioredtbl (io_apic st) ! i) st = (info, st1)" by fastforce
  note q = parse_info [of "ioredtbl (io_apic st) ! i" st, unfolded p fst_conv]
  let ?e = "ioredtbl (io_apic st) ! i"
  consider "\<not> bit (ioapic_irr (io_apic st)) i" | "bit (ioapic_irr (io_apic st)) i" "bit ?e 16"
    | "bit (ioapic_irr (io_apic st)) i" "\<not> bit ?e 16" "\<not> bit ?e 15" | "bit (ioapic_irr (io_apic st)) i" "\<not> bit ?e 16" "bit ?e 15"
    by blast
  then show ?thesis
  proof cases
    case 1
    then have "st' = st" using assms by (simp add: service_pin_def)
    with 1 show ?thesis by (rule that(1))
  next
    case 2
    then have "st' = st1" using assms p q by (simp add: service_pin_def)
    then show ?thesis using 2 p by (intro that(2) [of st1]) simp_all
  next
    case 3
    then have "send (addr info) (data info) (set_irr i False st1) = Some st'" using assms p q by (simp add: service_pin_def set_irr_def)
    then show ?thesis using 3 p by (intro that(3) [of st1 "addr info" "data info"]) simp_all
  next
    case 4
    let ?st2 = "set_redtbl i (ioredtbl (io_apic st1) ! i OR IOAPIC_LVT_REMOTE_IRR) st1"
    have "st' = ?st2 \<or> send (addr info) (data info) ?st2 = Some st'" using assms p q 4
      by (simp add: service_pin_def Let_def split: if_splits)
    then show ?thesis using 4 p by (intro that(4) [of st1 ?st2 "addr info" "data info"]) simp_all
  qed
qed


lemma eoi_pin_cases:
  assumes "eoi_pin send v now n st = Some st'"
  obtains "st' = st"
  | st1 where "st1 = set_redtbl n (ioredtbl (io_apic st) ! n AND NOT IOAPIC_LVT_REMOTE_IRR) st"
      "bit (ioredtbl (io_apic st) ! n) 15"
      "st' = (put_eoi n 0 st1)\<lparr>tmrs := timer_mod_anticipate (delayed_ioapic_service_timer (io_apic st)) (now + 10000000) (tmrs st)\<rparr>"
  | st1 c where "st1 = set_redtbl n (ioredtbl (io_apic st) ! n AND NOT IOAPIC_LVT_REMOTE_IRR) st"
      "ioapic_service send (put_eoi n c st1) = Some st'"
  | st1 where "st1 = set_redtbl n (ioredtbl (io_apic st) ! n AND NOT IOAPIC_LVT_REMOTE_IRR) st"
      "bit (ioredtbl (io_apic st) ! n) 16 \<or> \<not> bit (ioapic_irr (io_apic st)) n" "st' = put_eoi n 0 st1"
proof -
  define st1 where "st1 = set_redtbl n (ioredtbl (io_apic st) ! n AND NOT IOAPIC_LVT_REMOTE_IRR) st"
  define c where "c = irq_eoi (io_apic st1) ! n + 1"
  have "ioapic_irr (io_apic st1) = ioapic_irr (io_apic st)" "tmrs (put_eoi n 0 st1) = tmrs st"
    "delayed_ioapic_service_timer (io_apic (put_eoi n 0 st1)) = delayed_ioapic_service_timer (io_apic st)"
    by (simp_all add: st1_def set_redtbl_def put_eoi_def)
  note f = this
  have "st' = st \<or> bit (ioredtbl (io_apic st) ! n) 15 \<and> st' = (put_eoi n 0 st1)\<lparr>tmrs := timer_mod_anticipate (delayed_ioapic_service_timer (io_apic st)) (now + 10000000) (tmrs st)\<rparr> \<or>
    ioapic_service send (put_eoi n c st1) = Some st' \<or>
    (bit (ioredtbl (io_apic st) ! n) 16 \<or> \<not> bit (ioapic_irr (io_apic st)) n) \<and> st' = put_eoi n 0 st1"
    using assms unfolding eoi_pin_def Let_def st1_def [symmetric] c_def [symmetric] f
    by (auto split: if_splits simp: entry_flags)
  then show ?thesis
  proof (elim disjE conjE)
    assume "st' = st" then show ?thesis by (rule that(1))
  next
    assume "bit (ioredtbl (io_apic st) ! n) 15"
      "st' = (put_eoi n 0 st1)\<lparr>tmrs := timer_mod_anticipate (delayed_ioapic_service_timer (io_apic st)) (now + 10000000) (tmrs st)\<rparr>"
    then show ?thesis by (rule that(2) [OF st1_def])
  next
    assume "ioapic_service send (put_eoi n c st1) = Some st'"
    then show ?thesis by (rule that(3) [OF st1_def])
  qed (rule that(4) [OF st1_def]; simp)+
qed

lemma io_apic_ops [simp]:
  "apic (set_irr i b st) = apic st" "tmrs (set_irr i b st) = tmrs st" "ioredtbl (io_apic (set_irr i b st)) = ioredtbl (io_apic st)"
  "irq_eoi (io_apic (set_irr i b st)) = irq_eoi (io_apic st)" "delayed_ioapic_service_timer (io_apic (set_irr i b st)) = delayed_ioapic_service_timer (io_apic st)"
  "apic (set_redtbl i e st) = apic st" "tmrs (set_redtbl i e st) = tmrs st" "ioapic_irr (io_apic (set_redtbl i e st)) = ioapic_irr (io_apic st)"
  "ioredtbl (io_apic (set_redtbl i e st)) = (ioredtbl (io_apic st))[i := e]" "irq_eoi (io_apic (set_redtbl i e st)) = irq_eoi (io_apic st)"
  "delayed_ioapic_service_timer (io_apic (set_redtbl i e st)) = delayed_ioapic_service_timer (io_apic st)"
  "apic (put_eoi i c st) = apic st" "tmrs (put_eoi i c st) = tmrs st" "ioapic_irr (io_apic (put_eoi i c st)) = ioapic_irr (io_apic st)"
  "ioredtbl (io_apic (put_eoi i c st)) = ioredtbl (io_apic st)" "irq_eoi (io_apic (put_eoi i c st)) = (irq_eoi (io_apic st))[i := c]"
  "delayed_ioapic_service_timer (io_apic (put_eoi i c st)) = delayed_ioapic_service_timer (io_apic st)"
  by (simp_all add: set_irr_def set_redtbl_def put_eoi_def)

lemma wf_ops [simp]: "chips_wf (set_irr i b st) = chips_wf st" "chips_wf (set_redtbl i e st) = chips_wf st" "chips_wf (put_eoi i c st) = chips_wf st"
  by (simp_all add: chips_wf_def)

lemma wf_parse: "chips_wf st \<Longrightarrow> chips_wf (snd (ioapic_entry_parse e st))"
  by (simp add: parse_state wl.read_irq)

interpretation wp: chips_pins "\<lambda>_. chips_wf"
proof unfold_locales
  fix send i assume s: "sends (\<lambda>_. chips_wf) send"
  show "keeps chips_wf (service_pin send i)"
  proof (rule keeps_intro)
    fix st st' assume w: "chips_wf st" and p: "service_pin send i st = Some st'"
    from p show "chips_wf st'"
      by (cases rule: service_pin_cases) (use w s in \<open>auto simp: sends_def wf_parse elim!: keepsD [rotated 2]\<close>)
  qed
qed


interpretation wb: chips_bus "\<lambda>_. chips_wf"
proof unfold_locales
  fix send i v now assume s: "sends (\<lambda>_. chips_wf) send"
  show "keeps chips_wf (eoi_pin send v now i)"
  proof (rule keeps_intro)
    fix st st' assume w: "chips_wf st" and p: "eoi_pin send v now i st = Some st'"
    from p show "chips_wf st'"
    proof (cases rule: eoi_pin_cases)
      case (2 st1)
      then show ?thesis using w by (simp add: chips_wf_def wf_timer_ops)
    next
      case (3 st1 c)
      moreover have "chips_wf (put_eoi i c st1)" using w 3(1) by simp
      ultimately show ?thesis using keepsD [OF wp.service [OF s]] by blast
    qed (use w in simp_all)
  qed
qed

lemma isr_wf: "chips_wf st \<Longrightarrow> chips_wf (st\<lparr>apic := (apic st)\<lparr>isr_tab := apic_reset_bit (isr_tab (apic st)) i\<rparr>\<rparr>)"
  by (simp add: chips_wf_def)

lemma apic_eoi_cases:
  assumes "apic_eoi send now st = Some st'"
  obtains "st' = st" "get_highest_priority_int (isr_tab (apic st)) < 0"
  | st1 st2 v where "v = nat (get_highest_priority_int (isr_tab (apic st)))" "0 \<le> get_highest_priority_int (isr_tab (apic st))"
      "st1 = st\<lparr>apic := (apic st)\<lparr>isr_tab := apic_reset_bit (isr_tab (apic st)) v\<rparr>\<rparr>"
      "st2 = st1 \<or> ioapic_eoi_broadcast send v now st1 = Some st2" "st' = apic_update_irq st2"
proof (cases "get_highest_priority_int (isr_tab (apic st)) < 0")
  case True
  then have "st' = st" using assms by (simp add: apic_eoi_def Let_def)
  then show ?thesis using True by (rule that(1))
next
  case False
  define v where "v = nat (get_highest_priority_int (isr_tab (apic st)))"
  define st1 where "st1 = st\<lparr>apic := (apic st)\<lparr>isr_tab := apic_reset_bit (isr_tab (apic st)) v\<rparr>\<rparr>"
  obtain st2 where "st2 = st1 \<or> ioapic_eoi_broadcast send v now st1 = Some st2" "st' = apic_update_irq st2"
    using assms False by (auto simp: apic_eoi_def Let_def v_def st1_def split: if_splits)
  then show ?thesis using False by (intro that(2) [OF v_def _ st1_def]) simp_all
qed

text \<open>An end of interrupt keeps a predicate that does not depend on the in-service bits.\<close>

lemma eoi_keeps:
  assumes "\<And>v. keeps P (ioapic_eoi_broadcast send v now)" "\<And>st. P st \<Longrightarrow> P (apic_update_irq st)"
    and "\<And>st i. P st \<Longrightarrow> P (st\<lparr>apic := (apic st)\<lparr>isr_tab := apic_reset_bit (isr_tab (apic st)) i\<rparr>\<rparr>)"
  shows "keeps P (apic_eoi send now)"
proof (rule keeps_intro)
  fix st st' assume p: "P st" and e: "apic_eoi send now st = Some st'"
  from e show "P st'"
  proof (cases rule: apic_eoi_cases)
    case (2 st1 st2 v)
    have "P st1" using assms(3) [OF p] 2(3) by simp
    then have "P st2" using 2(4) keepsD [OF assms(1)] by blast
    then show ?thesis using assms(2) 2(5) by simp
  qed (use p in simp)
qed

interpretation wi: chips_invariant "\<lambda>_. chips_wf"
  by unfold_locales (intro eoi_keeps wb.eoi_broadcast wl.update isr_wf)

section \<open>Pins of the I/O controller\<close>

text \<open>
  A pin with a request that is not masked is level triggered, and either its message has been sent and
  not been acknowledged yet, or the timer that will serve the pins again is running.
\<close>

definition pin_served :: "nat \<Rightarrow> chips \<Rightarrow> bool" where
  "pin_served i st \<longleftrightarrow>
     (bit (ioapic_irr (io_apic st)) i \<and> \<not> bit (ioredtbl (io_apic st) ! i) 16 \<longrightarrow>
      bit (ioredtbl (io_apic st) ! i) 15 \<and>
      (bit (ioredtbl (io_apic st) ! i) 14 \<or> timer_pending (delayed_ioapic_service_timer (io_apic st)) (tmrs st)))"

definition pin_family :: "nat \<Rightarrow> chips \<Rightarrow> bool" where
  "pin_family k st \<longleftrightarrow> chips_wf st \<and> (k < IOAPIC_NUM_PINS \<longrightarrow> pin_served k st)"

lemma other_pending:
  "i \<noteq> j \<Longrightarrow> timer_pending j (timer_mod i e ts) = timer_pending j ts" "i \<noteq> j \<Longrightarrow> timer_pending j (timer_del i ts) = timer_pending j ts"
  by (simp_all add: timer_pending_def timer_mod_def mod_fields timer_del_def)

lemma anticipate_pending: "timers_wf ts \<Longrightarrow> timer_pending i (timer_mod_anticipate i e ts)"
proof -
  assume "timers_wf ts"
  then have "- 1 \<le> expire_time ts i" by (simp add: timers_wf_def)
  then show ?thesis
    by (auto simp: timer_mod_anticipate_def timer_mod_anticipate_ns_def timer_mod_ns_locked_def timer_pending_def Let_def)
qed

lemma pin_served_cong:
  "io_apic st' = io_apic st \<Longrightarrow> timer_pending (delayed_ioapic_service_timer (io_apic st)) (tmrs st') = timer_pending (delayed_ioapic_service_timer (io_apic st)) (tmrs st) \<Longrightarrow>
    pin_served i st' = pin_served i st"
  by (simp add: pin_served_def)

interpretation pl: chips_leaf pin_family
proof unfold_locales
  fix k st assume f: "pin_family k st"
  have d: "apic_timer_id (apic st) \<noteq> delayed_ioapic_service_timer (io_apic st)" using f by (simp add: pin_family_def chips_wf_def)
  show "pin_family k (st\<lparr>apic := s\<rparr>)" if "same_shape (apic st) s" "same_prio (apic st) s" for s
    using f wl.put [OF _ that] pin_served_cong [of "st\<lparr>apic := s\<rparr>" st k] by (simp add: pin_family_def)
  show "pin_family k (apic_update_irq (st\<lparr>apic := s\<rparr>))" if "same_shape (apic st) s" for s
    using f wl.put_update [OF _ that] pin_served_cong [of "apic_update_irq (st\<lparr>apic := s\<rparr>)" st k] by (simp add: pin_family_def)
  show "pin_family k (cpu_interrupt m st)" for m
    using f wl.request [of st m] pin_served_cong [of "cpu_interrupt m st" st k] by (simp add: pin_family_def cpu_interrupt_def)
  show "pin_family k (st\<lparr>isa_pic := p\<rparr>)" for p
    using f wl.pics [of st p] pin_served_cong [of "st\<lparr>isa_pic := p\<rparr>" st k] by (simp add: pin_family_def)
  show "pin_family k (apic_report_irq_delivered d st)" for d
    using f wl.count [of st d] pin_served_cong [of "apic_report_irq_delivered d st" st k] by (simp add: pin_family_def apic_report_irq_delivered_def)
  show "pin_family k (st\<lparr>tmrs := timer_mod (apic_timer_id (apic st)) e (tmrs st)\<rparr>)" for e
    using f d wl.arm [of st e] pin_served_cong [of "st\<lparr>tmrs := timer_mod (apic_timer_id (apic st)) e (tmrs st)\<rparr>" st k]
    by (simp add: pin_family_def other_pending)
  show "pin_family k (st\<lparr>tmrs := timer_del (apic_timer_id (apic st)) (tmrs st)\<rparr>)"
    using f d wl.disarm [of st] pin_served_cong [of "st\<lparr>tmrs := timer_del (apic_timer_id (apic st)) (tmrs st)\<rparr>" st k]
    by (simp add: pin_family_def other_pending)
qed



interpretation fl: chips_leaf "\<lambda>_ st. io_apic st = x" for x
  by unfold_locales (simp_all add: cpu_interrupt_def apic_report_irq_delivered_def)

lemma parse_io_apic [simp]: "io_apic (snd (ioapic_entry_parse e st)) = io_apic st"
  by (simp add: parse_state fl.read_irq)

lemma family_parse: "pin_family k st \<Longrightarrow> pin_family k (snd (ioapic_entry_parse e st))"
  by (simp add: parse_state pl.read_irq)

lemma bit_irr_set: "bit (ioapic_irr (io_apic (set_irr i b st))) j = (if i = j then b \<and> j < 32 else bit (ioapic_irr (io_apic st)) j)"
  by (auto simp: set_irr_def bit_simps dest: bit_imp_le_length)

lemma bit_rirr: "bit (e OR IOAPIC_LVT_REMOTE_IRR) j = (bit e j \<or> j = 14)" "bit (e AND NOT IOAPIC_LVT_REMOTE_IRR) j = (bit e j \<and> j \<noteq> 14)"
  by (auto simp: IOAPIC_LVT_REMOTE_IRR_def bit_simps simp del: push_bit_of_1 dest: bit_imp_le_length)

text \<open>Serving a pin leaves it served.\<close>

lemma served_low: "pin_served j st \<Longrightarrow> pin_served j (set_irr i False st)" "pin_served i (set_irr i False st)"
  by (auto simp: pin_served_def bit_irr_set)

lemma served_rirr:
  assumes "chips_wf st" "i < IOAPIC_NUM_PINS"
  shows "pin_served j st \<Longrightarrow> pin_served j (set_redtbl i (ioredtbl (io_apic st) ! i OR IOAPIC_LVT_REMOTE_IRR) st)"
    "bit (ioredtbl (io_apic st) ! i) 15 \<Longrightarrow> pin_served i (set_redtbl i (ioredtbl (io_apic st) ! i OR IOAPIC_LVT_REMOTE_IRR) st)"
  using assms by (auto simp: pin_served_def bit_rirr chips_wf_def nth_list_update)

lemma family_low: "pin_family k st \<Longrightarrow> pin_family k (set_irr i False st)"
  by (simp add: pin_family_def served_low)

lemma family_rirr:
  "pin_family k st \<Longrightarrow> i < IOAPIC_NUM_PINS \<Longrightarrow> pin_family k (set_redtbl i (ioredtbl (io_apic st) ! i OR IOAPIC_LVT_REMOTE_IRR) st)"
  using served_rirr(1) [of st i k] by (simp add: pin_family_def)

lemma sendsD: "sends P send \<Longrightarrow> P k st \<Longrightarrow> send m d st = Some st' \<Longrightarrow> P k st'"
  by (auto simp: sends_def intro: keepsD)

interpretation pp: chips_pins pin_family
proof unfold_locales
  fix send i k assume s: "sends pin_family send" and i: "i < IOAPIC_NUM_PINS"
  show "keeps (pin_family k) (service_pin send i)"
  proof (rule keeps_intro)
    fix st st' assume f: "pin_family k st" and p: "service_pin send i st = Some st'"
    note g = family_parse [OF f, of "ioredtbl (io_apic st) ! i"]
    from p show "pin_family k st'"
    proof (cases rule: service_pin_cases)
      case (3 st1 m d)
      then show ?thesis using sendsD [OF s family_low [OF g, of i]] by simp
    next
      case (4 st1 st2 m d)
      have "pin_family k st2" using family_rirr [OF g i] 4(1,4) by simp
      then show ?thesis using 4(5) sendsD [OF s, of k st2 m d st'] by auto
    qed (use f g in simp_all)
  qed
qed

lemma service_pin_serves:
  assumes s: "sends pin_family send" and i: "i < IOAPIC_NUM_PINS" and w: "chips_wf st" and p: "service_pin send i st = Some st'"
  shows "pin_family i st'"
proof -
  note g = wf_parse [OF w, of "ioredtbl (io_apic st) ! i"]
  from p show ?thesis
  proof (cases rule: service_pin_cases)
    case 1
    then show ?thesis using w by (simp add: pin_family_def pin_served_def)
  next
    case (2 st1)
    then show ?thesis using g by (simp add: pin_family_def pin_served_def)
  next
    case (3 st1 m d)
    have "pin_family i (set_irr i False st1)" using g 3(1) served_low(2) by (simp add: pin_family_def)
    then show ?thesis using sendsD [OF s] 3(4) by blast
  next
    case (4 st1 st2 m d)
    have "pin_family i st2" using g served_rirr(2) [OF g i] 4(1,3,4) by (simp add: pin_family_def)
    then show ?thesis using 4(5) sendsD [OF s, of i st2 m d st'] by auto
  qed
qed

lemma sends_wf: "sends pin_family send \<Longrightarrow> sends (\<lambda>_. chips_wf) send"
  unfolding sends_def keeps_def using pin_family_def by (metis less_irrefl)

lemma service_pins_serve:
  "sends pin_family send \<Longrightarrow> \<forall>i \<in> set is. i < IOAPIC_NUM_PINS \<Longrightarrow> chips_wf st \<Longrightarrow> service_pins send is st = Some st' \<Longrightarrow> j \<in> set is \<Longrightarrow> pin_family j st'"
proof (induction "is" arbitrary: st)
  case (Cons i "is")
  from Cons.prems(4) obtain st1 where st1: "service_pin send i st = Some st1" "service_pins send is st1 = Some st'" by (auto split: option.splits)
  have w: "chips_wf st1" using keepsD [OF wp.pin [OF sends_wf [OF Cons.prems(1)]] Cons.prems(3) st1(1)] Cons.prems(2) by simp
  show ?case
  proof (cases "j \<in> set is")
    case True
    then show ?thesis using Cons.IH [OF Cons.prems(1) _ w st1(2)] Cons.prems(2) by simp
  next
    case False
    then have "pin_family j st1" using service_pin_serves [OF Cons.prems(1) _ Cons.prems(3)] Cons.prems(2,5) st1(1) by auto
    then show ?thesis using keepsD [OF pp.pins [OF Cons.prems(1)] _ st1(2)] Cons.prems(2) by simp
  qed
qed simp

lemma service_serves:
  assumes "sends pin_family send" "chips_wf st" "ioapic_service send st = Some st'"
  shows "pin_family j st'"
proof (cases "j < IOAPIC_NUM_PINS")
  case True
  then show ?thesis using service_pins_serve [OF assms(1) _ assms(2) assms(3) [unfolded ioapic_service_def], of j] by simp
next
  case False
  then show ?thesis using keepsD [OF wp.service [OF sends_wf [OF assms(1)]] assms(2,3)] by (simp add: pin_family_def)
qed


interpretation pb: chips_bus pin_family
proof unfold_locales
  fix send i k v now assume s: "sends pin_family send" and i: "i < IOAPIC_NUM_PINS"
  show "keeps (pin_family k) (eoi_pin send v now i)"
  proof (rule keeps_intro)
    fix st st' assume f: "pin_family k st" and p: "eoi_pin send v now i st = Some st'"
    have w: "chips_wf st" and k: "k < IOAPIC_NUM_PINS \<Longrightarrow> pin_served k st" using f by (simp_all add: pin_family_def)
    from p show "pin_family k st'"
    proof (cases rule: eoi_pin_cases)
      case (2 st1)
      have "timer_pending (delayed_ioapic_service_timer (io_apic st)) (tmrs st')" "chips_wf st'"
        using w 2 by (simp_all add: chips_wf_def wf_timer_ops anticipate_pending)
      then show ?thesis using w k i 2 by (auto simp: pin_family_def pin_served_def chips_wf_def nth_list_update bit_rirr)
    next
      case (3 st1 c)
      have "chips_wf (put_eoi i c st1)" using w 3(1) by simp
      then show ?thesis using service_serves [OF s _ 3(2)] by simp
    next
      case (4 st1)
      then show ?thesis using w k i by (auto simp: pin_family_def pin_served_def chips_wf_def nth_list_update bit_rirr)
    qed (use f in simp)
  qed
qed

interpretation ip: chips_invariant pin_family
proof unfold_locales
  fix send k now assume s: "sends pin_family send"
  show "keeps (pin_family k) (apic_eoi send now)"
  proof (intro eoi_keeps pb.eoi_broadcast [OF s] pl.update)
    fix st i assume f: "pin_family k st"
    then show "pin_family k (st\<lparr>apic := (apic st)\<lparr>isr_tab := apic_reset_bit (isr_tab (apic st)) i\<rparr>\<rparr>)"
      using isr_wf [of st i] pin_served_cong [of "st\<lparr>apic := (apic st)\<lparr>isr_tab := apic_reset_bit (isr_tab (apic st)) i\<rparr>\<rparr>" st k]
      by (simp add: pin_family_def)
  qed
qed


lemma family_fields [simp]:
  "pin_family k (st\<lparr>interrupt_request := x\<rparr>) = pin_family k st" "pin_family k (st\<lparr>interrupt_context := b\<rparr>) = pin_family k st"
  "pin_family k (cpu_reset_interrupt m st) = pin_family k st" "pin_family k (st\<lparr>apic_irq_delivered := n\<rparr>) = pin_family k st"
  by (simp_all add: pin_family_def pin_served_def chips_wf_def cpu_reset_interrupt_def)

lemma family_wf: "pin_family k st \<Longrightarrow> chips_wf st"
  by (simp add: pin_family_def)

lemma family_raised:
  assumes "pin_family k st" "n < IOAPIC_NUM_PINS" "bit (ioredtbl (io_apic st) ! n) 15" "bit (ioredtbl (io_apic st) ! n) 14"
  shows "pin_family k (set_irr n True st)"
  using assms by (auto simp: pin_family_def pin_served_def bit_irr_set)

lemma family_set_irq: "sends pin_family send \<Longrightarrow> keeps (pin_family k) (ioapic_set_irq send n l)"
proof (rule keeps_intro)
  fix st st' assume s: "sends pin_family send" and f: "pin_family k st" and r: "ioapic_set_irq send n l st = Some st'"
  have serve: "ioapic_service send (set_irr v True st) = Some st' \<Longrightarrow> pin_family k st'" for v
    using service_serves [OF s, of "set_irr v True st" st'] family_wf [OF f] by simp
  show "pin_family k st'"
    using r serve f family_low [OF f] family_raised [OF f] by (auto simp: ioapic_set_irq_def Let_def entry_flags split: if_splits)
qed

lemma family_io_write: "sends pin_family send \<Longrightarrow> keeps (pin_family k) (ioapic_mem_write send a val sz now)"
proof (rule keeps_intro)
  fix st st' assume s: "sends pin_family send" and f: "pin_family k st" and r: "ioapic_mem_write send a val sz now st = Some st'"
  have serve: "ioapic_service send (put_eoi n 0 (set_redtbl n e st)) = Some st' \<Longrightarrow> pin_family k st'" for n e
    using service_serves [OF s, of "put_eoi n 0 (set_redtbl n e st)" st'] family_wf [OF f] by simp
  have "pin_family k (st\<lparr>io_apic := (io_apic st)\<lparr>ioregsel := x\<rparr>\<rparr>)" "pin_family k (st\<lparr>io_apic := (io_apic st)\<lparr>ioapic_id := x\<rparr>\<rparr>)" for x
    using f by (simp_all add: pin_family_def pin_served_def chips_wf_def)
  then show "pin_family k st'"
    using r serve f keepsD [OF pb.eoi_broadcast [OF s] f] by (auto simp: ioapic_mem_write_def Let_def split: if_splits)
qed

lemma family_expires: "keeps (pin_family k) (timer_expires now)"
proof (rule keeps_intro)
  fix st st' assume f: "pin_family k st" and r: "timer_expires now st = Some st'"
  note w = family_wf [OF f]
  show "pin_family k st'"
  proof (cases "active_timers (tmrs st) QEMU_CLOCK_VIRTUAL")
    case Nil
    then show ?thesis using r f by (simp add: timer_expires_def)
  next
    case (Cons i rest)
    define st1 where "st1 = st\<lparr>tmrs := pop_timer QEMU_CLOCK_VIRTUAL (tmrs st)\<rparr>"
    have tw: "timers_wf (tmrs st)" using w by (simp add: chips_wf_def)
    note pop = wf_pop [OF tw Cons]
    have w1: "chips_wf st1" using w pop(1) by (simp add: chips_wf_def st1_def)
    have f1: "pin_family k st1" if "i \<noteq> delayed_ioapic_service_timer (io_apic st)"
      using f w1 that by (auto simp: pin_family_def pin_served_def st1_def timer_pending_def pop(2))
    have r1: "st' = st \<or> chips_cb i now st1 = Some st'" using r Cons by (auto simp: timer_expires_def st1_def split: if_splits)
    have d: "apic_timer_id (apic st) \<noteq> delayed_ioapic_service_timer (io_apic st)" using w by (simp add: chips_wf_def)
    have "apic st1 = apic st" "io_apic st1 = io_apic st" by (simp_all add: st1_def)
    then show ?thesis using r1 f f1 d pl.timer_cb [of k st1] service_serves [OF ip.sends_stl w1, of now st' k]
      by (auto simp: chips_cb_def delayed_ioapic_service_cb_def split: if_splits)
  qed
qed

lemma family_take: "pin_family k st \<Longrightarrow> pin_family k (snd (apic_get_interrupt st))"
proof -
  assume f: "pin_family k st"
  note c = pl.check_pic [OF f]
  have "pin_family k (apic_update_irq (st'\<lparr>apic := (apic st')\<lparr>irr_tab := apic_reset_bit (irr_tab (apic st')) n, isr_tab := apic_set_bit (isr_tab (apic st')) n\<rparr>\<rparr>))"
    if "pin_family k st'" for st' n
    using that by (intro pl.update) (simp add: pin_family_def pin_served_def chips_wf_def)
  with f c show ?thesis by (auto simp: apic_get_interrupt_def Let_def split: prod.splits)
qed

lemma family_pic_interrupt: "pin_family k st \<Longrightarrow> pin_family k (snd (cpu_get_pic_interrupt st))"
proof -
  assume f: "pin_family k st"
  obtain n st1 where g: "apic_get_interrupt st = (n, st1)" by fastforce
  have f1: "pin_family k st1" using family_take [OF f] g by simp
  show ?thesis using f1 pl.read_irq [OF f1] g by (auto simp: cpu_get_pic_interrupt_def split: prod.splits)
qed

lemma family_exec: "pin_family k st \<Longrightarrow> pin_family k (snd (snd (snd (x86_cpu_exec_interrupt virq env st))))"
proof -
  assume f: "pin_family k st"
  have h: "pin_family k (snd (cpu_get_pic_interrupt (cpu_reset_interrupt m st)))" for m by (rule family_pic_interrupt) (simp add: f)
  have "pin_family k (snd (apic_sipi st))"
    using f pl.put [of k "cpu_reset_interrupt CPU_INTERRUPT_SIPI st" "(apic st)\<lparr>wait_for_sipi := False\<rparr>"]
    by (simp add: apic_sipi_def Let_def same_shape_def same_prio_def) (simp add: cpu_reset_interrupt_def)
  then show ?thesis using f h
    by (auto simp: x86_cpu_exec_interrupt_def Let_def apic_poll_irq_def pl.update split: prod.splits) (metis snd_conv)
qed


lemma set_base_result:
  assumes "cpu_set_apic_base val st = Inr st'"
  obtains s where "st' = st\<lparr>apic := s\<rparr>" "same_prio (apic st) s"
    "apicbase s AND MSR_IA32_APICBASE_ENABLE = apicbase (apic st) AND MSR_IA32_APICBASE_ENABLE"
    "same_shape (apic st) (s\<lparr>apicbase := apicbase (apic st)\<rparr>)"
proof -
  define i where "i = (if apicbase (apic st) AND MSR_IA32_APICBASE_EXTD = 0 \<and> val AND ucast MSR_IA32_APICBASE_EXTD \<noteq> 0
    then ucast (initial_apic_id (apic st)) else apic_id (apic st))"
  have b: "st' = st\<lparr>apic := (apic st)\<lparr>apicbase := ucast (val AND 0xfffff000) OR (apicbase (apic st) AND (MSR_IA32_APICBASE_BSP OR MSR_IA32_APICBASE_ENABLE)), apic_id := i\<rparr>\<rparr>"
    using assms by (cases "apic st"; simp only: cpu_set_apic_base_def apic_set_base_def Let_def i_def split: if_splits; simp)
  have "(ucast (val AND 0xfffff000) OR (x AND (MSR_IA32_APICBASE_BSP OR MSR_IA32_APICBASE_ENABLE))) AND MSR_IA32_APICBASE_ENABLE = x AND MSR_IA32_APICBASE_ENABLE" for x
  proof -
    have "(0xfffff000 :: u64) = NOT (mask 12) AND mask 32" by (simp add: mask_eq_exp_minus_1)
    then have "\<not> bit (ucast (val AND 0xfffff000) :: u32) 11" by (simp add: bit_simps)
    then show ?thesis
      by (intro bit_word_eqI) (auto simp: MSR_IA32_APICBASE_BSP_def MSR_IA32_APICBASE_ENABLE_def bit_simps simp del: push_bit_of_1)
  qed
  then show ?thesis using b by (intro that [OF b]) (simp_all add: same_prio_def same_shape_def)
qed

lemma family_set_base: "pin_family k st \<Longrightarrow> cpu_set_apic_base val st = Inr st' \<Longrightarrow> pin_family k st'"
  by (erule set_base_result) (auto simp: pin_family_def pin_served_def chips_wf_def same_shape_def tab_wf_def)

lemma designate_fields [simp]:
  "io_apic (apic_designate_bsp b st) = io_apic st" "tmrs (apic_designate_bsp b st) = tmrs st"
  "apic_timer_id (apic (apic_designate_bsp b st)) = apic_timer_id (apic st)"
  by (simp_all add: apic_designate_bsp_def)

lemma family_init: "pin_family k st \<Longrightarrow> pin_family k (do_cpu_init st)"
proof -
  assume f: "pin_family k st"
  have "apicbase (apic (do_cpu_init st)) AND MSR_IA32_APICBASE_ENABLE = apicbase (apic st) AND MSR_IA32_APICBASE_ENABLE"
    by (rule bit_word_eqI) (auto simp: do_cpu_init_def apic_init_reset_def apic_designate_bsp_def MSR_IA32_APICBASE_BSP_def MSR_IA32_APICBASE_ENABLE_def Let_def bit_simps simp del: push_bit_of_1)
  moreover have "chips_wf st" by (rule family_wf [OF f])
  ultimately have "chips_wf (do_cpu_init st)"
    by (simp add: chips_wf_def do_cpu_init_def Let_def) (simp add: apic_init_reset_def tab_wf_def wf_timer_ops)
  moreover have "apic_timer_id (apic st) \<noteq> delayed_ioapic_service_timer (io_apic st)" using f by (simp add: pin_family_def chips_wf_def)
  then have "pin_served k (do_cpu_init st) = pin_served k st"
    by (intro pin_served_cong) (simp_all add: do_cpu_init_def apic_init_reset_def other_pending Let_def)
  ultimately show ?thesis using f by (simp add: pin_family_def)
qed

lemma returned_Some: "returned r = Some x \<longleftrightarrow> r = Inr x"
  by (simp add: returned_def split: sum.splits)

lemma family_step: "pin_family k st \<Longrightarrow> chip_step e st = Some st' \<Longrightarrow> pin_family k st'"
proof (cases e)
  case (Gsi n l now)
  assume f: "pin_family k st" and r: "chip_step e st = Some st'"
  have "pin_family k (if n < 16 then pic_step (isa_set_irq n l) st else st)" using f pl.step_pic by simp
  then show ?thesis using r Gsi keepsD [OF family_set_irq [OF ip.sends_stl]] by (simp add: gsi_handler_def Let_def)
next
  case (TimerExpires now)
  assume f: "pin_family k st" and r: "chip_step e st = Some st'"
  then show ?thesis using TimerExpires keepsD [OF family_expires f, of now] by simp
next
  case (IoapicWrite a v sz now)
  assume f: "pin_family k st" and r: "chip_step e st = Some st'"
  then show ?thesis using IoapicWrite keepsD [OF family_io_write [OF ip.sends_stl] f] by simp
next
  case (ApicWrite a v sz now)
  assume f: "pin_family k st" and r: "chip_step e st = Some st'"
  then show ?thesis using ApicWrite keepsD [OF ip.mem_write f] by simp
qed (auto simp: ip.mem_read pl.step_pic family_exec family_init returned_Some enter_interrpt_context_def leave_interrpt_context_def
    cpu_set_apic_tpr_def same_shape_def intro: family_set_base pl.put_update split: if_splits)

lemma family_run: "pin_family k st \<Longrightarrow> chip_run es st = Some st' \<Longrightarrow> pin_family k st'"
  by (induction es arbitrary: st) (auto dest: family_step split: option.splits)


section \<open>Requests to the processor\<close>

definition signalled :: "chips \<Rightarrow> bool" where
  "signalled st \<longleftrightarrow>
     (0 < apic_irq_pending (apic st) \<longrightarrow> tst (interrupt_request st) CPU_INTERRUPT_HARD \<or> tst (interrupt_request st) CPU_INTERRUPT_POLL)"

lemma prio_pending: "same_prio s s' \<Longrightarrow> apic_irq_pending s' = apic_irq_pending s"
  by (simp only: same_prio_def apic_irq_pending_def apic_get_ppr_def)

lemma request_bits: "(x OR m) AND n = 0 \<longleftrightarrow> x AND n = 0 \<and> m AND n = 0" for x m n :: u32
  by (auto simp: bit_eq_iff bit_simps)

lemma update_signals [simp]: "signalled (apic_update_irq st)"
  by (auto simp: signalled_def apic_update_irq_def cpu_interrupt_def cpu_reset_interrupt_def request_bits CPU_INTERRUPT_HARD_def CPU_INTERRUPT_POLL_def)

lemma signalled_io [simp]: "signalled (set_irr i b st) = signalled st" "signalled (set_redtbl i e st) = signalled st"
  "signalled (put_eoi i c st) = signalled st" "signalled (st\<lparr>tmrs := ts\<rparr>) = signalled st" "signalled (st\<lparr>io_apic := io\<rparr>) = signalled st"
  "signalled (st\<lparr>isa_pic := ps\<rparr>) = signalled st" "signalled (st\<lparr>interrupt_context := b\<rparr>) = signalled st"
  by (simp_all add: signalled_def set_irr_def set_redtbl_def put_eoi_def)

interpretation sl: chips_leaf "\<lambda>_. signalled"
  by unfold_locales
    (auto simp: prio_pending cpu_interrupt_def apic_report_irq_delivered_def request_bits, auto simp: signalled_def prio_pending request_bits)

interpretation sp: chips_pins "\<lambda>_. signalled"
proof unfold_locales
  fix send i assume s: "sends (\<lambda>_. signalled) send"
  show "keeps signalled (service_pin send i)"
  proof (rule keeps_intro)
    fix st st' assume f: "signalled st" and p: "service_pin send i st = Some st'"
    have g: "signalled (snd (ioapic_entry_parse e st))" for e using f sl.read_irq by (simp add: parse_state)
    from p show "signalled st'"
      by (cases rule: service_pin_cases) (use f g s in \<open>auto simp: sends_def elim!: keepsD [rotated 2]\<close>)
  qed
qed

interpretation sb: chips_bus "\<lambda>_. signalled"
proof unfold_locales
  fix send i v now assume s: "sends (\<lambda>_. signalled) send"
  show "keeps signalled (eoi_pin send v now i)"
  proof (rule keeps_intro)
    fix st st' assume f: "signalled st" and p: "eoi_pin send v now i st = Some st'"
    from p show "signalled st'"
    proof (cases rule: eoi_pin_cases)
      case (3 st1 c)
      have "signalled (put_eoi i c st1)" using f 3(1) by simp
      then show ?thesis using keepsD [OF sp.service [OF s]] 3(2) by blast
    qed (use f in simp_all)
  qed
qed

interpretation si: chips_invariant "\<lambda>_. signalled"
proof unfold_locales
  fix send now
  show "keeps signalled (apic_eoi send now)"
  proof (rule keeps_intro)
    fix st st' assume f: "signalled st" and p: "apic_eoi send now st = Some st'"
    from p show "signalled st'" by (cases rule: apic_eoi_cases) (use f in simp_all)
  qed
qed


text \<open>
  The line of the 8259s, if it is taken at all, is taken as an external or as a fixed interrupt.
\<close>

definition lint0_sane :: "lapic \<Rightarrow> bool" where
  "lint0_sane s \<longleftrightarrow>
     lvt s ! APIC_LVT_LINT0 AND APIC_LVT_MASKED \<noteq> 0 \<or> lvt_mode (lvt s ! APIC_LVT_LINT0) = 0 \<or> lvt_mode (lvt s ! APIC_LVT_LINT0) = 7"

text \<open>\<open>LINT0\<close> is set up so whenever the processor takes an interrupt.\<close>

fun sane_run :: "chip_event list \<Rightarrow> chips \<Rightarrow> bool" where
  "sane_run [] st \<longleftrightarrow> True"
| "sane_run (e # es) st \<longleftrightarrow>
     (case e of ExecInterrupt virq env \<Rightarrow> lint0_sane (apic st) | _ \<Rightarrow> True) \<and>
     (case chip_step e st of None \<Rightarrow> True | Some st' \<Rightarrow> sane_run es st')"

lemma signalled_hard: "signalled (cpu_interrupt CPU_INTERRUPT_HARD st)"
  by (simp add: signalled_def cpu_interrupt_def request_bits CPU_INTERRUPT_HARD_def)

lemma check_pic_signals:
  assumes "chips_wf st" "lint0_sane (apic st)" "apic_check_pic st = (True, st')"
  shows "signalled st'"
proof -
  let ?l = "lvt (apic st) ! APIC_LVT_LINT0"
  have "apic_accept_pic_intr (apic st)" and st': "st' = apic_deliver_pic_intr True st" using assms(3) by (auto simp: apic_check_pic_def split: if_splits)
  then have "?l AND APIC_LVT_MASKED = 0" using assms(1) by (simp add: apic_accept_pic_intr_def chips_wf_def)
  moreover from this have "lvt_mode ?l = 0 \<or> lvt_mode ?l = 7" using assms(2) by (simp add: lint0_sane_def)
  ultimately show ?thesis
    by (auto simp: st' apic_deliver_pic_intr_def apic_local_deliver_def Let_def signalled_hard apic_set_irq_def)
qed

lemma check_pic_false: "apic_check_pic st = (False, st') \<Longrightarrow> st' = st"
  by (simp add: apic_check_pic_def split: if_splits)

lemma take_signals: "chips_wf st \<Longrightarrow> lint0_sane (apic st) \<Longrightarrow> signalled (snd (apic_get_interrupt st))"
proof -
  assume w: "chips_wf st" and l: "lint0_sane (apic st)"
  obtain b st1 where c: "apic_check_pic st = (b, st1)" by fastforce
  note t = check_pic_signals [OF w l] and f = check_pic_false [of st st1]
  show ?thesis using c t f
    by (cases b) (auto simp: apic_get_interrupt_def Let_def signalled_def [of st] apic_irq_pending_def [of "apic st"])
qed

lemma pic_interrupt_signals: "chips_wf st \<Longrightarrow> lint0_sane (apic st) \<Longrightarrow> signalled (snd (cpu_get_pic_interrupt st))"
proof -
  assume w: "chips_wf st" and l: "lint0_sane (apic st)"
  obtain n st1 where g: "apic_get_interrupt st = (n, st1)" by fastforce
  have f1: "signalled st1" using take_signals [OF w l] g by simp
  show ?thesis using f1 sl.read_irq [OF f1] g by (auto simp: cpu_get_pic_interrupt_def split: prod.splits)
qed


lemma signalled_clear:
  "m AND CPU_INTERRUPT_HARD = 0 \<Longrightarrow> m AND CPU_INTERRUPT_POLL = 0 \<Longrightarrow> signalled (cpu_reset_interrupt m st) = signalled st"
proof -
  assume "m AND CPU_INTERRUPT_HARD = 0" "m AND CPU_INTERRUPT_POLL = 0"
  then have "(x AND NOT m) AND CPU_INTERRUPT_HARD = x AND CPU_INTERRUPT_HARD" "(x AND NOT m) AND CPU_INTERRUPT_POLL = x AND CPU_INTERRUPT_POLL" for x
    by (auto simp: bit_eq_iff bit_simps)
  then show ?thesis by (simp add: signalled_def cpu_reset_interrupt_def)
qed

lemma other_requests:
  "CPU_INTERRUPT_SMI AND CPU_INTERRUPT_HARD = 0" "CPU_INTERRUPT_SMI AND CPU_INTERRUPT_POLL = 0" "CPU_INTERRUPT_NMI AND CPU_INTERRUPT_HARD = 0"
  "CPU_INTERRUPT_NMI AND CPU_INTERRUPT_POLL = 0" "CPU_INTERRUPT_MCE AND CPU_INTERRUPT_HARD = 0" "CPU_INTERRUPT_MCE AND CPU_INTERRUPT_POLL = 0"
  "CPU_INTERRUPT_VIRQ AND CPU_INTERRUPT_HARD = 0" "CPU_INTERRUPT_VIRQ AND CPU_INTERRUPT_POLL = 0" "CPU_INTERRUPT_SIPI AND CPU_INTERRUPT_HARD = 0"
  "CPU_INTERRUPT_SIPI AND CPU_INTERRUPT_POLL = 0"
  by (simp_all add: CPU_INTERRUPT_SMI_def CPU_INTERRUPT_NMI_def CPU_INTERRUPT_MCE_def CPU_INTERRUPT_VIRQ_def CPU_INTERRUPT_SIPI_def
      CPU_INTERRUPT_HARD_def CPU_INTERRUPT_POLL_def)

lemma exec_signals:
  assumes "chips_wf st" "lint0_sane (apic st)" "signalled st"
  shows "signalled (snd (snd (snd (x86_cpu_exec_interrupt virq env st))))"
proof -
  have w: "chips_wf (cpu_reset_interrupt m st)" "lint0_sane (apic (cpu_reset_interrupt m st))" for m
    using assms by (simp_all add: chips_wf_def cpu_reset_interrupt_def)
  note h = pic_interrupt_signals [OF w]
  have "signalled (cpu_reset_interrupt CPU_INTERRUPT_SIPI st)" using assms(3) by (simp add: signalled_clear other_requests)
  from sl.put [OF this, of "(apic st)\<lparr>wait_for_sipi := False\<rparr>"] this have "signalled (snd (apic_sipi st))"
    by (simp add: apic_sipi_def Let_def same_shape_def same_prio_def cpu_reset_interrupt_def)
  then show ?thesis using assms(3) h
    by (auto simp: x86_cpu_exec_interrupt_def Let_def apic_poll_irq_def signalled_clear other_requests split: prod.splits) (metis snd_conv)
qed

lemma signalled_set_irq: "keeps signalled (ioapic_set_irq (stl_le_phys now) n l)"
proof (rule keeps_intro)
  fix st st' assume f: "signalled st" and r: "ioapic_set_irq (stl_le_phys now) n l st = Some st'"
  have "ioapic_service (stl_le_phys now) (set_irr v True st) = Some st' \<Longrightarrow> signalled st'" for v
    using keepsD [OF sp.service [OF si.sends_stl], of "set_irr v True st" now st'] f by simp
  then show "signalled st'" using r f by (auto simp: ioapic_set_irq_def Let_def split: if_splits)
qed

lemma signalled_io_write: "keeps signalled (ioapic_mem_write (stl_le_phys now) a val sz now)"
proof (rule keeps_intro)
  fix st st' assume f: "signalled st" and r: "ioapic_mem_write (stl_le_phys now) a val sz now st = Some st'"
  have "ioapic_service (stl_le_phys now) (put_eoi n 0 (set_redtbl n e st)) = Some st' \<Longrightarrow> signalled st'" for n e
    using keepsD [OF sp.service [OF si.sends_stl], of "put_eoi n 0 (set_redtbl n e st)" now st'] f by simp
  then show "signalled st'" using r f keepsD [OF sb.eoi_broadcast [OF si.sends_stl] f] 
    by (auto simp: ioapic_mem_write_def Let_def split: if_splits)
qed

lemma signalled_expires: "keeps signalled (timer_expires now)"
proof (rule keeps_intro)
  fix st st' assume f: "signalled st" and r: "timer_expires now st = Some st'"
  let ?st1 = "st\<lparr>tmrs := pop_timer QEMU_CLOCK_VIRTUAL (tmrs st)\<rparr>"
  have "ioapic_service (stl_le_phys now) ?st1 = Some st' \<Longrightarrow> signalled st'"
    using keepsD [OF sp.service [OF si.sends_stl], of ?st1 now st'] f by simp
  then show "signalled st'" using r f sl.timer_cb [of ?st1]
    by (auto simp: timer_expires_def chips_cb_def delayed_ioapic_service_cb_def split: list.splits if_splits)
qed


lemma signalled_step:
  assumes f: "signalled st" and w: "chips_wf st" and r: "chip_step e st = Some st'"
    and l: "case e of ExecInterrupt virq env \<Rightarrow> lint0_sane (apic st) | _ \<Rightarrow> True"
  shows "signalled st'"
proof (cases e)
  case (Gsi n l now)
  have "signalled (if n < 16 then pic_step (isa_set_irq n l) st else st)" using f sl.step_pic by simp
  then show ?thesis using r Gsi keepsD [OF signalled_set_irq] by (simp add: gsi_handler_def Let_def)
next
  case (ApicWrite a v sz now)
  then show ?thesis using r keepsD [OF si.mem_write f] by simp
next
  case (IoapicWrite a v sz now)
  then show ?thesis using r keepsD [OF signalled_io_write f] by simp
next
  case (TimerExpires now)
  then show ?thesis using r keepsD [OF signalled_expires f] by simp
next
  case (SetBase v)
  then have "cpu_set_apic_base v st = Inr st'" using r by (simp add: returned_Some)
  then show ?thesis by (rule set_base_result) (use f in \<open>simp add: signalled_def prio_pending\<close>)
next
  case CpuInit
  have "apic_irq_pending (apic (do_cpu_init st)) = 0"
    by (simp add: do_cpu_init_def apic_init_reset_def apic_irq_pending_def APIC_SV_ENABLE_def Let_def)
  then show ?thesis using r CpuInit by (simp add: signalled_def)
next
  case (ExecInterrupt virq env)
  then show ?thesis using exec_signals [OF w _ f] r l by auto
qed (use r f in \<open>auto simp: si.mem_read sl.step_pic returned_Some enter_interrpt_context_def leave_interrpt_context_def
    cpu_set_apic_tpr_def split: if_splits\<close>)

lemma signalled_run:
  "signalled st \<Longrightarrow> chips_wf st \<Longrightarrow> sane_run es st \<Longrightarrow> chip_run es st = Some st' \<Longrightarrow> signalled st'"
proof (induction es arbitrary: st)
  case (Cons e es)
  from Cons.prems(4) obtain st1 where st1: "chip_step e st = Some st1" "chip_run es st1 = Some st'" by (auto split: option.splits)
  have "pin_family IOAPIC_NUM_PINS st" using Cons.prems(2) by (simp add: pin_family_def)
  from family_wf [OF family_step [OF this st1(1)]] have "chips_wf st1" .
  moreover have "signalled st1" by (rule signalled_step [OF Cons.prems(1,2) st1(1)]) (use Cons.prems(3) in simp)
  ultimately show ?case using Cons.IH [OF _ _ _ st1(2)] Cons.prems(3) st1(1) by simp
qed simp


section \<open>The nesting ends\<close>

interpretation il: chips_leaf "\<lambda>_ st. isr_tab (apic st) = x" for x
  by unfold_locales (simp_all add: same_shape_def cpu_interrupt_def apic_report_irq_delivered_def)

text \<open>At most \<open>b\<close> interrupts are in service.\<close>

definition at_most :: "nat \<Rightarrow> chips \<Rightarrow> bool" where
  "at_most b st \<longleftrightarrow> tab_wf (isr_tab (apic st)) \<and> card {i. i < 256 \<and> apic_get_bit (isr_tab (apic st)) i} \<le> b"

text \<open>\<open>total n f\<close>: with fewer than \<open>n\<close> interrupts in service \<open>f\<close> returns, and no more are in service then.\<close>

definition total :: "nat \<Rightarrow> (chips \<Rightarrow> chips option) \<Rightarrow> bool" where
  "total n f \<longleftrightarrow> (\<forall>b < n. \<forall>st. at_most b st \<longrightarrow> (\<exists>st'. f st = Some st' \<and> at_most b st'))"

lemma totalI: "(\<And>b st. b < n \<Longrightarrow> at_most b st \<Longrightarrow> \<exists>st'. f st = Some st' \<and> at_most b st') \<Longrightarrow> total n f"
  by (simp add: total_def)

lemma totalD: "total n f \<Longrightarrow> b < n \<Longrightarrow> at_most b st \<Longrightarrow> \<exists>st'. f st = Some st' \<and> at_most b st'"
  by (simp add: total_def)

lemma total_bind: "total n f \<Longrightarrow> total n g \<Longrightarrow> total n (\<lambda>st. case f st of None \<Rightarrow> None | Some st \<Rightarrow> g st)"
  by (rule totalI) (fastforce dest: totalD)

lemma at_most_isr: "isr_tab (apic st') = isr_tab (apic st) \<Longrightarrow> at_most b st' = at_most b st"
  by (simp add: at_most_def)

lemma at_most_io [simp]:
  "at_most b (set_irr i c st) = at_most b st" "at_most b (set_redtbl i e st) = at_most b st" "at_most b (put_eoi i n st) = at_most b st"
  "at_most b (st\<lparr>tmrs := ts\<rparr>) = at_most b st" "at_most b (snd (ioapic_entry_parse e st)) = at_most b st" "at_most b (apic_update_irq st) = at_most b st"
  by (auto intro!: at_most_isr simp: parse_state il.read_irq)

lemma at_most_eoi:
  assumes "at_most b st" "get_highest_priority_int (isr_tab (apic st)) = int v" "v < 256" "apic_get_bit (isr_tab (apic st)) v"
  shows "0 < b" "at_most (b - 1) (st\<lparr>apic := (apic st)\<lparr>isr_tab := apic_reset_bit (isr_tab (apic st)) v\<rparr>\<rparr>)"
proof -
  define A where "A = {i. i < 256 \<and> apic_get_bit (isr_tab (apic st)) i}"
  have t: "tab_wf (isr_tab (apic st))" and c: "card A \<le> b" using assms(1) by (simp_all add: at_most_def A_def)
  have "finite A" "v \<in> A" using assms(3,4) by (simp_all add: A_def)
  then have "0 < card A" by (auto simp: card_gt_0_iff)
  then show "0 < b" using c by simp
  have "{i. i < 256 \<and> apic_get_bit (apic_reset_bit (isr_tab (apic st)) v) i} = A - {v}"
    using get_reset_bit [OF t assms(3)] by (auto simp: A_def)
  moreover have "card (A - {v}) \<le> b - 1" using \<open>finite A\<close> \<open>v \<in> A\<close> c by (simp add: card_Diff_singleton_if)
  ultimately show "at_most (b - 1) (st\<lparr>apic := (apic st)\<lparr>isr_tab := apic_reset_bit (isr_tab (apic st)) v\<rparr>\<rparr>)"
    using t by (simp add: at_most_def)
qed


lemma total_pin:
  assumes "\<And>m d. total n (send m d)"
  shows "total n (service_pin send i)"
proof (rule totalI)
  fix b st assume b: "b < n" and a: "at_most b st"
  obtain info st1 where p: "ioapic_entry_parse (ioredtbl (io_apic st) ! i) st = (info, st1)" by fastforce
  have a1: "at_most b st1" using a at_most_io(5) [of b "ioredtbl (io_apic st) ! i" st] by (simp add: p)
  have "\<exists>st'. send m d (set_irr i False st1) = Some st' \<and> at_most b st'" "\<exists>st'. send m d (set_redtbl i e st1) = Some st' \<and> at_most b st'" for m d e
    using totalD [OF assms b] a1 by simp_all
  then show "\<exists>st'. service_pin send i st = Some st' \<and> at_most b st'"
    using a a1 by (simp add: service_pin_def p Let_def set_irr_def)
qed

lemma total_service:
  assumes "\<And>m d. total n (send m d)"
  shows "total n (ioapic_service send)"
proof -
  have "total n (service_pins send is)" for "is"
  proof (induction "is")
    case (Cons i "is")
    from total_bind [OF total_pin [OF assms] Cons] show ?case by (simp add: total_def)
  qed (simp add: total_def)
  then show ?thesis by (simp add: total_def ioapic_service_def)
qed

lemma total_eoi_pin:
  assumes "\<And>m d. total n (send m d)"
  shows "total n (eoi_pin send v now i)"
proof (rule totalI)
  fix b st assume b: "b < n" and a: "at_most b st"
  have "\<exists>st'. ioapic_service send (put_eoi i c (set_redtbl i e st)) = Some st' \<and> at_most b st'" for c e
    using totalD [OF total_service [OF assms] b] a by simp
  then show "\<exists>st'. eoi_pin send v now i st = Some st' \<and> at_most b st'"
    using a unfolding eoi_pin_def Let_def by (simp split: if_split)
qed

lemma total_broadcast:
  assumes "\<And>m d. total n (send m d)"
  shows "total n (ioapic_eoi_broadcast send v now)"
proof -
  have "total n (eoi_pins send v now is)" for "is"
  proof (induction "is")
    case (Cons i "is")
    from total_bind [OF total_eoi_pin [OF assms] Cons] show ?case by (simp add: total_def)
  qed (simp add: total_def)
  then show ?thesis by (simp add: total_def ioapic_eoi_broadcast_def)
qed

text \<open>An end of interrupt takes one interrupt out of service before anything is sent.\<close>

lemma total_eoi:
  assumes "\<And>m d. total n (send m d)"
  shows "total (Suc n) (apic_eoi send now)"
proof (rule totalI)
  fix b st assume b: "b < Suc n" and a: "at_most b st"
  have t: "tab_wf (isr_tab (apic st))" using a by (simp add: at_most_def)
  show "\<exists>st'. apic_eoi send now st = Some st' \<and> at_most b st'"
    using t
  proof (cases rule: highest_spec)
    case 1
    then show ?thesis using a by (simp add: apic_eoi_def Let_def)
  next
    case (2 v)
    let ?st1 = "st\<lparr>apic := (apic st)\<lparr>isr_tab := apic_reset_bit (isr_tab (apic st)) v\<rparr>\<rparr>"
    note e = at_most_eoi [OF a 2(2,1,3)]
    have "b - 1 < n" using e(1) b by simp
    from totalD [OF total_broadcast [of n send v now, OF assms] this e(2)] obtain st2
      where st2: "ioapic_eoi_broadcast send v now ?st1 = Some st2" "at_most (b - 1) st2" by blast
    have "at_most (b - 1) st \<Longrightarrow> at_most b st" for st unfolding at_most_def by linarith
    then have "at_most b st2" "at_most b ?st1" using st2(2) e(2) by blast+
    then show ?thesis using 2(2) st2(1) by (simp add: apic_eoi_def Let_def)
  qed
qed

lemma total_reg_write:
  assumes "\<And>m d. total n (send m d)"
  shows "total (Suc n) (apic_reg_write send index val now)"
proof (rule totalI)
  fix b st assume b: "b < Suc n" and a: "at_most b st"
  have u: "at_most b (st\<lparr>apic := s\<rparr>)" if "isr_tab s = isr_tab (apic st)" for s using a that at_most_isr [of "st\<lparr>apic := s\<rparr>" st b] by simp
  have l: "at_most b (snd (apic_check_pic st2))" "at_most b (apic_timer_update now st2)" "at_most b (apic_deliver dest lg dm v tm st2)"
    if "at_most b st2" for st2 dest lg dm v tm
    using that at_most_isr [of "snd (apic_check_pic st2)" st2 b] at_most_isr [of "apic_timer_update now st2" st2 b]
      at_most_isr [of "apic_deliver dest lg dm v tm st2" st2 b] by (simp_all add: il.check_pic il.timer_update il.deliver)
  have c: "at_most b (let (b, st) = apic_check_pic st2 in if b then apic_update_irq st else st)" if "at_most b st2" for st2
    using l(1) [OF that] by (cases "apic_check_pic st2") simp
  show "\<exists>st'. apic_reg_write send index val now st = Some st' \<and> at_most b st'"
    using a u l c totalD [OF total_eoi [OF assms] b a] unfolding apic_reg_write_def Let_def by simp
qed

lemma total_mem_write: "total f (apic_mem_write f a val sz now)"
proof (induction f arbitrary: a val sz)
  case 0
  then show ?case by (simp add: total_def)
next
  case (Suc f)
  show ?case
  proof (rule totalI)
    fix b st assume b: "b < Suc f" and a: "at_most b st"
    have "at_most b (apic_send_msi x d st)" for x d using a at_most_isr [of "apic_send_msi x d st" st b] by (simp add: il.send_msi)
    then show "\<exists>st'. apic_mem_write (Suc f) a val sz now st = Some st' \<and> at_most b st'"
      using a totalD [OF total_reg_write [OF Suc] b a] by (simp add: Let_def)
  qed
qed

lemma at_most_256: "tab_wf (isr_tab (apic st)) \<Longrightarrow> at_most 256 st"
proof -
  assume t: "tab_wf (isr_tab (apic st))"
  have "card {i :: nat. i < 256 \<and> P i} \<le> card {i :: nat. i < 256}" for P by (rule card_mono) auto
  with t show ?thesis unfolding at_most_def by simp
qed

end
