(* ===== verification/Irq_Properties.thy ===== *)
theory Irq_Properties
  imports Irq_Delivery
begin

text \<open>
  What the interrupt controllers of the machine guarantee together: no interrupt is forgotten, no pin
  of the I/O controller is left waiting, every access returns, and the local controller delivers its
  most urgent request.
\<close>

section \<open>The machine after power on\<close>

definition blank_apic :: lapic where
  "blank_apic = \<lparr>apicbase = 0, apic_id = 0, initial_apic_id = 0, version = 0x14, arb_id = 0, tpr = 0, spurious_vec = 0, log_dest = 0,
     dest_mode = 0, isr_tab = replicate 8 0, tmr_tab = replicate 8 0, irr_tab = replicate 8 0, lvt = replicate APIC_LVT_NB 0, esr = 0,
     icr = replicate 2 0, divide_conf = 0, count_shift = 0, initial_count = 0, initial_count_load_time = 0, next_time = 0,
     apic_timer_id = 5, timer_expiry = 0, sipi_vector = 0, wait_for_sipi = False\<rparr>"

definition blank_ioapic :: ioapic where
  "blank_ioapic = \<lparr>ioapic_id = 0, ioregsel = 0, ioapic_irr = 0, ioredtbl = replicate IOAPIC_NUM_PINS 0, ioapic_version = 0x20,
     irq_eoi = replicate IOAPIC_NUM_PINS 0, delayed_ioapic_service_timer = 6\<rparr>"

definition power_on :: chips where
  "power_on = apic_reset_common (ioapic_reset_common (apic_designate_bsp True
     \<lparr>apic = blank_apic, io_apic = blank_ioapic, isa_pic = i8259_init, tmrs = idle_timers, interrupt_request = 0,
      interrupt_context = False, apic_irq_delivered = 0\<rparr>))"

lemma power_on_family: "pin_family k power_on"
proof -
  have "io_apic power_on = blank_ioapic\<lparr>ioredtbl := replicate IOAPIC_NUM_PINS IOAPIC_LVT_MASKED\<rparr>"
    by (simp add: power_on_def apic_reset_common_def apic_init_reset_def ioapic_reset_common_def apic_designate_bsp_def Let_def blank_ioapic_def)
  then have "pin_served k power_on" by (simp add: pin_served_def blank_ioapic_def)
  moreover have "chips_wf power_on"
    using wf_timer_ops(2) [OF idle_wf]
    by (simp add: power_on_def apic_reset_common_def apic_init_reset_def ioapic_reset_common_def apic_designate_bsp_def Let_def
        chips_wf_def tab_wf_def blank_apic_def blank_ioapic_def)
      (simp add: APIC_DEFAULT_ADDRESS_def MSR_IA32_APICBASE_BSP_def MSR_IA32_APICBASE_ENABLE_def)
  ultimately show ?thesis by (simp add: pin_family_def)
qed

lemma power_on_signalled: "signalled power_on"
  by (simp add: signalled_def power_on_def apic_reset_common_def apic_init_reset_def Let_def apic_irq_pending_def APIC_SV_ENABLE_def)

lemmas run_wf = family_wf [OF family_run [OF power_on_family]]

text \<open>
  The guest enables the local controller, gives pin 4 the vector 0x31 with level triggering, and the
  device raises the line.
\<close>

definition level_scenario :: "chip_event list" where
  "level_scenario = [ApicWrite 0xf0 0x1ff 4 0, IoapicWrite 0 0x18 4 0, IoapicWrite 0x10 0x8031 4 0, Gsi 4 True 0]"

lemma level_state:
  obtains st where "chip_run level_scenario power_on = Some st" "apic_irq_pending (apic st) = 0x31" "ioapic_irr (io_apic st) = 0x10"
    "ioredtbl (io_apic st) ! 4 = 0xc031" "spurious_vec (apic st) = 0x1ff" "\<not> apic_accept_pic_intr (apic st)"
    "apic_get_bit (irr_tab (apic st)) 0x31" "apic_get_ppr (apic st) = 0" "interrupt_context st = False"
proof -
  have "map_option (\<lambda>st. (apic_irq_pending (apic st), ioapic_irr (io_apic st), ioredtbl (io_apic st) ! 4, spurious_vec (apic st),
      apic_accept_pic_intr (apic st), apic_get_bit (irr_tab (apic st)) 0x31, apic_get_ppr (apic st), interrupt_context st)) (chip_run level_scenario power_on) =
    Some (0x31, 0x10, 0xc031, 0x1ff, False, True, 0, False)"
    by code_simp
  then show ?thesis using that by auto
qed

section \<open>Properties\<close>



text \<open>
  C11. No pin is left waiting. After any sequence of events a pin of the I/O controller that has a
  request and is not masked is level triggered, and either its message has been sent and the
  acknowledgement is outstanding, or the timer that serves all pins again is running.
\<close>

theorem pins_always_served:
  assumes "chip_run es power_on = Some st" "i < IOAPIC_NUM_PINS" "bit (ioapic_irr (io_apic st)) i"
    and "ioredtbl (io_apic st) ! i AND IOAPIC_LVT_MASKED = 0"
  shows "bit (ioredtbl (io_apic st) ! i) 15 \<and>
    (ioredtbl (io_apic st) ! i AND IOAPIC_LVT_REMOTE_IRR \<noteq> 0 \<or> timer_pending (delayed_ioapic_service_timer (io_apic st)) (tmrs st))"
  using family_run [OF power_on_family [of i] assms(1)] assms(2-4) by (simp add: pin_family_def pin_served_def entry_flags)

theorem pins_always_served_witness:
  "\<exists>st. chip_run level_scenario power_on = Some st \<and> bit (ioredtbl (io_apic st) ! 4) 15"
proof (rule level_state)
  fix st assume st: "chip_run level_scenario power_on = Some st" "ioapic_irr (io_apic st) = 0x10" "ioredtbl (io_apic st) ! 4 = 0xc031"
  then show ?thesis using pins_always_served [of level_scenario st 4] by (simp add: IOAPIC_NUM_PINS_def IOAPIC_LVT_MASKED_def)
qed

section \<open>Every access returns\<close>

lemma stl_total: "total 257 (stl_le_phys now m d)"
  using total_mem_write [of 257] by (simp add: apic_fuel_def)

lemma returns:
  assumes "total 257 f" "chips_wf st"
  shows "\<exists>st'. f st = Some st'"
  using totalD [OF assms(1) _ at_most_256, of st] assms(2) by (auto simp: chips_wf_def)

lemma set_irq_returns: "chips_wf st \<Longrightarrow> \<exists>st'. ioapic_set_irq (stl_le_phys now) n l st = Some st'"
  using returns [OF total_service [of 257 "stl_le_phys now", OF stl_total], of "set_irr _ True st"]
  by (simp add: ioapic_set_irq_def Let_def)


lemma io_write_returns: "chips_wf st \<Longrightarrow> \<exists>st'. ioapic_mem_write (stl_le_phys now) a v sz now st = Some st'"
  using returns [OF total_service [of 257 "stl_le_phys now", OF stl_total], of "put_eoi _ 0 (set_redtbl _ _ st)"]
    returns [OF total_broadcast [of 257 "stl_le_phys now", OF stl_total], of st]
  by (simp add: ioapic_mem_write_def Let_def)

lemma expires_returns: "chips_wf st \<Longrightarrow> \<exists>st'. timer_expires now st = Some st'"
proof -
  assume w: "chips_wf st"
  have "chips_wf (st\<lparr>tmrs := pop_timer QEMU_CLOCK_VIRTUAL (tmrs st)\<rparr>)" if "active_timers (tmrs st) QEMU_CLOCK_VIRTUAL = i # r" for i r
    using w wf_pop(1) [OF _ that] by (simp add: chips_wf_def)
  then show ?thesis
    using returns [OF total_service [of 257 "stl_le_phys now", OF stl_total]]
    by (auto simp: timer_expires_def chips_cb_def delayed_ioapic_service_cb_def split: list.splits)
qed



section \<open>The order of delivery\<close>

lemma class_bits: "0 \<le> x \<Longrightarrow> x < 256 \<Longrightarrow> x AND 240 = x div 16 * 16" for x :: int
proof -
  assume x: "0 \<le> x" "x < 256"
  have "(240 :: int) = push_bit 4 (mask 4)" by (simp add: mask_eq_exp_minus_1)
  then have "x AND 240 = push_bit 4 (take_bit 4 (drop_bit 4 x))" by (auto simp: bit_eq_iff bit_simps)
  also have "x div 16 mod 16 = x div 16" using x by (intro mod_pos_pos_trivial) simp_all
  then have "push_bit 4 (take_bit 4 (drop_bit 4 x)) = x div 16 * 16" by (simp add: push_bit_eq_mult take_bit_eq_mod drop_bit_eq_div)
  finally show ?thesis .
qed

lemma ppr_bounds: "tab_wf (isr_tab s) \<Longrightarrow> 0 \<le> apic_get_ppr s \<and> apic_get_ppr s < 256"
proof -
  assume t: "tab_wf (isr_tab s)"
  have "uint (tpr s) < 256" using unsigned_less [where 'a = int and w = "tpr s"] by simp
  moreover have "get_highest_priority_int (isr_tab s) < 256" using t by (cases rule: highest_spec) auto
  ultimately show ?thesis by (simp add: apic_get_ppr_def Let_def) linarith
qed

lemma ppr_isr: "tab_wf (isr_tab s) \<Longrightarrow> i < 256 \<Longrightarrow> apic_get_bit (isr_tab s) i \<Longrightarrow> int i div 16 \<le> apic_get_ppr s div 16"
proof -
  assume t: "tab_wf (isr_tab s)" and i: "i < 256" "apic_get_bit (isr_tab s) i"
  from t show ?thesis
  proof (cases rule: highest_spec)
    case (2 k)
    then have "i \<le> k" using i by (metis not_le)
    then have "int i div 16 \<le> int k div 16" by (simp add: zdiv_mono1)
    then show ?thesis using 2(2) by (simp add: apic_get_ppr_def Let_def)
  qed (use i in simp)
qed


lemma pending_highest:
  assumes t: "tab_wf (isr_tab s)" "tab_wf (irr_tab s)" and e: "tst (spurious_vec s) APIC_SV_ENABLE"
    and u: "u < 256" "apic_get_bit (irr_tab s) u" "apic_get_ppr s div 16 < int u div 16"
  obtains v where "apic_irq_pending s = int v" "u \<le> v" "v < 256" "apic_get_bit (irr_tab s) v" "\<And>w. w < 256 \<Longrightarrow> v < w \<Longrightarrow> \<not> apic_get_bit (irr_tab s) w"
    "\<And>w. w < 256 \<Longrightarrow> apic_get_bit (isr_tab s) w \<Longrightarrow> w < v" "0 < v"
  using t(2)
proof (cases rule: highest_spec)
  case (2 v)
  have uv: "u \<le> v" using 2(4) u(1,2) by (metis not_le)
  then have c: "int u div 16 \<le> int v div 16" by (simp add: zdiv_mono1)
  note b = ppr_bounds [OF t(1)]
  have "\<not> int v AND 240 \<le> apic_get_ppr s AND 240" using class_bits [of "int v"] class_bits [of "apic_get_ppr s"] b 2(1) c u(3) by simp
  then have "apic_irq_pending s = int v" using e 2(2) by (simp add: apic_irq_pending_def Let_def)
  moreover have "w < v" if "w < 256" "apic_get_bit (isr_tab s) w" for w
  proof (rule ccontr)
    assume "\<not> w < v"
    then have "int v div 16 \<le> int w div 16" by (simp add: zdiv_mono1)
    then show False using ppr_isr [OF t(1) that] c u(3) by simp
  qed
  moreover have "0 < v" using c u(3) b by (cases v) auto
  ultimately show ?thesis using uv 2 by (intro that [of v]) auto
qed (use u in simp)

lemma highest_eq:
  assumes "tab_wf tab" "v < 256" "apic_get_bit tab v" "\<And>w. w < 256 \<Longrightarrow> apic_get_bit tab w \<Longrightarrow> w \<le> v"
  shows "get_highest_priority_int tab = int v"
  using assms(1)
proof (cases rule: highest_spec)
  case (2 k)
  then show ?thesis using assms(2-4) by (metis le_antisym not_le)
qed (use assms in simp)




section \<open>Messages\<close>

definition message_offset :: "u16 \<Rightarrow> bool \<Rightarrow> u64" where
  "message_offset idx b = push_bit 4 (ucast idx) OR push_bit 2 (of_bool b)"

lemma offset_bit: "bit (message_offset idx b) n \<longleftrightarrow> 4 \<le> n \<and> bit idx (n - 4) \<or> b \<and> n = 2"
  by (auto simp: message_offset_def bit_simps dest: bit_imp_le_length)

lemma offset_eq:
  "ucast ((APIC_DEFAULT_ADDRESS OR push_bit 4 (ucast idx) OR push_bit 2 (of_bool b)) - APIC_DEFAULT_ADDRESS) = message_offset idx b"
proof -
  define x :: u32 where "x = push_bit 4 (ucast idx) OR push_bit 2 (of_bool b)"
  have D: "APIC_DEFAULT_ADDRESS = push_bit 20 0xfee" by (simp add: APIC_DEFAULT_ADDRESS_def)
  have "bit APIC_DEFAULT_ADDRESS n \<Longrightarrow> 20 \<le> n" for n unfolding D by (simp only: bit_push_bit_iff)
  moreover have "bit x n \<Longrightarrow> n < 20" for n using bit_imp_le_length [of idx "n - 4"] by (auto simp: x_def bit_simps)
  ultimately have "APIC_DEFAULT_ADDRESS AND x = 0" by (auto simp: bit_eq_iff bit_simps) (meson linorder_not_le)
  then have "APIC_DEFAULT_ADDRESS OR x = APIC_DEFAULT_ADDRESS + x" by (simp add: disjunctive_add_eq_or)
  moreover have "ucast x = message_offset idx b"
    by (rule bit_word_eqI) (auto simp: x_def offset_bit bit_simps dest: bit_imp_le_length)
  ultimately have "ucast ((APIC_DEFAULT_ADDRESS OR x) - APIC_DEFAULT_ADDRESS) = message_offset idx b" by simp
  then show ?thesis unfolding x_def or.assoc .
qed

lemma offset_index: "drop_bit 4 (message_offset idx b) AND 0xff = ucast idx AND 0xff"
  by (rule bit_word_eqI) (auto simp: offset_bit bit_simps)

lemma entry_index: "drop_bit 4 (message_offset idx b) = ucast idx"
  by (rule bit_word_eqI) (auto simp: offset_bit bit_simps dest: bit_imp_le_length)

lemma unat_widen: "unat (ucast idx :: u64) = unat idx" for idx :: u16
proof -
  have "unat idx < 2 ^ 16" using unsigned_less [where 'a = nat and w = idx] by simp
  then have "take_bit 64 (unat idx) = unat idx" by (intro take_bit_nat_eq_self) simp
  then show ?thesis by (simp add: unsigned_ucast_eq)
qed

lemma low_byte: "unat (w AND 0xff) = unat w mod 256" for w :: u64
proof -
  have "(0xff :: u64) = mask 8" by (simp add: mask_eq_exp_minus_1)
  then have "w AND 0xff = take_bit 8 w" by (simp only: take_bit_eq_mask)
  then show ?thesis by (simp add: take_bit_eq_mod unat_mod_distrib)
qed

lemma offset_page: "message_offset idx b > 0xfff \<longleftrightarrow> 256 \<le> unat idx"
proof -
  have "unat (message_offset idx b) div 16 = unat idx"
    using arg_cong [OF entry_index [of idx b], of unat] by (simp add: unat_widen drop_bit_eq_div unat_div_distrib)
  moreover have "message_offset idx b > 0xfff \<longleftrightarrow> 4095 < unat (message_offset idx b)" by (simp add: word_less_nat_alt)
  ultimately show ?thesis by linarith
qed

text \<open>The fields of a message, as the receiver reads them.\<close>

lemma message_fields:
  fixes e :: u64 and v dm :: u8
  assumes d: "d = ucast v OR push_bit 15 (of_bool t) OR push_bit 8 (ucast dm)" and dm: "\<And>n. bit dm n \<Longrightarrow> n < 3"
    and idx: "\<And>n. bit idx n \<longleftrightarrow> n < 16 \<and> bit e (48 + n)"
  shows "apic_send_msi (message_offset idx b) d st = apic_deliver_irq (ucast (drop_bit 56 e)) b dm v t st"
proof -
  have ff: "(0xff :: u32) = mask 8" "(7 :: u32) = mask 3" "(0x000ff000 :: u64) = push_bit 12 (mask 8)"
    by (simp_all add: mask_eq_exp_minus_1)
  have "ucast (drop_bit 12 (message_offset idx b AND 0x000ff000)) = (ucast (drop_bit 56 e) :: u8)"
    unfolding ff by (rule bit_word_eqI) (auto simp: offset_bit idx bit_simps simp del: mask_numeral push_bit_numeral)
  moreover have "bit (message_offset idx b) 2 = b" by (simp add: offset_bit)
  moreover have "ucast (drop_bit 8 d AND 7) = dm"
    unfolding ff by (rule bit_word_eqI) (auto simp: d bit_simps simp del: mask_numeral dest: bit_imp_le_length dm)
  moreover have "ucast (d AND 0xff) = v"
    unfolding ff by (rule bit_word_eqI) (auto simp: d bit_simps simp del: mask_numeral dest: bit_imp_le_length)
  moreover have "bit d 15 = t" using bit_imp_le_length [of v 15] by (auto simp: d bit_simps dest: dm)
  ultimately show ?thesis by (simp add: apic_send_msi_def)
qed



section \<open>The timer of the local controller\<close>

lemma next_multiple:
  assumes "1 < P" "0 \<le> (d :: int)"
  shows "d < (d div P + 1) * P" "(d div P + 1) * P \<le> d + P"
proof -
  have "(d div P + 1) * P = d div P * P + P" by (simp add: distrib_right)
  then show "d < (d div P + 1) * P" "(d div P + 1) * P \<le> d + P"
    using pos_mod_bound [of P d] pos_mod_sign [of P d] assms div_mult_mod_eq [of d P] by linarith+
qed

lemma last_residue: "1 < P \<Longrightarrow> ((c + 1) * P - 1) mod P = P - 1" for P :: int
proof -
  assume "1 < P"
  moreover have "(c + 1) * P - 1 = (P - 1) + c * P" by (simp add: algebra_simps)
  ultimately show ?thesis using mod_pos_pos_trivial [of "P - 1" P] by (simp only: mod_mult_self1)
qed

lemma last_tick: "0 < S \<Longrightarrow> (q * S - 1) div S = q - 1" for S :: int
proof -
  assume "0 < S"
  moreover have "q * S - 1 = (S - 1) + (q - 1) * S" by (simp add: algebra_simps)
  ultimately show ?thesis by (simp only: div_mult_self1) (simp add: div_pos_pos_trivial)
qed

lemma scaled_tick:
  assumes "0 < S" "x div S < q" "q \<le> x div S + P"
  shows "(x :: int) < q * S \<and> q * S \<le> x + P * S"
proof -
  have "(x div S + 1) * S \<le> q * S" "q * S \<le> (x div S + P) * S" using assms by simp_all
  moreover have "x div S * S \<le> x" "x < x div S * S + S"
    using assms(1) pos_mod_bound [of S x] pos_mod_sign [of S x] div_mult_mod_eq [of x S] by linarith+
  ultimately show ?thesis by (simp add: distrib_right)
qed

lemma to_int64_small: "0 \<le> x \<Longrightarrow> x < 2 ^ 63 \<Longrightarrow> to_int64 x = x"
  by (simp add: to_int64_def mod_pos_pos_trivial)

text \<open>
  C14. The periodic timer and the counter agree. With the timer unmasked, periodic and loaded with a
  count above 0, the timer is armed for the first instant after now at which the counter, having
  just stood at 0, is back at the initial count; so the instants of successive expiries differ by
  exactly the period, with no drift.
\<close>

theorem apic_timer_exact:
  assumes "lvt s ! APIC_LVT_TIMER AND APIC_LVT_MASKED = 0" "lvt s ! APIC_LVT_TIMER AND APIC_LVT_TIMER_PERIODIC \<noteq> 0"
    and "0 < initial_count s" "0 \<le> initial_count_load_time s" "initial_count_load_time s \<le> now" "now < 2 ^ 62"
    and "apic_next_timer now s = (b, s')" "p = (uint (initial_count s) + 1) * 2 ^ count_shift s"
  shows "b \<and> now < next_time s' \<and> next_time s' \<le> now + p \<and> p dvd next_time s' - initial_count_load_time s' \<and> timer_expiry s' = next_time s' \<and>
    apic_get_current_count (next_time s') s' = initial_count s \<and> apic_get_current_count (next_time s' - 1) s' = 0 \<and>
    next_time (snd (apic_next_timer (next_time s') s')) = next_time s' + p"
proof -
  define S P d q where "S = (2 :: int) ^ count_shift s" and "P = uint (initial_count s) + 1"
    and "d = (now - initial_count_load_time s) div S" and "q = (d div P + 1) * P"
  have S: "0 < S" and P: "1 < P" "P \<le> 2 ^ 32"
    using assms(3) unsigned_less [where 'a = int and w = "initial_count s"] by (simp_all add: S_def P_def word_less_def)
  have d: "0 \<le> d" "d \<le> now" using S assms(4,5) zdiv_mono2 [of "now - initial_count_load_time s" 1 S] by (simp_all add: d_def pos_imp_zdiv_nonneg_iff)
  note q = next_multiple [OF P(1) d(1), folded q_def]
  have qb: "0 \<le> q" "q + P < 2 ^ 63" using q(1,2) d P(2) assms(6) by simp_all
  have s': "s' = s\<lparr>next_time := initial_count_load_time s + q * S, timer_expiry := initial_count_load_time s + q * S\<rparr>" and b
  proof -
    have "d mod 2 ^ 64 = d" "to_int64 q = q" using d qb P(1) assms(6) by (simp_all add: mod_pos_pos_trivial to_int64_small)
    then show "s' = s\<lparr>next_time := initial_count_load_time s + q * S, timer_expiry := initial_count_load_time s + q * S\<rparr>" b
      using assms(1,2,3,7) by (auto simp: apic_next_timer_def Let_def S_def [symmetric] d_def [symmetric] P_def [symmetric] q_def word_less_def)
  qed
  define n where "n = initial_count_load_time s + q * S"
  have t: "next_time s' = n" "timer_expiry s' = n" "initial_count_load_time s' = initial_count_load_time s" "lvt s' = lvt s"
    "initial_count s' = initial_count s" "count_shift s' = count_shift s" unfolding s' n_def by simp_all
  have count: "apic_get_current_count (initial_count_load_time s + k) s' = word_of_int (P - 1 - k div S mod P)" if "0 \<le> k div S" "k div S < 2 ^ 63" for k
    using that assms(2) by (simp add: apic_get_current_count_def t Let_def S_def [symmetric] P_def mod_pos_pos_trivial)
  have "q mod P = 0" "(q - 1) mod P = P - 1" using P(1) last_residue [of P] by (simp_all add: q_def)
  moreover have "(q * S) div S = q" "(q * S - 1) div S = q - 1" using S last_tick [of S q] by simp_all
  ultimately have "apic_get_current_count n s' = initial_count s" "apic_get_current_count (n - 1) s' = 0"
    using count [of "q * S"] count [of "q * S - 1"] qb q(1) d(1) P(1) by (simp_all add: n_def add_diff_eq P_def)
  moreover have "now < n \<and> n \<le> now + P * S" using scaled_tick [OF S q(1,2) [unfolded d_def]] by (simp add: n_def)
  moreover have "p dvd n - initial_count_load_time s" by (simp add: assms(8) n_def q_def P_def S_def mult.assoc)
  moreover have "next_time (snd (apic_next_timer n s')) = n + P * S"
  proof -
    have "(n - initial_count_load_time s') div S = q" using S by (simp add: n_def t)
    moreover have "q div P = d div P + 1" using P(1) by (simp add: q_def)
    then have "(q div P + 1) * P = q + P" by (simp add: q_def algebra_simps)
    ultimately show ?thesis using assms(1,2,3) qb P
      by (simp add: apic_next_timer_def t Let_def S_def [symmetric] P_def [symmetric] to_int64_small mod_pos_pos_trivial word_less_def)
        (simp add: n_def algebra_simps)
  qed
  ultimately show ?thesis using \<open>b\<close> by (simp add: t assms(8) P_def [symmetric] S_def [symmetric])
qed


definition periodic_apic :: lapic where
  "periodic_apic = blank_apic\<lparr>lvt := [0x20030, 0, 0, 0, 0, 0], initial_count := 999, initial_count_load_time := 500, count_shift := 1\<rparr>"

theorem apic_timer_exact_witness:
  "next_time (snd (apic_next_timer 700 periodic_apic)) \<le> 2700 \<and>
    apic_get_current_count (next_time (snd (apic_next_timer 700 periodic_apic))) (snd (apic_next_timer 700 periodic_apic)) = 999"
proof -
  obtain b s' where n: "apic_next_timer 700 periodic_apic = (b, s')" by fastforce
  show ?thesis using apic_timer_exact [of periodic_apic 700 b s' 2000] n
    by (simp add: periodic_apic_def APIC_LVT_TIMER_def APIC_LVT_MASKED_def APIC_LVT_TIMER_PERIODIC_def)
qed

end
