(* ===== verification/X86_State.thy ===== *)
theory X86_State
  imports Bmbt_Prelude
begin

text \<open>
  The processor state that the helpers share (\<open>CPUX86State\<close> of \<open>target/i386/cpu.h\<close>): the general registers, the flags in their lazy form,
  the control registers, the hidden flags, the state of an exception in flight and the fields of nested paging. The guest is a 32-bit one:
  \<open>target_ulong\<close> has 32 bits.
\<close>

type_synonym target_ulong = u32

datatype reg = R_EAX | R_ECX | R_EDX | R_EBX | R_ESP | R_EBP | R_ESI | R_EDI

text \<open>The operand sizes of the enumeration, which has one constant per kind and size.\<close>

datatype cc_size = SzB | SzW | SzL | SzQ

datatype CCOp =
    CC_OP_DYNAMIC | CC_OP_EFLAGS
  | CC_OP_MUL cc_size | CC_OP_ADD cc_size | CC_OP_ADC cc_size | CC_OP_SUB cc_size | CC_OP_SBB cc_size | CC_OP_LOGIC cc_size
  | CC_OP_INC cc_size | CC_OP_DEC cc_size | CC_OP_SHL cc_size | CC_OP_SAR cc_size | CC_OP_BMILG cc_size
  | CC_OP_ADCX | CC_OP_ADOX | CC_OP_ADCOX | CC_OP_CLR | CC_OP_POPCNT

text \<open>The fields that are modelled; \<open>exception_index\<close> is one of \<open>CPUState\<close>.\<close>

record CPUX86State =
  regs :: "reg \<Rightarrow> u32"
  eip :: u32
  eflags :: u32
  cc_dst :: u32
  cc_src :: u32
  cc_src2 :: u32
  cc_op :: CCOp
  df :: u32
  hflags :: u32
  hflags2 :: u32
  cr0 :: u32
  cr2 :: u32
  cr3 :: u32
  cr4 :: u32
  a20_mask :: u32
  efer :: u64
  pkru :: u32
  error_code :: u32
  exception_index :: int
  exception_is_int :: bool
  exception_next_eip :: u32
  old_exception :: int
  vm_vmcb :: u64
  intercept :: u64
  intercept_cr_read :: u16
  intercept_cr_write :: u16
  intercept_dr_read :: u16
  intercept_dr_write :: u16
  intercept_exceptions :: u32
  nested_cr3 :: u64
  nested_pg_mode :: u32

definition env0 :: CPUX86State where
  "env0 = \<lparr>regs = (\<lambda>_. 0), eip = 0, eflags = 0, cc_dst = 0, cc_src = 0, cc_src2 = 0, cc_op = CC_OP_EFLAGS, df = 1, hflags = 0, hflags2 = 0,
     cr0 = 0, cr2 = 0, cr3 = 0, cr4 = 0, a20_mask = - 1, efer = 0, pkru = 0, error_code = 0, exception_index = - 1, exception_is_int = False,
     exception_next_eip = 0, old_exception = - 1, vm_vmcb = 0, intercept = 0, intercept_cr_read = 0, intercept_cr_write = 0,
     intercept_dr_read = 0, intercept_dr_write = 0, intercept_exceptions = 0, nested_cr3 = 0, nested_pg_mode = 0\<rparr>"

section \<open>Bits of the registers\<close>

definition DF_MASK :: u32 where "DF_MASK = 0x00000400"
definition IF_MASK :: u32 where "IF_MASK = 0x00000200"
definition RF_MASK :: u32 where "RF_MASK = 0x00010000"
definition AC_MASK :: u32 where "AC_MASK = 0x00040000"
definition CR0_TS_MASK :: u32 where "CR0_TS_MASK = push_bit 3 1"
definition HF_TS_MASK :: u32 where "HF_TS_MASK = push_bit 11 1"

end
