(* ===== verification/Cond_Codes.thy ===== *)
theory Cond_Codes
  imports X86_State
begin

text \<open>
  The condition codes (\<open>target/i386/cc_helper.c\<close>, \<open>cc_helper_template.h\<close>, \<open>cpu.h\<close>). The emulator does not compute
  the flags of an arithmetic instruction when it executes it: it keeps the result, one or two operands and the kind of
  the instruction, and computes the flags when they are asked for. The template is instantiated for operands of 8, 16
  and 32 bits and is modelled once, for words of any length; \<open>target_ulong\<close> has 32 bits.
\<close>

section \<open>Flags\<close>

definition CC_C :: u32 where "CC_C = 0x0001"
definition CC_P :: u32 where "CC_P = 0x0004"
definition CC_A :: u32 where "CC_A = 0x0010"
definition CC_Z :: u32 where "CC_Z = 0x0040"
definition CC_S :: u32 where "CC_S = 0x0080"
definition CC_O :: u32 where "CC_O = 0x0800"

definition parity_table :: "u32 list" where
  "parity_table =
     [CC_P, 0, 0, CC_P, 0, CC_P, CC_P, 0, 0, CC_P, CC_P, 0, CC_P, 0, 0, CC_P,
      0, CC_P, CC_P, 0, CC_P, 0, 0, CC_P, CC_P, 0, 0, CC_P, 0, CC_P, CC_P, 0,
      0, CC_P, CC_P, 0, CC_P, 0, 0, CC_P, CC_P, 0, 0, CC_P, 0, CC_P, CC_P, 0,
      CC_P, 0, 0, CC_P, 0, CC_P, CC_P, 0, 0, CC_P, CC_P, 0, CC_P, 0, 0, CC_P,
      0, CC_P, CC_P, 0, CC_P, 0, 0, CC_P, CC_P, 0, 0, CC_P, 0, CC_P, CC_P, 0,
      CC_P, 0, 0, CC_P, 0, CC_P, CC_P, 0, 0, CC_P, CC_P, 0, CC_P, 0, 0, CC_P,
      CC_P, 0, 0, CC_P, 0, CC_P, CC_P, 0, 0, CC_P, CC_P, 0, CC_P, 0, 0, CC_P,
      0, CC_P, CC_P, 0, CC_P, 0, 0, CC_P, CC_P, 0, 0, CC_P, 0, CC_P, CC_P, 0,
      0, CC_P, CC_P, 0, CC_P, 0, 0, CC_P, CC_P, 0, 0, CC_P, 0, CC_P, CC_P, 0,
      CC_P, 0, 0, CC_P, 0, CC_P, CC_P, 0, 0, CC_P, CC_P, 0, CC_P, 0, 0, CC_P,
      CC_P, 0, 0, CC_P, 0, CC_P, CC_P, 0, 0, CC_P, CC_P, 0, CC_P, 0, 0, CC_P,
      0, CC_P, CC_P, 0, CC_P, 0, 0, CC_P, CC_P, 0, 0, CC_P, 0, CC_P, CC_P, 0,
      CC_P, 0, 0, CC_P, 0, CC_P, CC_P, 0, 0, CC_P, CC_P, 0, CC_P, 0, 0, CC_P,
      0, CC_P, CC_P, 0, CC_P, 0, 0, CC_P, CC_P, 0, 0, CC_P, 0, CC_P, CC_P, 0,
      0, CC_P, CC_P, 0, CC_P, 0, 0, CC_P, CC_P, 0, 0, CC_P, 0, CC_P, CC_P, 0,
      CC_P, 0, 0, CC_P, 0, CC_P, CC_P, 0, 0, CC_P, CC_P, 0, CC_P, 0, 0, CC_P]"

text \<open>A negative count shifts to the right, with the sign.\<close>

definition lshift :: "u32 \<Rightarrow> int \<Rightarrow> u32" where
  "lshift x n = (if n \<ge> 0 then push_bit (nat n) x else signed_drop_bit (nat (- n)) x)"

section \<open>The template\<close>

abbreviation DATA_BITS :: "'a::len word \<Rightarrow> int" where
  "DATA_BITS x \<equiv> int LENGTH('a)"

definition SIGN_MASK :: "'a::len word" where
  "SIGN_MASK = push_bit (LENGTH('a) - 1) 1"

definition cc_pf :: "'a::len word \<Rightarrow> u32" where
  "cc_pf dst = parity_table ! unat (ucast dst :: u8)"

definition cc_af :: "'a::len word \<Rightarrow> 'a word \<Rightarrow> 'a word \<Rightarrow> u32" where
  "cc_af dst src1 src2 = (ucast dst XOR ucast src1 XOR ucast src2) AND CC_A"

definition cc_zf :: "'a::len word \<Rightarrow> u32" where
  "cc_zf dst = of_bool (dst = 0) * CC_Z"

definition cc_sf :: "'a::len word \<Rightarrow> u32" where
  "cc_sf dst = lshift (ucast dst) (8 - DATA_BITS dst) AND CC_S"

definition cc_of_add :: "'a::len word \<Rightarrow> 'a word \<Rightarrow> 'a word \<Rightarrow> u32" where
  "cc_of_add dst src1 src2 =
     lshift ((ucast src1 XOR ucast src2 XOR (- 1)) AND (ucast src1 XOR ucast dst)) (12 - DATA_BITS dst) AND CC_O"

definition cc_of_sub :: "'a::len word \<Rightarrow> 'a word \<Rightarrow> 'a word \<Rightarrow> u32" where
  "cc_of_sub dst src1 src2 = lshift ((ucast src1 XOR ucast src2) AND (ucast src1 XOR ucast dst)) (12 - DATA_BITS dst) AND CC_O"

definition compute_c_add :: "'a::len word \<Rightarrow> 'a word \<Rightarrow> u32" where
  "compute_c_add dst src1 = of_bool (dst < src1)"

definition compute_all_add :: "'a::len word \<Rightarrow> 'a word \<Rightarrow> u32" where
  "compute_all_add dst src1 =
     (let src2 = dst - src1
      in of_bool (dst < src1) OR cc_pf dst OR cc_af dst src1 src2 OR cc_zf dst OR cc_sf dst OR cc_of_add dst src1 src2)"

definition compute_c_adc :: "'a::len word \<Rightarrow> 'a word \<Rightarrow> 'a word \<Rightarrow> u32" where
  "compute_c_adc dst src1 src3 = of_bool (if src3 \<noteq> 0 then dst \<le> src1 else dst < src1)"

definition compute_all_adc :: "'a::len word \<Rightarrow> 'a word \<Rightarrow> 'a word \<Rightarrow> u32" where
  "compute_all_adc dst src1 src3 =
     (let src2 = dst - src1 - src3
      in of_bool (if src3 \<noteq> 0 then dst \<le> src1 else dst < src1) OR cc_pf dst OR cc_af dst src1 src2 OR push_bit 6 (of_bool (dst = 0)) OR
         cc_sf dst OR cc_of_add dst src1 src2)"

definition compute_c_sub :: "'a::len word \<Rightarrow> 'a word \<Rightarrow> u32" where
  "compute_c_sub dst src2 = (let src1 = dst + src2 in of_bool (src1 < src2))"

definition compute_all_sub :: "'a::len word \<Rightarrow> 'a word \<Rightarrow> u32" where
  "compute_all_sub dst src2 =
     (let src1 = dst + src2
      in of_bool (src1 < src2) OR cc_pf dst OR cc_af dst src1 src2 OR cc_zf dst OR cc_sf dst OR cc_of_sub dst src1 src2)"

definition compute_c_sbb :: "'a::len word \<Rightarrow> 'a word \<Rightarrow> 'a word \<Rightarrow> u32" where
  "compute_c_sbb dst src2 src3 = (let src1 = dst + src2 + src3 in of_bool (if src3 \<noteq> 0 then src1 \<le> src2 else src1 < src2))"

definition compute_all_sbb :: "'a::len word \<Rightarrow> 'a word \<Rightarrow> 'a word \<Rightarrow> u32" where
  "compute_all_sbb dst src2 src3 =
     (let src1 = dst + src2 + src3
      in of_bool (if src3 \<noteq> 0 then src1 \<le> src2 else src1 < src2) OR cc_pf dst OR cc_af dst src1 src2 OR push_bit 6 (of_bool (dst = 0)) OR
         cc_sf dst OR cc_of_sub dst src1 src2)"

definition compute_all_logic :: "'a::len word \<Rightarrow> 'a word \<Rightarrow> u32" where
  "compute_all_logic dst src1 = cc_pf dst OR cc_zf dst OR cc_sf dst"

definition compute_all_inc :: "'a::len word \<Rightarrow> 'a word \<Rightarrow> u32" where
  "compute_all_inc dst src1 =
     (let cf = ucast src1
      in cf OR cc_pf dst OR cc_af dst (dst - 1) 1 OR cc_zf dst OR cc_sf dst OR of_bool (dst = SIGN_MASK) * CC_O)"

definition compute_all_dec :: "'a::len word \<Rightarrow> 'a word \<Rightarrow> u32" where
  "compute_all_dec dst src1 =
     (let cf = ucast src1
      in cf OR cc_pf dst OR cc_af dst (dst + 1) 1 OR cc_zf dst OR cc_sf dst OR of_bool (dst = SIGN_MASK - 1) * CC_O)"

definition compute_c_shl :: "'a::len word \<Rightarrow> 'a word \<Rightarrow> u32" where
  "compute_c_shl dst src1 = ucast (drop_bit (LENGTH('a) - 1) src1) AND CC_C"

definition cc_of_shift :: "'a::len word \<Rightarrow> 'a word \<Rightarrow> u32" where
  "cc_of_shift dst src1 = lshift (ucast src1 XOR ucast dst) (12 - DATA_BITS dst) AND CC_O"

definition compute_all_shl :: "'a::len word \<Rightarrow> 'a word \<Rightarrow> u32" where
  "compute_all_shl dst src1 = (ucast (drop_bit (LENGTH('a) - 1) src1) AND CC_C) OR cc_pf dst OR cc_zf dst OR cc_sf dst OR cc_of_shift dst src1"

definition compute_all_sar :: "'a::len word \<Rightarrow> 'a word \<Rightarrow> u32" where
  "compute_all_sar dst src1 = (ucast src1 AND 1) OR cc_pf dst OR cc_zf dst OR cc_sf dst OR cc_of_shift dst src1"

text \<open>The second operand is not truncated.\<close>

definition compute_all_mul :: "'a::len word \<Rightarrow> u32 \<Rightarrow> u32" where
  "compute_all_mul dst src1 = of_bool (src1 \<noteq> 0) OR cc_pf dst OR cc_zf dst OR cc_sf dst OR of_bool (src1 \<noteq> 0) * CC_O"

definition compute_c_bmilg :: "'a::len word \<Rightarrow> 'a word \<Rightarrow> u32" where
  "compute_c_bmilg dst src1 = of_bool (src1 = 0)"

definition compute_all_bmilg :: "'a::len word \<Rightarrow> 'a word \<Rightarrow> u32" where
  "compute_all_bmilg dst src1 = of_bool (src1 = 0) OR cc_zf dst OR cc_sf dst"

definition compute_all_adcx :: "u32 \<Rightarrow> u32 \<Rightarrow> u32 \<Rightarrow> u32" where
  "compute_all_adcx dst src1 src2 = (src1 AND NOT CC_C) OR dst * CC_C"

definition compute_all_adox :: "u32 \<Rightarrow> u32 \<Rightarrow> u32 \<Rightarrow> u32" where
  "compute_all_adox dst src1 src2 = (src1 AND NOT CC_O) OR src2 * CC_O"

definition compute_all_adcox :: "u32 \<Rightarrow> u32 \<Rightarrow> u32 \<Rightarrow> u32" where
  "compute_all_adcox dst src1 src2 = (src1 AND NOT (CC_C OR CC_O)) OR dst * CC_C OR src2 * CC_O"

section \<open>The kind of the last instruction\<close>

text \<open>The three instances of a function of the template; the 64-bit one is not compiled.\<close>

definition sized2 :: "(u8 \<Rightarrow> u8 \<Rightarrow> u32) \<Rightarrow> (u16 \<Rightarrow> u16 \<Rightarrow> u32) \<Rightarrow> (u32 \<Rightarrow> u32 \<Rightarrow> u32) \<Rightarrow> cc_size \<Rightarrow> u32 \<Rightarrow> u32 \<Rightarrow> u32" where
  "sized2 fb fw fl sz dst src =
     (case sz of SzB \<Rightarrow> fb (ucast dst) (ucast src) | SzW \<Rightarrow> fw (ucast dst) (ucast src) | SzL \<Rightarrow> fl dst src | SzQ \<Rightarrow> 0)"

definition sized3 :: "(u8 \<Rightarrow> u8 \<Rightarrow> u8 \<Rightarrow> u32) \<Rightarrow> (u16 \<Rightarrow> u16 \<Rightarrow> u16 \<Rightarrow> u32) \<Rightarrow> (u32 \<Rightarrow> u32 \<Rightarrow> u32 \<Rightarrow> u32) \<Rightarrow> cc_size \<Rightarrow> u32 \<Rightarrow> u32 \<Rightarrow> u32 \<Rightarrow> u32" where
  "sized3 fb fw fl sz dst src1 src2 =
     (case sz of SzB \<Rightarrow> fb (ucast dst) (ucast src1) (ucast src2) | SzW \<Rightarrow> fw (ucast dst) (ucast src1) (ucast src2)
        | SzL \<Rightarrow> fl dst src1 src2 | SzQ \<Rightarrow> 0)"

fun helper_cc_compute_all :: "u32 \<Rightarrow> u32 \<Rightarrow> u32 \<Rightarrow> CCOp \<Rightarrow> u32" where
  "helper_cc_compute_all dst src1 src2 CC_OP_DYNAMIC = 0"
| "helper_cc_compute_all dst src1 src2 CC_OP_EFLAGS = src1"
| "helper_cc_compute_all dst src1 src2 CC_OP_CLR = CC_Z OR CC_P"
| "helper_cc_compute_all dst src1 src2 CC_OP_POPCNT = (if src1 \<noteq> 0 then 0 else CC_Z)"
| "helper_cc_compute_all dst src1 src2 (CC_OP_MUL sz) =
     (case sz of SzB \<Rightarrow> compute_all_mul (ucast dst :: u8) src1 | SzW \<Rightarrow> compute_all_mul (ucast dst :: u16) src1
        | SzL \<Rightarrow> compute_all_mul dst src1 | SzQ \<Rightarrow> 0)"
| "helper_cc_compute_all dst src1 src2 (CC_OP_ADD sz) = sized2 compute_all_add compute_all_add compute_all_add sz dst src1"
| "helper_cc_compute_all dst src1 src2 (CC_OP_ADC sz) = sized3 compute_all_adc compute_all_adc compute_all_adc sz dst src1 src2"
| "helper_cc_compute_all dst src1 src2 (CC_OP_SUB sz) = sized2 compute_all_sub compute_all_sub compute_all_sub sz dst src1"
| "helper_cc_compute_all dst src1 src2 (CC_OP_SBB sz) = sized3 compute_all_sbb compute_all_sbb compute_all_sbb sz dst src1 src2"
| "helper_cc_compute_all dst src1 src2 (CC_OP_LOGIC sz) = sized2 compute_all_logic compute_all_logic compute_all_logic sz dst src1"
| "helper_cc_compute_all dst src1 src2 (CC_OP_INC sz) = sized2 compute_all_inc compute_all_inc compute_all_inc sz dst src1"
| "helper_cc_compute_all dst src1 src2 (CC_OP_DEC sz) = sized2 compute_all_dec compute_all_dec compute_all_dec sz dst src1"
| "helper_cc_compute_all dst src1 src2 (CC_OP_SHL sz) = sized2 compute_all_shl compute_all_shl compute_all_shl sz dst src1"
| "helper_cc_compute_all dst src1 src2 (CC_OP_SAR sz) = sized2 compute_all_sar compute_all_sar compute_all_sar sz dst src1"
| "helper_cc_compute_all dst src1 src2 (CC_OP_BMILG sz) = sized2 compute_all_bmilg compute_all_bmilg compute_all_bmilg sz dst src1"
| "helper_cc_compute_all dst src1 src2 CC_OP_ADCX = compute_all_adcx dst src1 src2"
| "helper_cc_compute_all dst src1 src2 CC_OP_ADOX = compute_all_adox dst src1 src2"
| "helper_cc_compute_all dst src1 src2 CC_OP_ADCOX = compute_all_adcox dst src1 src2"

fun helper_cc_compute_c :: "u32 \<Rightarrow> u32 \<Rightarrow> u32 \<Rightarrow> CCOp \<Rightarrow> u32" where
  "helper_cc_compute_c dst src1 src2 CC_OP_DYNAMIC = 0"
| "helper_cc_compute_c dst src1 src2 (CC_OP_LOGIC sz) = 0"
| "helper_cc_compute_c dst src1 src2 CC_OP_CLR = 0"
| "helper_cc_compute_c dst src1 src2 CC_OP_POPCNT = 0"
| "helper_cc_compute_c dst src1 src2 CC_OP_EFLAGS = src1 AND 1"
| "helper_cc_compute_c dst src1 src2 (CC_OP_SAR sz) = src1 AND 1"
| "helper_cc_compute_c dst src1 src2 CC_OP_ADOX = src1 AND 1"
| "helper_cc_compute_c dst src1 src2 (CC_OP_INC sz) = src1"
| "helper_cc_compute_c dst src1 src2 (CC_OP_DEC sz) = src1"
| "helper_cc_compute_c dst src1 src2 (CC_OP_MUL sz) = of_bool (src1 \<noteq> 0)"
| "helper_cc_compute_c dst src1 src2 CC_OP_ADCX = dst"
| "helper_cc_compute_c dst src1 src2 CC_OP_ADCOX = dst"
| "helper_cc_compute_c dst src1 src2 (CC_OP_ADD sz) = sized2 compute_c_add compute_c_add compute_c_add sz dst src1"
| "helper_cc_compute_c dst src1 src2 (CC_OP_ADC sz) = sized3 compute_c_adc compute_c_adc compute_c_adc sz dst src1 src2"
| "helper_cc_compute_c dst src1 src2 (CC_OP_SUB sz) = sized2 compute_c_sub compute_c_sub compute_c_sub sz dst src1"
| "helper_cc_compute_c dst src1 src2 (CC_OP_SBB sz) = sized3 compute_c_sbb compute_c_sbb compute_c_sbb sz dst src1 src2"
| "helper_cc_compute_c dst src1 src2 (CC_OP_SHL sz) = sized2 compute_c_shl compute_c_shl compute_c_shl sz dst src1"
| "helper_cc_compute_c dst src1 src2 (CC_OP_BMILG sz) = sized2 compute_c_bmilg compute_c_bmilg compute_c_bmilg sz dst src1"


section \<open>The register\<close>

text \<open>
  The fields of \<open>CPUX86State\<close> that hold the flags. While the guest runs, the arithmetic flags are in the condition code fields
  and the direction flag is in \<open>df\<close> (1 or \<open>- 1\<close>); between runs all are in \<open>eflags\<close>.
\<close>

abbreviation CC_ALL :: u32 where
  "CC_ALL \<equiv> CC_O OR CC_S OR CC_Z OR CC_A OR CC_P OR CC_C"

definition cpu_cc_compute_all :: "CPUX86State \<Rightarrow> CCOp \<Rightarrow> u32" where
  "cpu_cc_compute_all env opr = helper_cc_compute_all (cc_dst env) (cc_src env) (cc_src2 env) opr"

definition cpu_load_eflags :: "u32 \<Rightarrow> u32 \<Rightarrow> CPUX86State \<Rightarrow> CPUX86State" where
  "cpu_load_eflags v update_mask env =
     env\<lparr>cc_src := v AND CC_ALL, cc_op := CC_OP_EFLAGS, df := 1 - 2 * (drop_bit 10 v AND 1),
         eflags := (eflags env AND NOT update_mask) OR (v AND update_mask) OR 2\<rparr>"

definition helper_write_eflags :: "u32 \<Rightarrow> u32 \<Rightarrow> CPUX86State \<Rightarrow> CPUX86State" where
  "helper_write_eflags t0 update_mask env = cpu_load_eflags t0 update_mask env"

definition helper_read_eflags :: "CPUX86State \<Rightarrow> u32" where
  "helper_read_eflags env =
     (let e = cpu_cc_compute_all env (cc_op env) OR eflags env
      in if df env = 1 then e AND NOT DF_MASK else e OR DF_MASK)"

definition helper_clts :: "CPUX86State \<Rightarrow> CPUX86State" where
  "helper_clts env = env\<lparr>cr0 := cr0 env AND NOT CR0_TS_MASK, hflags := hflags env AND NOT HF_TS_MASK\<rparr>"

definition helper_reset_rf :: "CPUX86State \<Rightarrow> CPUX86State" where
  "helper_reset_rf env = env\<lparr>eflags := eflags env AND NOT RF_MASK\<rparr>"

definition helper_cli :: "CPUX86State \<Rightarrow> CPUX86State" where
  "helper_cli env = env\<lparr>eflags := eflags env AND NOT IF_MASK\<rparr>"

definition helper_sti :: "CPUX86State \<Rightarrow> CPUX86State" where
  "helper_sti env = env\<lparr>eflags := eflags env OR IF_MASK\<rparr>"

definition helper_clac :: "CPUX86State \<Rightarrow> CPUX86State" where
  "helper_clac env = env\<lparr>eflags := eflags env AND NOT AC_MASK\<rparr>"

definition helper_stac :: "CPUX86State \<Rightarrow> CPUX86State" where
  "helper_stac env = env\<lparr>eflags := eflags env OR AC_MASK\<rparr>"

text \<open>The register as it is stored between runs, and the way in and out of a run.\<close>

definition cpu_compute_eflags :: "CPUX86State \<Rightarrow> u32" where
  "cpu_compute_eflags env = eflags env OR cpu_cc_compute_all env (cc_op env) OR (df env AND DF_MASK)"

definition x86_cpu_exec_enter :: "CPUX86State \<Rightarrow> CPUX86State" where
  "x86_cpu_exec_enter env =
     env\<lparr>cc_src := eflags env AND CC_ALL, df := 1 - 2 * (drop_bit 10 (eflags env) AND 1), cc_op := CC_OP_EFLAGS,
         eflags := eflags env AND NOT (DF_MASK OR CC_ALL)\<rparr>"

definition x86_cpu_exec_exit :: "CPUX86State \<Rightarrow> CPUX86State" where
  "x86_cpu_exec_exit env = env\<lparr>eflags := cpu_compute_eflags env\<rparr>"

section \<open>The flags one by one\<close>

text \<open>What the flags of an instruction are meant to be.\<close>

definition flag_word :: "bool \<Rightarrow> bool \<Rightarrow> bool \<Rightarrow> bool \<Rightarrow> bool \<Rightarrow> bool \<Rightarrow> u32" where
  "flag_word cf pf af zf sf ov =
     of_bool cf * CC_C OR of_bool pf * CC_P OR of_bool af * CC_A OR of_bool zf * CC_Z OR of_bool sf * CC_S OR of_bool ov * CC_O"

definition even_parity :: "'a::len word \<Rightarrow> bool" where
  "even_parity w \<longleftrightarrow> even (length (filter (bit w) [0..<8]))"

named_theorems cc_flags \<open>each part of a flag computation as one flag\<close>

lemma and_flag: "x AND 2 ^ k = of_bool (bit x k) * 2 ^ k" for x :: u32
  by (rule bit_word_eqI) (auto simp: bit_simps)

lemma flag_exp: "CC_C = 2 ^ 0" "CC_P = 2 ^ 2" "CC_A = 2 ^ 4" "CC_Z = 2 ^ 6" "CC_S = 2 ^ 7" "CC_O = 2 ^ 11"
  by (simp_all add: CC_C_def CC_P_def CC_A_def CC_Z_def CC_S_def CC_O_def)

text \<open>The table, by doubling.\<close>

primrec parities :: "nat \<Rightarrow> bool list" where
  "parities 0 = [True]"
| "parities (Suc k) = parities k @ map Not (parities k)"

lemma length_parities [simp]: "length (parities k) = 2 ^ k"
  by (induction k) simp_all

lemma nth_parities: "n < 2 ^ k \<Longrightarrow> parities k ! n = even (length (filter (bit n) [0..<k]))"
proof (induction k arbitrary: n)
  case (Suc k)
  show ?case
  proof (cases "n < 2 ^ k")
    case True
    then have "\<not> bit n k" by (simp add: bit_iff_odd)
    then show ?thesis using Suc.IH [OF True] True by (simp add: nth_append)
  next
    case False
    define m where "m = n - 2 ^ k"
    have n: "n = 2 ^ k + m" "m < 2 ^ k" using False Suc.prems by (simp_all add: m_def)
    then have "bit n k" by (simp add: bit_iff_odd div_add_self1)
    moreover have "bit n i = bit m i" if "i < k" for i
    proof -
      have "2 ^ k = 2 ^ i * (2 * 2 ^ (k - Suc i) :: nat)" using that by (simp flip: power_add power_Suc)
      then show ?thesis by (simp add: n(1) bit_iff_odd)
    qed
    then have "filter (bit n) [0..<k] = filter (bit m) [0..<k]" by (intro filter_cong) auto
    ultimately show ?thesis using Suc.IH [OF n(2)] n(2) False by (simp add: nth_append m_def)
  qed
qed simp

lemma parity_table_eq: "parity_table = map (\<lambda>b. if b then CC_P else 0) (parities 8)"
  by (simp add: parity_table_def eval_nat_numeral)

lemma cc_pf_flag [cc_flags]: "8 \<le> LENGTH('a) \<Longrightarrow> cc_pf dst = of_bool (even_parity dst) * CC_P" for dst :: "'a::len word"
proof -
  assume l: "8 \<le> LENGTH('a)"
  define n where "n = unat (ucast dst :: u8)"
  have "n < 256" using unsigned_less [where 'a = nat and w = "ucast dst :: u8"] by (simp add: n_def)
  then have "cc_pf dst = of_bool (even (length (filter (bit n) [0..<8]))) * CC_P"
    by (simp add: cc_pf_def parity_table_eq nth_parities flip: n_def)
  moreover have "bit n i = bit dst i" if "i < 8" for i using that l by (simp add: n_def bit_simps)
  then have "filter (bit n) [0..<8] = filter (bit dst) [0..<8]" by (intro filter_cong) auto
  ultimately show ?thesis by (simp add: even_parity_def)
qed

lemma cc_af_flag [cc_flags]: "8 \<le> LENGTH('a) \<Longrightarrow> cc_af dst src1 src2 = of_bool (bit dst 4 \<noteq> (bit src1 4 \<noteq> bit src2 4)) * CC_A"
  for dst :: "'a::len word"
  unfolding cc_af_def flag_exp and_flag by (auto simp: bit_simps)

lemma bit_lshift: "k < 31 \<Longrightarrow> 0 < L \<Longrightarrow> L \<le> 32 \<Longrightarrow> bit (lshift x (int (Suc k) - int L)) k = bit x (L - 1)"
proof -
  assume k: "k < 31" and l: "0 < L" "L \<le> 32"
  show ?thesis
  proof (cases "L \<le> Suc k")
    case True
    then have "lshift x (int (Suc k) - int L) = push_bit (Suc k - L) x" by (simp add: lshift_def nat_diff_distrib' del: of_nat_Suc)
    moreover have "k - (Suc k - L) = L - 1" "Suc k - L \<le> k" using True l(1) by simp_all
    ultimately show ?thesis using k by (simp add: bit_simps)
  next
    case False
    then have "lshift x (int (Suc k) - int L) = signed_drop_bit (L - Suc k) x" by (simp add: lshift_def nat_diff_distrib' del: of_nat_Suc)
    moreover have "L - Suc k + k = L - 1" using False by simp
    ultimately show ?thesis using k l False by (auto simp: bit_signed_drop_bit_iff)
  qed
qed

abbreviation sign :: "'a::len word \<Rightarrow> bool" where
  "sign w \<equiv> bit w (LENGTH('a) - 1)"

lemma cc_sf_flag [cc_flags]: "8 \<le> LENGTH('a) \<Longrightarrow> LENGTH('a) \<le> 32 \<Longrightarrow> cc_sf dst = of_bool (sign dst) * CC_S" for dst :: "'a::len word"
  using bit_lshift [of 7 "LENGTH('a)" "ucast dst"] unfolding cc_sf_def flag_exp and_flag
  by (simp add: bit_simps)

lemma of_flag: "8 \<le> LENGTH('a) \<Longrightarrow> LENGTH('a) \<le> 32 \<Longrightarrow> lshift x (12 - DATA_BITS dst) AND CC_O = of_bool (bit x (LENGTH('a) - 1)) * CC_O"
  for dst :: "'a::len word"
  using bit_lshift [of 11 "LENGTH('a)" x] unfolding flag_exp and_flag
  by simp

lemma cc_of_flags [cc_flags]:
  fixes dst :: "'a::len word"
  assumes "8 \<le> LENGTH('a)" "LENGTH('a) \<le> 32"
  shows "cc_of_add dst src1 src2 = of_bool (sign src1 = sign src2 \<and> sign src1 \<noteq> sign dst) * CC_O"
    and "cc_of_sub dst src1 src2 = of_bool (sign src1 \<noteq> sign src2 \<and> sign src1 \<noteq> sign dst) * CC_O"
    and "cc_of_shift dst src1 = of_bool (sign src1 \<noteq> sign dst) * CC_O"
  unfolding cc_of_add_def cc_of_sub_def cc_of_shift_def of_flag [OF assms] using assms by (auto simp: bit_simps)


section \<open>Addition with carry\<close>

lemma bit_sum_nat:
  "bit (x + y + z) k \<longleftrightarrow> bit x k \<noteq> (bit y k \<noteq> (2 ^ k \<le> x mod 2 ^ k + y mod 2 ^ k + z))" if "z \<le> 1" for x y z :: nat
proof -
  define p where "p = (2::nat) ^ k"
  have p: "0 < p" by (simp add: p_def)
  define r where "r = x mod p + y mod p + z"
  have "x mod p < p" "y mod p < p" using p by simp_all
  with that have "r < 2 * p" unfolding r_def by linarith
  then have q: "r div p = of_bool (p \<le> r)" using p by (cases "p \<le> r") (simp_all add: le_div_geq)
  have "x + y + z = (x div p + y div p) * p + r"
    by (simp add: r_def add_mult_distrib) 
  then have "(x + y + z) div p = x div p + y div p + r div p" using p by simp
  then show ?thesis by (auto simp: bit_iff_odd p_def [symmetric] q r_def [symmetric])
qed

lemma unat_sum: "unat (a + b + c) = (unat a + unat b + unat c) mod 2 ^ LENGTH('a)" for a b c :: "'a::len word"
  by (simp add: unat_word_ariths mod_simps)

lemma bit_sum:
  fixes a b c :: "'a::len word"
  assumes "k < LENGTH('a)" "unat c \<le> 1"
  shows "bit (a + b + c) k \<longleftrightarrow> bit a k \<noteq> (bit b k \<noteq> (2 ^ k \<le> unat a mod 2 ^ k + unat b mod 2 ^ k + unat c))"
proof -
  have "bit (a + b + c) k = bit (unat (a + b + c)) k" using assms(1) by (simp add: bit_simps)
  also have "\<dots> = bit (unat a + unat b + unat c) k"
    unfolding unat_sum using assms(1) by (simp add: bit_take_bit_iff flip: take_bit_eq_mod)
  finally show ?thesis using bit_sum_nat [OF assms(2)] assms(1) by (simp add: bit_simps)
qed

lemma sign_iff: "sign w \<longleftrightarrow> 2 ^ (LENGTH('a) - 1) \<le> unat w" for w :: "'a::len word"
proof -
  define p where "p = (2::nat) ^ (LENGTH('a) - 1)"
  have "unat w < 2 * p" using unsigned_less [of w, where 'a = nat] by (simp add: p_def flip: power_Suc)
  moreover have "0 < p" by (simp add: p_def)
  ultimately have "odd (unat w div p) \<longleftrightarrow> p \<le> unat w" by (cases "p \<le> unat w") (simp_all add: le_div_geq)
  moreover have "sign w = bit (unat w) (LENGTH('a) - 1)" by (simp add: bit_simps)
  ultimately show ?thesis unfolding p_def by (simp add: bit_iff_odd [of "unat w"])
qed

lemma sint_sign: "sint w = int (unat w) - (if sign w then 2 ^ LENGTH('a) else 0)" for w :: "'a::len word"
  using take_bit_int_eq_self [of "uint w" "LENGTH('a)"] by (simp add: sint_uint signed_take_bit_eq_take_bit_minus bit_simps)

text \<open>What an addition with carry is meant to leave in the flags, said of the numbers the operands stand for.\<close>

definition sum_flags :: "'a::len word \<Rightarrow> 'a word \<Rightarrow> 'a word \<Rightarrow> u32" where
  "sum_flags a b c =
     (let r = a + b + c
      in flag_word (2 ^ LENGTH('a) \<le> unat a + unat b + unat c) (even_parity r) (16 \<le> unat a mod 16 + unat b mod 16 + unat c)
           (r = 0) (sign r) (sint a + sint b + int (unat c) \<notin> {- (2 ^ (LENGTH('a) - 1))..<2 ^ (LENGTH('a) - 1)}))"

lemma carry_iff:
  fixes a b c :: "'a::len word"
  assumes "unat c \<le> 1"
  shows "(if c \<noteq> 0 then a + b + c \<le> a else a + b + c < a) \<longleftrightarrow> 2 ^ LENGTH('a) \<le> unat a + unat b + unat c"
proof -
  define p where "p = (2::nat) ^ LENGTH('a)"
  have b: "unat a < p" "unat b < p" using unsigned_less [where 'a = nat] by (auto simp: p_def)
  then have "unat (a + b + c) = unat a + unat b + unat c - of_bool (p \<le> unat a + unat b + unat c) * p"
    using assms unfolding unat_sum p_def [symmetric] by (auto simp: le_mod_geq)
  moreover have "c = 0 \<longleftrightarrow> unat c = 0" by (simp add: unat_eq_0)
  ultimately show ?thesis using b assms unfolding word_le_nat_alt word_less_nat_alt p_def [symmetric] by auto
qed

lemma overflow_nat:
  fixes x y z q :: nat
  assumes "x < 2 * q" "y < 2 * q" "z \<le> 1" "r = x + y + z - (if 2 * q \<le> x + y + z then 2 * q else 0)"
  shows "(q \<le> x) = (q \<le> y) \<and> (q \<le> x) \<noteq> (q \<le> r) \<longleftrightarrow>
    int x - (if q \<le> x then 2 * int q else 0) + (int y - (if q \<le> y then 2 * int q else 0)) + int z \<notin> {- int q..<int q}"
  using assms by (cases "2 * q \<le> x + y + z"; cases "q \<le> x"; cases "q \<le> y") auto

lemma overflow_iff:
  fixes a b c :: "'a::len word"
  assumes "unat c \<le> 1"
  shows "sign a = sign b \<and> sign a \<noteq> sign (a + b + c) \<longleftrightarrow>
    sint a + sint b + int (unat c) \<notin> {- (2 ^ (LENGTH('a) - 1))..<2 ^ (LENGTH('a) - 1)}"
proof -
  define q where "q = (2::nat) ^ (LENGTH('a) - 1)"
  have p: "(2::nat) ^ LENGTH('a) = 2 * q" by (simp add: q_def flip: power_Suc)
  have b: "unat a < 2 * q" "unat b < 2 * q" using unsigned_less [where 'a = nat] by (metis p)+
  have "unat (a + b + c) = unat a + unat b + unat c - (if 2 * q \<le> unat a + unat b + unat c then 2 * q else 0)"
    using b assms unfolding unat_sum p by (auto simp: le_mod_geq)
  moreover have "(2::int) ^ LENGTH('a) = 2 * int q" using arg_cong [OF p, of int] by simp
  moreover have "(2::int) ^ (LENGTH('a) - 1) = int q" by (simp add: q_def)
  ultimately show ?thesis using overflow_nat [OF b assms] unfolding sint_sign sign_iff q_def [symmetric] by (simp only:)
qed

lemma compute_all_adc_sum:
  fixes a b c :: "'a::len word"
  assumes l: "8 \<le> LENGTH('a)" "LENGTH('a) \<le> 32" and c: "unat c \<le> 1"
  shows "compute_all_adc (a + b + c) a c = sum_flags a b c"
proof -
  have "a + b + c - a - c = b" by simp
  moreover have "bit (a + b + c) 4 \<noteq> (bit a 4 \<noteq> bit b 4) \<longleftrightarrow> 16 \<le> unat a mod 16 + unat b mod 16 + unat c"
    using bit_sum [OF _ c, of 4 a b] l by auto
  moreover have "push_bit 6 (of_bool (a + b + c = 0)) = of_bool (a + b + c = 0) * CC_Z" by (simp add: CC_Z_def)
  ultimately show ?thesis
    unfolding compute_all_adc_def sum_flags_def flag_word_def Let_def carry_iff [OF c]
    by (simp only: cc_flags l overflow_iff [OF c] CC_C_def mult_1_right)
qed


text \<open>The same of a subtraction with borrow; it is the addition \<open>r + b + c = a\<close> read backwards.\<close>

definition diff_flags :: "'a::len word \<Rightarrow> 'a word \<Rightarrow> 'a word \<Rightarrow> u32" where
  "diff_flags a b c =
     (let r = a - b - c
      in flag_word (unat a < unat b + unat c) (even_parity r) (unat a mod 16 < unat b mod 16 + unat c)
           (r = 0) (sign r) (sint a - sint b - int (unat c) \<notin> {- (2 ^ (LENGTH('a) - 1))..<2 ^ (LENGTH('a) - 1)}))"

lemma borrow_nat:
  fixes r y z p :: nat
  assumes "0 < p" "y < p" "r < p" "z \<le> 1"
  shows "p \<le> r + y + z \<longleftrightarrow> (r + y + z) mod p < y + z"
  using assms by (cases "p \<le> r + y + z") (auto simp: le_mod_geq)

lemma underflow_nat:
  fixes r y z q :: nat
  assumes "r < 2 * q" "y < 2 * q" "z \<le> 1" "x = r + y + z - (if 2 * q \<le> r + y + z then 2 * q else 0)"
  shows "(q \<le> x) \<noteq> (q \<le> y) \<and> (q \<le> x) \<noteq> (q \<le> r) \<longleftrightarrow>
    int x - (if q \<le> x then 2 * int q else 0) - (int y - (if q \<le> y then 2 * int q else 0)) - int z \<notin> {- int q..<int q}"
  using assms by (cases "2 * q \<le> r + y + z"; cases "q \<le> r"; cases "q \<le> y") auto

lemma underflow_iff:
  fixes r b c :: "'a::len word"
  assumes "unat c \<le> 1"
  shows "sign (r + b + c) \<noteq> sign b \<and> sign (r + b + c) \<noteq> sign r \<longleftrightarrow>
    sint (r + b + c) - sint b - int (unat c) \<notin> {- (2 ^ (LENGTH('a) - 1))..<2 ^ (LENGTH('a) - 1)}"
proof -
  define q where "q = (2::nat) ^ (LENGTH('a) - 1)"
  have p: "(2::nat) ^ LENGTH('a) = 2 * q" by (simp add: q_def flip: power_Suc)
  have b: "unat r < 2 * q" "unat b < 2 * q" using unsigned_less [where 'a = nat] by (metis p)+
  have "unat (r + b + c) = unat r + unat b + unat c - (if 2 * q \<le> unat r + unat b + unat c then 2 * q else 0)"
    using b assms unfolding unat_sum p by (auto simp: le_mod_geq)
  moreover have "(2::int) ^ LENGTH('a) = 2 * int q" using arg_cong [OF p, of int] by simp
  moreover have "(2::int) ^ (LENGTH('a) - 1) = int q" by (simp add: q_def)
  ultimately show ?thesis using underflow_nat [OF b assms] unfolding sint_sign sign_iff q_def [symmetric] by (simp only:)
qed

lemma half_borrow_iff:
  fixes r b c :: "'a::len word"
  assumes l: "8 \<le> LENGTH('a)" and c: "unat c \<le> 1"
  shows "bit r 4 \<noteq> (bit (r + b + c) 4 \<noteq> bit b 4) \<longleftrightarrow> unat (r + b + c) mod 16 < unat b mod 16 + unat c"
proof -
  have "(2::nat) ^ 4 dvd 2 ^ LENGTH('a)" by (rule le_imp_power_dvd) (use l in simp)
  note m = mod_mod_cancel [OF this]
  have "unat (r + b + c) mod 2 ^ 4 = (unat r mod 2 ^ 4 + unat b mod 2 ^ 4 + unat c) mod 2 ^ 4"
    unfolding unat_sum m by (intro mod_add_cong) (simp_all add: mod_simps)
  then show ?thesis using bit_sum [OF _ c, of 4 r b] l borrow_nat [of 16 "unat b mod 16" "unat r mod 16" "unat c"] c by auto
qed

lemma borrow_iff:
  fixes a b c :: "'a::len word"
  assumes "unat c \<le> 1"
  shows "(if c \<noteq> 0 then a \<le> b else a < b) \<longleftrightarrow> unat a < unat b + unat c"
  using assms by (auto simp: word_le_nat_alt word_less_nat_alt unat_eq_0 le_Suc_eq)

lemma compute_all_sbb_diff:
  fixes a b c :: "'a::len word"
  assumes l: "8 \<le> LENGTH('a)" "LENGTH('a) \<le> 32" and c: "unat c \<le> 1"
  shows "compute_all_sbb (a - b - c) b c = diff_flags a b c"
proof -
  define r where "r = a - b - c"
  then have a: "a = r + b + c" by simp
  have "push_bit 6 (of_bool (r = 0)) = of_bool (r = 0) * CC_Z" by (simp add: CC_Z_def)
  then show ?thesis
    unfolding compute_all_sbb_def diff_flags_def flag_word_def Let_def r_def [symmetric] a [symmetric] borrow_iff [OF c]
    using underflow_iff [OF c, of r b] half_borrow_iff [OF l(1) c, of r b] unfolding a [symmetric]
    by (simp only: cc_flags l CC_C_def mult_1_right)
qed

lemma compute_all_add_adc: "compute_all_add dst src1 = compute_all_adc dst src1 0"
  by (simp add: compute_all_add_def compute_all_adc_def cc_zf_def CC_Z_def)

lemma compute_all_sub_sbb: "compute_all_sub dst src2 = compute_all_sbb dst src2 0"
  by (simp add: compute_all_sub_def compute_all_sbb_def cc_zf_def CC_Z_def)

text \<open>Increments and decrements leave the carry as it was.\<close>

lemma SIGN_MASK_unat: "unat (SIGN_MASK :: 'a::len word) = 2 ^ (LENGTH('a) - 1)"
  unfolding SIGN_MASK_def unsigned_push_bit_eq by (simp add: push_bit_eq_mult take_bit_eq_mod)

lemma inc_overflow:
  fixes a :: "'a::len word"
  assumes l: "8 \<le> LENGTH('a)"
  shows "a + 1 = SIGN_MASK \<longleftrightarrow> sign a = sign (1 :: 'a word) \<and> sign a \<noteq> sign (a + 1)"
proof -
  define q where "q = (2::nat) ^ (LENGTH('a) - 1)"
  have p: "(2::nat) ^ LENGTH('a) = 2 * q" by (simp add: q_def flip: power_Suc)
  have "(2::nat) ^ 7 \<le> q" unfolding q_def by (rule power_increasing) (use l in simp_all)
  moreover have "unat a < 2 * q" using unsigned_less [where 'a = nat] by (metis p)
  moreover have "unat (a + 1) = (if unat a + 1 = 2 * q then 0 else unat a + 1)"
    using calculation unfolding unat_word_ariths p by (auto simp: mod_eq_0_iff_dvd)
  ultimately show ?thesis unfolding word_unat_eq_iff SIGN_MASK_unat sign_iff q_def [symmetric] by (auto split: if_splits)
qed

lemma dec_overflow:
  fixes a :: "'a::len word"
  assumes l: "8 \<le> LENGTH('a)"
  shows "a - 1 = SIGN_MASK - 1 \<longleftrightarrow> sign a \<noteq> sign (1 :: 'a word) \<and> sign a \<noteq> sign (a - 1)"
proof -
  define q where "q = (2::nat) ^ (LENGTH('a) - 1)"
  have p: "(2::nat) ^ LENGTH('a) = 2 * q" by (simp add: q_def flip: power_Suc)
  have "(2::nat) ^ 7 \<le> q" unfolding q_def by (rule power_increasing) (use l in simp_all)
  moreover have "unat a < 2 * q" using unsigned_less [where 'a = nat] by (metis p)
  moreover have "unat (a - 1) = (if unat a = 0 then 2 * q - 1 else unat a - 1)"
    using calculation by (auto simp: unat_sub_if' p not_le simp flip: unat_eq_0)
  moreover have "a - 1 = SIGN_MASK - 1 \<longleftrightarrow> a = SIGN_MASK" by simp
  ultimately show ?thesis
    unfolding word_unat_eq_iff [of a] SIGN_MASK_unat sign_iff q_def [symmetric] by (auto split: if_splits)
qed

lemma flag_word_carry: "flag_word cf pf af zf sf ov = (flag_word x pf af zf sf ov AND NOT CC_C) OR of_bool cf"
  by (cases cf; cases x; cases pf; cases af; cases zf; cases sf; cases ov)
    (simp_all add: flag_word_def CC_C_def CC_P_def CC_A_def CC_Z_def CC_S_def CC_O_def)

lemma compute_all_inc_sum:
  fixes a :: "'a::len word"
  assumes l: "8 \<le> LENGTH('a)" "LENGTH('a) \<le> 32"
  shows "compute_all_inc (a + 1) (of_bool cf) = (sum_flags a 1 0 AND NOT CC_C) OR of_bool cf"
proof -
  have "sum_flags a 1 0 = compute_all_add (a + 1) a"
    using compute_all_adc_sum [OF l, of 0 a 1] by (simp add: compute_all_add_adc)
  also have "\<dots> = flag_word (a + 1 < a) (even_parity (a + 1)) (bit (a + 1) 4 \<noteq> (bit a 4 \<noteq> bit (1 :: 'a word) 4)) (a + 1 = 0) (sign (a + 1))
      (a + 1 = SIGN_MASK)"
    unfolding inc_overflow [OF l(1)] compute_all_add_def flag_word_def Let_def add_diff_cancel_left' by (simp only: cc_flags l cc_zf_def CC_C_def mult_1_right)
  finally have eq: "sum_flags a 1 0 = \<dots>" .
  show ?thesis
    unfolding eq flag_word_carry [of cf _ _ _ _ _ "a + 1 < a", symmetric]
    unfolding compute_all_inc_def flag_word_def Let_def add_diff_cancel_right' 
    by (cases cf) (simp_all only: cc_flags l cc_zf_def CC_C_def mult_1_right of_bool_eq ucast_0 ucast_1)
qed

lemma compute_all_dec_diff:
  fixes a :: "'a::len word"
  assumes l: "8 \<le> LENGTH('a)" "LENGTH('a) \<le> 32"
  shows "compute_all_dec (a - 1) (of_bool cf) = (diff_flags a 1 0 AND NOT CC_C) OR of_bool cf"
proof -
  have "diff_flags a 1 0 = compute_all_sub (a - 1) 1"
    using compute_all_sbb_diff [OF l, of 0 a 1] by (simp add: compute_all_sub_sbb)
  also have "\<dots> = flag_word (a < 1) (even_parity (a - 1)) (bit (a - 1) 4 \<noteq> (bit a 4 \<noteq> bit (1 :: 'a word) 4)) (a - 1 = 0) (sign (a - 1))
      (a - 1 = SIGN_MASK - 1)"
    unfolding dec_overflow [OF l(1)] compute_all_sub_def flag_word_def Let_def diff_add_cancel by (simp only: cc_flags l cc_zf_def CC_C_def mult_1_right)
  finally have eq: "diff_flags a 1 0 = \<dots>" .
  show ?thesis
    unfolding eq flag_word_carry [of cf _ _ _ _ _ "a < 1", symmetric]
    unfolding compute_all_dec_def flag_word_def Let_def diff_add_cancel
    by (cases cf) (simp_all only: cc_flags l cc_zf_def CC_C_def mult_1_right of_bool_eq ucast_0 ucast_1)
qed

section \<open>Properties\<close>

lemma ucast_plus: "LENGTH('b) \<le> LENGTH('a) \<Longrightarrow> ucast (a + b) = (ucast a + ucast b :: 'b::len word)" for a b :: "'a::len word"
  by (simp add: uint_word_ariths word_uint_eq_iff unsigned_ucast_eq take_bit_eq_mod mod_mod_cancel le_imp_power_dvd mod_simps)

lemma ucast_minus: "LENGTH('b) \<le> LENGTH('a) \<Longrightarrow> ucast (a - b) = (ucast a - ucast b :: 'b::len word)" for a b :: "'a::len word"
  by (simp add: uint_word_ariths word_uint_eq_iff unsigned_ucast_eq take_bit_eq_mod mod_mod_cancel le_imp_power_dvd mod_simps)

lemma carry_cases: "c \<le> 1 \<Longrightarrow> \<exists>cf. c = of_bool cf" for c :: u32
  by (metis of_bool_eq(1,2) word_le_less_eq word_less_1)

lemmas instruction_flags = compute_all_add_adc compute_all_sub_sbb compute_all_adc_sum compute_all_sbb_diff compute_all_inc_sum compute_all_dec_diff
  compute_all_adc_sum [where c = 0, simplified] compute_all_sbb_diff [where c = 0, simplified]



text \<open>The carry alone is computed by a routine of its own.\<close>

fun cc_operands_ok :: "u32 \<Rightarrow> u32 \<Rightarrow> CCOp \<Rightarrow> bool" where
  "cc_operands_ok dst src1 (CC_OP_INC sz) = (sz \<noteq> SzQ \<and> src1 \<le> 1)"
| "cc_operands_ok dst src1 (CC_OP_DEC sz) = (sz \<noteq> SzQ \<and> src1 \<le> 1)"
| "cc_operands_ok dst src1 (CC_OP_SAR sz) = (sz \<noteq> SzQ)"
| "cc_operands_ok dst src1 (CC_OP_MUL sz) = (sz \<noteq> SzQ)"
| "cc_operands_ok dst src1 CC_OP_ADCX = (dst \<le> 1)"
| "cc_operands_ok dst src1 CC_OP_ADCOX = (dst \<le> 1)"
| "cc_operands_ok dst src1 _ = True"

lemma and_CC_C: "x AND CC_C = of_bool (bit x 0)" for x :: u32
  using and_flag [of x 0] by (simp add: CC_C_def)

lemma bit_flags_0 [simp]: "\<not> bit (of_bool b * CC_P) 0" "\<not> bit (of_bool b * CC_A) 0" "\<not> bit (of_bool b * CC_Z) 0" "\<not> bit (of_bool b * CC_S) 0"
    "\<not> bit (of_bool b * CC_O) 0" "\<not> bit (x * CC_O) 0" "\<not> bit CC_P 0" "\<not> bit CC_Z 0" "bit CC_C 0" "\<not> bit CC_O 0" "bit (of_bool b :: u32) 0 = b"
  by (cases b; simp add: CC_P_def CC_A_def CC_Z_def CC_S_def CC_O_def CC_C_def bit_0)+

lemma parts_carry:
  fixes dst :: "'a::len word"
  assumes "8 \<le> LENGTH('a)" "LENGTH('a) \<le> 32"
  shows "\<not> bit (cc_pf dst) 0" "\<not> bit (cc_zf dst) 0" "\<not> bit (cc_af dst src1 src2) 0" "\<not> bit (cc_sf dst) 0" "\<not> bit (cc_of_add dst src1 src2) 0"
    "\<not> bit (cc_of_sub dst src1 src2) 0" "\<not> bit (cc_of_shift dst src1) 0" "\<not> bit (push_bit 6 (of_bool (dst = 0)) :: u32) 0"
  using assms by (simp_all only: cc_flags cc_zf_def bit_flags_0 simp_thms) (simp add: bit_simps)

lemma template_carry:
  fixes dst :: "'a::len word"
  assumes "8 \<le> LENGTH('a)" "LENGTH('a) \<le> 32"
  shows "compute_all_add dst src1 AND CC_C = compute_c_add dst src1" "compute_all_adc dst src1 src3 AND CC_C = compute_c_adc dst src1 src3"
    "compute_all_sub dst src1 AND CC_C = compute_c_sub dst src1" "compute_all_sbb dst src1 src3 AND CC_C = compute_c_sbb dst src1 src3"
    "compute_all_logic dst src1 AND CC_C = 0" "compute_all_shl dst src1 AND CC_C = compute_c_shl dst src1"
    "compute_all_inc dst src1 AND CC_C = ucast src1 AND CC_C" "compute_all_dec dst src1 AND CC_C = ucast src1 AND CC_C"
    "compute_all_sar dst src1 AND CC_C = ucast src1 AND CC_C" "compute_all_mul dst s AND CC_C = of_bool (s \<noteq> 0)"
    "compute_all_bmilg dst src1 AND CC_C = compute_c_bmilg dst src1"
  unfolding and_CC_C
  by (simp_all add: compute_all_add_def compute_c_add_def compute_all_adc_def compute_c_adc_def compute_all_sub_def compute_c_sub_def
    compute_all_sbb_def compute_c_sbb_def compute_all_logic_def compute_all_shl_def compute_c_shl_def compute_all_inc_def compute_all_dec_def
    compute_all_sar_def compute_all_mul_def compute_all_bmilg_def compute_c_bmilg_def Let_def parts_carry [OF assms] bit_or_iff and_CC_C bit_and_iff)

lemma and_CC_C_bool: "of_bool cf AND CC_C = of_bool cf"
  by (cases cf) (simp_all add: CC_C_def)

text \<open>
  The two routines agree: for every instruction kind, the carry computed alone is the carry of all the flags. The operands are those the
  translator leaves (a carry that is kept is 0 or 1, and no instruction has 64-bit operands).
\<close>

theorem carry_agrees:
  assumes "cc_operands_ok dst src1 opr"
  shows "helper_cc_compute_c dst src1 src2 opr = helper_cc_compute_all dst src1 src2 opr AND CC_C"
proof -
  have l: "8 \<le> LENGTH(8)" "LENGTH(8) \<le> 32" "8 \<le> LENGTH(16)" "LENGTH(16) \<le> 32" "8 \<le> LENGTH(32)" "LENGTH(32) \<le> 32" by simp_all
  note t = template_carry [OF l(1,2)] template_carry [OF l(3,4)] template_carry [OF l(5,6)]
  have low: "ucast (ucast x :: u8) AND CC_C = x AND CC_C" "ucast (ucast x :: u16) AND CC_C = x AND CC_C" for x :: u32
    by (simp_all add: and_CC_C bit_simps)
  have fixed: "(CC_Z OR CC_P) AND CC_C = 0" "CC_Z AND CC_C = 0" "compute_all_adox dst src1 src2 AND CC_C = src1 AND CC_C"
    by (simp_all add: and_CC_C bit_simps compute_all_adox_def)
  have one_C: "x * CC_C = x" for x :: u32 by (simp add: CC_C_def)
  have one: "x AND 1 = x AND CC_C" for x :: u32 by (simp add: CC_C_def)
  show ?thesis
  proof (cases opr)
    case (CC_OP_INC sz)
    with assms carry_cases [of src1] show ?thesis by (cases sz) (auto simp: sized2_def t low and_CC_C_bool)
  next
    case (CC_OP_DEC sz)
    with assms carry_cases [of src1] show ?thesis by (cases sz) (auto simp: sized2_def t low and_CC_C_bool)
  next
    case (CC_OP_SAR sz)
    with assms show ?thesis by (cases sz) (auto simp: sized2_def t low one)
  next
    case (CC_OP_MUL sz)
    with assms show ?thesis by (cases sz) (auto simp: t)
  next
    case CC_OP_ADCX
    with assms carry_cases [of dst] show ?thesis by (auto simp: compute_all_adcx_def one_C and_CC_C bit_simps)
  next
    case CC_OP_ADCOX
    with assms carry_cases [of dst] show ?thesis by (auto simp: compute_all_adcox_def one_C and_CC_C bit_simps)
  qed (simp_all add: sized2_def sized3_def t one fixed split: cc_size.split)
qed

theorem carry_agrees_witness: "helper_cc_compute_c 0x12345600 0x80 0 (CC_OP_SUB SzB) = 0"
proof -
  have "helper_cc_compute_all 0x12345600 0x80 0 (CC_OP_SUB SzB) AND CC_C = 0" by code_simp
  then show ?thesis using carry_agrees [of "0x12345600" "0x80" "CC_OP_SUB SzB" 0] by simp
qed

text \<open>The direction flag in its two forms.\<close>

lemma df_form: "(1 - 2 * (drop_bit 10 v AND 1) :: u32) = (if bit v 10 then - 1 else 1)" for v :: u32
proof -
  have "drop_bit 10 v AND 1 = of_bool (bit v 10)" by (rule bit_word_eqI) (auto simp: bit_simps)
  then show ?thesis by (cases "bit v 10") simp_all
qed

lemma and_DF: "x AND DF_MASK = of_bool (bit x 10) * DF_MASK" for x :: u32
  using and_flag [of x 10] by (simp add: DF_MASK_def)

text \<open>
  C33. The register survives a run: entering a run splits it into the condition codes, the direction flag and the rest, and leaving
  puts it together again, whatever it was. Within a run, an instruction that writes the register through a mask that does not touch the
  split flags, and one that reads it afterwards, agree: the read returns the arithmetic flags and the direction flag that were written,
  the other flags that the mask lets through, the old value of those it does not, and the reserved bit that is always set.
\<close>

theorem eflags_roundtrip:
  assumes "eflags env AND (DF_MASK OR CC_ALL) = 0" "m AND (DF_MASK OR CC_ALL) = 0"
  shows "eflags (x86_cpu_exec_exit (x86_cpu_exec_enter e)) = eflags e \<and>
    helper_read_eflags (helper_write_eflags v m env) =
      (v AND (DF_MASK OR CC_ALL)) OR (v AND m) OR (eflags env AND NOT m) OR 2"
proof
  show "eflags (x86_cpu_exec_exit (x86_cpu_exec_enter e)) = eflags e"
  proof -
    have "(if bit (eflags e) 10 then - 1 else 1) AND DF_MASK = eflags e AND DF_MASK"
      unfolding and_DF by (cases "bit (eflags e) 10") (simp_all add: DF_MASK_def)
    then show ?thesis
      by (simp add: x86_cpu_exec_exit_def x86_cpu_exec_enter_def cpu_compute_eflags_def cpu_cc_compute_all_def df_form)
        (rule bit_word_eqI, auto simp: bit_simps)
  qed
  have DF: "bit DF_MASK n \<longleftrightarrow> n = 10" for n
  proof -
    have d: "DF_MASK = 2 ^ 10" by (simp add: DF_MASK_def)
    show ?thesis unfolding d bit_exp_iff by auto
  qed
  have z: "\<not> (bit (eflags env) n \<and> bit (DF_MASK OR CC_ALL) n)" "\<not> (bit m n \<and> bit (DF_MASK OR CC_ALL) n)" for n
    using arg_cong [OF assms(1), of "\<lambda>w. bit w n"] arg_cong [OF assms(2), of "\<lambda>w. bit w n"] by (simp_all add: bit_and_iff)
  have "bit (DF_MASK OR CC_ALL) 10" "\<not> bit (2 :: u32) 10" "\<not> bit CC_ALL 10" by code_simp+
  then have z10: "\<not> bit (eflags env) 10" "\<not> bit m 10" "\<not> bit (2 :: u32) 10" "\<not> bit CC_ALL 10" using z [of 10] by simp_all
  show "helper_read_eflags (helper_write_eflags v m env) =
      (v AND (DF_MASK OR CC_ALL)) OR (v AND m) OR (eflags env AND NOT m) OR 2"
    unfolding helper_read_eflags_def helper_write_eflags_def cpu_load_eflags_def cpu_cc_compute_all_def Let_def df_form
    using z10 by (intro bit_word_eqI) (auto simp: bit_or_iff bit_and_iff bit_not_iff DF)
qed

theorem eflags_roundtrip_witness:
  "\<exists>env. eflags env = 0x202 \<and> helper_read_eflags (helper_write_eflags 0x4cd5 0x4000 env) = 0x4ed7"
proof -
  define env where "env = env0\<lparr>eflags := 0x202\<rparr>"
  have "eflags env AND (DF_MASK OR CC_ALL) = 0" "(0x4000 :: u32) AND (DF_MASK OR CC_ALL) = 0" unfolding env_def env0_def by code_simp+
  from eflags_roundtrip [OF this, of env "0x4cd5"]
  have "helper_read_eflags (helper_write_eflags 0x4cd5 0x4000 env) =
      (0x4cd5 AND (DF_MASK OR CC_ALL)) OR (0x4cd5 AND 0x4000) OR (eflags env AND NOT 0x4000) OR 2" by simp
  also have "\<dots> = 0x4ed7" unfolding env_def env0_def by code_simp
  finally show ?thesis by (intro exI [of _ env]) (simp add: env_def)
qed

end
