(* ===== verification/Mmu_Walk.thy ===== *)
theory Mmu_Walk
  imports X86_State Memory_Access
begin

text \<open>
  Address translation (\<open>target/i386/excp_helper.c\<close>, \<open>helper.c\<close>): the page walk that fills the software TLB, with its permission check, its
  accessed and dirty bits and its page faults; the second walk that maps guest-physical to physical addresses under nested paging; the walk of
  the debugger, which changes nothing; and the promotion of an exception in flight to a double fault.

  The walks read and write physical memory through four operations, the fields of \<open>phys_ops\<close>. The theorems are proved from the laws of a memory in
  the locale \<open>page_memory\<close>, which is interpreted on the loads and stores of the machine's address map.
\<close>

section \<open>Constants\<close>

definition CR0_PG_MASK :: u32 where "CR0_PG_MASK = BIT 31"
definition CR0_WP_MASK :: u32 where "CR0_WP_MASK = BIT 16"
definition CR4_PSE_MASK :: u32 where "CR4_PSE_MASK = BIT 4"
definition CR4_PAE_MASK :: u32 where "CR4_PAE_MASK = BIT 5"
definition CR4_SMEP_MASK :: u32 where "CR4_SMEP_MASK = BIT 20"
definition CR4_PKE_MASK :: u32 where "CR4_PKE_MASK = BIT 22"
definition HF_LMA_MASK :: u32 where "HF_LMA_MASK = BIT 14"
definition HF_SMM_MASK :: u32 where "HF_SMM_MASK = BIT 19"
definition HF_GUEST_MASK :: u32 where "HF_GUEST_MASK = BIT 21"
definition HF2_NPT_MASK :: u32 where "HF2_NPT_MASK = BIT 6"
definition MSR_EFER_NXE :: u64 where "MSR_EFER_NXE = BIT 11"

definition PG_PRESENT_MASK :: u64 where "PG_PRESENT_MASK = BIT 0"
definition PG_RW_MASK :: u64 where "PG_RW_MASK = BIT 1"
definition PG_USER_MASK :: u64 where "PG_USER_MASK = BIT 2"
definition PG_ACCESSED_MASK :: u64 where "PG_ACCESSED_MASK = BIT 5"
definition PG_DIRTY_MASK :: u64 where "PG_DIRTY_MASK = BIT 6"
definition PG_PSE_MASK :: u64 where "PG_PSE_MASK = BIT 7"
definition PG_PSE_PAT_MASK :: u64 where "PG_PSE_PAT_MASK = BIT 12"
definition PG_ADDRESS_MASK :: u64 where "PG_ADDRESS_MASK = 0x000ffffffffff000"
definition PHYS_ADDR_MASK :: u64 where "PHYS_ADDR_MASK = MAKE_64BIT_MASK 0 36"
definition PG_HI_RSVD_MASK :: u64 where "PG_HI_RSVD_MASK = PG_ADDRESS_MASK AND NOT PHYS_ADDR_MASK"
definition PG_HI_USER_MASK :: u64 where "PG_HI_USER_MASK = 0x7ff0000000000000"
definition PG_PKRU_BIT :: nat where "PG_PKRU_BIT = 59"
definition PG_PKRU_MASK :: u64 where "PG_PKRU_MASK = push_bit 59 15"
definition PG_NX_MASK :: u64 where "PG_NX_MASK = BIT 63"

definition PG_ERROR_P_MASK :: u32 where "PG_ERROR_P_MASK = 0x01"
definition PG_ERROR_W_BIT :: nat where "PG_ERROR_W_BIT = 1"
definition PG_ERROR_U_MASK :: u32 where "PG_ERROR_U_MASK = 0x04"
definition PG_ERROR_RSVD_MASK :: u32 where "PG_ERROR_RSVD_MASK = 0x08"
definition PG_ERROR_I_D_MASK :: u32 where "PG_ERROR_I_D_MASK = 0x10"
definition PG_ERROR_PK_MASK :: u32 where "PG_ERROR_PK_MASK = 0x20"

definition PAGE_READ :: u32 where "PAGE_READ = 1"
definition PAGE_WRITE :: u32 where "PAGE_WRITE = 2"
definition PAGE_EXEC :: u32 where "PAGE_EXEC = 4"

text \<open>The mask is an unsigned 32-bit number: as a mask of a physical address it also drops the bits above 31.\<close>

definition TARGET_PAGE_MASK :: u32 where "TARGET_PAGE_MASK = push_bit 12 (- 1)"

definition SVM_NPT_PAE :: u32 where "SVM_NPT_PAE = BIT 0"
definition SVM_NPT_NXE :: u32 where "SVM_NPT_NXE = BIT 2"
definition SVM_NPTEXIT_P :: u64 where "SVM_NPTEXIT_P = BIT 0"
definition SVM_NPTEXIT_RW :: u64 where "SVM_NPTEXIT_RW = BIT 1"
definition SVM_NPTEXIT_US :: u64 where "SVM_NPTEXIT_US = BIT 2"
definition SVM_NPTEXIT_RSVD :: u64 where "SVM_NPTEXIT_RSVD = BIT 3"
definition SVM_NPTEXIT_ID :: u64 where "SVM_NPTEXIT_ID = BIT 4"
definition SVM_NPTEXIT_GPA :: u64 where "SVM_NPTEXIT_GPA = BIT 32"
definition SVM_NPTEXIT_GPT :: u64 where "SVM_NPTEXIT_GPT = BIT 33"

text \<open>The offset of \<open>control.exit_info_2\<close> in the control block of a virtual machine.\<close>

definition vmcb_exit_info_2 :: u64 where "vmcb_exit_info_2 = 0x80"

datatype access_type = MMU_DATA_LOAD | MMU_DATA_STORE | MMU_INST_FETCH

primrec access_code :: "access_type \<Rightarrow> nat" where
  "access_code MMU_DATA_LOAD = 0"
| "access_code MMU_DATA_STORE = 1"
| "access_code MMU_INST_FETCH = 2"

datatype mmu_idx = MMU_KSMAP_IDX | MMU_USER_IDX | MMU_KNOSMAP_IDX

definition EXCP08_DBLE :: int where "EXCP08_DBLE = 8"
definition EXCP0E_PAGE :: int where "EXCP0E_PAGE = 14"

section \<open>Physical memory as the walks use it\<close>

record 'm phys_ops =
  ldub_phys :: "hwaddr \<Rightarrow> 'm \<Rightarrow> (u8 \<times> 'm) res"
  ldl_phys :: "hwaddr \<Rightarrow> 'm \<Rightarrow> (u32 \<times> 'm) res"
  ldq_phys :: "hwaddr \<Rightarrow> 'm \<Rightarrow> (u64 \<times> 'm) res"
  stl_phys_notdirty :: "hwaddr \<Rightarrow> u32 \<Rightarrow> 'm \<Rightarrow> 'm res"
  stq_phys :: "hwaddr \<Rightarrow> u64 \<Rightarrow> 'm \<Rightarrow> 'm res"

definition cpu_get_mem_attrs :: "CPUX86State \<Rightarrow> bool" where
  "cpu_get_mem_attrs env = tst (hflags env) HF_SMM_MASK"

text \<open>The secure attribute selects the address space.\<close>

definition cpu_addressspace :: "bool \<Rightarrow> address_space" where
  "cpu_addressspace secure = (if secure then AS_Smm_Memory else AS_Memory)"

definition x86_ldub_phys :: "CPUX86State \<Rightarrow> hwaddr \<Rightarrow> 'd mem_state \<Rightarrow> (u8 \<times> 'd mem_state) res" where
  "x86_ldub_phys env a st = res_bind (address_space_ldub (cpu_addressspace (cpu_get_mem_attrs env)) a st) (\<lambda>(v, st). Inr (ucast v, st))"

definition x86_lduw_phys :: "CPUX86State \<Rightarrow> hwaddr \<Rightarrow> 'd mem_state \<Rightarrow> (u32 \<times> 'd mem_state) res" where
  "x86_lduw_phys env a st = res_bind (address_space_lduw (cpu_addressspace (cpu_get_mem_attrs env)) a st) (\<lambda>(v, st). Inr (ucast v, st))"

definition x86_ldl_phys :: "CPUX86State \<Rightarrow> hwaddr \<Rightarrow> 'd mem_state \<Rightarrow> (u32 \<times> 'd mem_state) res" where
  "x86_ldl_phys env a st = res_bind (address_space_ldl (cpu_addressspace (cpu_get_mem_attrs env)) a st) (\<lambda>(v, st). Inr (ucast v, st))"

definition x86_ldq_phys :: "CPUX86State \<Rightarrow> hwaddr \<Rightarrow> 'd mem_state \<Rightarrow> (u64 \<times> 'd mem_state) res" where
  "x86_ldq_phys env a st = address_space_ldq (cpu_addressspace (cpu_get_mem_attrs env)) a st"

definition x86_stb_phys :: "CPUX86State \<Rightarrow> hwaddr \<Rightarrow> u8 \<Rightarrow> 'd mem_state \<Rightarrow> 'd mem_state res" where
  "x86_stb_phys env a v st = address_space_stb (cpu_addressspace (cpu_get_mem_attrs env)) a (ucast v) st"

definition x86_stl_phys_notdirty :: "CPUX86State \<Rightarrow> hwaddr \<Rightarrow> u32 \<Rightarrow> 'd mem_state \<Rightarrow> 'd mem_state res" where
  "x86_stl_phys_notdirty env a v st = address_space_stl_notdirty (cpu_addressspace (cpu_get_mem_attrs env)) a v st"

definition x86_stw_phys :: "CPUX86State \<Rightarrow> hwaddr \<Rightarrow> u32 \<Rightarrow> 'd mem_state \<Rightarrow> 'd mem_state res" where
  "x86_stw_phys env a v st = address_space_stw (cpu_addressspace (cpu_get_mem_attrs env)) a v st"

definition x86_stl_phys :: "CPUX86State \<Rightarrow> hwaddr \<Rightarrow> u32 \<Rightarrow> 'd mem_state \<Rightarrow> 'd mem_state res" where
  "x86_stl_phys env a v st = address_space_stl (cpu_addressspace (cpu_get_mem_attrs env)) a v st"

definition x86_stq_phys :: "CPUX86State \<Rightarrow> hwaddr \<Rightarrow> u64 \<Rightarrow> 'd mem_state \<Rightarrow> 'd mem_state res" where
  "x86_stq_phys env a v st = address_space_stq (cpu_addressspace (cpu_get_mem_attrs env)) a v st"

definition x86_phys_ops :: "CPUX86State \<Rightarrow> 'd mem_state phys_ops" where
  "x86_phys_ops env =
     \<lparr>ldub_phys = x86_ldub_phys env, ldl_phys = x86_ldl_phys env, ldq_phys = x86_ldq_phys env, stl_phys_notdirty = x86_stl_phys_notdirty env, stq_phys = x86_stq_phys env\<rparr>"

section \<open>Exceptions in flight\<close>

definition EXCP_VMEXIT :: int where "EXCP_VMEXIT = 0x100"
definition SVM_EXIT_EXCP_BASE :: nat where "SVM_EXIT_EXCP_BASE = 0x040"
definition SVM_EXIT_INTR :: nat where "SVM_EXIT_INTR = 0x060"
definition SVM_EXIT_SWINT :: nat where "SVM_EXIT_SWINT = 0x075"
definition SVM_EXIT_MSR :: nat where "SVM_EXIT_MSR = 0x07c"
definition SVM_EXIT_SHUTDOWN :: nat where "SVM_EXIT_SHUTDOWN = 0x07f"
definition SVM_EXIT_NPF :: nat where "SVM_EXIT_NPF = 0x400"

text \<open>
  What leaves the translated code for the main loop leaves it with the state that the loop reads; the state is that of the
  faulting instruction (\<open>cpu_restore_state\<close> is not modelled).
\<close>

definition cpu_vmexit :: "nat \<Rightarrow> u64 \<Rightarrow> CPUX86State \<Rightarrow> CPUX86State" where
  "cpu_vmexit exit_code exit_info_1 env =
     env\<lparr>exception_index := EXCP_VMEXIT + int exit_code, error_code := ucast exit_info_1, old_exception := - 1\<rparr>"

text \<open>The permission bitmap of a machine specific register: the bit pair of the register \<open>ecx\<close>.\<close>

definition msrpm_bit :: "u32 \<Rightarrow> nat option" where
  "msrpm_bit ecx =
     (if ecx \<le> 0x1fff then Some (unat (ecx * 2))
      else if 0xc0000000 \<le> ecx \<and> ecx \<le> 0xc0001fff then Some (unat ((8192 + ecx - 0xc0000000) * 2))
      else if 0xc0010000 \<le> ecx \<and> ecx \<le> 0xc0011fff then Some (unat ((16384 + ecx - 0xc0010000) * 2))
      else None)"

text \<open>The result says whether the intercept is taken, which leaves to the main loop.\<close>

definition cpu_svm_check_intercept_param :: "'m phys_ops \<Rightarrow> nat \<Rightarrow> u64 \<Rightarrow> CPUX86State \<Rightarrow> 'm \<Rightarrow> (bool \<times> CPUX86State \<times> 'm) res" where
  "cpu_svm_check_intercept_param po ty param env m =
     (let exit_if = (\<lambda>b m. Inr (b, if b then cpu_vmexit ty param env else env, m))
      in if \<not> tst (hflags env) HF_GUEST_MASK then Inr (False, env, m)
         else if ty \<le> 8 then exit_if (tst (intercept_cr_read env) (push_bit ty 1)) m
         else if 0x10 \<le> ty \<and> ty \<le> 0x18 then exit_if (tst (intercept_cr_write env) (push_bit (ty - 0x10) 1)) m
         else if 0x20 \<le> ty \<and> ty \<le> 0x27 then exit_if (tst (intercept_dr_read env) (push_bit (ty - 0x20) 1)) m
         else if 0x30 \<le> ty \<and> ty \<le> 0x37 then exit_if (tst (intercept_dr_write env) (push_bit (ty - 0x30) 1)) m
         else if SVM_EXIT_EXCP_BASE \<le> ty \<and> ty \<le> SVM_EXIT_EXCP_BASE + 31
         then exit_if (tst (intercept_exceptions env) (push_bit (ty - SVM_EXIT_EXCP_BASE) 1)) m
         else if ty = SVM_EXIT_MSR then
           (if tst (intercept env) (push_bit (SVM_EXIT_MSR - SVM_EXIT_INTR) 1)
            then res_bind (ldq_phys po (unat (vm_vmcb env + 0x48)) m) (\<lambda>(base, m).
              case msrpm_bit (regs env R_ECX) of
                None \<Rightarrow> exit_if True m
              | Some b \<Rightarrow> res_bind (ldub_phys po (unat (base + of_nat (b div 8))) m) (\<lambda>(v, m).
                  exit_if (tst (ucast v :: u32) (push_bit (b mod 8) (push_bit (unat param) 1))) m))
            else Inr (False, env, m))
         else exit_if (tst (intercept env) (push_bit (ty - SVM_EXIT_INTR) 1)) m)"

text \<open>The exceptions that make a double fault of a second one.\<close>

definition contributory :: "int \<Rightarrow> bool" where
  "contributory n \<longleftrightarrow> n = 0 \<or> (10 \<le> n \<and> n \<le> 13)"

text \<open>The first component of the value is \<open>None\<close> when the check left to the main loop.\<close>

definition check_exception :: "int \<Rightarrow> u32 \<Rightarrow> CPUX86State \<Rightarrow> ((int \<times> u32) option \<times> CPUX86State) res" where
  "check_exception intno ec env =
     (let first_contributory = contributory (old_exception env);
          second_contributory = contributory intno
      in if old_exception env = EXCP08_DBLE
         then if tst (hflags env) HF_GUEST_MASK then Inr (None, cpu_vmexit SVM_EXIT_SHUTDOWN 0 env) else Inl NotReached
         else
           let dbl = (first_contributory \<and> second_contributory) \<or>
                 (old_exception env = EXCP0E_PAGE \<and> (second_contributory \<or> intno = EXCP0E_PAGE));
               intno' = (if dbl then EXCP08_DBLE else intno);
               ec' = (if dbl then 0 else ec)
           in Inr (Some (intno', ec'),
                if second_contributory \<or> intno' = EXCP0E_PAGE \<or> intno' = EXCP08_DBLE then env\<lparr>old_exception := intno'\<rparr> else env))"

text \<open>Always leaves to the main loop.\<close>

definition raise_interrupt2 :: "'m phys_ops \<Rightarrow> int \<Rightarrow> bool \<Rightarrow> u32 \<Rightarrow> u32 \<Rightarrow> CPUX86State \<Rightarrow> 'm \<Rightarrow> (CPUX86State \<times> 'm) res" where
  "raise_interrupt2 po intno is_int ec next_eip_addend env m =
     (let finish = (\<lambda>intno ec env m.
            Inr (env\<lparr>exception_index := intno, error_code := ec, exception_is_int := is_int,
                     exception_next_eip := eip env + next_eip_addend\<rparr>, m))
      in if \<not> is_int
         then res_bind (cpu_svm_check_intercept_param po (SVM_EXIT_EXCP_BASE + nat intno) (ucast ec) env m) (\<lambda>(left, env, m).
           if left then Inr (env, m)
           else res_bind (check_exception intno ec env) (\<lambda>(r, env).
             case r of None \<Rightarrow> Inr (env, m) | Some (intno, ec) \<Rightarrow> finish intno ec env m))
         else res_bind (cpu_svm_check_intercept_param po SVM_EXIT_SWINT 0 env m) (\<lambda>(left, env, m).
           if left then Inr (env, m) else finish intno ec env m))"

definition raise_interrupt :: "'m phys_ops \<Rightarrow> int \<Rightarrow> bool \<Rightarrow> u32 \<Rightarrow> u32 \<Rightarrow> CPUX86State \<Rightarrow> 'm \<Rightarrow> (CPUX86State \<times> 'm) res" where
  "raise_interrupt po intno is_int ec next_eip_addend env m = raise_interrupt2 po intno is_int ec next_eip_addend env m"

definition raise_exception_err :: "'m phys_ops \<Rightarrow> int \<Rightarrow> u32 \<Rightarrow> CPUX86State \<Rightarrow> 'm \<Rightarrow> (CPUX86State \<times> 'm) res" where
  "raise_exception_err po n ec env m = raise_interrupt2 po n False ec 0 env m"

definition raise_exception :: "'m phys_ops \<Rightarrow> int \<Rightarrow> CPUX86State \<Rightarrow> 'm \<Rightarrow> (CPUX86State \<times> 'm) res" where
  "raise_exception po n env m = raise_interrupt2 po n False 0 0 env m"

definition helper_raise_interrupt :: "'m phys_ops \<Rightarrow> int \<Rightarrow> u32 \<Rightarrow> CPUX86State \<Rightarrow> 'm \<Rightarrow> (CPUX86State \<times> 'm) res" where
  "helper_raise_interrupt po intno next_eip_addend env m = raise_interrupt po intno True 0 next_eip_addend env m"

definition helper_raise_exception :: "'m phys_ops \<Rightarrow> int \<Rightarrow> CPUX86State \<Rightarrow> 'm \<Rightarrow> (CPUX86State \<times> 'm) res" where
  "helper_raise_exception po n env m = raise_exception po n env m"

section \<open>Walks\<close>

text \<open>
  A walk computes on memory and may stop early: at one of the labels \<open>do_fault\<close>, \<open>do_fault_rsvd\<close>, \<open>do_fault_protect\<close> (with the error code so far),
  or by leaving to the main loop with the exit information of a nested page fault.
\<close>

datatype walk_stop = Do_Fault | Do_Fault_Rsvd | Do_Fault_Protect u32 | Do_Vmexit u64

type_synonym ('m, 'a) walk = "'m \<Rightarrow> ((walk_stop + 'a) \<times> 'm) res"

definition wret :: "'a \<Rightarrow> ('m, 'a) walk" where
  "wret x = (\<lambda>m. Inr (Inr x, m))"

definition wstop :: "walk_stop \<Rightarrow> ('m, 'a) walk" where
  "wstop e = (\<lambda>m. Inr (Inl e, m))"

definition wbind :: "('m, 'a) walk \<Rightarrow> ('a \<Rightarrow> ('m, 'b) walk) \<Rightarrow> ('m, 'b) walk" where
  "wbind w f = (\<lambda>m. res_bind (w m) (\<lambda>(r, m). case r of Inl e \<Rightarrow> Inr (Inl e, m) | Inr x \<Rightarrow> f x m))"

definition wcatch :: "('m, 'a) walk \<Rightarrow> (walk_stop \<Rightarrow> ('m, 'a) walk) \<Rightarrow> ('m, 'a) walk" where
  "wcatch w h = (\<lambda>m. res_bind (w m) (\<lambda>(r, m). case r of Inl e \<Rightarrow> h e m | Inr x \<Rightarrow> Inr (Inr x, m)))"

definition wguard :: "bool \<Rightarrow> walk_stop \<Rightarrow> ('m, unit) walk" where
  "wguard b e = (if b then wret () else wstop e)"

definition wassert :: "bool \<Rightarrow> ('m, unit) walk" where
  "wassert b = (\<lambda>m. if b then Inr (Inr (), m) else Inl AssertFail)"

definition wld :: "('m \<Rightarrow> ('a \<times> 'm) res) \<Rightarrow> ('m, 'a) walk" where
  "wld f = (\<lambda>m. res_bind (f m) (\<lambda>(v, m). Inr (Inr v, m)))"

definition wst :: "('m \<Rightarrow> 'm res) \<Rightarrow> ('m, unit) walk" where
  "wst f = (\<lambda>m. res_bind (f m) (\<lambda>m. Inr (Inr (), m)))"

text \<open>The accessed bit of an entry of a directory is set by a 32-bit store when it is clear.\<close>

definition set_accessed :: "'m phys_ops \<Rightarrow> u32 \<Rightarrow> u64 \<Rightarrow> ('m, u64) walk" where
  "set_accessed po a e =
     (if tst e PG_ACCESSED_MASK then wret e
      else wbind (wst (stl_phys_notdirty po (unat a) (ucast (e OR PG_ACCESSED_MASK)))) (\<lambda>_. wret (e OR PG_ACCESSED_MASK)))"

text \<open>The reserved bits of a page of the given size (label \<open>do_check_protect\<close>).\<close>

definition page_rsvd :: "u64 \<Rightarrow> u64" where
  "page_rsvd page_size = (page_size - 1) AND PG_ADDRESS_MASK AND NOT PG_PSE_PAT_MASK"

subsection \<open>Nested paging\<close>

text \<open>The tables yield the last entry, the combined permissions, the page size and the reserved bits. A 32-bit entry is widened.\<close>

definition nested_pae :: "'m phys_ops \<Rightarrow> CPUX86State \<Rightarrow> u64 \<Rightarrow> u64 \<Rightarrow> ('m, u64 \<times> u64 \<times> u64 \<times> u64) walk" where
  "nested_pae po env gphys rsvd_mask =
     (let pdpe_addr = (ucast ((nested_cr3 env AND NOT 0x1f) + (drop_bit 27 gphys AND 0x18)) :: u32)
      in wbind (wld (ldq_phys po (unat pdpe_addr))) (\<lambda>pdpe.
         wbind (wguard (tst pdpe PG_PRESENT_MASK) Do_Fault) (\<lambda>_.
         let rsvd_mask = rsvd_mask OR PG_HI_USER_MASK
         in wbind (wguard (\<not> tst pdpe (rsvd_mask OR PG_NX_MASK)) Do_Fault_Rsvd) (\<lambda>_.
         let ptep = PG_NX_MASK OR PG_USER_MASK OR PG_RW_MASK;
             pde_addr = (ucast ((pdpe AND PG_ADDRESS_MASK) + push_bit 3 (drop_bit 21 gphys AND 0x1ff)) :: u32)
         in wbind (wld (ldq_phys po (unat pde_addr))) (\<lambda>pde.
         wbind (wguard (tst pde PG_PRESENT_MASK) Do_Fault) (\<lambda>_.
         wbind (wguard (\<not> tst pde rsvd_mask) Do_Fault_Rsvd) (\<lambda>_.
         let ptep = ptep AND (pde XOR PG_NX_MASK)
         in if tst pde PG_PSE_MASK then wret (pde, ptep, 0x200000, rsvd_mask OR page_rsvd 0x200000)
            else wbind (set_accessed po pde_addr pde) (\<lambda>pde.
              let pte_addr = (ucast ((pde AND PG_ADDRESS_MASK) + push_bit 3 (drop_bit 12 gphys AND 0x1ff)) :: u32)
              in wbind (wld (ldq_phys po (unat pte_addr))) (\<lambda>pte.
                 wbind (wguard (tst pte PG_PRESENT_MASK) Do_Fault) (\<lambda>_.
                 wbind (wguard (\<not> tst pte rsvd_mask) Do_Fault_Rsvd) (\<lambda>_.
                 wret (pte, ptep AND (pte XOR PG_NX_MASK), 0x1000, rsvd_mask OR page_rsvd 0x1000))))))))))))"

definition nested_legacy :: "'m phys_ops \<Rightarrow> CPUX86State \<Rightarrow> u64 \<Rightarrow> ('m, u64 \<times> u64 \<times> u64 \<times> u64) walk" where
  "nested_legacy po env gphys =
     (let pde_addr = (ucast ((nested_cr3 env AND NOT 0xfff) + (drop_bit 20 gphys AND 0xffc)) :: u32)
      in wbind (wld (ldl_phys po (unat pde_addr))) (\<lambda>pde32.
         let pde = (ucast pde32 :: u64)
         in wbind (wguard (tst pde PG_PRESENT_MASK) Do_Fault) (\<lambda>_.
         let ptep = pde OR PG_NX_MASK
         in if tst pde PG_PSE_MASK \<and> tst (cr4 env) CR4_PSE_MASK
            then wret (pde OR push_bit 19 (pde AND 0x1fe000), ptep, 0x400000, 0x200000)
            else wbind (set_accessed po pde_addr pde) (\<lambda>pde.
              let pte_addr = (ucast ((pde AND NOT 0xfff) + (drop_bit 10 gphys AND 0xffc)) :: u32)
              in wbind (wld (ldl_phys po (unat pte_addr))) (\<lambda>pte32.
                 let pte = (ucast pte32 :: u64)
                 in wbind (wguard (tst pte PG_PRESENT_MASK) Do_Fault) (\<lambda>_.
                 wret (pte, ptep AND (pte OR PG_NX_MASK), 0x1000, page_rsvd 0x1000)))))))"

text \<open>The caller that translates the address of a table passes no permissions (a null pointer), and they are written through it.\<close>

definition drop_prot :: "u32 \<Rightarrow> u32 option \<Rightarrow> ('m, u32 option) walk" where
  "drop_prot b prot = (\<lambda>m. case prot of None \<Rightarrow> Inl NullDeref | Some p \<Rightarrow> Inr (Inr (Some (p AND NOT b)), m))"

definition nested_check :: "u64 \<Rightarrow> access_type \<Rightarrow> u32 option \<Rightarrow> u64 \<times> u64 \<times> u64 \<times> u64 \<Rightarrow> ('m, u64 \<times> u32 option) walk" where
  "nested_check gphys acc prot = (\<lambda>(pte, ptep, page_size, rsvd_mask).
     wbind (wguard (\<not> tst pte rsvd_mask) Do_Fault_Rsvd) (\<lambda>_.
     let ptep = ptep XOR PG_NX_MASK
     in wbind (wguard (tst ptep PG_USER_MASK) (Do_Fault_Protect 0)) (\<lambda>_.
        wbind (if tst ptep PG_NX_MASK
               then wbind (wguard (acc \<noteq> MMU_INST_FETCH) (Do_Fault_Protect 0)) (\<lambda>_. drop_prot PAGE_EXEC prot) else wret prot) (\<lambda>prot.
        wbind (if \<not> tst ptep PG_RW_MASK
               then wbind (wguard (acc \<noteq> MMU_DATA_STORE) (Do_Fault_Protect 0)) (\<lambda>_. drop_prot PAGE_WRITE prot) else wret prot) (\<lambda>prot.
        let page_offset = (ucast (gphys AND (page_size - 1)) :: u32)
        in wret ((pte AND PG_ADDRESS_MASK AND NOT (page_size - 1)) + ucast page_offset, prot))))))"

definition nested_fault :: "'m phys_ops \<Rightarrow> CPUX86State \<Rightarrow> u64 \<Rightarrow> access_type \<Rightarrow> bool \<Rightarrow> walk_stop \<Rightarrow> ('m, 'a) walk" where
  "nested_fault po env gphys acc final e =
     (let info = (case e of Do_Fault_Rsvd \<Rightarrow> SVM_NPTEXIT_RSVD OR SVM_NPTEXIT_P | Do_Fault_Protect _ \<Rightarrow> SVM_NPTEXIT_P | _ \<Rightarrow> 0);
          info = info OR SVM_NPTEXIT_US;
          info = (case acc of MMU_DATA_STORE \<Rightarrow> info OR SVM_NPTEXIT_RW | MMU_INST_FETCH \<Rightarrow> info OR SVM_NPTEXIT_ID | _ \<Rightarrow> info);
          info = info OR (if final then SVM_NPTEXIT_GPA else SVM_NPTEXIT_GPT)
      in wbind (wst (stq_phys po (unat (vm_vmcb env + vmcb_exit_info_2)) gphys)) (\<lambda>_. wstop (Do_Vmexit info)))"

definition get_hphys :: "'m phys_ops \<Rightarrow> CPUX86State \<Rightarrow> u64 \<Rightarrow> access_type \<Rightarrow> u32 option \<Rightarrow> ('m, u64 \<times> u32 option) walk" where
  "get_hphys po env gphys acc prot =
     (if \<not> tst (hflags2 env) HF2_NPT_MASK then wret (gphys, prot)
      else
        let rsvd_mask = PG_HI_RSVD_MASK OR (if tst (nested_pg_mode env) SVM_NPT_NXE then 0 else PG_NX_MASK)
        in wcatch
             (wbind (if tst (nested_pg_mode env) SVM_NPT_PAE then nested_pae po env gphys rsvd_mask else nested_legacy po env gphys)
               (nested_check gphys acc prot))
             (nested_fault po env gphys acc (prot \<noteq> None)))"

subsection \<open>The walk\<close>

definition x86_get_a20_mask :: "CPUX86State \<Rightarrow> u64" where
  "x86_get_a20_mask env = (if tst (hflags env) HF_SMM_MASK then - 1 else scast (a20_mask env))"

text \<open>The address of a table is guest-physical; it is kept in 32 bits before and after its translation.\<close>

definition table_addr :: "'m phys_ops \<Rightarrow> CPUX86State \<Rightarrow> u64 \<Rightarrow> ('m, u32) walk" where
  "table_addr po env a = wbind (get_hphys po env (ucast (ucast a :: u32)) MMU_DATA_STORE None) (\<lambda>(h, _). wret (ucast h))"

text \<open>The tables yield the last entry and its address, the combined permissions, the page size and the reserved bits.\<close>

type_synonym leaf = "u64 \<times> u64 \<times> u32 \<times> u64 \<times> u64"

definition walk_pae :: "'m phys_ops \<Rightarrow> CPUX86State \<Rightarrow> u64 \<Rightarrow> u64 \<Rightarrow> u64 \<Rightarrow> ('m, leaf) walk" where
  "walk_pae po env a20 addr rsvd_mask =
     wbind (table_addr po env ((ucast (cr3 env AND NOT 0x1f) + (drop_bit 27 addr AND 0x18)) AND a20)) (\<lambda>pdpe_addr.
     wbind (wld (ldq_phys po (unat pdpe_addr))) (\<lambda>pdpe.
     wbind (wguard (tst pdpe PG_PRESENT_MASK) Do_Fault) (\<lambda>_.
     let rsvd_mask = rsvd_mask OR PG_HI_USER_MASK
     in wbind (wguard (\<not> tst pdpe (rsvd_mask OR PG_NX_MASK)) Do_Fault_Rsvd) (\<lambda>_.
     let ptep = PG_NX_MASK OR PG_USER_MASK OR PG_RW_MASK
     in wbind (table_addr po env (((pdpe AND PG_ADDRESS_MASK) + push_bit 3 (drop_bit 21 addr AND 0x1ff)) AND a20)) (\<lambda>pde_addr.
     wbind (wld (ldq_phys po (unat pde_addr))) (\<lambda>pde.
     wbind (wguard (tst pde PG_PRESENT_MASK) Do_Fault) (\<lambda>_.
     wbind (wguard (\<not> tst pde rsvd_mask) Do_Fault_Rsvd) (\<lambda>_.
     let ptep = ptep AND (pde XOR PG_NX_MASK)
     in if tst pde PG_PSE_MASK then wret (pde, ptep, pde_addr, 0x200000, rsvd_mask OR page_rsvd 0x200000)
        else wbind (set_accessed po pde_addr pde) (\<lambda>pde.
          wbind (table_addr po env (((pde AND PG_ADDRESS_MASK) + push_bit 3 (drop_bit 12 addr AND 0x1ff)) AND a20)) (\<lambda>pte_addr.
          wbind (wld (ldq_phys po (unat pte_addr))) (\<lambda>pte.
          wbind (wguard (tst pte PG_PRESENT_MASK) Do_Fault) (\<lambda>_.
          wbind (wguard (\<not> tst pte rsvd_mask) Do_Fault_Rsvd) (\<lambda>_.
          wret (pte, ptep AND (pte XOR PG_NX_MASK), pte_addr, 0x1000, rsvd_mask OR page_rsvd 0x1000))))))))))))))"

definition walk_legacy :: "'m phys_ops \<Rightarrow> CPUX86State \<Rightarrow> u64 \<Rightarrow> u64 \<Rightarrow> ('m, leaf) walk" where
  "walk_legacy po env a20 addr =
     wbind (table_addr po env ((ucast (cr3 env AND NOT 0xfff) + (drop_bit 20 addr AND 0xffc)) AND a20)) (\<lambda>pde_addr.
     wbind (wld (ldl_phys po (unat pde_addr))) (\<lambda>pde32.
     let pde = (ucast pde32 :: u64)
     in wbind (wguard (tst pde PG_PRESENT_MASK) Do_Fault) (\<lambda>_.
     let ptep = pde OR PG_NX_MASK
     in if tst pde PG_PSE_MASK \<and> tst (cr4 env) CR4_PSE_MASK
        then wret (pde OR push_bit 19 (pde AND 0x1fe000), ptep, pde_addr, 0x400000, 0x200000)
        else wbind (set_accessed po pde_addr pde) (\<lambda>pde.
          wbind (table_addr po env (((pde AND NOT 0xfff) + (drop_bit 10 addr AND 0xffc)) AND a20)) (\<lambda>pte_addr.
          wbind (wld (ldl_phys po (unat pte_addr))) (\<lambda>pte32.
          let pte = (ucast pte32 :: u64)
          in wbind (wguard (tst pte PG_PRESENT_MASK) Do_Fault) (\<lambda>_.
          wret (pte, ptep AND (pte OR PG_NX_MASK), pte_addr, 0x1000, page_rsvd 0x1000)))))))) "

definition access_bit :: "access_type \<Rightarrow> u32" where
  "access_bit acc = push_bit (access_code acc) 1"

text \<open>The permissions of the page for the privilege of the access, and the protection keys, which need long mode.\<close>

definition page_prot :: "CPUX86State \<Rightarrow> mmu_idx \<Rightarrow> u64 \<Rightarrow> u32" where
  "page_prot env idx ptep =
     (let is_user = (idx = MMU_USER_IDX);
          prot = (if idx \<noteq> MMU_KSMAP_IDX \<or> \<not> tst ptep PG_USER_MASK
            then PAGE_READ OR (if tst ptep PG_RW_MASK \<or> (\<not> is_user \<and> \<not> tst (cr0 env) CR0_WP_MASK) then PAGE_WRITE else 0) else 0)
      in if \<not> tst ptep PG_NX_MASK \<and> (is_user \<or> \<not> (tst (cr4 env) CR4_SMEP_MASK \<and> tst ptep PG_USER_MASK)) then prot OR PAGE_EXEC else prot)"

definition check_pkru :: "CPUX86State \<Rightarrow> access_type \<Rightarrow> mmu_idx \<Rightarrow> u64 \<Rightarrow> u64 \<Rightarrow> u32 \<Rightarrow> ('m, u32) walk" where
  "check_pkru env acc idx pte ptep prot =
     (if tst (cr4 env) CR4_PKE_MASK \<and> tst (hflags env) HF_LMA_MASK \<and> tst ptep PG_USER_MASK \<and> pkru env \<noteq> 0
      then
        let pk = unat (drop_bit PG_PKRU_BIT (pte AND PG_PKRU_MASK));
            pkru_ad = drop_bit (pk * 2) (pkru env) AND 1;
            pkru_wd = drop_bit (pk * 2) (pkru env) AND 2;
            pkru_prot = PAGE_READ OR PAGE_WRITE OR PAGE_EXEC;
            pkru_prot = (if pkru_ad \<noteq> 0 then pkru_prot AND NOT (PAGE_READ OR PAGE_WRITE)
              else if pkru_wd \<noteq> 0 \<and> (idx = MMU_USER_IDX \<or> tst (cr0 env) CR0_WP_MASK) then pkru_prot AND NOT PAGE_WRITE else pkru_prot)
        in if \<not> tst pkru_prot (access_bit acc)
           then wbind (wassert (acc \<noteq> MMU_INST_FETCH)) (\<lambda>_. wstop (Do_Fault_Protect PG_ERROR_PK_MASK))
           else wret (prot AND pkru_prot)
      else wret prot)"

text \<open>From the label \<open>do_check_protect_pse36\<close> to \<open>do_mapping\<close>: the check of the access and the accessed and dirty bits of the last entry.\<close>

definition check_protect :: "'m phys_ops \<Rightarrow> CPUX86State \<Rightarrow> access_type \<Rightarrow> mmu_idx \<Rightarrow> leaf \<Rightarrow> ('m, u64 \<times> u32 \<times> u64) walk" where
  "check_protect po env acc idx = (\<lambda>(pte, ptep, pte_addr, page_size, rsvd_mask).
     wbind (wguard (\<not> tst pte rsvd_mask) Do_Fault_Rsvd) (\<lambda>_.
     let ptep = ptep XOR PG_NX_MASK
     in wbind (wguard (\<not> (idx = MMU_USER_IDX \<and> \<not> tst ptep PG_USER_MASK)) (Do_Fault_Protect 0)) (\<lambda>_.
        wbind (check_pkru env acc idx pte ptep (page_prot env idx ptep)) (\<lambda>prot.
        wbind (wguard (tst prot (access_bit acc)) (Do_Fault_Protect 0)) (\<lambda>_.
        let is_write = (acc = MMU_DATA_STORE);
            is_dirty = (is_write \<and> \<not> tst pte PG_DIRTY_MASK);
            stale = (\<not> tst pte PG_ACCESSED_MASK \<or> is_dirty);
            pte = (if stale then pte OR PG_ACCESSED_MASK OR (if is_dirty then PG_DIRTY_MASK else 0) else pte)
        in wbind (if stale then wst (stl_phys_notdirty po (unat pte_addr) (ucast pte)) else wret ()) (\<lambda>_.
           if \<not> tst pte PG_DIRTY_MASK
           then wbind (wassert (\<not> is_write)) (\<lambda>_. wret (pte, prot AND NOT PAGE_WRITE, page_size))
           else wret (pte, prot, page_size)))))))"

text \<open>The arguments of \<open>tlb_set_page_with_attrs\<close>.\<close>

record tlb_page =
  tp_vaddr :: u32
  tp_paddr :: u64
  tp_secure :: bool
  tp_prot :: u32
  tp_idx :: mmu_idx
  tp_size :: u64

definition do_mapping :: "'m phys_ops \<Rightarrow> CPUX86State \<Rightarrow> u64 \<Rightarrow> access_type \<Rightarrow> mmu_idx \<Rightarrow> u64 \<times> u32 \<times> u64 \<Rightarrow> ('m, tlb_page) walk" where
  "do_mapping po env addr acc idx = (\<lambda>(pte, prot, page_size).
     let pte = (pte AND x86_get_a20_mask env) AND PG_ADDRESS_MASK AND NOT (page_size - 1);
         page_offset = (ucast (addr AND (page_size - 1)) :: u32)
     in wbind (get_hphys po env (pte + ucast page_offset) acc (Some prot)) (\<lambda>(paddr, prot).
        let prot = the prot
        in wbind (wassert (tst prot (access_bit acc))) (\<lambda>_.
           wret \<lparr>tp_vaddr = ucast addr AND TARGET_PAGE_MASK, tp_paddr = paddr AND ucast TARGET_PAGE_MASK,
                 tp_secure = cpu_get_mem_attrs env, tp_prot = prot, tp_idx = idx, tp_size = page_size\<rparr>)))"

definition mmu_translate :: "'m phys_ops \<Rightarrow> CPUX86State \<Rightarrow> u64 \<Rightarrow> access_type \<Rightarrow> mmu_idx \<Rightarrow> ('m, tlb_page) walk" where
  "mmu_translate po env addr acc idx =
     (let a20 = x86_get_a20_mask env;
          rsvd_mask = PG_HI_RSVD_MASK OR (if tst (efer env) MSR_EFER_NXE then 0 else PG_NX_MASK)
      in if \<not> tst (cr0 env) CR0_PG_MASK then do_mapping po env addr acc idx (addr, PAGE_READ OR PAGE_WRITE OR PAGE_EXEC, 0x1000)
         else wbind (if tst (cr4 env) CR4_PAE_MASK then walk_pae po env a20 addr rsvd_mask else walk_legacy po env a20 addr) (\<lambda>leaf.
              wbind (check_protect po env acc idx leaf) (do_mapping po env addr acc idx)))"

text \<open>The error code at the end of the three labels.\<close>

definition fault_code :: "CPUX86State \<Rightarrow> access_type \<Rightarrow> mmu_idx \<Rightarrow> walk_stop \<Rightarrow> u32" where
  "fault_code env acc idx e =
     (let ec = (case e of Do_Fault_Rsvd \<Rightarrow> PG_ERROR_RSVD_MASK OR PG_ERROR_P_MASK | Do_Fault_Protect ec \<Rightarrow> ec OR PG_ERROR_P_MASK | _ \<Rightarrow> 0);
          ec = ec OR push_bit PG_ERROR_W_BIT (of_bool (acc = MMU_DATA_STORE));
          ec = (if idx = MMU_USER_IDX then ec OR PG_ERROR_U_MASK else ec)
      in if acc = MMU_INST_FETCH \<and> ((tst (efer env) MSR_EFER_NXE \<and> tst (cr4 env) CR4_PAE_MASK) \<or> tst (cr4 env) CR4_SMEP_MASK)
         then ec OR PG_ERROR_I_D_MASK else ec)"

text \<open>A walk ends with a page for the TLB, with a page fault to raise, or in the main loop.\<close>

datatype mmu_outcome = Filled tlb_page | Pf_Fault | Left_Loop

definition handle_mmu_fault :: "'m phys_ops \<Rightarrow> u64 \<Rightarrow> access_type \<Rightarrow> mmu_idx \<Rightarrow> CPUX86State \<Rightarrow> 'm \<Rightarrow> (mmu_outcome \<times> CPUX86State \<times> 'm) res" where
  "handle_mmu_fault po addr acc idx env m =
     res_bind (mmu_translate po env addr acc idx m) (\<lambda>(r, m).
       case r of
         Inr page \<Rightarrow> Inr (Filled page, env, m)
       | Inl (Do_Vmexit info) \<Rightarrow> Inr (Left_Loop, cpu_vmexit SVM_EXIT_NPF info env, m)
       | Inl e \<Rightarrow>
           res_bind (if tst (intercept_exceptions env) (push_bit 14 1)
                     then res_bind (stq_phys po (unat (vm_vmcb env + vmcb_exit_info_2)) addr m) (\<lambda>m. Inr (env, m))
                     else Inr (env\<lparr>cr2 := ucast addr\<rparr>, m)) (\<lambda>(env, m).
           Inr (Pf_Fault, env\<lparr>error_code := fault_code env acc idx e, exception_index := EXCP0E_PAGE\<rparr>, m)))"

definition x86_cpu_tlb_fill :: "'m phys_ops \<Rightarrow> u64 \<Rightarrow> access_type \<Rightarrow> mmu_idx \<Rightarrow> bool \<Rightarrow> CPUX86State \<Rightarrow> 'm \<Rightarrow> (mmu_outcome \<times> CPUX86State \<times> 'm) res" where
  "x86_cpu_tlb_fill po addr acc idx probe env m =
     res_bind (handle_mmu_fault po addr acc idx env m) (\<lambda>(r, env, m).
       case r of
         Pf_Fault \<Rightarrow>
           if probe then Inl AssertFail
           else res_bind (raise_exception_err po (exception_index env) (error_code env) env m) (\<lambda>(env, m). Inr (Left_Loop, env, m))
       | _ \<Rightarrow> Inr (r, env, m))"

subsection \<open>The walk of the debugger\<close>

text \<open>It ignores the permissions, the reserved bits and nested paging, and stores nothing; \<open>None\<close> stands for \<open>- 1\<close>.\<close>

definition debug_out :: "u64 \<Rightarrow> u64 \<Rightarrow> u64 \<Rightarrow> u64" where
  "debug_out addr pte page_size =
     (pte AND PG_ADDRESS_MASK AND NOT (page_size - 1)) OR ucast (ucast ((addr AND ucast TARGET_PAGE_MASK) AND (page_size - 1)) :: u32)"

definition debug_pae :: "'m phys_ops \<Rightarrow> CPUX86State \<Rightarrow> u64 \<Rightarrow> 'm \<Rightarrow> (u64 option \<times> 'm) res" where
  "debug_pae po env addr m =
     (let a20 = x86_get_a20_mask env;
          pdpe_addr = (ucast ((ucast (cr3 env AND NOT 0x1f) + (drop_bit 27 addr AND 0x18)) AND a20) :: u32)
      in res_bind (ldq_phys po (unat pdpe_addr) m) (\<lambda>(pdpe, m).
         if \<not> tst pdpe PG_PRESENT_MASK then Inr (None, m)
         else
           let pde_addr = (ucast (((pdpe AND PG_ADDRESS_MASK) + push_bit 3 (drop_bit 21 addr AND 0x1ff)) AND a20) :: u32)
           in res_bind (ldq_phys po (unat pde_addr) m) (\<lambda>(pde, m).
              if \<not> tst pde PG_PRESENT_MASK then Inr (None, m)
              else if tst pde PG_PSE_MASK then Inr (Some (debug_out addr pde 0x200000), m)
              else
                let pte_addr = (ucast (((pde AND PG_ADDRESS_MASK) + push_bit 3 (drop_bit 12 addr AND 0x1ff)) AND a20) :: u32)
                in res_bind (ldq_phys po (unat pte_addr) m) (\<lambda>(pte, m).
                   if \<not> tst pte PG_PRESENT_MASK then Inr (None, m) else Inr (Some (debug_out addr pte 0x1000), m)))))"

definition debug_legacy :: "'m phys_ops \<Rightarrow> CPUX86State \<Rightarrow> u64 \<Rightarrow> 'm \<Rightarrow> (u64 option \<times> 'm) res" where
  "debug_legacy po env addr m =
     (let a20 = x86_get_a20_mask env;
          pde_addr = (ucast ((ucast (cr3 env AND NOT 0xfff) + (drop_bit 20 addr AND 0xffc)) AND a20) :: u32)
      in res_bind (ldl_phys po (unat pde_addr) m) (\<lambda>(pde32, m).
         let pde = (ucast pde32 :: u64)
         in if \<not> tst pde PG_PRESENT_MASK then Inr (None, m)
            else if tst pde PG_PSE_MASK \<and> tst (cr4 env) CR4_PSE_MASK
            then Inr (Some (debug_out addr ((pde OR push_bit 19 (pde AND 0x1fe000)) AND a20) 0x400000), m)
            else
              let pte_addr = (ucast (((pde AND NOT 0xfff) + (drop_bit 10 addr AND 0xffc)) AND a20) :: u32)
              in res_bind (ldl_phys po (unat pte_addr) m) (\<lambda>(pte32, m).
                 let pte = (ucast pte32 :: u64)
                 in if \<not> tst pte PG_PRESENT_MASK then Inr (None, m) else Inr (Some (debug_out addr (pte AND a20) 0x1000), m))))"

definition x86_cpu_get_phys_page_attrs_debug :: "'m phys_ops \<Rightarrow> u64 \<Rightarrow> CPUX86State \<Rightarrow> 'm \<Rightarrow> (u64 option \<times> 'm) res" where
  "x86_cpu_get_phys_page_attrs_debug po addr env m =
     (if \<not> tst (cr0 env) CR0_PG_MASK then Inr (Some (debug_out addr (addr AND x86_get_a20_mask env) 0x1000), m)
      else if tst (cr4 env) CR4_PAE_MASK then debug_pae po env addr m
      else debug_legacy po env addr m)"

end
