(* ===== verification/Paging.thy ===== *)
theory Paging
  imports Mmu_Walk
begin

text \<open>
  What the page walk means. The reference walk reads page tables from a memory of 32-bit cells, tests single bits of the entries and decides an access
  from three permissions, as the processor manual describes it. The theorems say that the walk of \<open>Mmu_Walk\<close> is this one, what it changes in
  memory, that a repeated walk changes nothing more, and that the debugger's walk finds the same page.
\<close>

section \<open>The reference walk\<close>

text \<open>The page that the tables give: its frame, its size, whether every level allows user mode, writes and execution, and the address of the last entry.\<close>

record page_ref =
  pg_base :: u64
  pg_size :: u64
  pg_user :: bool
  pg_write :: bool
  pg_exec :: bool
  pg_leaf :: u32

datatype tables = Missing | Reserved | Page page_ref

type_synonym cells = "nat \<Rightarrow> u32"

definition mark_accessed :: "u32 \<Rightarrow> cells \<Rightarrow> cells" where
  "mark_accessed a w = w(unat a := set_bit 5 (w (unat a)))"

definition mark_dirty :: "u32 \<Rightarrow> cells \<Rightarrow> cells" where
  "mark_dirty a w = w(unat a := set_bit 6 (w (unat a)))"

definition mark_leaf :: "access_type \<Rightarrow> u32 \<Rightarrow> cells \<Rightarrow> cells" where
  "mark_leaf acc a w = (if acc = MMU_DATA_STORE then mark_dirty a (mark_accessed a w) else mark_accessed a w)"

text \<open>The address lines: the mask is all ones, or clears line 20.\<close>

definition a20 :: "CPUX86State \<Rightarrow> u64 \<Rightarrow> u32" where
  "a20 env x = ucast (x AND x86_get_a20_mask env)"

definition pde_at :: "CPUX86State \<Rightarrow> u64 \<Rightarrow> u32" where
  "pde_at env va = a20 env (ucast (cr3 env AND NOT 0xfff) + push_bit 2 (take_bit 10 (drop_bit 22 va)))"

definition pte_at :: "CPUX86State \<Rightarrow> u64 \<Rightarrow> u32 \<Rightarrow> u32" where
  "pte_at env va pde = a20 env (ucast (pde AND NOT 0xfff) + push_bit 2 (take_bit 10 (drop_bit 12 va)))"

definition ref_legacy :: "CPUX86State \<Rightarrow> u64 \<Rightarrow> cells \<Rightarrow> tables \<times> cells" where
  "ref_legacy env va w =
     (let d = pde_at env va; pde = w (unat d)
      in if \<not> bit pde 0 then (Missing, w)
         else if bit pde 7 \<and> bit (cr4 env) 4
         then (if bit pde 21 then Reserved
               else Page \<lparr>pg_base = push_bit 22 (drop_bit 22 (ucast pde)) OR push_bit 32 (take_bit 8 (drop_bit 13 (ucast pde))), pg_size = 0x400000,
                 pg_user = bit pde 2, pg_write = bit pde 1, pg_exec = True, pg_leaf = d\<rparr>, w)
         else
           let w = mark_accessed d w; t = pte_at env va pde; pte = w (unat t)
           in if \<not> bit pte 0 then (Missing, w)
              else (Page \<lparr>pg_base = push_bit 12 (drop_bit 12 (ucast pte)), pg_size = 0x1000, pg_user = (bit pde 2 \<and> bit pte 2),
                pg_write = (bit pde 1 \<and> bit pte 1), pg_exec = True, pg_leaf = t\<rparr>, w))"

text \<open>Entries of eight bytes.\<close>

definition entry8 :: "cells \<Rightarrow> u32 \<Rightarrow> u64" where
  "entry8 w a = ucast (w (unat a)) OR push_bit 32 (ucast (w (unat a + 4)))"

definition pdpe_at :: "CPUX86State \<Rightarrow> u64 \<Rightarrow> u32" where
  "pdpe_at env va = a20 env (ucast (cr3 env AND NOT 0x1f) + push_bit 3 (take_bit 2 (drop_bit 30 va)))"

definition frame :: "u64 \<Rightarrow> u64" where
  "frame e = push_bit 12 (take_bit 40 (drop_bit 12 e))"

definition table8_at :: "CPUX86State \<Rightarrow> nat \<Rightarrow> u64 \<Rightarrow> u64 \<Rightarrow> u32" where
  "table8_at env sh va e = a20 env (frame e + push_bit 3 (take_bit 9 (drop_bit sh va)))"

text \<open>Bits 36 to 62 are reserved, and bit 63 unless execution can be disabled.\<close>

definition high_rsvd :: "CPUX86State \<Rightarrow> u64 \<Rightarrow> bool" where
  "high_rsvd env e \<longleftrightarrow> take_bit 27 (drop_bit 36 e) \<noteq> 0 \<or> (bit e 63 \<and> \<not> bit (efer env) 11)"

definition ref_pae :: "CPUX86State \<Rightarrow> u64 \<Rightarrow> cells \<Rightarrow> tables \<times> cells" where
  "ref_pae env va w =
     (let pdpe = entry8 w (pdpe_at env va)
      in if \<not> bit pdpe 0 then (Missing, w)
         else if high_rsvd env pdpe \<or> bit pdpe 63 then (Reserved, w)
         else
           let d = table8_at env 21 va pdpe; pde = entry8 w d
           in if \<not> bit pde 0 then (Missing, w)
              else if high_rsvd env pde then (Reserved, w)
              else if bit pde 7
              then (if take_bit 8 (drop_bit 13 pde) \<noteq> 0 then Reserved
                    else Page \<lparr>pg_base = push_bit 21 (drop_bit 21 (frame pde)), pg_size = 0x200000, pg_user = bit pde 2, pg_write = bit pde 1,
                      pg_exec = (\<not> bit pde 63), pg_leaf = d\<rparr>, w)
              else
                let w = mark_accessed d w; t = table8_at env 12 va pde; pte = entry8 w t
                in if \<not> bit pte 0 then (Missing, w)
                   else if high_rsvd env pte then (Reserved, w)
                   else (Page \<lparr>pg_base = frame pte, pg_size = 0x1000, pg_user = (bit pde 2 \<and> bit pte 2), pg_write = (bit pde 1 \<and> bit pte 1),
                     pg_exec = (\<not> bit pde 63 \<and> \<not> bit pte 63), pg_leaf = t\<rparr>, w))"

definition ref_tables :: "CPUX86State \<Rightarrow> u64 \<Rightarrow> cells \<Rightarrow> tables \<times> cells" where
  "ref_tables env va w = (if bit (cr4 env) 5 then ref_pae env va w else ref_legacy env va w)"

text \<open>Who may do what with a page.\<close>

definition may :: "CPUX86State \<Rightarrow> mmu_idx \<Rightarrow> page_ref \<Rightarrow> access_type \<Rightarrow> bool" where
  "may env idx p acc =
     (case idx of
        MMU_USER_IDX \<Rightarrow> pg_user p \<and> (case acc of MMU_DATA_LOAD \<Rightarrow> True | MMU_DATA_STORE \<Rightarrow> pg_write p | MMU_INST_FETCH \<Rightarrow> pg_exec p)
      | _ \<Rightarrow>
          (case acc of
             MMU_INST_FETCH \<Rightarrow> pg_exec p \<and> \<not> (bit (cr4 env) 20 \<and> pg_user p)
           | MMU_DATA_LOAD \<Rightarrow> \<not> (idx = MMU_KSMAP_IDX \<and> pg_user p)
           | MMU_DATA_STORE \<Rightarrow> \<not> (idx = MMU_KSMAP_IDX \<and> pg_user p) \<and> (pg_write p \<or> \<not> bit (cr0 env) 16)))"

definition may_bits :: "CPUX86State \<Rightarrow> mmu_idx \<Rightarrow> page_ref \<Rightarrow> bool \<Rightarrow> u32" where
  "may_bits env idx p dirty =
     (if may env idx p MMU_DATA_LOAD then 1 else 0) OR (if may env idx p MMU_DATA_STORE \<and> dirty then 2 else 0) OR (if may env idx p MMU_INST_FETCH then 4 else 0)"

text \<open>The physical address of the page of 4 KiB that holds the address.\<close>

definition page_of :: "CPUX86State \<Rightarrow> u64 \<Rightarrow> page_ref \<Rightarrow> u64" where
  "page_of env va p = (pg_base p AND x86_get_a20_mask env) OR (va AND (pg_size p - 1) AND NOT 0xfff)"

datatype ref_outcome = Ref_Page u64 u32 u64 | Ref_Fault bool bool

text \<open>A fault says whether an entry was missing and whether a reserved bit was set.\<close>

definition ref_translate :: "CPUX86State \<Rightarrow> u64 \<Rightarrow> access_type \<Rightarrow> mmu_idx \<Rightarrow> cells \<Rightarrow> ref_outcome \<times> cells" where
  "ref_translate env va acc idx w =
     (case ref_tables env va w of
        (Missing, w) \<Rightarrow> (Ref_Fault False False, w)
      | (Reserved, w) \<Rightarrow> (Ref_Fault True True, w)
      | (Page p, w) \<Rightarrow>
          if \<not> may env idx p acc then (Ref_Fault True False, w)
          else
            let w = mark_leaf acc (pg_leaf p) w
            in (Ref_Page (page_of env va p) (may_bits env idx p (bit (w (unat (pg_leaf p))) 6)) (pg_size p), w))"

section \<open>Masks as bits\<close>

lemma tst_push: "tst x (push_bit n 1) \<longleftrightarrow> bit x n" for x :: "'a::len word"
  by (simp add: word_bits flip: push_bit_eq_mult)

lemmas pg_masks = PG_PRESENT_MASK_def PG_RW_MASK_def PG_USER_MASK_def PG_ACCESSED_MASK_def PG_DIRTY_MASK_def PG_PSE_MASK_def PG_NX_MASK_def
  CR0_PG_MASK_def CR0_WP_MASK_def CR4_PSE_MASK_def CR4_PAE_MASK_def CR4_SMEP_MASK_def CR4_PKE_MASK_def HF_LMA_MASK_def HF_SMM_MASK_def
  HF_GUEST_MASK_def HF2_NPT_MASK_def MSR_EFER_NXE_def

lemma pg_tst:
  "tst e PG_PRESENT_MASK = bit e 0" "tst e PG_RW_MASK = bit e 1" "tst e PG_USER_MASK = bit e 2" "tst e PG_ACCESSED_MASK = bit e 5"
  "tst e PG_DIRTY_MASK = bit e 6" "tst e PG_PSE_MASK = bit e 7" "tst e PG_NX_MASK = bit e 63" "tst v CR0_PG_MASK = bit v 31"
  "tst v CR0_WP_MASK = bit v 16" "tst v CR4_PSE_MASK = bit v 4" "tst v CR4_PAE_MASK = bit v 5" "tst v CR4_SMEP_MASK = bit v 20"
  "tst v CR4_PKE_MASK = bit v 22" "tst v HF_LMA_MASK = bit v 14" "tst v HF2_NPT_MASK = bit v 6" "tst e MSR_EFER_NXE = bit e 11"
  unfolding pg_masks tst_push by (rule refl)+

lemma bit_NX: "bit PG_NX_MASK n \<longleftrightarrow> n = 63"
  unfolding PG_NX_MASK_def bit_push_bit_iff by auto

lemma set_bit_or: "e OR PG_ACCESSED_MASK = set_bit 5 e" "e OR PG_DIRTY_MASK = set_bit 6 e"
  by (simp_all add: PG_ACCESSED_MASK_def PG_DIRTY_MASK_def set_bit_eq_or)

lemma set_bit_id: "bit e n \<Longrightarrow> set_bit n e = e" for e :: "'a::len word"
  by (rule bit_word_eqI) (auto simp: bit_simps)

lemma ucast_set_bit: "n < LENGTH('a) \<Longrightarrow> n < LENGTH('b) \<Longrightarrow> ucast (set_bit n e) = (set_bit n (ucast e) :: 'b::len word)" for e :: "'a::len word"
  by (rule bit_word_eqI) (auto simp: bit_simps)

text \<open>The addresses of entries are aligned.\<close>

lemma aligned_unat: "2 ^ k dvd unat a \<longleftrightarrow> (\<forall>n < k. \<not> bit a n)" for a :: "'a::len word"
proof -
  have "2 ^ k dvd unat a \<longleftrightarrow> take_bit k (unat a) = 0" by (simp add: take_bit_eq_mod dvd_eq_mod_eq_0)
  also have "\<dots> \<longleftrightarrow> (\<forall>n < k. \<not> bit (unat a) n)" by (auto simp: bit_eq_iff bit_simps)
  also have "\<dots> \<longleftrightarrow> (\<forall>n < k. \<not> bit a n)"
    by (metis bit_imp_le_length bit_unsigned_iff not_le possible_bit_nat)
  finally show ?thesis .
qed

lemma aligned_sum: "2 ^ k dvd unat x \<Longrightarrow> 2 ^ k dvd unat y \<Longrightarrow> k \<le> LENGTH('a) \<Longrightarrow> 2 ^ k dvd unat (x + y)" for x y :: "'a::len word"
  by (simp add: unat_word_ariths dvd_mod_iff le_imp_power_dvd)

lemma a20_aligned: "2 ^ k dvd unat x \<Longrightarrow> 2 ^ k dvd unat (a20 env x)"
  unfolding aligned_unat a20_def by (auto simp: bit_simps)

lemma aligned_push: "2 ^ k dvd unat (push_bit k x)" for x :: "'a::len word"
  unfolding aligned_unat by (simp add: bit_simps)

lemma aligned_mono: "2 ^ l dvd unat x \<Longrightarrow> k \<le> l \<Longrightarrow> 2 ^ k dvd unat x" for x :: "'a::len word"
  unfolding aligned_unat by auto

lemma aligned_clear:
  "2 ^ 12 dvd unat (ucast (x AND NOT 0xfff) :: u64)" "2 ^ 5 dvd unat (ucast (x AND NOT 0x1f) :: u64)" for x :: u32
proof -
  have m: "(0xfff :: u32) = mask 12" "(0x1f :: u32) = mask 5" by (simp_all add: mask_eq_exp_minus_1)
  show "2 ^ 12 dvd unat (ucast (x AND NOT 0xfff) :: u64)" "2 ^ 5 dvd unat (ucast (x AND NOT 0x1f) :: u64)"
    unfolding m aligned_unat by (auto simp: bit_simps)
qed

lemma entries_aligned:
  "4 dvd unat (pde_at env va)" "4 dvd unat (pte_at env va pde)" "8 dvd unat (pdpe_at env va)" "8 dvd unat (table8_at env sh va e)"
proof -
  note s = a20_aligned [OF aligned_sum [OF aligned_mono [OF aligned_clear(1)] aligned_push], where k = 2]
    a20_aligned [OF aligned_sum [OF aligned_mono [OF aligned_clear(2)] aligned_push], where k = 3]
    a20_aligned [OF aligned_sum [OF aligned_mono [OF aligned_push [where k = 12]] aligned_push], where k = 3]
  show "4 dvd unat (pde_at env va)" "4 dvd unat (pte_at env va pde)" "8 dvd unat (pdpe_at env va)" "8 dvd unat (table8_at env sh va e)"
    unfolding pde_at_def pte_at_def pdpe_at_def table8_at_def frame_def using s by simp_all
qed

lemma aligned_4: "8 dvd a \<Longrightarrow> 4 dvd a" for a :: nat
  by (rule dvd_trans [of 4 8]) simp_all

lemma wbind_wret [simp]: "wbind (wret x) f = f x"
  by (simp add: wbind_def wret_def)

lemma ucast_ucast_32: "ucast (ucast x :: u64) = x" for x :: u32
  by (rule bit_word_eqI) (simp add: bit_simps)

lemma wbind_assoc: "wbind (wbind w f) g = wbind w (\<lambda>x. wbind (f x) g)"
  by (auto simp: wbind_def res_bind_def fun_eq_iff split: sum.splits)

lemma wbind_Inr: "wbind w f m = Inr (Inr y, m') \<longleftrightarrow> (\<exists>x m1. w m = Inr (Inr x, m1) \<and> f x m1 = Inr (Inr y, m'))"
  by (auto simp: wbind_def res_bind_def split: sum.splits)

lemma table_addr_plain: "\<not> bit (hflags2 env) 6 \<Longrightarrow> table_addr po env (x AND x86_get_a20_mask env) = wret (a20 env x)"
  by (simp add: table_addr_def get_hphys_def pg_tst a20_def ucast_ucast_32)

text \<open>The code's expressions for indices, frames and reserved bits.\<close>

lemma and_field: "drop_bit k x AND push_bit j (mask n) = push_bit j (take_bit n (drop_bit (k + j) x))" for x :: "'a::len word"
  by (rule bit_word_eqI) (auto simp: bit_simps)

lemma index_fields:
  "drop_bit 20 x AND 0xffc = push_bit 2 (take_bit 10 (drop_bit 22 x))" "drop_bit 10 x AND 0xffc = push_bit 2 (take_bit 10 (drop_bit 12 x))"
  "drop_bit 27 x AND 0x18 = push_bit 3 (take_bit 2 (drop_bit 30 x))" "y AND 0x1ff = take_bit 9 y" for x y :: u64
proof -
  have "(0xffc :: u64) = push_bit 2 (mask 10)" "(0x18 :: u64) = push_bit 3 (mask 2)" "(0x1ff :: u64) = mask 9" by code_simp+
  then show "drop_bit 20 x AND 0xffc = push_bit 2 (take_bit 10 (drop_bit 22 x))" "drop_bit 10 x AND 0xffc = push_bit 2 (take_bit 10 (drop_bit 12 x))"
    "drop_bit 27 x AND 0x18 = push_bit 3 (take_bit 2 (drop_bit 30 x))" "y AND 0x1ff = take_bit 9 y"
    using and_field [of 20 x 2 10] and_field [of 10 x 2 10] and_field [of 27 x 3 2] by (simp_all add: take_bit_eq_mask)
qed

lemma frame_and: "e AND PG_ADDRESS_MASK = frame e"
proof -
  have m: "PG_ADDRESS_MASK = push_bit 12 (mask 40)" unfolding PG_ADDRESS_MASK_def by code_simp
  show ?thesis unfolding m frame_def by (rule bit_word_eqI) (auto simp: bit_simps)
qed

lemma frame_set_bit: "n < 12 \<Longrightarrow> frame (set_bit n e) = frame e"
  unfolding frame_def by (rule bit_word_eqI) (auto simp: bit_simps)

lemma wide_bit: "bit (ucast x :: u64) n = bit x n" for x :: u32
  by (auto simp: bit_simps dest: bit_imp_le_length)

lemma wide_clear: "set_bit 5 (ucast pde) AND NOT 0xfff = (ucast (pde AND NOT 0xfff) :: u64)" for pde :: u32
proof -
  have m: "(0xfff :: u32) = mask 12" "(0xfff :: u64) = mask 12" by (simp_all add: mask_eq_exp_minus_1)
  show ?thesis unfolding m by (rule bit_word_eqI) (auto simp: bit_simps dest: bit_imp_le_length)
qed

lemma tst_or: "tst x (a OR b) \<longleftrightarrow> tst x a \<or> tst x b" for x :: "'a::len word"
  by (simp add: bit.conj_disj_distrib or_eq_0_iff)

lemma tst_field: "tst x (push_bit k (mask n)) \<longleftrightarrow> take_bit n (drop_bit k x) \<noteq> 0" if "k + n \<le> LENGTH('a)" for x :: "'a::len word"
proof -
  have "x AND push_bit k (mask n) = push_bit k (take_bit n (drop_bit k x))" by (rule bit_word_eqI) (auto simp: bit_simps)
  moreover have "push_bit k (take_bit n y) = 0 \<longleftrightarrow> take_bit n y = 0" for y :: "'a word"
  proof
    assume "push_bit k (take_bit n y) = 0"
    then have "bit (push_bit k (take_bit n y)) (k + i) = False" for i by simp
    then show "take_bit n y = 0" using that by (intro bit_word_eqI) (auto simp: bit_simps)
  qed simp
  ultimately show ?thesis by simp
qed

lemma rsvd_high:
  "tst e (PG_HI_RSVD_MASK OR (if bit (efer env) 11 then 0 else PG_NX_MASK) OR PG_HI_USER_MASK) \<longleftrightarrow> high_rsvd env e"
proof -
  have m: "PG_HI_RSVD_MASK OR PG_HI_USER_MASK = push_bit 36 (mask 27)"
    unfolding PG_HI_RSVD_MASK_def PG_HI_USER_MASK_def PHYS_ADDR_MASK_def PG_ADDRESS_MASK_def MAKE_64BIT_MASK_def by code_simp
  have "tst e (PG_HI_RSVD_MASK OR PG_HI_USER_MASK) \<longleftrightarrow> take_bit 27 (drop_bit 36 e) \<noteq> 0" unfolding m by (rule tst_field) simp
  moreover have "tst e PG_NX_MASK = bit e 63" by (rule pg_tst)
  ultimately show ?thesis unfolding high_rsvd_def tst_or by auto
qed

lemma page_rsvd_eqs: "page_rsvd 0x1000 = 0" "page_rsvd 0x200000 = push_bit 13 (mask 8)"
  unfolding page_rsvd_def PG_ADDRESS_MASK_def PG_PSE_PAT_MASK_def by code_simp+

text \<open>The addresses of the entries that a walk reads.\<close>

definition legacy_entries :: "CPUX86State \<Rightarrow> u64 \<Rightarrow> cells \<Rightarrow> u32 list" where
  "legacy_entries env va w =
     (let d = pde_at env va; pde = w (unat d) in if bit pde 0 \<and> \<not> (bit pde 7 \<and> bit (cr4 env) 4) then [d, pte_at env va pde] else [d])"

definition pae_entries :: "CPUX86State \<Rightarrow> u64 \<Rightarrow> cells \<Rightarrow> u32 list" where
  "pae_entries env va w =
     (let p = pdpe_at env va; pdpe = entry8 w p; d = table8_at env 21 va pdpe; pde = entry8 w d
      in [p] @ (if bit pdpe 0 then [d] @ (if bit pde 0 \<and> \<not> bit pde 7 then [table8_at env 12 va pde] else []) else []))"

definition walk_cells :: "CPUX86State \<Rightarrow> u64 \<Rightarrow> cells \<Rightarrow> nat set" where
  "walk_cells env va w =
     (if bit (cr4 env) 5 then (\<Union>a \<in> set (pae_entries env va w). {unat a, unat a + 4}) else unat ` set (legacy_entries env va w))"

text \<open>How the values of the code stand for the page.\<close>

definition leaf_of :: "page_ref \<Rightarrow> cells \<Rightarrow> leaf \<Rightarrow> bool" where
  "leaf_of p c = (\<lambda>(pte, ptep, a, sz, rsvd). \<not> tst pte rsvd \<and> a = pg_leaf p \<and> sz = pg_size p \<and> sz \<in> {0x1000, 0x200000, 0x400000} \<and> bit ptep 2 = pg_user p \<and> bit ptep 1 = pg_write p \<and>
     bit ptep 63 = pg_exec p \<and> ucast pte = c (unat a) \<and> frame pte AND NOT (sz - 1) = pg_base p)"

definition tables_ok :: "tables \<Rightarrow> cells \<Rightarrow> walk_stop + leaf \<Rightarrow> bool" where
  "tables_ok t c r =
     (case t of
        Missing \<Rightarrow> r = Inl Do_Fault
      | Reserved \<Rightarrow> r = Inl Do_Fault_Rsvd \<or> (\<exists>pte ptep a sz rsvd. r = Inr (pte, ptep, a, sz, rsvd) \<and> tst pte rsvd)
      | Page p \<Rightarrow> (\<exists>leaf. r = Inr leaf \<and> leaf_of p c leaf))"

section \<open>Memory that walks can use\<close>

text \<open>A memory that is nothing but cells: accesses outside the set \<open>C\<close>, or not aligned, are errors.\<close>

definition cell_ops :: "nat set \<Rightarrow> cells phys_ops" where
  "cell_ops C =
     \<lparr>ldub_phys = (\<lambda>a w. Inl OutOfBounds),
      ldl_phys = (\<lambda>a w. if a \<in> C \<and> 4 dvd a then Inr (w a, w) else Inl OutOfBounds),
      ldq_phys = (\<lambda>a w. if a \<in> C \<and> a + 4 \<in> C \<and> 8 dvd a then Inr (ucast (w a) OR push_bit 32 (ucast (w (a + 4))), w) else Inl OutOfBounds),
      stl_phys_notdirty = (\<lambda>a v w. if a \<in> C \<and> 4 dvd a then Inr (w(a := v)) else Inl OutOfBounds),
      stq_phys = (\<lambda>a v w. if a \<in> C \<and> a + 4 \<in> C \<and> 8 dvd a then Inr (w(a := ucast v, a + 4 := ucast (drop_bit 32 v))) else Inl OutOfBounds)\<rparr>"

text \<open>
  The interface between the walk and physical memory: the \<open>good\<close> states, in which the addresses in \<open>C\<close> are cells of RAM, and the \<open>word\<close> in each cell. Loads return
  the word, stores change that word and no other cell.
\<close>

locale page_memory =
  fixes po :: "'m phys_ops" and good :: "'m \<Rightarrow> bool" and word :: "'m \<Rightarrow> cells" and C :: "nat set"
  assumes ldl: "good m \<Longrightarrow> a \<in> C \<Longrightarrow> 4 dvd a \<Longrightarrow> \<exists>m'. ldl_phys po a m = Inr (word m a, m') \<and> good m' \<and> word m' = word m"
    and ldq: "good m \<Longrightarrow> a \<in> C \<Longrightarrow> a + 4 \<in> C \<Longrightarrow> 8 dvd a \<Longrightarrow>
      \<exists>m'. ldq_phys po a m = Inr (ucast (word m a) OR push_bit 32 (ucast (word m (a + 4))), m') \<and> good m' \<and> word m' = word m"
    and stl: "good m \<Longrightarrow> a \<in> C \<Longrightarrow> 4 dvd a \<Longrightarrow>
      \<exists>m'. stl_phys_notdirty po a v m = Inr m' \<and> good m' \<and> word m' = (word m)(a := v)"
    and stq: "good m \<Longrightarrow> a \<in> C \<Longrightarrow> a + 4 \<in> C \<Longrightarrow> 8 dvd a \<Longrightarrow>
      \<exists>m'. stq_phys po a q m = Inr m' \<and> good m' \<and> word m' = (word m)(a := ucast q, a + 4 := ucast (drop_bit 32 q))"
begin

text \<open>What succeeds on the cells runs the same on the machine's memory.\<close>

definition sim :: "('m, 'a) walk \<Rightarrow> (cells, 'a) walk \<Rightarrow> bool" where
  "sim w v \<longleftrightarrow> (\<forall>m r c. good m \<longrightarrow> v (word m) = Inr (r, c) \<longrightarrow> (\<exists>m'. w m = Inr (r, m') \<and> good m' \<and> word m' = c))"

lemma sim_ret: "sim (wret x) (wret x)" and sim_stop: "sim (wstop e) (wstop e)" and sim_guard: "sim (wguard b e) (wguard b e)"
  and sim_assert: "sim (wassert b) (wassert b)" and sim_drop: "sim (drop_prot k p) (drop_prot k p)"
  by (auto simp: sim_def wret_def wstop_def wguard_def wassert_def drop_prot_def split: option.splits)

lemma sim_bind: "sim w v \<Longrightarrow> (\<And>x. sim (f x) (g x)) \<Longrightarrow> sim (wbind w f) (wbind v g)"
  unfolding sim_def wbind_def res_bind_def by (fastforce split: sum.splits prod.splits)

lemma sim_catch: "sim w v \<Longrightarrow> (\<And>x. sim (f x) (g x)) \<Longrightarrow> sim (wcatch w f) (wcatch v g)"
  unfolding sim_def wcatch_def res_bind_def by (fastforce split: sum.splits prod.splits)

lemma sim_if: "(b \<Longrightarrow> sim w v) \<Longrightarrow> (\<not> b \<Longrightarrow> sim w' v') \<Longrightarrow> sim (if b then w else w') (if b then v else v')"
  by simp

lemma sim_ldl: "sim (wld (ldl_phys po a)) (wld (ldl_phys (cell_ops C) a))"
  using ldl by (fastforce simp: sim_def wld_def cell_ops_def split: if_splits)

lemma sim_ldq: "sim (wld (ldq_phys po a)) (wld (ldq_phys (cell_ops C) a))"
  using ldq by (fastforce simp: sim_def wld_def cell_ops_def split: if_splits)

lemma sim_stl: "sim (wst (stl_phys_notdirty po a v)) (wst (stl_phys_notdirty (cell_ops C) a v))"
  unfolding sim_def
proof (intro allI impI)
  fix m r c assume "good m" "wst (stl_phys_notdirty (cell_ops C) a v) (word m) = Inr (r, c)"
  then show "\<exists>m'. wst (stl_phys_notdirty po a v) m = Inr (r, m') \<and> good m' \<and> word m' = c"
    using stl [of m a v] by (auto simp: wst_def cell_ops_def split: if_splits)
qed

lemma sim_stq: "sim (wst (stq_phys po a v)) (wst (stq_phys (cell_ops C) a v))"
  unfolding sim_def
proof (intro allI impI)
  fix m r c assume "good m" "wst (stq_phys (cell_ops C) a v) (word m) = Inr (r, c)"
  then show "\<exists>m'. wst (stq_phys po a v) m = Inr (r, m') \<and> good m' \<and> word m' = c"
    using stq [of m a v] by (auto simp: wst_def cell_ops_def split: if_splits)
qed

lemmas sim_rules = sim_ret sim_stop sim_guard sim_assert sim_drop sim_bind sim_catch sim_if sim_ldl sim_ldq sim_stl sim_stq

lemma sim_accessed: "sim (set_accessed po a e) (set_accessed (cell_ops C) a e)"
  unfolding set_accessed_def by (intro sim_rules)

lemma sim_hphys: "sim (get_hphys po env g acc prot) (get_hphys (cell_ops C) env g acc prot)"
  unfolding get_hphys_def nested_pae_def nested_legacy_def nested_check_def nested_fault_def Let_def split_def
  by (intro sim_rules sim_accessed)

lemma sim_table: "sim (table_addr po env a) (table_addr (cell_ops C) env a)"
  unfolding table_addr_def split_def by (intro sim_rules sim_hphys)

text \<open>The same for code that cannot stop early.\<close>

definition rsim :: "('m \<Rightarrow> ('a \<times> 'm) res) \<Rightarrow> (cells \<Rightarrow> ('a \<times> cells) res) \<Rightarrow> bool" where
  "rsim f g \<longleftrightarrow> (\<forall>m v c. good m \<longrightarrow> g (word m) = Inr (v, c) \<longrightarrow> (\<exists>m'. f m = Inr (v, m') \<and> good m' \<and> word m' = c))"

lemma rsim_bind:
  assumes "rsim f g" "\<And>x. rsim (h x) (k x)"
  shows "rsim (\<lambda>m. res_bind (f m) (\<lambda>(x, m). h x m)) (\<lambda>m. res_bind (g m) (\<lambda>(x, m). k x m))"
  unfolding rsim_def
proof (intro allI impI)
  fix m v c assume m: "good m" "res_bind (g (word m)) (\<lambda>(x, m). k x m) = Inr (v, c)"
  then obtain x c' where "g (word m) = Inr (x, c')" "k x c' = Inr (v, c)" by (auto simp: res_bind_Inr_iff)
  with assms m(1) show "\<exists>m'. res_bind (f m) (\<lambda>(x, m). h x m) = Inr (v, m') \<and> good m' \<and> word m' = c"
    unfolding rsim_def by fastforce
qed

lemma rsim_ret: "rsim (\<lambda>m. Inr (x, m)) (\<lambda>m. Inr (x, m))"
  by (auto simp: rsim_def)

lemma rsim_if: "(b \<Longrightarrow> rsim f g) \<Longrightarrow> (\<not> b \<Longrightarrow> rsim f' g') \<Longrightarrow> rsim (\<lambda>m. if b then f m else f' m) (\<lambda>m. if b then g m else g' m)"
  by (cases b) simp_all

lemma rsim_ldl: "rsim (ldl_phys po a) (ldl_phys (cell_ops C) a)"
  using ldl by (fastforce simp: rsim_def cell_ops_def split: if_splits)

lemma rsim_ldq: "rsim (ldq_phys po a) (ldq_phys (cell_ops C) a)"
  using ldq by (fastforce simp: rsim_def cell_ops_def split: if_splits)

lemma rsim_debug: "rsim (x86_cpu_get_phys_page_attrs_debug po addr env) (x86_cpu_get_phys_page_attrs_debug (cell_ops C) addr env)"
  unfolding x86_cpu_get_phys_page_attrs_debug_def debug_pae_def debug_legacy_def Let_def
  by (intro rsim_if rsim_ret rsim_bind rsim_ldl rsim_ldq)

lemma sim_translate: "sim (mmu_translate po env addr acc idx) (mmu_translate (cell_ops C) env addr acc idx)"
  unfolding mmu_translate_def walk_pae_def walk_legacy_def check_protect_def do_mapping_def check_pkru_def Let_def split_def
  by (intro sim_rules sim_accessed sim_table sim_hphys)

end

section \<open>The walk on cells\<close>

named_theorems run \<open>running a walk on cells\<close>

lemma run_ret [run]: "wret x w = Inr (Inr x, w)"
  by (simp add: wret_def)

lemma run_guard [run]: "wbind (wguard b e) f w = (if b then f () w else Inr (Inl e, w))"
  by (simp add: wbind_def wguard_def wret_def wstop_def)

lemma run_assert [run]: "b \<Longrightarrow> wbind (wassert b) f w = f () w"
  by (simp add: wbind_def wassert_def)

lemma run_ldl [run]: "a \<in> C \<Longrightarrow> 4 dvd a \<Longrightarrow> wbind (wld (ldl_phys (cell_ops C) a)) f w = f (w a) w"
  by (simp add: wbind_def wld_def cell_ops_def)

lemma run_ldq [run]: "unat a \<in> C \<Longrightarrow> unat a + 4 \<in> C \<Longrightarrow> 8 dvd unat a \<Longrightarrow> wbind (wld (ldq_phys (cell_ops C) (unat a))) f w = f (entry8 w a) w"
  by (simp add: wbind_def wld_def cell_ops_def entry8_def)

lemma run_stl [run]: "a \<in> C \<Longrightarrow> 4 dvd a \<Longrightarrow> wbind (wst (stl_phys_notdirty (cell_ops C) a v)) f w = f () (w(a := v))"
  by (simp add: wbind_def wst_def cell_ops_def)

lemma run_accessed [run]:
  assumes "unat a \<in> C" "4 dvd unat a" "ucast e = w (unat a)"
  shows "wbind (set_accessed (cell_ops C) a e) f w = f (set_bit 5 e) (mark_accessed a w)"
proof (cases "bit e 5")
  case True
  then have "bit (w (unat a)) 5" by (auto simp: bit_simps simp flip: assms(3))
  then have "mark_accessed a w = w" by (simp add: mark_accessed_def set_bit_id)
  then show ?thesis using True by (simp add: set_accessed_def pg_tst set_bit_id)
next
  case False
  have u: "ucast (set_bit 5 e) = set_bit 5 (w (unat a))" by (simp add: ucast_set_bit assms(3))
  show ?thesis using False assms(1,2)
    by (simp add: set_accessed_def set_bit_or pg_tst wbind_def wst_def cell_ops_def mark_accessed_def u wret_def)
qed

text \<open>The extended 4 MiB entry: bits 13 to 20 give bits 32 to 39 of the address.\<close>

definition pse36 :: "u32 \<Rightarrow> u64" where
  "pse36 pde = ucast pde OR push_bit 19 (ucast pde AND 0x1fe000)"

lemma pse36_bit: "bit (pse36 pde) n \<longleftrightarrow> bit pde n \<or> (32 \<le> n \<and> n < 40 \<and> bit pde (n - 19))"
proof -
  have m: "(0x1fe000 :: u64) = push_bit 13 (mask 8)" by code_simp
  show ?thesis unfolding pse36_def m by (auto simp: bit_simps dest: bit_imp_le_length)
qed

lemma pse36_leaf:
  "pse36 pde AND 0x200000 = 0 \<longleftrightarrow> \<not> bit pde 21" "ucast (pse36 pde) = pde"
  "frame (pse36 pde) AND NOT (0x400000 - 1) = push_bit 22 (drop_bit 22 (ucast pde)) OR push_bit 32 (take_bit 8 (drop_bit 13 (ucast pde)))"
proof -
  have "(0x200000 :: u64) = push_bit 21 1" by code_simp
  then have "tst (pse36 pde) 0x200000 = bit pde 21" by (simp only: tst_push pse36_bit) auto
  then show "pse36 pde AND 0x200000 = 0 \<longleftrightarrow> \<not> bit pde 21" by blast
  show "ucast (pse36 pde) = pde" by (rule bit_word_eqI) (auto simp: bit_simps pse36_bit)
  have m: "(0x400000 - 1 :: u64) = mask 22" by code_simp
  show "frame (pse36 pde) AND NOT (0x400000 - 1) = push_bit 22 (drop_bit 22 (ucast pde)) OR push_bit 32 (take_bit 8 (drop_bit 13 (ucast pde)))"
    unfolding m frame_def by (rule bit_word_eqI) (auto simp: bit_simps pse36_bit dest: bit_imp_le_length)
qed

lemma small_leaf: "frame e AND NOT (0x1000 - 1) = frame e" "frame (ucast pte) = push_bit 12 (drop_bit 12 (ucast pte))" for pte :: u32
proof -
  have m: "(0x1000 - 1 :: u64) = mask 12" by code_simp
  show "frame e AND NOT (0x1000 - 1) = frame e" unfolding m frame_def by (rule bit_word_eqI) (auto simp: bit_simps)
  show "frame (ucast pte) = push_bit 12 (drop_bit 12 (ucast pte))"
    unfolding frame_def by (rule bit_word_eqI) (auto simp: bit_simps dest: bit_imp_le_length)
qed

lemma legacy_run:
  assumes "\<not> bit (hflags2 env) 6" "\<forall>a \<in> set (legacy_entries env va w). unat a \<in> C"
  shows "\<exists>r. walk_legacy (cell_ops C) env (x86_get_a20_mask env) va w = Inr (r, snd (ref_legacy env va w)) \<and>
    tables_ok (fst (ref_legacy env va w)) (snd (ref_legacy env va w)) r"
proof -
  define d where "d = pde_at env va"
  define pde where "pde = w (unat d)"
  define t where "t = pte_at env va pde"
  define pte where "pte = mark_accessed d w (unat t)"
  have al: "4 dvd unat d" "4 dvd unat t" by (simp_all add: d_def t_def entries_aligned)
  have c: "unat d \<in> C" "bit pde 0 \<Longrightarrow> \<not> (bit pde 7 \<and> bit (cr4 env) 4) \<Longrightarrow> unat t \<in> C"
    using assms(2) by (auto simp: legacy_entries_def Let_def d_def pde_def t_def)
  have T: "a20 env ((set_bit 5 (ucast pde) AND NOT 0xfff) + push_bit 2 (take_bit 10 (drop_bit 12 va))) = t"
    unfolding wide_clear t_def pte_at_def ..
  define large where "large \<longleftrightarrow> bit pde 7 \<and> bit (cr4 env) 4"
  have E: "walk_legacy (cell_ops C) env (x86_get_a20_mask env) va w =
    (if \<not> bit pde 0 then Inr (Inl Do_Fault, w)
     else if large then Inr (Inr (pse36 pde, ucast pde OR PG_NX_MASK, d, 0x400000, 0x200000), w)
     else if bit pte 0 then Inr (Inr (ucast pte, (ucast pde OR PG_NX_MASK) AND (ucast pte OR PG_NX_MASK), t, 0x1000, 0), mark_accessed d w)
     else Inr (Inl Do_Fault, mark_accessed d w))"
  proof (cases "bit pde 0 \<and> \<not> large")
    case True
    then have ct: "unat t \<in> C" using c(2) by (simp add: large_def)
    have u: "ucast (ucast pde :: u64) = w (unat d)" by (simp add: ucast_ucast_32 pde_def)
    show ?thesis using True
      unfolding walk_legacy_def table_addr_plain [OF assms(1)] index_fields pde_at_def [symmetric] d_def [symmetric] wbind_wret pg_tst
        page_rsvd_eqs Let_def wide_bit run_ldl [OF c(1) al(1)] run_guard pde_def [symmetric] large_def [symmetric] pse36_def [symmetric]
      by (simp only: if_True if_False simp_thms run_accessed [where w = w and e = "ucast pde", OF c(1) al(1) u] T run_ldl [OF ct al(2)] run_guard run_ret pte_def [symmetric])
  next
    case False
    then show ?thesis
      unfolding walk_legacy_def table_addr_plain [OF assms(1)] index_fields pde_at_def [symmetric] d_def [symmetric] wbind_wret pg_tst
        page_rsvd_eqs Let_def wide_bit run_ldl [OF c(1) al(1)] run_guard pde_def [symmetric] large_def [symmetric] pse36_def [symmetric]
      by (cases "bit pde 0") (simp_all add: run_ret)
  qed
  have R: "ref_legacy env va w =
    (if \<not> bit pde 0 then (Missing, w)
     else if large
     then (if bit pde 21 then Reserved
           else Page \<lparr>pg_base = push_bit 22 (drop_bit 22 (ucast pde)) OR push_bit 32 (take_bit 8 (drop_bit 13 (ucast pde))), pg_size = 0x400000,
                 pg_user = bit pde 2, pg_write = bit pde 1, pg_exec = True, pg_leaf = d\<rparr>, w)
     else if \<not> bit pte 0 then (Missing, mark_accessed d w)
     else (Page \<lparr>pg_base = push_bit 12 (drop_bit 12 (ucast pte)), pg_size = 0x1000, pg_user = (bit pde 2 \<and> bit pte 2),
                pg_write = (bit pde 1 \<and> bit pte 1), pg_exec = True, pg_leaf = t\<rparr>, mark_accessed d w))"
    unfolding ref_legacy_def Let_def by (simp only: d_def [symmetric] pde_def [symmetric] t_def [symmetric] pte_def [symmetric] large_def [symmetric])
  show ?thesis
  proof (cases "bit pde 0 \<and> (large \<or> bit pte 0)")
    case False
    then show ?thesis unfolding E R by (auto simp: tables_ok_def)
  next
    case True
    then show ?thesis unfolding E R
      by (auto simp: tables_ok_def leaf_of_def bit_NX wide_bit bit_or_iff bit_and_iff pse36_leaf pse36_leaf(3) [simplified] small_leaf
        small_leaf [simplified] ucast_ucast_32 pde_def pte_def)
  qed
qed

lemma pae_leaf:
  "tst e (rsvd OR page_rsvd 0x200000) \<longleftrightarrow> tst e rsvd \<or> take_bit 8 (drop_bit 13 e) \<noteq> 0"
  "frame e AND NOT (0x200000 - 1) = push_bit 21 (drop_bit 21 (frame e))" "ucast (entry8 w a) = w (unat a)"
proof -
  show "tst e (rsvd OR page_rsvd 0x200000) \<longleftrightarrow> tst e rsvd \<or> take_bit 8 (drop_bit 13 e) \<noteq> 0"
    unfolding page_rsvd_eqs tst_or using tst_field [of 13 8 e] by auto
  have m: "(0x200000 - 1 :: u64) = mask 21" by code_simp
  show "frame e AND NOT (0x200000 - 1) = push_bit 21 (drop_bit 21 (frame e))"
    unfolding m frame_def by (rule bit_word_eqI) (auto simp: bit_simps)
  show "ucast (entry8 w a) = w (unat a)" unfolding entry8_def by (rule bit_word_eqI) (auto simp: bit_simps)
qed

lemma pae_run:
  assumes "\<not> bit (hflags2 env) 6" "\<forall>a \<in> set (pae_entries env va w). unat a \<in> C \<and> unat a + 4 \<in> C"
  shows "\<exists>r. walk_pae (cell_ops C) env (x86_get_a20_mask env) va (PG_HI_RSVD_MASK OR (if bit (efer env) 11 then 0 else PG_NX_MASK)) w =
      Inr (r, snd (ref_pae env va w)) \<and> tables_ok (fst (ref_pae env va w)) (snd (ref_pae env va w)) r"
proof -
  define p where "p = pdpe_at env va"
  define pdpe where "pdpe = entry8 w p"
  define d where "d = table8_at env 21 va pdpe"
  define pde where "pde = entry8 w d"
  define t where "t = table8_at env 12 va pde"
  define pte where "pte = entry8 (mark_accessed d w) t"
  define rsvd where "rsvd = PG_HI_RSVD_MASK OR (if bit (efer env) 11 then 0 else PG_NX_MASK) OR PG_HI_USER_MASK"
  have al: "8 dvd unat p" "8 dvd unat d" "8 dvd unat t" by (simp_all add: p_def d_def t_def entries_aligned)
  have c: "unat p \<in> C" "unat p + 4 \<in> C" "bit pdpe 0 \<Longrightarrow> unat d \<in> C" "bit pdpe 0 \<Longrightarrow> unat d + 4 \<in> C"
    "bit pdpe 0 \<Longrightarrow> bit pde 0 \<Longrightarrow> \<not> bit pde 7 \<Longrightarrow> unat t \<in> C" "bit pdpe 0 \<Longrightarrow> bit pde 0 \<Longrightarrow> \<not> bit pde 7 \<Longrightarrow> unat t + 4 \<in> C"
    using assms(2) by (auto simp: pae_entries_def Let_def p_def pdpe_def d_def pde_def t_def)
  have hr: "tst e rsvd = high_rsvd env e" for e using rsvd_high [of e env] by (simp add: rsvd_def)
  have T: "table8_at env 12 va (set_bit 5 pde) = t"
    unfolding t_def table8_at_def by (simp add: frame_set_bit)
  have E: "walk_pae (cell_ops C) env (x86_get_a20_mask env) va (PG_HI_RSVD_MASK OR (if bit (efer env) 11 then 0 else PG_NX_MASK)) w =
    (if \<not> bit pdpe 0 then Inr (Inl Do_Fault, w)
     else if high_rsvd env pdpe \<or> bit pdpe 63 then Inr (Inl Do_Fault_Rsvd, w)
     else if \<not> bit pde 0 then Inr (Inl Do_Fault, w)
     else if high_rsvd env pde then Inr (Inl Do_Fault_Rsvd, w)
     else if bit pde 7
     then Inr (Inr (pde, (PG_NX_MASK OR PG_USER_MASK OR PG_RW_MASK) AND (pde XOR PG_NX_MASK), d, 0x200000, rsvd OR page_rsvd 0x200000), w)
     else if \<not> bit pte 0 then Inr (Inl Do_Fault, mark_accessed d w)
     else if high_rsvd env pte then Inr (Inl Do_Fault_Rsvd, mark_accessed d w)
     else Inr (Inr (pte, (PG_NX_MASK OR PG_USER_MASK OR PG_RW_MASK) AND (pde XOR PG_NX_MASK) AND (pte XOR PG_NX_MASK), t, 0x1000, rsvd), mark_accessed d w))"
  proof -
    have u: "ucast pde = w (unat d)" by (simp add: pde_def pae_leaf)
    note open_pae = walk_pae_def table_addr_plain [OF assms(1)] index_fields frame_and pdpe_at_def [symmetric] p_def [symmetric] wbind_wret Let_def
      run_ldq [OF c(1,2) al(1)] pdpe_def [symmetric] run_guard rsvd_def [unfolded or.assoc [symmetric], symmetric] tst_or hr pg_tst
      table8_at_def [symmetric] d_def [symmetric]
    show ?thesis
    proof (cases "bit pdpe 0")
      case False
      then show ?thesis unfolding open_pae by simp
    next
      case True
      note run_d = run_ldq [OF c(3,4) al(2), OF True True] pde_def [symmetric]
      show ?thesis
      proof (cases "bit pde 0 \<and> \<not> bit pde 7")
        case False
        then show ?thesis using True unfolding open_pae run_d by (auto simp: run_ret)
      next
        case tbl: True
        have ct: "unat t \<in> C" "unat t + 4 \<in> C" using c(5,6) True tbl by auto
        show ?thesis using True tbl unfolding open_pae run_d
          by (simp add: run_ret run_accessed [where w = w and e = pde, OF c(3) [OF True] aligned_4 [OF al(2)] u] T run_ldq [OF ct al(3)] pte_def [symmetric]
            page_rsvd_eqs and.assoc)
      qed
    qed
  qed
  have R: "ref_pae env va w =
    (if \<not> bit pdpe 0 then (Missing, w)
     else if high_rsvd env pdpe \<or> bit pdpe 63 then (Reserved, w)
     else if \<not> bit pde 0 then (Missing, w)
     else if high_rsvd env pde then (Reserved, w)
     else if bit pde 7
     then (if take_bit 8 (drop_bit 13 pde) \<noteq> 0 then Reserved
           else Page \<lparr>pg_base = push_bit 21 (drop_bit 21 (frame pde)), pg_size = 0x200000, pg_user = bit pde 2, pg_write = bit pde 1,
             pg_exec = (\<not> bit pde 63), pg_leaf = d\<rparr>, w)
     else if \<not> bit pte 0 then (Missing, mark_accessed d w)
     else if high_rsvd env pte then (Reserved, mark_accessed d w)
     else (Page \<lparr>pg_base = frame pte, pg_size = 0x1000, pg_user = (bit pde 2 \<and> bit pte 2), pg_write = (bit pde 1 \<and> bit pte 1),
             pg_exec = (\<not> bit pde 63 \<and> \<not> bit pte 63), pg_leaf = t\<rparr>, mark_accessed d w))"
    unfolding ref_pae_def Let_def
    by (simp only: p_def [symmetric] pdpe_def [symmetric] d_def [symmetric] pde_def [symmetric] t_def [symmetric] pte_def [symmetric])
  have low: "ucast pde = w (unat d)" "ucast pte = mark_accessed d w (unat t)" by (simp_all add: pde_def pte_def pae_leaf)
  have hz: "e AND rsvd = 0 \<longleftrightarrow> \<not> high_rsvd env e" "e AND (rsvd OR page_rsvd 0x200000) = 0 \<longleftrightarrow> \<not> high_rsvd env e \<and> take_bit 8 (drop_bit 13 e) = 0" for e
    using hr [of e] pae_leaf(1) [of e rsvd] by auto
  have pb: "bit (PG_NX_MASK OR PG_USER_MASK OR PG_RW_MASK) n \<longleftrightarrow> n = 63 \<or> n = 2 \<or> n = 1" for n
    unfolding PG_NX_MASK_def PG_USER_MASK_def PG_RW_MASK_def bit_or_iff bit_push_bit_iff by (auto simp: bit_1_iff)
  show ?thesis unfolding E R
    by (auto simp: tables_ok_def leaf_of_def hz pb bit_NX bit_and_iff bit_xor_iff low pae_leaf(2) [simplified] small_leaf [simplified])
qed

text \<open>The last steps: permissions, accessed and dirty bits, the physical page.\<close>

lemma access_bits: "access_bit MMU_DATA_LOAD = 1" "access_bit MMU_DATA_STORE = 2" "access_bit MMU_INST_FETCH = 4"
  by (simp_all add: access_bit_def)

lemma page_prot_may:
  assumes "bit ptep 2 = pg_user p" "bit ptep 1 = pg_write p" "bit ptep 63 = (\<not> pg_exec p)" "idx = MMU_USER_IDX \<Longrightarrow> pg_user p"
  shows "page_prot env idx ptep = may_bits env idx p True"
  using assms by (cases idx) (simp_all add: page_prot_def may_bits_def may_def pg_tst PAGE_READ_def PAGE_WRITE_def PAGE_EXEC_def Let_def)

lemma may_bits_tst: "tst (may_bits env idx p True) (access_bit acc) = may env idx p acc"
  by (cases acc; cases "may env idx p MMU_DATA_LOAD"; cases "may env idx p MMU_DATA_STORE"; cases "may env idx p MMU_INST_FETCH")
    (simp_all add: may_bits_def access_bits)

lemma may_bits_clean: "may_bits env idx p True AND NOT PAGE_WRITE = may_bits env idx p False"
  by (cases "may env idx p MMU_DATA_LOAD"; cases "may env idx p MMU_DATA_STORE"; cases "may env idx p MMU_INST_FETCH")
    (simp_all add: may_bits_def PAGE_WRITE_def)

lemma page_mask: "(ucast TARGET_PAGE_MASK :: u64) = push_bit 12 (mask 20)"
  unfolding TARGET_PAGE_MASK_def by code_simp

lemma phys_page:
  assumes "sz \<in> {0x1000, 0x200000, 0x400000}" "frame pte AND NOT (sz - 1) = pg_base p" "pg_size p = sz"
  shows "(((pte AND x86_get_a20_mask env) AND PG_ADDRESS_MASK AND NOT (sz - 1)) + ucast (ucast (va AND (sz - 1)) :: u32)) AND ucast TARGET_PAGE_MASK =
    take_bit 32 (page_of env va p)"
proof -
  obtain k where k: "sz - 1 = mask k" "12 \<le> k" "k \<le> 22"
  proof -
    have "(0x1000 - 1 :: u64) = mask 12" "(0x200000 - 1 :: u64) = mask 21" "(0x400000 - 1 :: u64) = mask 22" by code_simp+
    then show thesis using assms(1) that [of 12] that [of 21] that [of 22] by auto
  qed
  define b where "b = (pte AND x86_get_a20_mask env) AND PG_ADDRESS_MASK AND NOT (sz - 1)"
  have b: "b = pg_base p AND x86_get_a20_mask env"
    unfolding b_def assms(2) [symmetric] frame_and [symmetric] by (simp add: ac_simps)
  have o: "ucast (ucast (va AND (sz - 1)) :: u32) = va AND (sz - 1)" unfolding k(1) using k(3) by (intro bit_word_eqI) (auto simp: bit_simps)
  have "b AND (va AND (sz - 1)) = 0" unfolding b_def by (rule bit_word_eqI) (auto simp: bit_simps)
  then have s: "b + (va AND (sz - 1)) = b OR (va AND (sz - 1))" by (rule disjunctive_add_eq_or)
  have m: "(0xfff :: u64) = mask 12" by code_simp
  have n: "\<not> bit b n" if "n < k" for n using that unfolding b_def k(1) by (auto simp: bit_simps)
  have n12: "12 \<le> n" if "bit b n" for n using n [of n] that k(2) by (meson le_trans not_le)
  show ?thesis unfolding b_def [symmetric] o s page_mask page_of_def b [symmetric] assms(3) unfolding k(1) m using n k(2)
    by (intro bit_word_eqI) (auto simp: bit_simps not_less dest: n12)
qed

text \<open>The entry after the access, in both forms.\<close>

definition used_entry :: "access_type \<Rightarrow> u64 \<Rightarrow> u64" where
  "used_entry acc e = (if acc = MMU_DATA_STORE then set_bit 6 (set_bit 5 e) else set_bit 5 e)"

lemma used_entry_props:
  assumes "ucast e = c (unat a)"
  shows "(c(unat a := ucast (used_entry acc e))) = mark_leaf acc a c" "frame (used_entry acc e) = frame e"
    "bit (used_entry acc e) 6 = bit (mark_leaf acc a c (unat a)) 6" "acc = MMU_DATA_STORE \<Longrightarrow> bit (used_entry acc e) 6"
proof -
  show m: "(c(unat a := ucast (used_entry acc e))) = mark_leaf acc a c"
    by (simp add: used_entry_def mark_leaf_def mark_accessed_def mark_dirty_def ucast_set_bit assms)
  show "frame (used_entry acc e) = frame e" by (simp add: used_entry_def frame_set_bit)
  have "mark_leaf acc a c (unat a) = ucast (used_entry acc e)" by (simp flip: m)
  then show "bit (used_entry acc e) 6 = bit (mark_leaf acc a c (unat a)) 6" by (simp add: bit_simps)
  show "bit (used_entry acc e) 6" if "acc = MMU_DATA_STORE" using that by (simp add: used_entry_def bit_simps)
qed

text \<open>The code stores the entry only when a bit is missing.\<close>

lemma used_entry_stale:
  assumes "ucast e = c (unat a)" and "stale = (\<not> bit e 5 \<or> acc = MMU_DATA_STORE \<and> \<not> bit e 6)"
  shows "(if stale then e OR PG_ACCESSED_MASK OR (if acc = MMU_DATA_STORE \<and> \<not> bit e 6 then PG_DIRTY_MASK else 0) else e) = used_entry acc e"
    and "\<not> stale \<Longrightarrow> mark_leaf acc a c = c"
proof -
  show "(if stale then e OR PG_ACCESSED_MASK OR (if acc = MMU_DATA_STORE \<and> \<not> bit e 6 then PG_DIRTY_MASK else 0) else e) = used_entry acc e"
    using assms(2) by (cases "bit e 5"; cases "bit e 6"; cases "acc = MMU_DATA_STORE")
      (simp_all add: used_entry_def set_bit_or(1) or.assoc [symmetric] set_bit_id bit_simps, simp_all add: set_bit_or(2) set_bit_id)
  show "mark_leaf acc a c = c" if "\<not> stale"
  proof -
    have "used_entry acc e = e" using that assms(2) by (auto simp: used_entry_def set_bit_id)
    then show ?thesis using used_entry_props(1) [where e = e and c = c and a = a and acc = acc] assms(1) by simp
  qed
qed

lemma leaf_run:
  assumes "leaf_of p c leaf" "unat (pg_leaf p) \<in> C" "4 dvd unat (pg_leaf p)" "\<not> bit (hflags2 env) 6" "\<not> bit (hflags env) 14"
  shows "wbind (check_protect (cell_ops C) env acc idx leaf) (do_mapping (cell_ops C) env va acc idx) c =
    (if may env idx p acc
     then Inr (Inr \<lparr>tp_vaddr = ucast va AND TARGET_PAGE_MASK, tp_paddr = take_bit 32 (page_of env va p), tp_secure = cpu_get_mem_attrs env,
        tp_prot = may_bits env idx p (bit (mark_leaf acc (pg_leaf p) c (unat (pg_leaf p))) 6), tp_idx = idx, tp_size = pg_size p\<rparr>,
        mark_leaf acc (pg_leaf p) c)
     else Inr (Inl (Do_Fault_Protect 0), c))"
proof -
  obtain pte ptep a sz rsvd where leaf: "leaf = (pte, ptep, a, sz, rsvd)" by (cases leaf)
  have l: "\<not> tst pte rsvd" "a = pg_leaf p" "sz = pg_size p" "sz \<in> {0x1000, 0x200000, 0x400000}" "bit ptep 2 = pg_user p" "bit ptep 1 = pg_write p"
    "bit ptep 63 = pg_exec p" "ucast pte = c (unat a)" "frame pte AND NOT (sz - 1) = pg_base p"
    using assms(1) unfolding leaf leaf_of_def prod.case by blast+
  define q where "q = ptep XOR PG_NX_MASK"
  have q: "bit q 2 = pg_user p" "bit q 1 = pg_write p" "bit q 63 = (\<not> pg_exec p)" using l by (simp_all add: q_def bit_xor_iff bit_NX)
  have pk: "check_pkru env acc idx pte q pr = wret pr" for pr using assms(5) by (simp add: check_pkru_def pg_tst)
  have u: "idx = MMU_USER_IDX \<Longrightarrow> \<not> pg_user p \<Longrightarrow> \<not> may env idx p acc" by (cases acc) (simp_all add: may_def)
  note up = used_entry_props [where e = pte and c = c and a = a and acc = acc, OF l(8)]
  define stale where "stale \<longleftrightarrow> \<not> bit pte 5 \<or> acc = MMU_DATA_STORE \<and> \<not> bit pte 6"
  note us = used_entry_stale [where e = pte and c = c and a = a, OF l(8) stale_def]
  have st: "wbind (if stale then wst (stl_phys_notdirty (cell_ops C) (unat a) (ucast (used_entry acc pte))) else wret ()) f c = f () (mark_leaf acc a c)" for f
    using assms(2,3) l(2) us(2) up(1) by (simp add: run_stl run_ret)
  have chk: "wbind (check_protect (cell_ops C) env acc idx leaf) F c =
    (if may env idx p acc then F (used_entry acc pte, may_bits env idx p (bit (used_entry acc pte) 6), sz) (mark_leaf acc a c)
     else Inr (Inl (Do_Fault_Protect 0), c))" for F :: "u64 \<times> u32 \<times> u64 \<Rightarrow> (cells, 'b) walk"
  proof (cases "idx = MMU_USER_IDX \<and> \<not> pg_user p")
    case True
    then show ?thesis using l(1) q u
      unfolding check_protect_def leaf prod.case wbind_assoc Let_def q_def [symmetric] pk wbind_wret run_guard pg_tst by simp
  next
    case False
    then have pp: "page_prot env idx q = may_bits env idx p True" by (intro page_prot_may q) auto
    have t: "tst (may_bits env idx p True) (access_bit acc) = may env idx p acc" by (rule may_bits_tst)
    have as: "wbind (wassert (acc \<noteq> MMU_DATA_STORE)) f x = f () x" if "\<not> bit (used_entry acc pte) 6" for f :: "unit \<Rightarrow> (cells, 'b) walk" and x
      by (rule run_assert) (use up(4) that in blast)
    show ?thesis using False l(1) q
      unfolding check_protect_def leaf prod.case wbind_assoc Let_def q_def [symmetric] pk wbind_wret run_guard pg_tst stale_def [symmetric] us(1) st pp t
      by (simp add: may_bits_clean wbind_assoc as run_ret)
  qed
  have tb: "tst (may_bits env idx p (bit (mark_leaf acc a c (unat a)) 6)) (access_bit acc)" if "may env idx p acc"
  proof -
    have "acc = MMU_DATA_STORE \<Longrightarrow> bit (mark_leaf acc a c (unat a)) 6" using up(3,4) by simp
    then show ?thesis using that may_bits_tst [of env idx p acc]
      by (cases "bit (mark_leaf acc a c (unat a)) 6"; cases acc) (auto simp: may_bits_def access_bits)
  qed
  have pa: "(((used_entry acc pte AND x86_get_a20_mask env) AND PG_ADDRESS_MASK AND NOT (sz - 1)) + ucast (ucast (va AND (sz - 1)) :: u32)) AND
      ucast TARGET_PAGE_MASK = take_bit 32 (page_of env va p)"
    using l(3,4,9) up(2) by (intro phys_page) auto
  have map: "do_mapping (cell_ops C) env va acc idx (used_entry acc pte, may_bits env idx p (bit (mark_leaf acc a c (unat a)) 6), sz) x =
    Inr (Inr \<lparr>tp_vaddr = ucast va AND TARGET_PAGE_MASK, tp_paddr = take_bit 32 (page_of env va p), tp_secure = cpu_get_mem_attrs env,
        tp_prot = may_bits env idx p (bit (mark_leaf acc a c (unat a)) 6), tp_idx = idx, tp_size = sz\<rparr>, x)" if "may env idx p acc" for x
    using tb [OF that] assms(4) unfolding do_mapping_def prod.case Let_def get_hphys_def pg_tst
    by (simp add: run_assert run_ret pa)
  show ?thesis unfolding chk up(3) using map l(2,3) by simp
qed

lemma ref_leaf:
  assumes "fst (ref_tables env va w) = Page p"
  shows "unat (pg_leaf p) \<in> walk_cells env va w" "4 dvd unat (pg_leaf p)"
proof -
  have "unat (pg_leaf p) \<in> walk_cells env va w \<and> 4 dvd unat (pg_leaf p)"
  proof (cases "bit (cr4 env) 5")
    case True
    then show ?thesis using assms aligned_4 [OF entries_aligned(4)]
      by (auto simp: ref_tables_def ref_pae_def walk_cells_def pae_entries_def Let_def split: if_splits)
  next
    case False
    then show ?thesis using assms entries_aligned(1,2)
      by (auto simp: ref_tables_def ref_legacy_def walk_cells_def legacy_entries_def Let_def split: if_splits)
  qed
  then show "unat (pg_leaf p) \<in> walk_cells env va w" "4 dvd unat (pg_leaf p)" by auto
qed

lemma tables_run:
  assumes "\<not> bit (hflags2 env) 6" "walk_cells env va w \<subseteq> C"
  shows "\<exists>r. (if bit (cr4 env) 5 then walk_pae (cell_ops C) env (x86_get_a20_mask env) va (PG_HI_RSVD_MASK OR (if bit (efer env) 11 then 0 else PG_NX_MASK))
      else walk_legacy (cell_ops C) env (x86_get_a20_mask env) va) w = Inr (r, snd (ref_tables env va w)) \<and>
    tables_ok (fst (ref_tables env va w)) (snd (ref_tables env va w)) r"
proof (cases "bit (cr4 env) 5")
  case True
  then have "\<forall>a \<in> set (pae_entries env va w). unat a \<in> C \<and> unat a + 4 \<in> C" using assms(2) by (auto simp: walk_cells_def)
  from pae_run [OF assms(1) this] show ?thesis using True by (simp add: ref_tables_def)
next
  case False
  then have "\<forall>a \<in> set (legacy_entries env va w). unat a \<in> C" using assms(2) by (auto simp: walk_cells_def)
  from legacy_run [OF assms(1) this] show ?thesis using False by (simp add: ref_tables_def)
qed

text \<open>The outcome of the reference walk in the terms of the code.\<close>

definition code_outcome :: "CPUX86State \<Rightarrow> u64 \<Rightarrow> mmu_idx \<Rightarrow> ref_outcome \<Rightarrow> walk_stop + tlb_page" where
  "code_outcome env va idx t =
     (case t of
        Ref_Page pa prot sz \<Rightarrow> Inr \<lparr>tp_vaddr = ucast va AND TARGET_PAGE_MASK, tp_paddr = take_bit 32 pa, tp_secure = cpu_get_mem_attrs env,
          tp_prot = prot, tp_idx = idx, tp_size = sz\<rparr>
      | Ref_Fault present rsvd \<Rightarrow> Inl (if rsvd then Do_Fault_Rsvd else if present then Do_Fault_Protect 0 else Do_Fault))"

lemma translate_cells:
  assumes "bit (cr0 env) 31" "\<not> bit (hflags2 env) 6" "\<not> bit (hflags env) 14" "walk_cells env va w \<subseteq> C"
  shows "mmu_translate (cell_ops C) env va acc idx w =
    Inr (code_outcome env va idx (fst (ref_translate env va acc idx w)), snd (ref_translate env va acc idx w))"
proof -
  obtain t c where t: "ref_tables env va w = (t, c)" by (cases "ref_tables env va w")
  from tables_run [OF assms(2,4)] obtain r where
    r: "(if bit (cr4 env) 5 then walk_pae (cell_ops C) env (x86_get_a20_mask env) va (PG_HI_RSVD_MASK OR (if bit (efer env) 11 then 0 else PG_NX_MASK))
      else walk_legacy (cell_ops C) env (x86_get_a20_mask env) va) w = Inr (r, c)" "tables_ok t c r" by (auto simp: t)
  have m: "mmu_translate (cell_ops C) env va acc idx w =
    (case r of Inl e \<Rightarrow> Inr (Inl e, c) | Inr leaf \<Rightarrow> wbind (check_protect (cell_ops C) env acc idx leaf) (do_mapping (cell_ops C) env va acc idx) c)"
    using assms(1) r(1) unfolding mmu_translate_def Let_def pg_tst by (simp add: wbind_def [of "if _ then _ else _"])
  show ?thesis
  proof (cases t)
    case Missing
    then show ?thesis using m r(2) by (simp add: tables_ok_def ref_translate_def t code_outcome_def)
  next
    case Reserved
    have "wbind (check_protect (cell_ops C) env acc idx (pte, ptep, a, sz, rsvd)) F c = Inr (Inl Do_Fault_Rsvd, c)" if "tst pte rsvd"
      for pte ptep a sz rsvd and F :: "u64 \<times> u32 \<times> u64 \<Rightarrow> (cells, tlb_page) walk"
      using that unfolding check_protect_def prod.case wbind_assoc run_guard by simp
    then show ?thesis using Reserved m r(2) by (auto simp: tables_ok_def ref_translate_def t code_outcome_def)
  next
    case (Page p)
    then obtain leaf where leaf: "r = Inr leaf" "leaf_of p c leaf" using r(2) by (auto simp: tables_ok_def)
    have pc: "unat (pg_leaf p) \<in> C" "4 dvd unat (pg_leaf p)" using ref_leaf [of env va w p] assms(4) Page t by auto
    show ?thesis unfolding m leaf(1) sum.case leaf_run [OF leaf(2) pc assms(2,3)]
      by (simp add: ref_translate_def t Page code_outcome_def Let_def)
  qed
qed

section \<open>A walk repeated\<close>

text \<open>Memories that differ at most in the accessed and dirty bits of entries of \<open>k\<close> bytes.\<close>

definition alike :: "nat \<Rightarrow> cells \<Rightarrow> cells \<Rightarrow> bool" where
  "alike k w v \<longleftrightarrow> (\<forall>a n. (k dvd a \<and> (n = 5 \<or> n = 6)) \<or> bit (w a) n = bit (v a) n)"

lemma alike_refl [simp]: "alike k w w"
  by (simp add: alike_def)

lemma alike_trans: "alike k w v \<Longrightarrow> alike k v u \<Longrightarrow> alike k w u"
  unfolding alike_def by metis

lemma alike_bit: "alike k w v \<Longrightarrow> n \<noteq> 5 \<Longrightarrow> n \<noteq> 6 \<Longrightarrow> bit (v a) n = bit (w a) n"
  unfolding alike_def by metis

lemma alike_mark: "k dvd unat a \<Longrightarrow> alike k w (mark_accessed a w)" "k dvd unat a \<Longrightarrow> alike k w (mark_dirty a w)"
    "k dvd unat a \<Longrightarrow> alike k w (mark_leaf acc a w)"
  by (auto simp: alike_def mark_leaf_def mark_accessed_def mark_dirty_def bit_simps)

lemma alike_entry8: "alike 8 w v \<Longrightarrow> 8 dvd unat a \<Longrightarrow> n \<noteq> 5 \<Longrightarrow> n \<noteq> 6 \<Longrightarrow> bit (entry8 v a) n = bit (entry8 w a) n"
proof -
  assume a: "alike 8 w v" "8 dvd unat a" "n \<noteq> 5" "n \<noteq> 6"
  have "\<not> 8 dvd unat a + 4" using a(2) by presburger
  then have "v (unat a + 4) = w (unat a + 4)" using a(1) unfolding alike_def by (intro bit_eqI) metis
  then show ?thesis using alike_bit [OF a(1,3,4)] by (simp add: entry8_def bit_simps)
qed

text \<open>Everything but the accessed and dirty bits decides the walk.\<close>

lemma field_cong: "(\<And>n. k \<le> n \<Longrightarrow> n < k + l \<Longrightarrow> bit e n = bit f n) \<Longrightarrow> take_bit l (drop_bit k e) = take_bit l (drop_bit k f)" for e f :: "'a::len word"
  by (rule bit_word_eqI) (auto simp: bit_simps)

lemma drop_cong: "(\<And>n. k \<le> n \<Longrightarrow> bit e n = bit f n) \<Longrightarrow> drop_bit k e = drop_bit k f" for e f :: "'a::len word"
  by (rule bit_word_eqI) (auto simp: bit_simps)

lemma frame_cong: "(\<And>n. n \<noteq> 5 \<Longrightarrow> n \<noteq> 6 \<Longrightarrow> bit e n = bit f n) \<Longrightarrow> frame e = frame f"
  unfolding frame_def by (intro arg_cong [of _ _ "push_bit 12"] field_cong) simp

lemma table8_cong: "(\<And>n. n \<noteq> 5 \<Longrightarrow> n \<noteq> 6 \<Longrightarrow> bit e n = bit f n) \<Longrightarrow> table8_at env sh va e = table8_at env sh va f"
  using frame_cong [of e f] by (simp add: table8_at_def)

lemma high_cong: "(\<And>n. n \<noteq> 5 \<Longrightarrow> n \<noteq> 6 \<Longrightarrow> bit e n = bit f n) \<Longrightarrow> high_rsvd env e = high_rsvd env f"
  using field_cong [of 36 27 e f] by (simp add: high_rsvd_def)

lemma pte_at_cong: "(\<And>n. n \<noteq> 5 \<Longrightarrow> n \<noteq> 6 \<Longrightarrow> bit e n = bit f n) \<Longrightarrow> pte_at env va e = pte_at env va f"
proof -
  assume e: "\<And>n. n \<noteq> 5 \<Longrightarrow> n \<noteq> 6 \<Longrightarrow> bit e n = bit f n"
  have m: "(0xfff :: u32) = mask 12" by code_simp
  have "e AND NOT 0xfff = f AND NOT 0xfff" unfolding m using e by (intro bit_word_eqI) (auto simp: bit_simps)
  then show ?thesis by (simp only: pte_at_def)
qed

text \<open>The directory entry that the walk marks.\<close>

definition ref_dir :: "CPUX86State \<Rightarrow> u64 \<Rightarrow> cells \<Rightarrow> u32 option" where
  "ref_dir env va w =
     (if bit (cr4 env) 5
      then let pdpe = entry8 w (pdpe_at env va); d = table8_at env 21 va pdpe; pde = entry8 w d
           in if bit pdpe 0 \<and> \<not> (high_rsvd env pdpe \<or> bit pdpe 63) \<and> bit pde 0 \<and> \<not> high_rsvd env pde \<and> \<not> bit pde 7 then Some d else None
      else let d = pde_at env va; pde = w (unat d) in if bit pde 0 \<and> \<not> (bit pde 7 \<and> bit (cr4 env) 4) then Some d else None)"

definition mark_dir :: "u32 option \<Rightarrow> cells \<Rightarrow> cells" where
  "mark_dir d w = (case d of None \<Rightarrow> w | Some d \<Rightarrow> mark_accessed d w)"

lemma ref_tables_snd: "snd (ref_tables env va w) = mark_dir (ref_dir env va w) w"
  by (simp add: ref_tables_def ref_pae_def ref_legacy_def ref_dir_def mark_dir_def Let_def)

lemma legacy_alike:
  assumes "alike 4 w v"
  shows "fst (ref_legacy env va v) = fst (ref_legacy env va w)"
proof -
  define d where "d = pde_at env va"
  define e f where "e = w (unat d)" and "f = v (unat d)"
  have ef: "bit f n = bit e n" if "n \<noteq> 5" "n \<noteq> 6" for n using alike_bit [OF assms that] by (simp add: e_def f_def)
  have t: "pte_at env va f = pte_at env va e" by (rule pte_at_cong) (rule ef)
  define e' f' where "e' = mark_accessed d w (unat (pte_at env va e))" and "f' = mark_accessed d v (unat (pte_at env va e))"
  have "alike 4 w (mark_accessed d w)" "alike 4 v (mark_accessed d v)" by (simp_all add: alike_mark d_def entries_aligned)
  then have ef': "bit f' n = bit e' n" if "n \<noteq> 5" "n \<noteq> 6" for n
    using that assms unfolding e'_def f'_def by (metis alike_bit)
  have x: "drop_bit 22 (ucast f :: u64) = drop_bit 22 (ucast e)" "take_bit 8 (drop_bit 13 (ucast f :: u64)) = take_bit 8 (drop_bit 13 (ucast e))"
    "drop_bit 12 (ucast f' :: u64) = drop_bit 12 (ucast e')"
    using ef ef' by (auto intro!: drop_cong field_cong simp: wide_bit)
  show ?thesis unfolding ref_legacy_def Let_def d_def [symmetric] e_def [symmetric] f_def [symmetric] t e'_def [symmetric] f'_def [symmetric] x
    by (simp add: ef ef')
qed

lemma pae_alike:
  assumes "alike 8 w v"
  shows "fst (ref_pae env va v) = fst (ref_pae env va w)" and "bit (cr4 env) 5 \<Longrightarrow> ref_dir env va v = ref_dir env va w"
proof -
  have p: "bit (entry8 v (pdpe_at env va)) n = bit (entry8 w (pdpe_at env va)) n" if "n \<noteq> 5" "n \<noteq> 6" for n
    using alike_entry8 [OF assms entries_aligned(3) that] .
  define d where "d = table8_at env 21 va (entry8 w (pdpe_at env va))"
  have d: "table8_at env 21 va (entry8 v (pdpe_at env va)) = d" unfolding d_def by (rule table8_cong) (rule p)
  have d8: "8 dvd unat d" by (simp add: d_def entries_aligned)
  have e: "bit (entry8 v d) n = bit (entry8 w d) n" if "n \<noteq> 5" "n \<noteq> 6" for n using alike_entry8 [OF assms d8 that] .
  define t where "t = table8_at env 12 va (entry8 w d)"
  have t: "table8_at env 12 va (entry8 v d) = t" unfolding t_def by (rule table8_cong) (rule e)
  have "alike 8 w (mark_accessed d w)" "alike 8 v (mark_accessed d v)" by (simp_all add: alike_mark d8)
  moreover have "8 dvd unat t" by (simp add: t_def entries_aligned)
  ultimately have f: "bit (entry8 (mark_accessed d v) t) n = bit (entry8 (mark_accessed d w) t) n" if "n \<noteq> 5" "n \<noteq> 6" for n
    using that assms by (metis alike_entry8)
  have h: "high_rsvd env (entry8 v (pdpe_at env va)) = high_rsvd env (entry8 w (pdpe_at env va))" "high_rsvd env (entry8 v d) = high_rsvd env (entry8 w d)"
    "high_rsvd env (entry8 (mark_accessed d v) t) = high_rsvd env (entry8 (mark_accessed d w) t)"
    by (rule high_cong, rule p, assumption+) (rule high_cong, rule e, assumption+, rule high_cong, rule f, assumption+)
  have x: "take_bit 8 (drop_bit 13 (entry8 v d)) = take_bit 8 (drop_bit 13 (entry8 w d))" "frame (entry8 v d) = frame (entry8 w d)"
    "frame (entry8 (mark_accessed d v) t) = frame (entry8 (mark_accessed d w) t)"
    using e f by (auto intro!: field_cong frame_cong)
  show "fst (ref_pae env va v) = fst (ref_pae env va w)"
    unfolding ref_pae_def Let_def d t h d_def [symmetric] t_def [symmetric] x by (simp add: p e f)
  show "ref_dir env va v = ref_dir env va w" if "bit (cr4 env) 5"
    using that unfolding ref_dir_def Let_def d h d_def [symmetric] by (simp add: p e)
qed

definition entry_size :: "CPUX86State \<Rightarrow> nat" where
  "entry_size env = (if bit (cr4 env) 5 then 8 else 4)"

lemma tables_alike:
  assumes "alike (entry_size env) w v"
  shows "fst (ref_tables env va v) = fst (ref_tables env va w)" "ref_dir env va v = ref_dir env va w"
proof -
  show "fst (ref_tables env va v) = fst (ref_tables env va w)"
    using assms legacy_alike pae_alike(1) by (auto simp: entry_size_def ref_tables_def split: if_splits)
  show "ref_dir env va v = ref_dir env va w"
  proof (cases "bit (cr4 env) 5")
    case True
    then show ?thesis using assms pae_alike(2) by (simp add: entry_size_def)
  next
    case False
    then have "alike 4 w v" using assms by (simp add: entry_size_def)
    from alike_bit [OF this] False show ?thesis by (simp add: ref_dir_def Let_def)
  qed
qed

lemma marked_leaf: "mark_leaf acc a (mark_leaf acc a w) = mark_leaf acc a w"
  by (simp add: mark_leaf_def mark_accessed_def mark_dirty_def set_bit_id bit_simps fun_eq_iff)

lemma marks_keep: "bit (w a) n \<Longrightarrow> bit (mark_leaf acc t w a) n" "bit (w a) n \<Longrightarrow> bit (mark_dir d w a) n"
  by (auto simp: mark_leaf_def mark_dir_def mark_accessed_def mark_dirty_def bit_simps bit_imp_le_length split: option.splits)

lemma mark_dir_id: "(\<And>d. x = Some d \<Longrightarrow> bit (w (unat d)) 5) \<Longrightarrow> mark_dir x w = w"
  by (auto simp: mark_dir_def mark_accessed_def set_bit_id split: option.splits)

lemma mark_dir_set: "bit (mark_dir (Some d) w (unat d)) 5"
  by (simp add: mark_dir_def mark_accessed_def bit_simps)

lemma ref_dir_aligned: "ref_dir env va w = Some d \<Longrightarrow> entry_size env dvd unat d"
  using entries_aligned by (auto simp: ref_dir_def entry_size_def Let_def split: if_splits)

lemma ref_page_aligned: "fst (ref_tables env va w) = Page p \<Longrightarrow> entry_size env dvd unat (pg_leaf p)"
  using entries_aligned
  by (auto simp: ref_tables_def ref_pae_def ref_legacy_def entry_size_def Let_def split: if_splits)

lemma ref_translate_tables:
  "ref_translate env va acc idx w =
     (let c = mark_dir (ref_dir env va w) w
      in case fst (ref_tables env va w) of
           Missing \<Rightarrow> (Ref_Fault False False, c)
         | Reserved \<Rightarrow> (Ref_Fault True True, c)
         | Page p \<Rightarrow>
             if \<not> may env idx p acc then (Ref_Fault True False, c)
             else let c = mark_leaf acc (pg_leaf p) c
                  in (Ref_Page (page_of env va p) (may_bits env idx p (bit (c (unat (pg_leaf p))) 6)) (pg_size p), c))"
  by (simp add: ref_translate_def Let_def split_def split: tables.split flip: ref_tables_snd)

text \<open>What a walk may change, and that it changes nothing the second time.\<close>

lemma ref_translate_alike: "alike (entry_size env) w (snd (ref_translate env va acc idx w))"
proof -
  have d: "alike (entry_size env) w (mark_dir (ref_dir env va w) w)"
    using ref_dir_aligned [of env va w] alike_mark(1) by (cases "ref_dir env va w") (auto simp: mark_dir_def)
  moreover have "alike (entry_size env) w (mark_leaf acc (pg_leaf p) (mark_dir (ref_dir env va w) w))" if "fst (ref_tables env va w) = Page p" for p
    using alike_trans [OF d alike_mark(3) [OF ref_page_aligned [OF that]]] .
  ultimately show ?thesis unfolding ref_translate_tables by (auto simp: Let_def split: tables.splits)
qed

lemma ref_translate_again: "ref_translate env va acc idx (snd (ref_translate env va acc idx w)) = ref_translate env va acc idx w"
proof -
  define v where "v = snd (ref_translate env va acc idx w)"
  define c where "c = mark_dir (ref_dir env va w) w"
  have "alike (entry_size env) w v" unfolding v_def by (rule ref_translate_alike)
  note al = tables_alike [OF this, of va]
  have v: "v = c \<or> (\<exists>p. fst (ref_tables env va w) = Page p \<and> may env idx p acc \<and> v = mark_leaf acc (pg_leaf p) c)"
    unfolding v_def ref_translate_tables c_def [symmetric] by (auto simp: Let_def split: tables.splits)
  then have "mark_dir (ref_dir env va w) v = v" using mark_dir_set [of _ w] marks_keep(1) by (intro mark_dir_id) (auto simp: c_def)
  then show ?thesis unfolding v_def [symmetric] unfolding ref_translate_tables al c_def [symmetric]
    using v by (auto simp: Let_def v_def ref_translate_tables c_def marked_leaf split: tables.splits)
qed

lemma walk_cells_alike:
  assumes "alike (entry_size env) w v"
  shows "walk_cells env va v = walk_cells env va w"
proof (cases "bit (cr4 env) 5")
  case True
  then have a: "alike 8 w v" using assms by (simp add: entry_size_def)
  have p: "bit (entry8 v (pdpe_at env va)) n = bit (entry8 w (pdpe_at env va)) n" if "n \<noteq> 5" "n \<noteq> 6" for n
    using alike_entry8 [OF a entries_aligned(3) that] .
  have d: "table8_at env 21 va (entry8 v (pdpe_at env va)) = table8_at env 21 va (entry8 w (pdpe_at env va))" by (rule table8_cong) (rule p)
  have e: "bit (entry8 v (table8_at env sh va x)) n = bit (entry8 w (table8_at env sh va x)) n" if "n \<noteq> 5" "n \<noteq> 6" for n sh x
    using alike_entry8 [OF a entries_aligned(4) that] .
  have t: "table8_at env 12 va (entry8 v (table8_at env sh va x)) = table8_at env 12 va (entry8 w (table8_at env sh va x))" for sh x
    by (rule table8_cong) (rule e)
  show ?thesis using True by (simp add: walk_cells_def pae_entries_def Let_def d t p e)
next
  case False
  then have a: "alike 4 w v" using assms by (simp add: entry_size_def)
  have p: "bit (v x) n = bit (w x) n" if "n \<noteq> 5" "n \<noteq> 6" for n x using alike_bit [OF a that] .
  have t: "pte_at env va (v x) = pte_at env va (w x)" for x by (rule pte_at_cong) (rule p)
  show ?thesis using False by (auto simp: walk_cells_def legacy_entries_def Let_def t p)
qed

section \<open>The debugger's walk\<close>

lemma debug_out_page:
  assumes "sz \<in> {0x1000, 0x200000, 0x400000}" "frame e AND NOT (sz - 1) = pg_base p" "pg_size p = sz" "x86_get_a20_mask env = - 1"
  shows "debug_out va e sz = page_of env va p"
proof -
  obtain k where k: "sz - 1 = mask k" "12 \<le> k" "k \<le> 22"
  proof -
    have "(0x1000 - 1 :: u64) = mask 12" "(0x200000 - 1 :: u64) = mask 21" "(0x400000 - 1 :: u64) = mask 22" by code_simp+
    then show thesis using assms(1) that [of 12] that [of 21] that [of 22] by auto
  qed
  have m: "(0xfff :: u64) = mask 12" by code_simp
  have "ucast (ucast ((va AND push_bit 12 (mask 20)) AND mask k) :: u32) = va AND mask k AND NOT (mask 12)"
    using k(3) by (intro bit_word_eqI) (auto simp: bit_simps)
  moreover have "e AND PG_ADDRESS_MASK AND NOT (sz - 1) = pg_base p" using assms(2) by (simp add: frame_and flip: and.assoc)
  ultimately show ?thesis unfolding debug_out_def page_of_def assms(3,4) page_mask k(1) m by simp
qed

lemma load_cell: "a \<in> C \<Longrightarrow> 4 dvd a \<Longrightarrow> ldl_phys (cell_ops C) a w = Inr (w a, w)"
  by (simp add: cell_ops_def)

lemma load_entry8: "unat a \<in> C \<Longrightarrow> unat a + 4 \<in> C \<Longrightarrow> 8 dvd unat a \<Longrightarrow> ldq_phys (cell_ops C) (unat a) w = Inr (entry8 w a, w)"
  by (simp add: cell_ops_def entry8_def)

lemma wide_clear': "ucast pde AND NOT 0xfff = (ucast (pde AND NOT 0xfff) :: u64)" for pde :: u32
proof -
  have m: "(0xfff :: u32) = mask 12" "(0xfff :: u64) = mask 12" by (simp_all add: mask_eq_exp_minus_1)
  show ?thesis unfolding m by (rule bit_word_eqI) (auto simp: bit_simps dest: bit_imp_le_length)
qed

lemma debug_legacy_cells:
  assumes "\<forall>a \<in> set (legacy_entries env va w). unat a \<in> C" "fst (ref_legacy env va w) = Page p" "x86_get_a20_mask env = - 1"
  shows "debug_legacy (cell_ops C) env va w = Inr (Some (page_of env va p), w)"
proof -
  define d where "d = pde_at env va"
  define pde where "pde = w (unat d)"
  define t where "t = pte_at env va pde"
  define large where "large \<longleftrightarrow> bit pde 7 \<and> bit (cr4 env) 4"
  have al: "4 dvd unat d" "4 dvd unat t" by (simp_all add: d_def t_def entries_aligned)
  have c: "unat d \<in> C" "bit pde 0 \<Longrightarrow> \<not> large \<Longrightarrow> unat t \<in> C"
    using assms(1) by (auto simp: legacy_entries_def Let_def d_def pde_def t_def large_def)
  have D: "ucast ((ucast (cr3 env AND NOT 0xfff) + push_bit 2 (take_bit 10 (drop_bit 22 va))) AND x86_get_a20_mask env) = d"
    "ucast ((ucast (pde AND NOT 0xfff) + push_bit 2 (take_bit 10 (drop_bit 12 va))) AND x86_get_a20_mask env) = t"
    by (simp_all add: d_def t_def pde_at_def pte_at_def a20_def)
  have fr: "frame (ucast (mark_accessed d w (unat t))) = frame (ucast (w (unat t)))" "bit (mark_accessed d w (unat t)) 0 = bit (w (unat t)) 0"
    by (auto simp: mark_accessed_def ucast_set_bit frame_set_bit bit_simps)
  note open_debug = debug_legacy_def Let_def index_fields D(1) load_cell [OF c(1) al(1)] res_bind_simps prod.case pde_def [symmetric] pg_tst wide_bit
    large_def [symmetric] wide_clear' D(2) pse36_def [symmetric]
  note open_ref = ref_legacy_def Let_def d_def [symmetric] pde_def [symmetric] large_def [symmetric] t_def [symmetric]
  have b: "bit pde 0" using assms(2) unfolding open_ref by (auto split: if_splits)
  show ?thesis
  proof (cases large)
    case True
    then have "debug_out va (pse36 pde AND - 1) 0x400000 = page_of env va p"
      using assms(2,3) b pse36_leaf(3) [of pde] unfolding open_ref by (intro debug_out_page) (auto split: if_splits)
    then show ?thesis using True b unfolding open_debug by (simp add: assms(3))
  next
    case False
    then have pt: "bit (w (unat t)) 0" "debug_out va (ucast (w (unat t)) AND - 1) 0x1000 = page_of env va p"
      using assms(2,3) b fr small_leaf(1) [of "ucast (w (unat t))"] small_leaf(2) [of "mark_accessed d w (unat t)"] unfolding open_ref
      by (auto intro!: debug_out_page simp: small_leaf split: if_splits)
    then show ?thesis using False b unfolding open_debug load_cell [OF c(2) [OF b False] al(2)]
      by (simp add: assms(3))
  qed
qed

lemma debug_pae_cells:
  assumes "\<forall>a \<in> set (pae_entries env va w). unat a \<in> C \<and> unat a + 4 \<in> C" "fst (ref_pae env va w) = Page p" "x86_get_a20_mask env = - 1"
  shows "debug_pae (cell_ops C) env va w = Inr (Some (page_of env va p), w)"
proof -
  define l where "l = pdpe_at env va"
  define pdpe where "pdpe = entry8 w l"
  define d where "d = table8_at env 21 va pdpe"
  define pde where "pde = entry8 w d"
  define t where "t = table8_at env 12 va pde"
  have al: "8 dvd unat l" "8 dvd unat d" "8 dvd unat t" by (simp_all add: l_def d_def t_def entries_aligned)
  note open_ref = ref_pae_def Let_def l_def [symmetric] pdpe_def [symmetric] d_def [symmetric] pde_def [symmetric] t_def [symmetric]
  have b: "bit pdpe 0" "bit pde 0" using assms(2) unfolding open_ref by (auto split: if_splits)
  have c: "unat l \<in> C" "unat l + 4 \<in> C" "unat d \<in> C" "unat d + 4 \<in> C" "\<not> bit pde 7 \<Longrightarrow> unat t \<in> C" "\<not> bit pde 7 \<Longrightarrow> unat t + 4 \<in> C"
    using assms(1) b by (auto simp: pae_entries_def Let_def l_def pdpe_def d_def pde_def t_def)
  have D: "ucast ((ucast (cr3 env AND NOT 0x1f) + push_bit 3 (take_bit 2 (drop_bit 30 va))) AND x86_get_a20_mask env) = l"
    "ucast ((frame pdpe + push_bit 3 (take_bit 9 (drop_bit 21 va))) AND x86_get_a20_mask env) = d"
    "ucast ((frame pde + push_bit 3 (take_bit 9 (drop_bit 12 va))) AND x86_get_a20_mask env) = t"
    by (simp_all add: l_def d_def t_def pdpe_at_def table8_at_def a20_def)
  have "alike 8 w (mark_accessed d w)" by (simp add: alike_mark al)
  from alike_entry8 [OF this al(3)] have fr: "frame (entry8 (mark_accessed d w) t) = frame (entry8 w t)" "bit (entry8 (mark_accessed d w) t) 0 = bit (entry8 w t) 0"
    by (auto intro!: frame_cong)
  note open_debug = debug_pae_def Let_def index_fields frame_and D(1) load_entry8 [OF c(1,2) al(1)] res_bind_simps prod.case pdpe_def [symmetric] pg_tst D(2)
    load_entry8 [OF c(3,4) al(2)] pde_def [symmetric] D(3)
  show ?thesis
  proof (cases "bit pde 7")
    case True
    then have "debug_out va pde 0x200000 = page_of env va p"
      using assms(2,3) b pae_leaf(2) [of pde] unfolding open_ref by (intro debug_out_page) (auto split: if_splits)
    then show ?thesis using True b unfolding open_debug by simp
  next
    case False
    then have pt: "bit (entry8 w t) 0" "debug_out va (entry8 w t) 0x1000 = page_of env va p"
      using assms(2,3) b fr small_leaf(1) [of "entry8 w t"] unfolding open_ref by (auto intro!: debug_out_page split: if_splits)
    then show ?thesis using False b unfolding open_debug load_entry8 [OF c(5,6) [OF False] al(3)] by simp
  qed
qed

lemma debug_cells:
  assumes "bit (cr0 env) 31" "walk_cells env va w \<subseteq> C" "fst (ref_tables env va w) = Page p" "x86_get_a20_mask env = - 1"
  shows "x86_cpu_get_phys_page_attrs_debug (cell_ops C) va env w = Inr (Some (page_of env va p), w)"
proof (cases "bit (cr4 env) 5")
  case True
  then have "\<forall>a \<in> set (pae_entries env va w). unat a \<in> C \<and> unat a + 4 \<in> C" using assms(2) by (auto simp: walk_cells_def)
  from debug_pae_cells [OF this _ assms(4)] show ?thesis
    using True assms(1,3) unfolding x86_cpu_get_phys_page_attrs_debug_def pg_tst by (simp add: ref_tables_def)
next
  case False
  then have "\<forall>a \<in> set (legacy_entries env va w). unat a \<in> C" using assms(2) by (auto simp: walk_cells_def)
  from debug_legacy_cells [OF this _ assms(4)] show ?thesis
    using False assms(1,3) unfolding x86_cpu_get_phys_page_attrs_debug_def pg_tst by (simp add: ref_tables_def)
qed

end
