(* ===== verification/Guest_Translation.thy ===== *)
theory Guest_Translation
  imports Paging
begin

text \<open>
  Page tables in guest RAM. The interface \<open>page_memory\<close> of the walks is interpreted on the loads and stores of the machine's address map, and the theorems on
  translation are stated of the walk on this memory.
\<close>

section \<open>Words of guest RAM\<close>

text \<open>Eight aligned bytes of one writable RAM region, outside the overlays of the first megabyte.\<close>

definition block_ram :: "'d mem_state \<Rightarrow> nat \<Rightarrow> bool" where
  "block_ram st a \<longleftrightarrow>
     (\<exists>p. \<forall>k < 8. memory_region_look_up (mrs st) (mem_segs st) (8 * (a div 8) + k) = Inr p) \<and> all_ram True (8 * (a div 8)) 8 st"

definition table_memory :: "nat set \<Rightarrow> 'd mem_state \<Rightarrow> bool" where
  "table_memory C st \<longleftrightarrow> map_inv st \<and> no_alias st \<and> (\<forall>a \<in> C. block_ram st a)"

definition ram_bytes :: "'d mem_state \<Rightarrow> nat \<Rightarrow> nat \<Rightarrow> u8 list" where
  "ram_bytes st a n = map (\<lambda>k. the (guest_byte st (a + k))) [0..<n]"

definition ram_word :: "'d mem_state \<Rightarrow> cells" where
  "ram_word st a = (if 4 dvd a then ucast (of_le (ram_bytes st a 4)) else 0)"

lemma block_ram_same: "same_map st st' \<Longrightarrow> block_ram st' a = block_ram st a"
  unfolding block_ram_def all_ram_same by (simp add: same_map_def)

lemma route_block:
  assumes "map_inv st" "block_ram st a" "a mod 8 + n \<le> 8" "0 < n"
  shows "\<exists>p b x. mem_route smm a n st = Inr (p, x, n) \<and> ram_mr (mrs st p) b \<and> \<not> readonly (mrs st p) \<and> x + n \<le> max_length b \<and>
    (\<forall>k < n. guest_ptr st (a + k) = Some (host b + x + k))"
proof -
  have split: "8 * (a div 8) + a mod 8 = a" by simp
  obtain q where q: "\<And>k. k < 8 \<Longrightarrow> memory_region_look_up (mrs st) (mem_segs st) (8 * (a div 8) + k) = Inr q"
    and r: "all_ram True (8 * (a div 8)) 8 st" using assms(2) by (auto simp: block_ram_def)
  have a: "plain a" "guest_ptr st a \<noteq> None" "writable st a" using r split by (auto simp: all_ram_def)
  then obtain h where h: "guest_ptr st a = Some h" by auto
  from route_plain [OF assms(1) a(1) h assms(4), of smm] obtain p b x l where
    p: "mem_route smm a n st = Inr (p, x, l)" "ram_mr (mrs st p) b" "x + l \<le> max_length b" "l \<le> n" "readonly (mrs st p) = (\<not> writable st a)"
      "\<forall>k < l. guest_ptr st (a + k) = Some (host b + x + k)" by auto
  have nb: "isa_bios_access a n st = Inr None" "\<not> is_smram_access a"
    using a(1) by (auto simp: plain_def isa_bios_access_def is_isa_bios_access_def is_smram_access_def)
  have la: "memory_region_look_up (mrs st) (mem_segs st) a = Inr q" using q [of "a mod 8"] split by simp
  have "memory_region_look_up (mrs st) (mem_segs st) (8 * (a div 8) + (a mod 8 + n - 1)) = Inr q" using assms(3,4) by (intro q) auto
  moreover have "8 * (a div 8) + (a mod 8 + n - 1) = a + n - 1" using split assms(4) by linarith
  ultimately have "in_mr (mrs st q) a" "in_mr (mrs st q) (a + n - 1)" using la look_up_sound by auto
  then have "n \<le> mr_size (mrs st q) - (a - mr_offset (mrs st q))" using assms(4) by (auto simp: in_mr_def mr_end_def)
  moreover have "p = q" "l = min (mr_size (mrs st p) - (a - mr_offset (mrs st p))) n"
    using p(1,2) nb la by (auto simp: mem_route_def ram_mr_def memory_region_is_ram_def Let_def res_bind_def split: sum.splits if_splits option.splits)
  ultimately have "l = n" by simp
  then show ?thesis using p a(3) by auto
qed

lemma load_block:
  assumes "table_memory C st" "a \<in> C" "a mod 8 + 2 ^ lg \<le> 8" "as \<noteq> AS_Io"
  shows "\<exists>st'. ld_internal lg as a DEVICE_NATIVE_ENDIAN st = Inr (of_le (ram_bytes st a (2 ^ lg)), st') \<and> table_memory C st' \<and> ram_word st' = ram_word st"
proof -
  have inv: "map_inv st" "block_ram st a" using assms(1,2) by (auto simp: table_memory_def)
  from route_block [OF inv assms(3)] obtain p b x where p: "mem_route (smm_of as) a (2 ^ lg) st = Inr (p, x, 2 ^ lg)" "ram_mr (mrs st p) b" "x + 2 ^ lg \<le> max_length b"
    "\<forall>k < 2 ^ lg. guest_ptr st (a + k) = Some (host b + x + k)" by fastforce
  have "x < max_length b" using p(3) by (meson less_le_trans less_add_same_cancel1 zero_less_numeral zero_less_power)
  from ld_ram [OF inv(1) assms(4) p(1,2) this, of DEVICE_NATIVE_ENDIAN] obtain st' where
    st': "ld_internal lg as a DEVICE_NATIVE_ENDIAN st = Inr (ld_p (2 ^ lg) DEVICE_NATIVE_ENDIAN (hostmem st) (host b + x), st')" "map_inv st'" "same_map st st'" "hostmem st' = hostmem st" by auto
  have "ld_p (2 ^ lg) DEVICE_NATIVE_ENDIAN (hostmem st) (host b + x) = of_le (ram_bytes st a (2 ^ lg))"
    using p(4) by (auto simp: ld_p_def host_bytes_def ram_bytes_def guest_byte_def intro!: arg_cong [of _ _ of_le])
  moreover have "table_memory C st'" using assms(1) st'(2) no_alias_same [OF st'(3)] block_ram_same [OF st'(3)] by (simp add: table_memory_def)
  moreover have "ram_word st' = ram_word st" by (simp add: ram_word_def ram_bytes_def fun_eq_iff guest_byte_same [OF st'(3,4)])
  ultimately show ?thesis using st'(1) by simp
qed

lemma store_block:
  assumes "table_memory C st" "a \<in> C" "a mod 8 + 2 ^ lg \<le> 8" "as \<noteq> AS_Io"
  shows "\<exists>st'. st_internal dirty lg as a v DEVICE_NATIVE_ENDIAN st = Inr st' \<and> table_memory C st' \<and>
    (\<forall>x. guest_byte st' x = (if a \<le> x \<and> x < a + 2 ^ lg then Some (le_bytes (2 ^ lg) v ! (x - a)) else guest_byte st x))"
proof -
  have inv: "map_inv st" "block_ram st a" "no_alias st" using assms(1,2) by (auto simp: table_memory_def)
  from route_block [OF inv(1,2) assms(3)] obtain p b x where p: "mem_route (smm_of as) a (2 ^ lg) st = Inr (p, x, 2 ^ lg)" "ram_mr (mrs st p) b"
    "\<not> readonly (mrs st p)" "x + 2 ^ lg \<le> max_length b" "\<forall>k < 2 ^ lg. guest_ptr st (a + k) = Some (host b + x + k)" by fastforce
  have "x < max_length b" using p(4) by (meson less_le_trans less_add_same_cancel1 zero_less_numeral zero_less_power)
  from st_ram [OF inv(1) assms(4) p(1-3) this, of dirty v DEVICE_NATIVE_ENDIAN] obtain st' where
    st': "st_internal dirty lg as a v DEVICE_NATIVE_ENDIAN st = Inr st'" "map_inv st'" "same_map st st'"
      "hostmem st' = host_put (hostmem st) (host b + x) (le_bytes (2 ^ lg) v)" by (auto simp: st_p_def)
  have "guest_byte st' y = guest_byte (st\<lparr>hostmem := host_put (hostmem st) (host b + x) (le_bytes (2 ^ lg) v)\<rparr>) y" for y
    using st'(3,4) guest_ptr_same [of st st' y] guest_ptr_same [of st "st\<lparr>hostmem := host_put (hostmem st) (host b + x) (le_bytes (2 ^ lg) v)\<rparr>" y]
    by (simp add: guest_byte_def)
  moreover have "table_memory C st'" using assms(1) st'(2) no_alias_same [OF st'(3)] block_ram_same [OF st'(3)] by (simp add: table_memory_def)
  ultimately show ?thesis using st'(1) guest_byte_put [OF inv(3), of "le_bytes (2 ^ lg) v" a "host b + x"] p(5) by (auto simp: add.assoc)
qed

lemma of_le_8: "of_le (ram_bytes st a 8) = ucast (ram_word st a) OR push_bit 32 (ucast (ram_word st (a + 4)))" if "8 dvd a"
proof -
  have d: "4 dvd a" "4 dvd a + 4" using that by presburger+
  have r: "ram_bytes st a 8 = ram_bytes st a 4 @ ram_bytes st (a + 4) 4"
    by (simp add: ram_bytes_def upt_rec [of _ "Suc _"] eval_nat_numeral add.assoc)
  have app: "of_le (xs @ ys) = of_le xs OR push_bit (8 * length xs) (of_le ys)" for xs ys :: "u8 list"
    by (induction xs) (simp_all add: push_bit_or or.assoc push_bit_push_bit add.commute)
  have w: "ucast (ucast (of_le (ram_bytes st x 4)) :: u32) = of_le (ram_bytes st x 4)" for x
    by (rule bit_word_eqI) (auto simp: bit_simps bit_of_le ram_bytes_def)
  show ?thesis using d w by (simp add: r app ram_word_def) (simp add: ram_bytes_def)
qed

text \<open>A store of one or two cells, said of the words.\<close>

lemma ram_word_store:
  assumes "4 dvd a" "4 dvd n" "\<And>x. guest_byte st' x = (if a \<le> x \<and> x < a + n then Some (le_bytes n v ! (x - a)) else guest_byte st x)"
  shows "ram_word st' x = (if 4 dvd x \<and> a \<le> x \<and> x < a + n then ucast (drop_bit (8 * (x - a)) v) else ram_word st x)"
proof (cases "4 dvd x \<and> a \<le> x \<and> x < a + n")
  case True
  define i where "i = x - a"
  have i: "x = a + i" "i + 4 \<le> n" using True assms(1,2) unfolding i_def by presburger+
  have "ram_bytes st' x 4 = le_bytes 4 (drop_bit (8 * i) v)"
    unfolding ram_bytes_def using i assms(3) by (intro nth_equalityI) (auto simp: add.assoc algebra_simps)
  moreover have "ucast (of_le (le_bytes 4 (drop_bit (8 * i) v))) = (ucast (drop_bit (8 * i) v) :: u32)"
    unfolding of_le_le_bytes by (rule bit_word_eqI) (simp add: bit_simps)
  ultimately show ?thesis using True i by (simp add: ram_word_def)
next
  case False
  show ?thesis
  proof (cases "4 dvd x")
    case True
    have "\<not> (a \<le> x + k \<and> x + k < a + n)" if "k < 4" for k using that True False assms(1,2) by presburger
    then have "guest_byte st' (x + k) = guest_byte st (x + k)" if "k < 4" for k using assms(3) [of "x + k"] that by auto
    then have "ram_bytes st' x 4 = ram_bytes st x 4" by (simp add: ram_bytes_def)
    then show ?thesis using False by (auto simp: ram_word_def)
  qed (use False in \<open>auto simp: ram_word_def\<close>)
qed

lemma attrs_memory: "cpu_addressspace b \<noteq> AS_Io"
  by (simp add: cpu_addressspace_def)

interpretation ram_tables: page_memory "x86_phys_ops env" "table_memory C" ram_word C for env :: CPUX86State and C
proof
  fix m :: "'d mem_state" and a :: nat and v :: u32 and q :: u64
  assume m: "table_memory C m" "a \<in> C"
  define as where "as = cpu_addressspace (cpu_get_mem_attrs env)"
  have as: "as \<noteq> AS_Io" by (simp add: as_def attrs_memory)
  show "\<exists>m'. ldl_phys (x86_phys_ops env) a m = Inr (ram_word m a, m') \<and> table_memory C m' \<and> ram_word m' = ram_word m" if "4 dvd a"
  proof -
    have "a mod 8 + 2 ^ 2 \<le> 8" using that by simp presburger
    from load_block [OF m this as] obtain m' where "ld_internal 2 as a DEVICE_NATIVE_ENDIAN m = Inr (of_le (ram_bytes m a (2 ^ 2)), m')" "table_memory C m'" "ram_word m' = ram_word m"
      by auto
    then show ?thesis using that
      by (simp add: x86_phys_ops_def x86_ldl_phys_def address_space_ldl_def address_space_ldl_internal_def ret32_def ram_word_def flip: as_def)
        (rule bit_word_eqI, simp add: bit_simps)
  qed
  show "\<exists>m'. ldq_phys (x86_phys_ops env) a m = Inr (ucast (ram_word m a) OR push_bit 32 (ucast (ram_word m (a + 4))), m') \<and>
      table_memory C m' \<and> ram_word m' = ram_word m" if "8 dvd a"
  proof -
    have "a mod 8 + 2 ^ 3 \<le> 8" using that by simp
    from load_block [OF m this as] obtain m' where "ld_internal 3 as a DEVICE_NATIVE_ENDIAN m = Inr (of_le (ram_bytes m a (2 ^ 3)), m')" "table_memory C m'" "ram_word m' = ram_word m"
      by auto
    then show ?thesis using of_le_8 [OF that, of m]
      by (simp add: x86_phys_ops_def x86_ldq_phys_def address_space_ldq_def address_space_ldq_internal_def flip: as_def)
  qed
  show "\<exists>m'. stl_phys_notdirty (x86_phys_ops env) a v m = Inr m' \<and> table_memory C m' \<and> ram_word m' = (ram_word m)(a := v)" if "4 dvd a"
  proof -
    have "a mod 8 + 2 ^ 2 \<le> 8" using that by simp presburger
    from store_block [OF m this as, of False "ucast v"] obtain m' where "st_internal False 2 as a (ucast v) DEVICE_NATIVE_ENDIAN m = Inr m'" "table_memory C m'"
      "\<And>x. guest_byte m' x = (if a \<le> x \<and> x < a + 4 then Some (le_bytes 4 (ucast v) ! (x - a)) else guest_byte m x)" by auto
    moreover from this have "ram_word m' = (ram_word m)(a := v)"
      using that by (auto simp: fun_eq_iff ram_word_store [OF that, of 4 m' "ucast v" m] ucast_ucast_32) presburger
    ultimately show ?thesis by (simp add: x86_phys_ops_def x86_stl_phys_notdirty_def address_space_stl_notdirty_def flip: as_def)
  qed
  show "\<exists>m'. stq_phys (x86_phys_ops env) a q m = Inr m' \<and> table_memory C m' \<and> ram_word m' = (ram_word m)(a := ucast q, a + 4 := ucast (drop_bit 32 q))"
    if "8 dvd a"
  proof -
    have "a mod 8 + 2 ^ 3 \<le> 8" "4 dvd a" using that by (simp, presburger)
    from store_block [OF m this(1) as, of True q] obtain m' where "st_internal True 3 as a q DEVICE_NATIVE_ENDIAN m = Inr m'" "table_memory C m'"
      "\<And>x. guest_byte m' x = (if a \<le> x \<and> x < a + 8 then Some (le_bytes 8 q ! (x - a)) else guest_byte m x)" by auto
    moreover from this have "ram_word m' = (ram_word m)(a := ucast q, a + 4 := ucast (drop_bit 32 q))"
      using \<open>4 dvd a\<close> by (auto simp: fun_eq_iff ram_word_store [OF \<open>4 dvd a\<close>, of 8 m' q m]) presburger
    ultimately show ?thesis
      by (simp add: x86_phys_ops_def x86_stq_phys_def address_space_stq_def address_space_stq_internal_def flip: as_def)
  qed
qed

section \<open>A small machine\<close>

text \<open>The RAM of the small map with a page directory at \<open>0x1000\<close> and a page table at \<open>0x2000\<close>: the page \<open>0x5000\<close> is mapped to \<open>0x7000\<close> for the kernel.\<close>

definition tables_ram :: "unit mem_state" where
  "tables_ram = demo_ram\<lparr>hostmem := (\<lambda>_. 0)(0x2000 := 0x07, 0x2001 := 0x20, 0x3014 := 0x03, 0x3015 := 0x70)\<rparr>"

definition tables_env :: CPUX86State where
  "tables_env = env0\<lparr>cr0 := 0x80010001, cr3 := 0x1000\<rparr>"

lemma tables_same: "same_map demo_ram tables_ram"
  by (simp add: tables_ram_def)

lemma tables_reach: "map_reach tables_ram"
proof -
  have "tables_ram = demo_ram\<lparr>hostmem := hostmem tables_ram, dirtied := dirtied demo_ram, dev := dev demo_ram\<rparr>" by (simp add: tables_ram_def)
  then show ?thesis using map_reach.Step [OF demo_ram_reach map_step.Memory] by metis
qed

lemma demo_ptr: "guest_ptr demo_ram a = (if a < SMRAM_C_BASE then Some (0x1000 + a) else None)"
  unfolding guest_ptr_def demo_look_up using demo_region by (simp add: demo_def demo_mrs_def blank_mr_def)

lemma tables_ptr: "guest_ptr tables_ram a = (if a < SMRAM_C_BASE then Some (0x1000 + a) else None)"
  unfolding guest_ptr_same [OF tables_same] by (rule demo_ptr)

lemma tables_no_alias: "no_alias tables_ram"
  unfolding no_alias_def tables_ptr by (auto split: if_splits)

lemma tables_block: "a < SMRAM_C_BASE \<Longrightarrow> block_ram tables_ram a"
proof -
  assume "a < SMRAM_C_BASE"
  then have a: "8 * (a div 8) + k < SMRAM_C_BASE" if "k < 8" for k using that by presburger
  have w: "writable tables_ram x" if "x < SMRAM_C_BASE" for x
    unfolding writable_same [OF tables_same] unfolding writable_def demo_look_up using that demo_region(2) by simp
  have "memory_region_look_up (mrs tables_ram) (mem_segs tables_ram) x = Inr (Ram_Mr 0)" if "x < SMRAM_C_BASE" for x
    using demo_look_up [of x] that by (simp add: tables_ram_def)
  then have "\<exists>p. \<forall>k < 8. memory_region_look_up (mrs tables_ram) (mem_segs tables_ram) (8 * (a div 8) + k) = Inr p" using a by blast
  moreover have "all_ram True (8 * (a div 8)) 8 tables_ram"
    unfolding all_ram_def using a w by (auto simp: tables_ptr plain_def) (metis add_less_cancel_left le_add_diff_inverse)+
  ultimately show ?thesis by (simp add: block_ram_def)
qed

lemma tables_byte: "a < SMRAM_C_BASE \<Longrightarrow> guest_byte tables_ram a = Some (hostmem tables_ram (0x1000 + a))"
  by (simp add: guest_byte_def tables_ptr)

lemma tables_words: "ram_word tables_ram 0x1000 = 0x2007" "ram_word tables_ram 0x2014 = 0x7003"
proof -
  have u: "[0..<4] = [0, 1, 2, 3 :: nat]" by code_simp
  show "ram_word tables_ram 0x1000 = 0x2007" "ram_word tables_ram 0x2014 = 0x7003"
    unfolding ram_word_def ram_bytes_def u by (simp_all add: tables_byte) (simp_all add: tables_ram_def)
qed

lemma tables_entries: "pde_at tables_env 0x5678 = 0x1000" "pte_at tables_env 0x5678 0x2007 = 0x2014"
  unfolding tables_env_def env0_def by code_simp+

lemma tables_conf:
  "\<not> bit (cr4 tables_env) 5" "\<not> bit (cr4 tables_env) 4" "bit (cr0 tables_env) 31" "\<not> bit (hflags2 tables_env) 6" "\<not> bit (hflags tables_env) 14"
  "\<not> bit (intercept_exceptions tables_env) 14" "x86_get_a20_mask tables_env = - 1" "cpu_get_mem_attrs tables_env = False"
  unfolding tables_env_def env0_def by code_simp+

lemma tables_bits:
  "bit (0x2007 :: u32) 0" "\<not> bit (0x2007 :: u32) 7" "bit (0x7003 :: u32) 0" "bit (0x2007 :: u32) 1" "bit (0x7003 :: u32) 1" "bit (0x2007 :: u32) 2"
  "\<not> bit (0x7003 :: u32) 2"
  by code_simp+

lemma tables_unat: "unat (0x1000 :: u32) = 0x1000" "unat (0x2014 :: u32) = 0x2014"
  by simp_all

lemma tables_cells: "\<forall>a \<in> walk_cells tables_env 0x5678 (ram_word tables_ram). block_ram tables_ram a"
proof -
  have "walk_cells tables_env 0x5678 (ram_word tables_ram) = {0x1000, 0x2014}"
    by (simp add: walk_cells_def tables_conf legacy_entries_def tables_entries tables_unat tables_words tables_bits Let_def)
  then show ?thesis by (simp add: tables_block)
qed

section \<open>Properties\<close>

text \<open>The error code of a page fault, flag by flag.\<close>

definition pf_error :: "bool \<Rightarrow> bool \<Rightarrow> bool \<Rightarrow> bool \<Rightarrow> bool \<Rightarrow> u32" where
  "pf_error present wr user rsvd ifetch =
     of_bool present OR push_bit 1 (of_bool wr) OR push_bit 2 (of_bool user) OR push_bit 3 (of_bool rsvd) OR push_bit 4 (of_bool ifetch)"

lemma fault_code_bits:
  "fault_code env acc idx (if rsvd then Do_Fault_Rsvd else if present then Do_Fault_Protect 0 else Do_Fault) =
     pf_error (present \<or> rsvd) (acc = MMU_DATA_STORE) (idx = MMU_USER_IDX) rsvd
       (acc = MMU_INST_FETCH \<and> ((bit (efer env) 11 \<and> bit (cr4 env) 5) \<or> bit (cr4 env) 20))"
  unfolding fault_code_def pg_tst Let_def
  by (cases "idx = MMU_USER_IDX"; cases "acc = MMU_DATA_STORE")
    (simp_all add: pf_error_def PG_ERROR_P_MASK_def PG_ERROR_RSVD_MASK_def PG_ERROR_W_BIT_def PG_ERROR_U_MASK_def PG_ERROR_I_D_MASK_def)

lemma ref_faults: "fst (ref_translate env va acc idx w) = Ref_Fault present rsvd \<Longrightarrow> rsvd \<longrightarrow> present"
  by (auto simp: ref_translate_def Let_def split_def split: tables.splits if_splits)

lemma table_memoryI:
  "map_reach st \<Longrightarrow> no_alias st \<Longrightarrow> (\<And>a. a \<in> C \<Longrightarrow> block_ram st a) \<Longrightarrow> table_memory C st"
  by (simp add: table_memory_def reach_inv)

text \<open>The walk on the machine's memory is the walk on its words.\<close>

lemma machine_walk:
  assumes "bit (cr0 env) 31" "\<not> bit (hflags2 env) 6" "\<not> bit (hflags env) 14" "table_memory C st" "walk_cells env va (ram_word st) \<subseteq> C"
  shows "\<exists>st'. mmu_translate (x86_phys_ops env) env va acc idx st = Inr (code_outcome env va idx (fst (ref_translate env va acc idx (ram_word st))), st') \<and>
    table_memory C st' \<and> ram_word st' = snd (ref_translate env va acc idx (ram_word st))"
proof -
  have "ram_tables.sim C (mmu_translate (x86_phys_ops env) env va acc idx) (mmu_translate (cell_ops C) env va acc idx)"
    by (rule ram_tables.sim_translate)
  then show ?thesis using translate_cells [OF assms(1-3,5), of acc idx] assms(4) unfolding ram_tables.sim_def by blast
qed



text \<open>
  C16. A walk settles. Whatever it finds, a walk changes guest memory only in the accessed and dirty bits of page table entries, which it only sets; and a second walk
  for the same access has the same outcome and changes nothing at all, also where an entry serves as directory and table at once.
\<close>

theorem walk_settles:
  assumes "bit (cr0 env) 31" "\<not> bit (hflags2 env) 6" "\<not> bit (hflags env) 14"
    and "map_reach st" "no_alias st" "\<forall>a \<in> walk_cells env va (ram_word st). block_ram st a"
  shows "\<exists>r st' st''. mmu_translate (x86_phys_ops env) env va acc idx st = Inr (r, st') \<and> alike (entry_size env) (ram_word st) (ram_word st') \<and>
    (\<forall>a n. bit (ram_word st a) n \<longrightarrow> bit (ram_word st' a) n) \<and>
    mmu_translate (x86_phys_ops env) env va acc idx st' = Inr (r, st'') \<and> ram_word st'' = ram_word st'"
proof -
  define C where "C = walk_cells env va (ram_word st)"
  have m: "table_memory C st" using assms(4-6) by (intro table_memoryI) (auto simp: C_def)
  obtain st' where st': "mmu_translate (x86_phys_ops env) env va acc idx st = Inr (code_outcome env va idx (fst (ref_translate env va acc idx (ram_word st))), st')"
    "table_memory C st'" "ram_word st' = snd (ref_translate env va acc idx (ram_word st))"
    using machine_walk [OF assms(1-3) m] unfolding C_def by blast
  have al: "alike (entry_size env) (ram_word st) (ram_word st')" unfolding st'(3) by (rule ref_translate_alike)
  have "walk_cells env va (ram_word st') \<subseteq> C" unfolding walk_cells_alike [OF al] C_def by simp
  from machine_walk [OF assms(1-3) st'(2) this, of acc idx] obtain st'' where
    "mmu_translate (x86_phys_ops env) env va acc idx st' = Inr (code_outcome env va idx (fst (ref_translate env va acc idx (ram_word st'))), st'')"
    "ram_word st'' = snd (ref_translate env va acc idx (ram_word st'))" by blast
  moreover have "ref_translate env va acc idx (ram_word st') = ref_translate env va acc idx (ram_word st)" unfolding st'(3) by (rule ref_translate_again)
  moreover have "bit (ram_word st a) n \<Longrightarrow> bit (ram_word st' a) n" for a n
    unfolding st'(3) ref_translate_tables by (auto simp: Let_def marks_keep split: tables.splits)
  ultimately show ?thesis using st' al by auto
qed

theorem walk_settles_witness:
  "\<exists>r st' st''. mmu_translate (x86_phys_ops tables_env) tables_env 0x5678 MMU_DATA_LOAD MMU_USER_IDX tables_ram = Inr (r, st') \<and>
    mmu_translate (x86_phys_ops tables_env) tables_env 0x5678 MMU_DATA_LOAD MMU_USER_IDX st' = Inr (r, st'') \<and> ram_word st'' = ram_word st'"
  using walk_settles [OF tables_conf(3-5) tables_reach tables_no_alias tables_cells, of MMU_DATA_LOAD MMU_USER_IDX] by blast



text \<open>
  Pages above 4 GiB are lost. Whatever the memory holds, the physical address that a walk puts into the TLB has no bit above bit 31, because the page mask it is cut with
  is an unsigned 32-bit constant; but entries of eight bytes may name pages of a 36-bit physical space. Such a page is mapped to the page 4 GiB multiples below.
\<close>

theorem high_pages_alias:
  assumes "mmu_translate po env va acc idx m = Inr (Inr page, m')"
  shows "take_bit 32 (tp_paddr page) = tp_paddr page"
proof -
  have "\<exists>q m1. do_mapping po env va acc idx q m1 = Inr (Inr page, m')"
    using assms unfolding mmu_translate_def Let_def
    by (cases "tst (cr0 env) CR0_PG_MASK") (simp_all only: if_True if_False not_True_eq_False not_False_eq_True wbind_Inr, blast+)
  then obtain x where "tp_paddr page = x AND ucast TARGET_PAGE_MASK"
    by (auto simp: do_mapping_def Let_def wbind_Inr wret_def)
  then show ?thesis unfolding page_mask by (simp only:) (rule bit_word_eqI, auto simp: bit_simps)
qed

text \<open>A table of eight-byte entries that maps the page \<open>0x5000\<close> to \<open>0x100007000\<close>.\<close>

definition pae_env :: CPUX86State where
  "pae_env = env0\<lparr>cr0 := 0x80010001, cr3 := 0x1000, cr4 := 0x20\<rparr>"

definition pae_words :: cells where
  "pae_words = (\<lambda>_. 0)(0x1000 := 0x2001, 0x2000 := 0x3007, 0x3028 := 0x7003, 0x302c := 1)"

theorem high_pages_alias_witness:
  "\<exists>page w. mmu_translate (cell_ops UNIV) pae_env 0x5678 MMU_DATA_LOAD MMU_KNOSMAP_IDX pae_words = Inr (Inr page, w) \<and>
     fst (ref_translate pae_env 0x5678 MMU_DATA_LOAD MMU_KNOSMAP_IDX pae_words) = Ref_Page 0x100007000 5 0x1000 \<and> tp_paddr page = 0x7000 \<and>
     take_bit 32 (tp_paddr page) = tp_paddr page"
proof -
  have c: "bit (cr0 pae_env) 31" "\<not> bit (hflags2 pae_env) 6" "\<not> bit (hflags pae_env) 14" unfolding pae_env_def env0_def by code_simp+
  have e: "bit (cr4 pae_env) 5" "\<not> bit (cr4 pae_env) 20" "x86_get_a20_mask pae_env = - 1" "pdpe_at pae_env 0x5678 = 0x1000"
    "table8_at pae_env 21 0x5678 0x2001 = 0x2000" "table8_at pae_env 12 0x5678 0x3007 = 0x3028"
    "\<not> high_rsvd pae_env 0x2001" "\<not> high_rsvd pae_env 0x3007" "\<not> high_rsvd pae_env 0x100007003" "frame 0x100007003 = 0x100007000"
    unfolding pae_env_def env0_def by code_simp+
  have w: "entry8 pae_words 0x1000 = 0x2001" "entry8 pae_words 0x2000 = 0x3007" "entry8 (mark_accessed 0x2000 pae_words) 0x3028 = 0x100007003"
    "\<not> bit (mark_leaf MMU_DATA_LOAD 0x3028 (mark_accessed 0x2000 pae_words) 0x3028) 6"
    by (simp_all add: entry8_def pae_words_def mark_leaf_def mark_accessed_def set_bit_eq_or)
  have b: "bit (0x2001 :: u64) 0" "\<not> bit (0x2001 :: u64) 63" "bit (0x3007 :: u64) 0" "\<not> bit (0x3007 :: u64) 7" "\<not> bit (0x3007 :: u64) 63" "bit (0x100007003 :: u64) 0"
    "\<not> bit (0x100007003 :: u64) 63" "\<not> bit (0x100007003 :: u64) 2" by code_simp+
  have r: "fst (ref_translate pae_env 0x5678 MMU_DATA_LOAD MMU_KNOSMAP_IDX pae_words) = Ref_Page 0x100007000 5 0x1000"
    by (simp add: ref_translate_def ref_tables_def ref_pae_def Let_def e w b may_def may_bits_def page_of_def)
  obtain page w where p: "mmu_translate (cell_ops UNIV) pae_env 0x5678 MMU_DATA_LOAD MMU_KNOSMAP_IDX pae_words = Inr (Inr page, w)" "tp_paddr page = 0x7000"
    using translate_cells [OF c, where va = "0x5678" and w = pae_words and C = UNIV and acc = MMU_DATA_LOAD and idx = MMU_KNOSMAP_IDX] r by (auto simp: code_outcome_def)
  from high_pages_alias [OF p(1)] p r show ?thesis by auto
qed

text \<open>
  Nested tables that are not executable crash the machine. The walk translates the address of each guest table with no place for the permissions (a null pointer), and when
  the nested page of the table has the no-execute bit, which it may have since tables are only read and written, the check clears a permission through that pointer.
\<close>

theorem nested_nx_null:
  assumes "\<not> tst pte rsvd" "bit ptep 2" "\<not> bit ptep 63" "acc \<noteq> MMU_INST_FETCH"
  shows "nested_check gphys acc None (pte, ptep, sz, rsvd) m = Inl NullDeref"
proof -
  have "tst (ptep XOR PG_NX_MASK) PG_USER_MASK" "tst (ptep XOR PG_NX_MASK) PG_NX_MASK"
    unfolding pg_tst using assms(2,3) by (simp_all add: bit_xor_iff bit_NX)
  then show ?thesis using assms(1,4) unfolding nested_check_def prod.case Let_def run_guard by (simp add: wbind_assoc run_guard wbind_def drop_prot_def)
qed

theorem nested_nx_null_witness: "nested_check 0x1000 MMU_DATA_STORE None (0x8000000000005067, 0x7, 0x1000, 0) pae_words = Inl NullDeref"
proof -
  have "\<not> tst (0x8000000000005067 :: u64) 0" "bit (0x7 :: u64) 2" "\<not> bit (0x7 :: u64) 63" by code_simp+
  from nested_nx_null [OF this, of MMU_DATA_STORE] show ?thesis by simp
qed

text \<open>The classes of exceptions.\<close>

datatype exc_class = Benign | Contributory | Page_Fault

definition exc_class_of :: "int \<Rightarrow> exc_class" where
  "exc_class_of n = (if n \<in> {0, 10, 11, 12, 13} then Contributory else if n = 14 then Page_Fault else Benign)"

fun promotes :: "exc_class \<Rightarrow> exc_class \<Rightarrow> bool" where
  "promotes Contributory Contributory = True"
| "promotes Page_Fault Contributory = True"
| "promotes Page_Fault Page_Fault = True"
| "promotes _ _ = False"

text \<open>
  C34. Exceptions during exceptions follow the manual's table: a second exception becomes a double fault, with error code 0, exactly when the first is contributory and the second
  is too, or the first is a page fault and the second is contributory or a page fault; otherwise it is delivered as it is. After a double fault any exception, where the manual
  shuts the processor down, stops the whole machine.
\<close>

theorem double_fault_table:
  assumes "old_exception env \<noteq> EXCP08_DBLE" "\<not> bit (hflags env) 21"
  shows "\<exists>env'. check_exception n ec env =
      Inr (Some (if promotes (exc_class_of (old_exception env)) (exc_class_of n) then (EXCP08_DBLE, 0) else (n, ec)), env') \<and>
    (promotes (exc_class_of (old_exception env)) (exc_class_of n) \<longrightarrow> (\<forall>n' ec'. check_exception n' ec' env' = Inl NotReached))"
proof -
  have cl: "contributory k \<longleftrightarrow> exc_class_of k = Contributory" "k = EXCP0E_PAGE \<longleftrightarrow> exc_class_of k = Page_Fault" for k
    by (auto simp: contributory_def exc_class_of_def EXCP0E_PAGE_def)
  have g: "\<not> tst (hflags env) HF_GUEST_MASK" unfolding HF_GUEST_MASK_def tst_push by (rule assms(2))
  define dbl where "dbl \<longleftrightarrow> promotes (exc_class_of (old_exception env)) (exc_class_of n)"
  have d: "(contributory (old_exception env) \<and> contributory n) \<or> (old_exception env = EXCP0E_PAGE \<and> (contributory n \<or> n = EXCP0E_PAGE)) \<longleftrightarrow> dbl"
    unfolding dbl_def cl by (cases "exc_class_of (old_exception env)"; cases "exc_class_of n") simp_all
  show ?thesis using assms(1) g unfolding dbl_def [symmetric] by (cases dbl) (simp_all add: check_exception_def Let_def d)
qed

theorem double_fault_table_witness:
  "\<exists>env'. check_exception 14 2 (env0\<lparr>old_exception := 14\<rparr>) = Inr (Some (8, 0), env') \<and> check_exception 14 2 env' = Inl NotReached"
proof -
  have "old_exception (env0\<lparr>old_exception := 14\<rparr>) \<noteq> EXCP08_DBLE" "\<not> bit (hflags (env0\<lparr>old_exception := 14\<rparr>)) 21"
    unfolding env0_def EXCP08_DBLE_def by simp_all
  from double_fault_table [OF this, of 14 2] show ?thesis by (auto simp: exc_class_of_def EXCP08_DBLE_def)
qed

end
