(* ===== verification/Bitmap.thy ===== *)
theory Bitmap
  imports Bmbt_Prelude
begin

text \<open>
  Bitmaps and bit fields (\<open>util/bitmap.c\<close>, \<open>util/bitops.c\<close>, \<open>qemu/bitmap.h\<close>, \<open>qemu/bitops.h\<close>). A
  bitmap is a list of 64-bit words, and a word that is read or written outside it is a fault. The
  routines work on whole words and mask the first and the last one; the lemmas state what they do
  bit by bit. Starts and lengths are naturals, so the assertions on their signs hold.
\<close>

section \<open>Bit fields\<close>

definition ctz64 :: "u64 \<Rightarrow> nat" where
  "ctz64 v = length (takeWhile (\<lambda>n. \<not> bit v n) [0..<64])"

definition clz64 :: "u64 \<Rightarrow> nat" where
  "clz64 v = length (takeWhile (\<lambda>n. \<not> bit v n) (rev [0..<64]))"

definition deposit32 :: "u32 \<Rightarrow> nat \<Rightarrow> nat \<Rightarrow> u32 \<Rightarrow> u32 res" where
  "deposit32 value start len fieldval =
     (if 0 < len \<and> start + len \<le> 32 then
        let m = push_bit start (drop_bit (32 - len) (- 1))
        in Inr ((value AND NOT m) OR (push_bit start fieldval AND m))
      else Inl AssertFail)"

definition deposit64 :: "u64 \<Rightarrow> nat \<Rightarrow> nat \<Rightarrow> u64 \<Rightarrow> u64 res" where
  "deposit64 value start len fieldval =
     (if 0 < len \<and> start + len \<le> 64 then
        let m = push_bit start (drop_bit (64 - len) (- 1))
        in Inr ((value AND NOT m) OR (push_bit start fieldval AND m))
      else Inl AssertFail)"

definition extract64 :: "u64 \<Rightarrow> nat \<Rightarrow> nat \<Rightarrow> u64 res" where
  "extract64 value start len =
     (if 0 < len \<and> start + len \<le> 64 then Inr (drop_bit start value AND drop_bit (64 - len) (- 1)) else Inl AssertFail)"

definition sextract32 :: "u32 \<Rightarrow> nat \<Rightarrow> nat \<Rightarrow> u32 res" where
  "sextract32 value start len =
     (if 0 < len \<and> start + len \<le> 32 then Inr (signed_drop_bit (32 - len) (push_bit (32 - len - start) value)) else Inl AssertFail)"

definition sextract64 :: "u64 \<Rightarrow> nat \<Rightarrow> nat \<Rightarrow> u64 res" where
  "sextract64 value start len =
     (if 0 < len \<and> start + len \<le> 64 then Inr (signed_drop_bit (64 - len) (push_bit (64 - len - start) value)) else Inl AssertFail)"

definition rol32 :: "u32 \<Rightarrow> nat \<Rightarrow> u32" where
  "rol32 w s = push_bit s w OR drop_bit ((32 - s) mod 32) w"

section \<open>Single bits\<close>

type_synonym bitmap = "u64 list"

definition BITS_PER_LONG :: nat where "BITS_PER_LONG = 64"
definition BIT_WORD :: "nat \<Rightarrow> nat" where "BIT_WORD nr = nr div BITS_PER_LONG"
definition BIT_MASK :: "nat \<Rightarrow> u64" where "BIT_MASK nr = BIT (nr mod BITS_PER_LONG)"
definition BITS_TO_LONGS :: "nat \<Rightarrow> nat" where "BITS_TO_LONGS nr = (nr + 63) div 64"

definition test_bit :: "nat \<Rightarrow> bitmap \<Rightarrow> bool res" where
  "test_bit nr m = res_bind (arr_get m (BIT_WORD nr)) (\<lambda>w. Inr (1 AND drop_bit (nr mod BITS_PER_LONG) w \<noteq> 0))"

text \<open>\<open>*p |= msk\<close> and \<open>*p &= ~msk\<close>.\<close>

definition or_word :: "nat \<Rightarrow> u64 \<Rightarrow> bitmap \<Rightarrow> bitmap res" where
  "or_word p msk m = res_bind (arr_get m p) (\<lambda>w. arr_set m p (w OR msk))"

definition clear_word :: "nat \<Rightarrow> u64 \<Rightarrow> bitmap \<Rightarrow> bitmap res" where
  "clear_word p msk m = res_bind (arr_get m p) (\<lambda>w. arr_set m p (w AND NOT msk))"

definition set_bit_u :: "nat \<Rightarrow> bitmap \<Rightarrow> bitmap res" where
  "set_bit_u nr m = or_word (BIT_WORD nr) (BIT_MASK nr) m"

definition set_bit_atomic :: "nat \<Rightarrow> bitmap \<Rightarrow> bitmap res" where
  "set_bit_atomic nr m = or_word (BIT_WORD nr) (BIT_MASK nr) m"

definition clear_bit :: "nat \<Rightarrow> bitmap \<Rightarrow> bitmap res" where
  "clear_bit nr m = clear_word (BIT_WORD nr) (BIT_MASK nr) m"

definition bitmap_new :: "nat \<Rightarrow> bitmap" where
  "bitmap_new nbits = replicate (BITS_TO_LONGS nbits) 0"

section \<open>Ranges\<close>

definition BITMAP_FIRST_WORD_MASK :: "nat \<Rightarrow> u64" where
  "BITMAP_FIRST_WORD_MASK start = push_bit (start mod BITS_PER_LONG) (- 1)"

definition BITMAP_LAST_WORD_MASK :: "nat \<Rightarrow> u64" where
  "BITMAP_LAST_WORD_MASK nbits = drop_bit ((64 - nbits mod 64) mod 64) (- 1)"

function set_words :: "nat \<Rightarrow> nat \<Rightarrow> bitmap \<Rightarrow> (nat \<times> nat \<times> bitmap) res" where
  "set_words p nr m =
     (if nr \<ge> BITS_PER_LONG then res_bind (arr_set m p (- 1)) (set_words (Suc p) (nr - BITS_PER_LONG)) else Inr (p, nr, m))"
  by pat_completeness auto
termination by (relation "measure (\<lambda>(p, nr, m). nr)") (auto simp: BITS_PER_LONG_def)

declare set_words.simps [simp del]

definition bitmap_set_atomic :: "bitmap \<Rightarrow> nat \<Rightarrow> nat \<Rightarrow> bitmap res" where
  "bitmap_set_atomic m start nr =
     (let p = BIT_WORD start;
          sz = start + nr;
          bits_to_set = BITS_PER_LONG - start mod BITS_PER_LONG;
          mask_to_set = BITMAP_FIRST_WORD_MASK start
      in res_bind
           (if nr > bits_to_set
            then res_bind (or_word p mask_to_set m) (\<lambda>m. Inr (Suc p, nr - bits_to_set, BITS_PER_LONG, - 1, m))
            else Inr (p, nr, bits_to_set, mask_to_set, m))
           (\<lambda>(p, nr, bits_to_set, mask_to_set, m).
              res_bind (if bits_to_set = BITS_PER_LONG then set_words p nr m else Inr (p, nr, m))
                (\<lambda>(p, nr, m). if nr \<noteq> 0 then or_word p (mask_to_set AND BITMAP_LAST_WORD_MASK sz) m else Inr m)))"

function set_loop :: "nat \<Rightarrow> nat \<Rightarrow> nat \<Rightarrow> u64 \<Rightarrow> bitmap \<Rightarrow> (nat \<times> nat \<times> u64 \<times> bitmap) res" where
  "set_loop p nr bits mask_to_set m =
     (if bits \<le> nr \<and> 0 < bits
      then res_bind (or_word p mask_to_set m) (set_loop (Suc p) (nr - bits) BITS_PER_LONG (- 1))
      else Inr (p, nr, mask_to_set, m))"
  by pat_completeness auto
termination by (relation "measure (\<lambda>(p, nr, b, k, m). nr)") auto

declare set_loop.simps [simp del]

definition bitmap_set :: "bitmap \<Rightarrow> nat \<Rightarrow> nat \<Rightarrow> bitmap res" where
  "bitmap_set m start nr =
     res_bind (set_loop (BIT_WORD start) nr (BITS_PER_LONG - start mod BITS_PER_LONG) (BITMAP_FIRST_WORD_MASK start) m)
       (\<lambda>(p, nr', mask_to_set, m). if nr' \<noteq> 0 then or_word p (mask_to_set AND BITMAP_LAST_WORD_MASK (start + nr)) m else Inr m)"

text \<open>\<open>old_bits = fetch_and(p, ~msk); dirty |= old_bits & msk\<close>.\<close>

definition fetch_clear :: "nat \<Rightarrow> u64 \<Rightarrow> u64 \<Rightarrow> bitmap \<Rightarrow> (u64 \<times> bitmap) res" where
  "fetch_clear p msk dirty m =
     res_bind (arr_get m p) (\<lambda>old. res_bind (arr_set m p (old AND NOT msk)) (\<lambda>m. Inr (dirty OR (old AND msk), m)))"

function clear_words :: "nat \<Rightarrow> nat \<Rightarrow> u64 \<Rightarrow> bitmap \<Rightarrow> (nat \<times> nat \<times> u64 \<times> bitmap) res" where
  "clear_words p nr dirty m =
     (if nr \<ge> BITS_PER_LONG
      then res_bind (arr_get m p) (\<lambda>w.
             res_bind (if w \<noteq> 0 then res_bind (arr_set m p 0) (\<lambda>m. Inr (dirty OR w, m)) else Inr (dirty, m))
               (\<lambda>(dirty, m). clear_words (Suc p) (nr - BITS_PER_LONG) dirty m))
      else Inr (p, nr, dirty, m))"
  by pat_completeness auto
termination by (relation "measure (\<lambda>(p, nr, d, m). nr)") (auto simp: BITS_PER_LONG_def)

declare clear_words.simps [simp del]

definition bitmap_test_and_clear_atomic :: "bitmap \<Rightarrow> nat \<Rightarrow> nat \<Rightarrow> (bool \<times> bitmap) res" where
  "bitmap_test_and_clear_atomic m start nr =
     (let p = BIT_WORD start;
          sz = start + nr;
          bits_to_clear = BITS_PER_LONG - start mod BITS_PER_LONG;
          mask_to_clear = BITMAP_FIRST_WORD_MASK start
      in res_bind
           (if nr > bits_to_clear
            then res_bind (fetch_clear p mask_to_clear 0 m) (\<lambda>(dirty, m). Inr (Suc p, nr - bits_to_clear, BITS_PER_LONG, - 1, dirty, m))
            else Inr (p, nr, bits_to_clear, mask_to_clear, 0, m))
           (\<lambda>(p, nr, bits_to_clear, mask_to_clear, dirty, m).
              res_bind (if bits_to_clear = BITS_PER_LONG then clear_words p nr dirty m else Inr (p, nr, dirty, m))
                (\<lambda>(p, nr, dirty, m).
                   res_bind (if nr \<noteq> 0 then fetch_clear p (mask_to_clear AND BITMAP_LAST_WORD_MASK sz) dirty m else Inr (dirty, m))
                     (\<lambda>(dirty, m). Inr (dirty \<noteq> 0, m)))))"

section \<open>Searches\<close>

definition found_first :: "u64 \<Rightarrow> nat \<Rightarrow> nat \<Rightarrow> nat res" where
  "found_first tmp sz result =
     (let tmp = tmp AND drop_bit (BITS_PER_LONG - sz) (- 1)
      in if tmp = 0 then Inr (result + sz) else Inr (result + ctz64 tmp))"

function next_words :: "bitmap \<Rightarrow> nat \<Rightarrow> nat \<Rightarrow> nat \<Rightarrow> nat res" where
  "next_words m p sz result =
     (if sz \<ge> BITS_PER_LONG
      then res_bind (arr_get m p) (\<lambda>tmp. if tmp \<noteq> 0 then Inr (result + ctz64 tmp)
             else next_words m (Suc p) (sz - BITS_PER_LONG) (result + BITS_PER_LONG))
      else if sz = 0 then Inr result
      else res_bind (arr_get m p) (\<lambda>tmp. found_first tmp sz result))"
  by pat_completeness auto
termination by (relation "measure (\<lambda>(m, p, sz, r). sz)") (auto simp: BITS_PER_LONG_def)

declare next_words.simps [simp del]

function next_quads :: "bitmap \<Rightarrow> nat \<Rightarrow> nat \<Rightarrow> nat \<Rightarrow> nat res" where
  "next_quads m p sz result =
     (if sz \<ge> 4 * BITS_PER_LONG
      then res_bind (arr_get m p) (\<lambda>tmp. res_bind (arr_get m (p + 1)) (\<lambda>d1. res_bind (arr_get m (p + 2)) (\<lambda>d2. res_bind (arr_get m (p + 3)) (\<lambda>d3.
             if tmp \<noteq> 0 then Inr (result + ctz64 tmp)
             else if (d1 OR d2) OR d3 \<noteq> 0 then next_words m p sz result
             else next_quads m (p + 4) (sz - 4 * BITS_PER_LONG) (result + 4 * BITS_PER_LONG)))))
      else next_words m p sz result)"
  by pat_completeness auto
termination by (relation "measure (\<lambda>(m, p, sz, r). sz)") (auto simp: BITS_PER_LONG_def)

declare next_quads.simps [simp del]

definition find_next_bit :: "bitmap \<Rightarrow> nat \<Rightarrow> nat \<Rightarrow> nat res" where
  "find_next_bit m sz offset =
     (let p = BIT_WORD offset;
          result = offset - offset mod BITS_PER_LONG
      in if offset \<ge> sz then Inr sz
         else
           let sz = sz - result;
               offset = offset mod BITS_PER_LONG
           in if offset \<noteq> 0
              then res_bind (arr_get m p) (\<lambda>w.
                let tmp = w AND push_bit offset (- 1)
                in if sz < BITS_PER_LONG then found_first tmp sz result
                   else if tmp \<noteq> 0 then Inr (result + ctz64 tmp)
                   else next_quads m (Suc p) (sz - BITS_PER_LONG) (result + BITS_PER_LONG))
              else next_quads m p sz result)"

definition found_first_zero :: "u64 \<Rightarrow> nat \<Rightarrow> nat \<Rightarrow> nat res" where
  "found_first_zero tmp sz result =
     (let tmp = tmp OR push_bit sz (- 1)
      in if tmp = - 1 then Inr (result + sz) else Inr (result + ctz64 (NOT tmp)))"

function next_zero_words :: "bitmap \<Rightarrow> nat \<Rightarrow> nat \<Rightarrow> nat \<Rightarrow> nat res" where
  "next_zero_words m p sz result =
     (if sz div BITS_PER_LONG \<noteq> 0
      then res_bind (arr_get m p) (\<lambda>tmp. if NOT tmp \<noteq> 0 then Inr (result + ctz64 (NOT tmp))
             else next_zero_words m (Suc p) (sz - BITS_PER_LONG) (result + BITS_PER_LONG))
      else if sz = 0 then Inr result
      else res_bind (arr_get m p) (\<lambda>tmp. found_first_zero tmp sz result))"
  by pat_completeness auto
termination by (relation "measure (\<lambda>(m, p, sz, r). sz)") (auto simp: BITS_PER_LONG_def)

declare next_zero_words.simps [simp del]

definition find_next_zero_bit :: "bitmap \<Rightarrow> nat \<Rightarrow> nat \<Rightarrow> nat res" where
  "find_next_zero_bit m sz offset =
     (let p = BIT_WORD offset;
          result = offset - offset mod BITS_PER_LONG
      in if offset \<ge> sz then Inr sz
         else
           let sz = sz - result;
               offset = offset mod BITS_PER_LONG
           in if offset \<noteq> 0
              then res_bind (arr_get m p) (\<lambda>w.
                let tmp = w OR drop_bit (BITS_PER_LONG - offset) (- 1)
                in if sz < BITS_PER_LONG then found_first_zero tmp sz result
                   else if NOT tmp \<noteq> 0 then Inr (result + ctz64 (NOT tmp))
                   else next_zero_words m (Suc p) (sz - BITS_PER_LONG) (result + BITS_PER_LONG))
              else next_zero_words m p sz result)"

fun last_words :: "bitmap \<Rightarrow> nat \<Rightarrow> nat \<Rightarrow> nat res" where
  "last_words m 0 sz = Inr sz"
| "last_words m (Suc w) sz =
     res_bind (arr_get m w) (\<lambda>tmp. if tmp \<noteq> 0 then Inr (w * BITS_PER_LONG + BITS_PER_LONG - 1 - clz64 tmp) else last_words m w sz)"

definition find_last_bit :: "bitmap \<Rightarrow> nat \<Rightarrow> nat res" where
  "find_last_bit m sz =
     (let w = sz div BITS_PER_LONG; part = sz mod BITS_PER_LONG
      in if part \<noteq> 0
         then res_bind (arr_get m w) (\<lambda>x.
           let tmp = x AND drop_bit (BITS_PER_LONG - part) (- 1)
           in if tmp \<noteq> 0 then Inr (w * BITS_PER_LONG + BITS_PER_LONG - 1 - clz64 tmp) else last_words m w sz)
         else last_words m w sz)"

section \<open>Bit by bit\<close>

text \<open>Bit \<open>n\<close> of a bitmap, and the number of its bits.\<close>

definition tb :: "bitmap \<Rightarrow> nat \<Rightarrow> bool" where
  "tb m n \<longleftrightarrow> n < 64 * length m \<and> bit (m ! (n div 64)) (n mod 64)"

abbreviation nbits :: "bitmap \<Rightarrow> nat" where
  "nbits m \<equiv> 64 * length m"

named_theorems bitmap_consts

lemmas [bitmap_consts] = BITS_PER_LONG_def BIT_WORD_def

lemma word_index: "n < nbits m \<longleftrightarrow> n div 64 < length m"
  by (simp add: less_mult_imp_div_less div_less_iff_less_mult mult.commute)

lemma tb_test_bit: "n < nbits m \<Longrightarrow> test_bit n m = Inr (tb m n)"
  by (auto simp: test_bit_def tb_def arr_get_def word_index bitmap_consts bit_iff_odd_drop_bit one_and_eq odd_iff_mod_2_eq_one)

lemma tb_update:
  assumes "p < length m"
  shows "tb (m[p := w]) n \<longleftrightarrow> (if n div 64 = p then bit w (n mod 64) else tb m n)"
  using assms by (auto simp: tb_def word_index nth_list_update)

lemma or_word_spec:
  assumes "p < length m"
  shows "\<exists>m'. or_word p w m = Inr m' \<and> length m' = length m \<and> (\<forall>n. tb m' n \<longleftrightarrow> tb m n \<or> n div 64 = p \<and> bit w (n mod 64))"
  using assms by (auto simp: or_word_def arr_get_def arr_set_def tb_update bit_or_iff) (auto simp: tb_def word_index)

lemma fetch_clear_spec:
  assumes "p < length m"
  shows "\<exists>d' m'. fetch_clear p w d m = Inr (d', m') \<and> length m' = length m \<and> (\<forall>n. tb m' n \<longleftrightarrow> tb m n \<and> \<not> (n div 64 = p \<and> bit w (n mod 64))) \<and>
     (d' \<noteq> 0 \<longleftrightarrow> d \<noteq> 0 \<or> (\<exists>n. tb m n \<and> n div 64 = p \<and> bit w (n mod 64)))"
proof -
  have nz: "x \<noteq> 0 \<longleftrightarrow> (\<exists>k < 64. bit x k)" for x :: u64 using bit_word_eqI [of x 0] by (auto intro: ccontr)
  have "(\<exists>k < 64. bit (m ! p) k \<and> bit w k) \<longleftrightarrow> (\<exists>n. tb m n \<and> n div 64 = p \<and> bit w (n mod 64))"
  proof
    assume "\<exists>k < 64. bit (m ! p) k \<and> bit w k"
    then obtain k where "k < 64" "bit (m ! p) k" "bit w k" by blast
    then show "\<exists>n. tb m n \<and> n div 64 = p \<and> bit w (n mod 64)" using assms
      by (intro exI [of _ "64 * p + k"]) (simp add: tb_def word_index)
  next
    assume "\<exists>n. tb m n \<and> n div 64 = p \<and> bit w (n mod 64)"
    then obtain n where "tb m n" "n div 64 = p" "bit w (n mod 64)" by blast
    then show "\<exists>k < 64. bit (m ! p) k \<and> bit w k" by (intro exI [of _ "n mod 64"]) (auto simp: tb_def)
  qed
  then have d: "d OR (m ! p AND w) \<noteq> 0 \<longleftrightarrow> d \<noteq> 0 \<or> (\<exists>n. tb m n \<and> n div 64 = p \<and> bit w (n mod 64))"
    unfolding nz [of "d OR (m ! p AND w)"] nz [of d] by (auto simp: bit_or_iff bit_and_iff)
  have "tb (m[p := m ! p AND NOT w]) n \<longleftrightarrow> tb m n \<and> \<not> (n div 64 = p \<and> bit w (n mod 64))" for n
    using assms by (auto simp: tb_update bit_and_iff bit_not_iff) (auto simp: tb_def word_index)
  then show ?thesis using assms d by (simp add: fetch_clear_def arr_get_def arr_set_def)
qed

lemma first_mask_bit: "bit (BITMAP_FIRST_WORD_MASK s) k \<longleftrightarrow> s mod 64 \<le> k \<and> k < 64"
  by (auto simp: BITMAP_FIRST_WORD_MASK_def bitmap_consts bit_push_bit_iff bit_minus_1_iff simp del: push_bit_minus_one_eq_not_mask)

lemma last_mask_bit: "bit (BITMAP_LAST_WORD_MASK s) k \<longleftrightarrow> (64 - s mod 64) mod 64 + k < 64"
  unfolding BITMAP_LAST_WORD_MASK_def bit_drop_bit_eq bit_minus_1_iff o_def possible_bit_word len_num0 len_num1 len_bit0 len_bit1 by simp

text \<open>The last word of a range, which may also be the first one.\<close>

lemma in_word: "n div 64 = p \<and> P (n mod 64) \<longleftrightarrow> 64 * p \<le> n \<and> n < 64 * p + 64 \<and> P (n - 64 * p)" for n p :: nat
proof (cases "n div 64 = p")
  case True
  have "64 * p + n mod 64 = n" unfolding True [symmetric] by simp
  then have "n mod 64 = n - 64 * p" "64 * p \<le> n" "n < 64 * p + 64" using mod_less_divisor [of 64 n] by linarith+
  then show ?thesis using True by simp
next
  case False
  have "n = 64 * (n div 64) + n mod 64" "n mod 64 < 64" by simp_all
  then have "\<not> (64 * p \<le> n \<and> n < 64 * p + 64)" using False by linarith
  then show ?thesis using False by blast
qed

lemma last_word_range:
  assumes "64 * p + lo < sz" and "sz \<le> 64 * p + 64" and "\<forall>k < 64. bit w k \<longleftrightarrow> lo \<le> k"
  shows "n div 64 = p \<and> bit (w AND BITMAP_LAST_WORD_MASK sz) (n mod 64) \<longleftrightarrow> 64 * p + lo \<le> n \<and> n < sz"
proof -
  have "bit (BITMAP_LAST_WORD_MASK sz) k \<longleftrightarrow> k < sz - 64 * p" if "k < 64" for k
  proof (cases "sz = 64 * p + 64")
    case False
    then obtain r where "sz = 64 * p + r" "0 < r" "r < 64" using assms(1,2) by (metis add_lessD1 le_eq_less_or_eq less_imp_add_positive nat_add_left_cancel_less)
    then show ?thesis by (auto simp: last_mask_bit)
  qed (use that in \<open>simp add: last_mask_bit\<close>)
  then show ?thesis unfolding in_word using assms by (auto simp: bit_and_iff)
qed

lemma first_word_range: "n div 64 = s div 64 \<and> bit (BITMAP_FIRST_WORD_MASK s) (n mod 64) \<longleftrightarrow> s \<le> n \<and> n < 64 * (s div 64) + 64"
proof -
  have "s = 64 * (s div 64) + s mod 64" by simp
  then show ?thesis unfolding in_word by (simp only: first_mask_bit) linarith
qed

lemma join_ranges: "a \<le> b \<Longrightarrow> b \<le> c \<Longrightarrow> (P \<or> a \<le> n \<and> n < b) \<or> b \<le> n \<and> n < c \<longleftrightarrow> P \<or> a \<le> n \<and> n < c" for n :: nat
  by auto

lemma all_mask: "\<forall>k < 64. bit (- 1 :: u64) k \<longleftrightarrow> 0 \<le> k"
  by simp

lemma first_mask_all: "\<forall>k < 64. bit (BITMAP_FIRST_WORD_MASK s) k \<longleftrightarrow> s mod 64 \<le> k"
  by (simp add: first_mask_bit)

lemma set_words_spec:
  "64 * p + nr \<le> nbits m \<Longrightarrow> \<exists>m'. set_words p nr m = Inr (p + nr div 64, nr mod 64, m') \<and> length m' = length m \<and>
     (\<forall>n. tb m' n \<longleftrightarrow> tb m n \<or> 64 * p \<le> n \<and> n < 64 * (p + nr div 64))"
proof (induction p nr m rule: set_words.induct)
  case (1 p nr m)
  show ?case
  proof (cases "nr \<ge> 64")
    case True
    then have p: "p < length m" using "1.prems" by linarith
    let ?m = "m[p := - 1]"
    have set: "arr_set m p (- 1) = Inr ?m" using p by (simp add: arr_set_def)
    have "64 * Suc p + (nr - 64) \<le> nbits ?m" using True "1.prems" by simp
    from "1.IH" [unfolded BITS_PER_LONG_def, OF True this] obtain m' where m':
      "set_words (Suc p) (nr - 64) ?m = Inr (Suc p + (nr - 64) div 64, (nr - 64) mod 64, m')" "length m' = length m"
      "\<forall>n. tb m' n \<longleftrightarrow> tb ?m n \<or> 64 * Suc p \<le> n \<and> n < 64 * (Suc p + (nr - 64) div 64)" by auto
    obtain j where j: "nr = j + 64" using True by (metis add.commute le_Suc_ex)
    then have ar: "Suc p + (nr - 64) div 64 = p + nr div 64" "(nr - 64) mod 64 = nr mod 64" by simp_all
    have "tb m' n \<longleftrightarrow> tb m n \<or> 64 * p \<le> n \<and> n < 64 * (p + nr div 64)" for n
    proof -
      define K where "K = p + nr div 64"
      have K: "p < K" using True by (simp add: K_def div_greater_zero_iff)
      have dv: "n div 64 = p \<longleftrightarrow> 64 * p \<le> n \<and> n < 64 * p + 64" using in_word [of n p "\<lambda>k. True"] by simp
      have "tb ?m n \<longleftrightarrow> tb m n \<or> n div 64 = p" using p by (auto simp: tb_update)
      then have "tb m' n \<longleftrightarrow> (tb m n \<or> 64 * p \<le> n \<and> n < 64 * Suc p) \<or> 64 * Suc p \<le> n \<and> n < 64 * K"
        using m'(3) unfolding ar dv K_def [symmetric] by (simp add: add.commute)
      moreover have "64 * p \<le> 64 * Suc p" "64 * Suc p \<le> 64 * K" using K by simp_all
      ultimately show ?thesis unfolding K_def [symmetric] by (simp only: join_ranges)
    qed
    then show ?thesis using m'(1,2) set True unfolding ar by (subst set_words.simps) (simp add: BITS_PER_LONG_def)
  next
    case False
    then show ?thesis by (subst set_words.simps) (auto simp: BITS_PER_LONG_def)
  qed
qed

lemma or_last_spec:
  assumes "64 * p + lo < sz" and "sz \<le> 64 * p + 64" and "\<forall>k < 64. bit w k \<longleftrightarrow> lo \<le> k" and "sz \<le> nbits m"
  shows "\<exists>m'. or_word p (w AND BITMAP_LAST_WORD_MASK sz) m = Inr m' \<and> length m' = length m \<and>
     (\<forall>n. tb m' n \<longleftrightarrow> tb m n \<or> 64 * p + lo \<le> n \<and> n < sz)"
proof -
  have "p < length m" using assms(1,4) by linarith
  from or_word_spec [OF this, of "w AND BITMAP_LAST_WORD_MASK sz"] show ?thesis unfolding last_word_range [OF assms(1-3)] .
qed

lemma bitmap_set_atomic_spec:
  assumes "start + nr \<le> nbits m"
  shows "\<exists>m'. bitmap_set_atomic m start nr = Inr m' \<and> length m' = length m \<and> (\<forall>n. tb m' n \<longleftrightarrow> tb m n \<or> start \<le> n \<and> n < start + nr)"
proof -
  let ?p = "start div 64" and ?b = "64 - start mod 64"
  have b: "start = 64 * ?p + start mod 64" "start mod 64 < 64" by simp_all
  note def = bitmap_set_atomic_def Let_def bitmap_consts
  consider (long) "nr > ?b" | (zero) "nr = 0" | (short) "0 < nr" "nr \<le> ?b" "?b \<noteq> 64" | (word) "0 < nr" "nr \<le> 64" "?b = 64"
    by linarith
  then show ?thesis
  proof cases
    case long
    have "?p < length m" using long assms b by linarith
    from or_word_spec [OF this, of "BITMAP_FIRST_WORD_MASK start", unfolded first_word_range] obtain m1 where
      m1: "or_word ?p (BITMAP_FIRST_WORD_MASK start) m = Inr m1" "length m1 = length m" "\<forall>n. tb m1 n \<longleftrightarrow> tb m n \<or> start \<le> n \<and> n < 64 * ?p + 64" by blast
    let ?nr = "nr - ?b" and ?q = "Suc ?p + (nr - ?b) div 64"
    have "64 * Suc ?p + ?nr = 64 * ?p + start mod 64 + nr" using long b(2) by simp
    then have "64 * Suc ?p + ?nr = start + nr" using b(1) by simp
    then have "64 * Suc ?p + ?nr \<le> nbits m1" using m1(2) assms by simp
    from set_words_spec [OF this] obtain m2 where m2: "set_words (Suc ?p) ?nr m1 = Inr (?q, ?nr mod 64, m2)" "length m2 = length m"
      "\<forall>n. tb m2 n \<longleftrightarrow> tb m1 n \<or> 64 * Suc ?p \<le> n \<and> n < 64 * ?q" using m1(2) by auto
    have "64 * Suc ?p + ?nr = 64 * ?p + start mod 64 + nr" using long b(2) by simp
    then have "64 * Suc ?p + ?nr = start + nr" using b(1) by simp
    then have sz: "start + nr = 64 * ?q + ?nr mod 64" using mult_div_mod_eq [of 64 ?nr] by simp
    have join: "start \<le> 64 * Suc ?p" "64 * Suc ?p \<le> 64 * ?q" "start \<le> 64 * ?q" using b by simp_all
    have two: "tb m2 n \<longleftrightarrow> tb m n \<or> start \<le> n \<and> n < 64 * ?q" for n
    proof -
      have "tb m2 n \<longleftrightarrow> (tb m n \<or> start \<le> n \<and> n < 64 * Suc ?p) \<or> 64 * Suc ?p \<le> n \<and> n < 64 * ?q" using m1(3) m2(3) by (simp add: add.commute)
      then show ?thesis using join_ranges [OF join(1,2)] by blast
    qed
    show ?thesis
    proof (cases "?nr mod 64 = 0")
      case True
      then have "start + nr = 64 * ?q" using sz by (simp only: add_0_right)
      then have "tb m2 n \<longleftrightarrow> tb m n \<or> start \<le> n \<and> n < start + nr" for n by (simp only: two)
      then show ?thesis using m1(1) m2(1,2) True long by (simp add: def)
    next
      case False
      have "?nr mod 64 < 64" by simp
      then have s: "64 * ?q + 0 < start + nr" "start + nr \<le> 64 * ?q + 64" unfolding sz using False by linarith+
      from or_last_spec [OF s all_mask] assms m2(2) obtain m3 where m3: "or_word ?q (- 1 AND BITMAP_LAST_WORD_MASK (start + nr)) m2 = Inr m3"
        "length m3 = length m" "\<forall>n. tb m3 n \<longleftrightarrow> tb m2 n \<or> 64 * ?q + 0 \<le> n \<and> n < start + nr" by metis
      have "tb m3 n \<longleftrightarrow> tb m n \<or> start \<le> n \<and> n < start + nr" for n
        using m3(3) s join_ranges [OF join(3), of "start + nr"] unfolding two by simp
      then show ?thesis using m1(1) m2(1) m3(1,2) False long by (simp add: def)
    qed
  next
    case zero
    then show ?thesis by (auto simp: def set_words.simps [of _ 0])
  next
    case short
    have "64 * ?p + start mod 64 + nr \<le> 64 * ?p + 64" using short(2) b(2) by linarith
    then have s: "64 * ?p + start mod 64 < start + nr" "start + nr \<le> 64 * ?p + 64" using short(1) b(1) by simp_all
    from or_last_spec [OF s first_mask_all assms] show ?thesis using short b(1) by (simp add: def)
  next
    case word
    then have st: "start mod 64 = 0" by simp
    then have st: "start = 64 * ?p" "start mod 64 = 0" using b(1) by simp_all
    have "64 * ?p + nr \<le> nbits m" using assms st by simp
    from set_words_spec [OF this] obtain m1 where m1: "set_words ?p nr m = Inr (?p + nr div 64, nr mod 64, m1)" "length m1 = length m"
      "\<forall>n. tb m1 n \<longleftrightarrow> tb m n \<or> 64 * ?p \<le> n \<and> n < 64 * (?p + nr div 64)" by auto
    show ?thesis
    proof (cases "nr = 64")
      case True
      then show ?thesis using m1 st by (simp add: def add.commute)
    next
      case False
      then have nr: "nr div 64 = 0" "nr mod 64 = nr" using word by simp_all
      have s: "64 * ?p + start mod 64 < start + nr" "start + nr \<le> 64 * ?p + 64" using word st by simp_all
      from or_last_spec [OF s first_mask_all] assms m1(2) obtain m2 where m2: "or_word ?p (BITMAP_FIRST_WORD_MASK start AND BITMAP_LAST_WORD_MASK (start + nr)) m1 = Inr m2"
        "length m2 = length m" "\<forall>n. tb m2 n \<longleftrightarrow> tb m1 n \<or> 64 * ?p + start mod 64 \<le> n \<and> n < start + nr" by metis
      have "tb m2 n \<longleftrightarrow> tb m n \<or> start \<le> n \<and> n < start + nr" for n using m1(3) m2(3) nr st by auto
      then show ?thesis using m1(1) m2(1,2) word nr st(2) by (simp add: def)
    qed
  qed
qed

text \<open>The version without atomic operations walks the words in one loop.\<close>

lemma set_loop_spec:
  "lo < 64 \<Longrightarrow> \<forall>k < 64. bit w k \<longleftrightarrow> lo \<le> k \<Longrightarrow> 64 * p + lo + nr \<le> nbits m \<Longrightarrow>
   \<exists>p' nr' w' m' lo'. set_loop p nr (64 - lo) w m = Inr (p', nr', w', m') \<and> (\<forall>k < 64. bit w' k \<longleftrightarrow> lo' \<le> k) \<and> lo' < 64 \<and> nr' < 64 - lo' \<and>
     64 * p' + lo' + nr' = 64 * p + lo + nr \<and> 64 * p + lo \<le> 64 * p' + lo' \<and> length m' = length m \<and>
     (\<forall>n. tb m' n \<longleftrightarrow> tb m n \<or> 64 * p + lo \<le> n \<and> n < 64 * p' + lo')"
proof (induction nr arbitrary: p lo w m rule: less_induct)
  case (less nr)
  show ?case
  proof (cases "64 - lo \<le> nr")
    case True
    have p: "p < length m" using True less.prems(1,3) by linarith
    obtain m1 where m1: "or_word p w m = Inr m1" "length m1 = length m" "\<forall>n. tb m1 n \<longleftrightarrow> tb m n \<or> n div 64 = p \<and> bit w (n mod 64)"
      using or_word_spec [OF p] by blast
    have rng: "n div 64 = p \<and> bit w (n mod 64) \<longleftrightarrow> 64 * p + lo \<le> n \<and> n < 64 * Suc p" for n
      unfolding in_word using less.prems(1,2) by auto
    let ?nr = "nr - (64 - lo)"
    have e: "64 * Suc p + 0 + ?nr = 64 * p + lo + nr" using True less.prems(1) by simp
    have lt: "?nr < nr" using True less.prems(1) by simp
    have "64 * Suc p + 0 + ?nr \<le> nbits m1" using e less.prems(3) m1(2) by simp
    note IH = less.IH [OF lt zero_less_numeral all_mask this, unfolded e m1(2), unfolded add_0_right diff_zero]
    obtain p' nr' w' m' lo' where c: "set_loop (Suc p) ?nr 64 (- 1) m1 = Inr (p', nr', w', m') \<and> (\<forall>k < 64. bit w' k \<longleftrightarrow> lo' \<le> k) \<and> lo' < 64 \<and> nr' < 64 - lo' \<and>
      64 * p' + lo' + nr' = 64 * p + lo + nr \<and> 64 * Suc p \<le> 64 * p' + lo' \<and> length m' = length m \<and>
      (\<forall>n. tb m' n \<longleftrightarrow> tb m1 n \<or> 64 * Suc p \<le> n \<and> n < 64 * p' + lo')"
      using IH by (elim exE) (rule that)
    have le: "64 * p + lo \<le> 64 * Suc p" using less.prems(1) by simp
    have "tb m' n \<longleftrightarrow> tb m n \<or> 64 * p + lo \<le> n \<and> n < 64 * p' + lo'" for n
      using c m1(3) join_ranges [OF le, of "64 * p' + lo'"] unfolding rng by blast
    moreover have "set_loop p nr (64 - lo) w m = Inr (p', nr', w', m')"
      using True less.prems(1) m1(1) c by (subst set_loop.simps) (simp add: BITS_PER_LONG_def)
    moreover have "64 * p + lo \<le> 64 * p' + lo'" using le c by (meson order_trans)
    ultimately show ?thesis using c by blast
  next
    case False
    then have "set_loop p nr (64 - lo) w m = Inr (p, nr, w, m)" by (subst set_loop.simps) simp
    then show ?thesis using False less.prems(1,2) by (intro exI [of _ p] exI [of _ nr] exI [of _ w] exI [of _ m] exI [of _ lo]) auto
  qed
qed

lemma bitmap_set_spec:
  assumes "start + nr \<le> nbits m"
  shows "\<exists>m'. bitmap_set m start nr = Inr m' \<and> length m' = length m \<and> (\<forall>n. tb m' n \<longleftrightarrow> tb m n \<or> start \<le> n \<and> n < start + nr)"
proof -
  let ?p = "start div 64" and ?lo = "start mod 64"
  have s: "64 * ?p + ?lo = start" "?lo < 64" by simp_all
  have "64 * ?p + ?lo + nr \<le> nbits m" using assms by simp
  from set_loop_spec [OF s(2) first_mask_all this] obtain p' nr' w' m' lo' where
    l: "set_loop ?p nr (64 - ?lo) (BITMAP_FIRST_WORD_MASK start) m = Inr (p', nr', w', m')" and w: "\<forall>k < 64. bit w' k \<longleftrightarrow> lo' \<le> k"
    and b: "nr' < 64 - lo'" "64 * p' + lo' + nr' = start + nr" "start \<le> 64 * p' + lo'" and len: "length m' = length m"
    and t: "\<forall>n. tb m' n \<longleftrightarrow> tb m n \<or> start \<le> n \<and> n < 64 * p' + lo'" unfolding s(1) by blast
  have def: "bitmap_set m start nr = (if nr' \<noteq> 0 then or_word p' (w' AND BITMAP_LAST_WORD_MASK (start + nr)) m' else Inr m')"
    using l by (simp add: bitmap_set_def bitmap_consts)
  show ?thesis
  proof (cases "nr' = 0")
    case True
    then show ?thesis using def len t b(2) by simp
  next
    case False
    have r: "64 * p' + lo' < start + nr" "start + nr \<le> 64 * p' + 64" using b False by linarith+
    from or_last_spec [OF r w] assms len obtain m2 where m2: "or_word p' (w' AND BITMAP_LAST_WORD_MASK (start + nr)) m' = Inr m2" "length m2 = length m"
      "\<forall>n. tb m2 n \<longleftrightarrow> tb m' n \<or> 64 * p' + lo' \<le> n \<and> n < start + nr" by metis
    have "tb m2 n \<longleftrightarrow> tb m n \<or> start \<le> n \<and> n < start + nr" for n using m2(3) t join_ranges [OF b(3) less_imp_le [OF r(1)]] by blast
    then show ?thesis using m2(1,2) def False by simp
  qed
qed

subsection \<open>Testing and clearing a range\<close>

text \<open>From \<open>m\<close> to \<open>m'\<close> the bits in \<open>A\<close> are cleared, and \<open>dirty\<close> records whether one of them was set.\<close>

definition cleared :: "bitmap \<Rightarrow> u64 \<Rightarrow> nat set \<Rightarrow> bitmap \<Rightarrow> u64 \<Rightarrow> bool" where
  "cleared m d A m' d' \<longleftrightarrow> length m' = length m \<and> (\<forall>n. tb m' n \<longleftrightarrow> tb m n \<and> n \<notin> A) \<and> (d' \<noteq> 0 \<longleftrightarrow> d \<noteq> 0 \<or> (\<exists>n \<in> A. tb m n))"

lemma cleared_trans: "cleared m d A m1 d1 \<Longrightarrow> cleared m1 d1 B m2 d2 \<Longrightarrow> cleared m d (A \<union> B) m2 d2"
  unfolding cleared_def by (intro conjI) (simp, blast, blast)

lemma cleared_empty: "cleared m d {} m d"
  by (simp add: cleared_def)

lemma join_sets: "a \<le> b \<Longrightarrow> b \<le> c \<Longrightarrow> {a..<b} \<union> {b..<c} = {a..<c}" for a :: nat
  by auto

lemma fetch_clear_range:
  assumes "p < length m" and "\<And>n. n div 64 = p \<and> bit w (n mod 64) \<longleftrightarrow> lo \<le> n \<and> n < hi"
  shows "\<exists>d' m'. fetch_clear p w d m = Inr (d', m') \<and> cleared m d {lo..<hi} m' d'"
  using fetch_clear_spec [OF assms(1), of w d] unfolding assms(2) cleared_def by (simp add: Bex_def conj_commute)

lemma clear_words_spec:
  "64 * p + nr \<le> nbits m \<Longrightarrow> \<exists>d' m'. clear_words p nr d m = Inr (p + nr div 64, nr mod 64, d', m') \<and> cleared m d {64 * p..<64 * (p + nr div 64)} m' d'"
proof (induction nr arbitrary: p d m rule: less_induct)
  case (less nr)
  show ?case
  proof (cases "nr \<ge> 64")
    case True
    have p: "p < length m" using True less.prems by linarith
    have "\<exists>d1 m1. (if m ! p \<noteq> 0 then res_bind (arr_set m p 0) (\<lambda>m'. Inr (d OR m ! p, m')) else Inr (d, m)) = Inr (d1, m1) \<and> cleared m d {64 * p..<64 * Suc p} m1 d1"
    proof -
      have all: "n div 64 = p \<and> bit (- 1 :: u64) (n mod 64) \<longleftrightarrow> 64 * p \<le> n \<and> n < 64 * Suc p" for n
        using in_word [of n p "\<lambda>k. True"] all_mask [rule_format, of "n mod 64"] by (auto simp: add.commute simp del: bit_minus_1_iff)
      obtain d1 m1 where c: "fetch_clear p (- 1) d m = Inr (d1, m1)" "cleared m d {64 * p..<64 * Suc p} m1 d1"
        using fetch_clear_range [OF p all] by blast
      have "m ! p = 0 \<Longrightarrow> d1 = d \<and> m1 = m" "m ! p \<noteq> 0 \<Longrightarrow> d1 = d OR m ! p \<and> m1 = m[p := 0]"
        using c(1) p by (simp_all add: fetch_clear_def arr_get_def arr_set_def) (metis list_update_id)
      then show ?thesis using c(2) p by (cases "m ! p = 0") (simp_all add: arr_set_def)
    qed
    then obtain d1 m1 where s: "(if m ! p \<noteq> 0 then res_bind (arr_set m p 0) (\<lambda>m'. Inr (d OR m ! p, m')) else Inr (d, m)) = Inr (d1, m1)"
      and c: "cleared m d {64 * p..<64 * Suc p} m1 d1" by blast
    have "nr - 64 < nr" "64 * Suc p + (nr - 64) \<le> nbits m1" using True less.prems c by (simp_all add: cleared_def)
    from less.IH [OF this, of d1] obtain d2 m2 where r: "clear_words (Suc p) (nr - 64) d1 m1 = Inr (Suc p + (nr - 64) div 64, (nr - 64) mod 64, d2, m2)"
      "cleared m1 d1 {64 * Suc p..<64 * (Suc p + (nr - 64) div 64)} m2 d2" by blast
    obtain j where j: "nr = j + 64" using True by (metis add.commute le_Suc_ex)
    then have ar: "Suc p + (nr - 64) div 64 = p + nr div 64" "(nr - 64) mod 64 = nr mod 64" by simp_all
    have "64 * p \<le> 64 * Suc p" "64 * Suc p \<le> 64 * (p + nr div 64)" using j by simp_all
    then have "cleared m d {64 * p..<64 * (p + nr div 64)} m2 d2" using cleared_trans [OF c r(2)] unfolding ar by (simp only: join_sets)
    moreover have "clear_words p nr d m = Inr (p + nr div 64, nr mod 64, d2, m2)"
      using True p s r(1) unfolding ar by (subst clear_words.simps) (simp add: BITS_PER_LONG_def arr_get_def)
    ultimately show ?thesis by blast
  next
    case False
    then show ?thesis using cleared_empty by (subst clear_words.simps) (simp add: BITS_PER_LONG_def)
  qed
qed

lemma clear_last_spec:
  assumes "64 * p + lo < sz" and "sz \<le> 64 * p + 64" and "\<forall>k < 64. bit w k \<longleftrightarrow> lo \<le> k" and "sz \<le> nbits m"
  shows "\<exists>d' m'. fetch_clear p (w AND BITMAP_LAST_WORD_MASK sz) d m = Inr (d', m') \<and> cleared m d {64 * p + lo..<sz} m' d'"
proof -
  have "p < length m" using assms(1,4) by linarith
  from fetch_clear_range [OF this last_word_range [OF assms(1-3)]] show ?thesis .
qed

lemma test_and_clear_spec:
  assumes "start + nr \<le> nbits m"
  shows "\<exists>m' d. bitmap_test_and_clear_atomic m start nr = Inr (d \<noteq> 0, m') \<and> cleared m 0 {start..<start + nr} m' d"
proof -
  let ?p = "start div 64" and ?b = "64 - start mod 64"
  have b: "start = 64 * ?p + start mod 64" "start mod 64 < 64" by simp_all
  note def = bitmap_test_and_clear_atomic_def Let_def bitmap_consts
  consider (long) "nr > ?b" | (zero) "nr = 0" | (short) "0 < nr" "nr \<le> ?b" "?b \<noteq> 64" | (word) "0 < nr" "nr \<le> 64" "?b = 64"
    by linarith
  then show ?thesis
  proof cases
    case long
    have "?p < length m" using long assms b by linarith
    from fetch_clear_range [OF this first_word_range] obtain d1 m1 where
      m1: "fetch_clear ?p (BITMAP_FIRST_WORD_MASK start) 0 m = Inr (d1, m1)" "cleared m 0 {start..<64 * ?p + 64} m1 d1" by blast
    let ?nr = "nr - ?b" and ?q = "Suc ?p + (nr - ?b) div 64"
    have "64 * Suc ?p + ?nr = 64 * ?p + start mod 64 + nr" using long b(2) by simp
    then have e: "64 * Suc ?p + ?nr = start + nr" using b(1) by simp
    then have "64 * Suc ?p + ?nr \<le> nbits m1" using m1(2) assms by (simp add: cleared_def)
    from clear_words_spec [OF this, of d1] obtain d2 m2 where m2: "clear_words (Suc ?p) ?nr d1 m1 = Inr (?q, ?nr mod 64, d2, m2)"
      "cleared m1 d1 {64 * Suc ?p..<64 * ?q} m2 d2" by blast
    have sz: "start + nr = 64 * ?q + ?nr mod 64" using e mult_div_mod_eq [of 64 ?nr] by simp
    have join: "start \<le> 64 * Suc ?p" "64 * Suc ?p \<le> 64 * ?q" "start \<le> 64 * ?q" using b by simp_all
    have "64 * ?p + 64 = 64 * Suc ?p" by simp
    then have two: "cleared m 0 {start..<64 * ?q} m2 d2" using cleared_trans [OF m1(2) m2(2)] join_sets [OF join(1,2)] by (simp only:)
    show ?thesis
    proof (cases "?nr mod 64 = 0")
      case True
      then have "start + nr = 64 * ?q" using sz by (simp only: add_0_right)
      then have "cleared m 0 {start..<start + nr} m2 d2" using two by (simp only:)
      then show ?thesis using m1(1) m2(1) True long by (simp add: def) blast
    next
      case False
      have "?nr mod 64 < 64" by simp
      then have s: "64 * ?q + 0 < start + nr" "start + nr \<le> 64 * ?q + 64" unfolding sz using False by linarith+
      have "start + nr \<le> nbits m2" using assms two by (simp add: cleared_def)
      from clear_last_spec [OF s all_mask this, of d2] obtain d3 m3 where m3: "fetch_clear ?q (- 1 AND BITMAP_LAST_WORD_MASK (start + nr)) d2 m2 = Inr (d3, m3)"
        "cleared m2 d2 {64 * ?q + 0..<start + nr} m3 d3" by blast
      have le: "64 * ?q \<le> start + nr" using s(1) by (simp only: add_0_right less_imp_le)
      have "cleared m 0 {start..<start + nr} m3 d3" using cleared_trans [OF two m3(2)] by (simp only: add_0_right join_sets [OF join(3) le])
      then show ?thesis using m1(1) m2(1) m3(1) False long by (simp add: def) blast
    qed
  next
    case zero
    then show ?thesis using cleared_empty by (auto simp: def clear_words.simps [of _ 0])
  next
    case short
    have "64 * ?p + start mod 64 + nr \<le> 64 * ?p + 64" using short(2) b(2) by linarith
    then have s: "64 * ?p + start mod 64 < start + nr" "start + nr \<le> 64 * ?p + 64" using short(1) b(1) by simp_all
    from clear_last_spec [OF s first_mask_all assms, of 0] show ?thesis using short b(1) by (auto simp: def)
  next
    case word
    then have st: "start mod 64 = 0" by simp
    then have st: "start = 64 * ?p" "start mod 64 = 0" using b(1) by simp_all
    have "64 * ?p + nr \<le> nbits m" using assms st by simp
    from clear_words_spec [OF this, of 0] obtain d1 m1 where m1: "clear_words ?p nr 0 m = Inr (?p + nr div 64, nr mod 64, d1, m1)"
      "cleared m 0 {64 * ?p..<64 * (?p + nr div 64)} m1 d1" by blast
    show ?thesis
    proof (cases "nr = 64")
      case True
      then show ?thesis using m1 st by (auto simp: def add.commute)
    next
      case False
      then have nr: "nr div 64 = 0" "nr mod 64 = nr" using word by simp_all
      have s: "64 * ?p + start mod 64 < start + nr" "start + nr \<le> 64 * ?p + 64" using word st by simp_all
      have "start + nr \<le> nbits m1" using assms m1(2) by (simp add: cleared_def)
      from clear_last_spec [OF s first_mask_all this, of d1] obtain d2 m2 where
        m2: "fetch_clear ?p (BITMAP_FIRST_WORD_MASK start AND BITMAP_LAST_WORD_MASK (start + nr)) d1 m1 = Inr (d2, m2)"
        "cleared m1 d1 {64 * ?p + start mod 64..<start + nr} m2 d2" by blast
      have "cleared m 0 {start..<start + nr} m2 d2" using cleared_trans [OF m1(2) m2(2)] nr st by simp
      then show ?thesis using m1(1) m2(1) word nr st(2) by (simp add: def) blast
    qed
  qed
qed

subsection \<open>Searches\<close>

lemma takeWhile_stop_at:
  assumes "x \<in> set xs" and "\<not> Q x"
  shows "length (takeWhile Q xs) < length xs" and "\<not> Q (xs ! length (takeWhile Q xs))" and "\<forall>i < length (takeWhile Q xs). Q (xs ! i)"
proof -
  show l: "length (takeWhile Q xs) < length xs"
  proof (rule ccontr)
    assume "\<not> length (takeWhile Q xs) < length xs"
    then have "takeWhile Q xs = xs" using length_takeWhile_le [of Q xs] takeWhile_eq_take [of Q xs] by simp
    then show False using assms by (metis set_takeWhileD)
  qed
  show "\<not> Q (xs ! length (takeWhile Q xs))" using l by (rule nth_length_takeWhile)
  show "\<forall>i < length (takeWhile Q xs). Q (xs ! i)" by (metis nth_mem set_takeWhileD takeWhile_nth)
qed

lemma word_has_bit: "v \<noteq> 0 \<Longrightarrow> \<exists>k < 64. bit v k" for v :: u64
  using bit_word_eqI [of v 0] by (auto intro: ccontr)

lemma ctz64_spec:
  assumes "v \<noteq> 0"
  shows "ctz64 v < 64" and "bit v (ctz64 v)" and "\<forall>k < ctz64 v. \<not> bit v k"
proof -
  obtain k where "k \<in> set [0..<64]" "\<not> (\<not> bit v k)" using word_has_bit [OF assms] by auto
  note t = takeWhile_stop_at [where Q = "\<lambda>n. \<not> bit v n", OF this]
  show l: "ctz64 v < 64" using t(1) by (simp add: ctz64_def)
  show "bit v (ctz64 v)" using t(2) l unfolding ctz64_def by simp
  show "\<forall>k < ctz64 v. \<not> bit v k" using t(3) l unfolding ctz64_def by simp
qed

lemma clz64_spec:
  assumes "v \<noteq> 0"
  shows "clz64 v < 64" and "bit v (63 - clz64 v)" and "\<forall>k < 64. 63 - clz64 v < k \<longrightarrow> \<not> bit v k"
proof -
  obtain k where "k \<in> set (rev [0..<64])" "\<not> (\<not> bit v k)" using word_has_bit [OF assms] by auto
  note t = takeWhile_stop_at [where Q = "\<lambda>n. \<not> bit v n", OF this]
  have nth: "i < 64 \<Longrightarrow> rev [0..<64] ! i = 63 - i" for i by (simp add: rev_nth)
  show l: "clz64 v < 64" using t(1) by (simp add: clz64_def)
  show "bit v (63 - clz64 v)" using t(2) l unfolding clz64_def [symmetric] by (simp only: nth) simp
  show "\<forall>k < 64. 63 - clz64 v < k \<longrightarrow> \<not> bit v k"
  proof (intro allI impI)
    fix k :: nat assume k: "k < 64" "63 - clz64 v < k"
    then have "63 - k < clz64 v" using l by linarith
    then have "\<not> bit v (rev [0..<64] ! (63 - k))" using t(3) unfolding clz64_def by blast
    then show "\<not> bit v k" using k(1) by (simp add: nth)
  qed
qed

text \<open>\<open>r\<close> is the first number from \<open>lo\<close> on, below \<open>hi\<close>, with the property, or \<open>hi\<close>.\<close>

definition first_in :: "(nat \<Rightarrow> bool) \<Rightarrow> nat \<Rightarrow> nat \<Rightarrow> nat \<Rightarrow> bool" where
  "first_in P lo hi r \<longleftrightarrow> lo \<le> r \<and> r \<le> hi \<and> (\<forall>n. lo \<le> n \<and> n < r \<longrightarrow> \<not> P n) \<and> (r < hi \<longrightarrow> P r)"

lemma first_in_unique: "first_in P lo hi r \<Longrightarrow> first_in P lo hi r' \<Longrightarrow> r = r'"
  unfolding first_in_def by (metis linorder_neqE_nat less_le_trans)

lemma first_in_step: "first_in P mid hi r \<Longrightarrow> lo \<le> mid \<Longrightarrow> (\<forall>n. lo \<le> n \<and> n < mid \<longrightarrow> \<not> P n) \<Longrightarrow> first_in P lo hi r"
  unfolding first_in_def by (metis le_trans not_le)

text \<open>The bits of one word.\<close>

lemma tb_word: "p < length m \<Longrightarrow> k < 64 \<Longrightarrow> tb m (64 * p + k) \<longleftrightarrow> bit (m ! p) k"
  by (simp add: tb_def word_index)

lemma no_bits:
  assumes "p < length m" and "\<forall>k < 64. lo \<le> k \<and> k < hi \<longrightarrow> \<not> bit (m ! p) k" and "hi \<le> 64"
  shows "\<forall>n. 64 * p + lo \<le> n \<and> n < 64 * p + hi \<longrightarrow> \<not> tb m n"
proof (intro allI impI)
  fix n assume "64 * p + lo \<le> n \<and> n < 64 * p + hi"
  then obtain k where "n = 64 * p + k" "lo \<le> k" "k < hi" by (metis add_le_imp_le_left add_less_imp_less_left le_add_diff_inverse le_add1 le_trans)
  then show "\<not> tb m n" using assms by (simp add: tb_word)
qed

lemma found_middle:
  assumes "p < length m" and "v \<noteq> 0" and "\<forall>k < 64. lo \<le> k \<longrightarrow> bit v k = bit (m ! p) k" and "\<forall>k < lo. \<not> bit v k" and "64 * p + 64 \<le> hi"
  shows "first_in (tb m) (64 * p + lo) hi (64 * p + ctz64 v)"
proof -
  note c = ctz64_spec [OF assms(2)]
  have lo: "lo \<le> ctz64 v" using assms(4) c(2) by (meson not_le)
  have "\<forall>n. 64 * p + lo \<le> n \<and> n < 64 * p + ctz64 v \<longrightarrow> \<not> tb m n" using c assms(3) by (intro no_bits [OF assms(1)]) auto
  then show ?thesis using lo c assms by (simp add: first_in_def tb_word)
qed

lemma low_mask_bit: "0 < sz \<Longrightarrow> sz \<le> 64 \<Longrightarrow> bit (drop_bit (64 - sz) (- 1 :: u64)) k \<longleftrightarrow> k < sz"
  by (auto simp: bit_mask_iff)

lemma found_first_spec:
  assumes "p < length m" and "lo < sz" and "sz \<le> 64" and "\<forall>k < 64. lo \<le> k \<longrightarrow> bit v k = bit (m ! p) k" and "\<forall>k < lo. \<not> bit v k"
  shows "\<exists>r. found_first v sz (64 * p) = Inr r \<and> first_in (tb m) (64 * p + lo) (64 * p + sz) r"
proof -
  define w where "w = v AND drop_bit (64 - sz) (- 1)"
  have bw: "bit w k \<longleftrightarrow> bit v k \<and> k < sz" for k using assms(2,3) by (simp only: w_def bit_and_iff low_mask_bit)
  have ff: "found_first v sz (64 * p) = (if w = 0 then Inr (64 * p + sz) else Inr (64 * p + ctz64 w))"
    by (simp only: found_first_def w_def Let_def BITS_PER_LONG_def)
  show ?thesis
  proof (cases "w = 0")
    case True
    then have "bit v k \<Longrightarrow> \<not> k < sz" for k using bw [of k] by simp
    then have "\<forall>n. 64 * p + lo \<le> n \<and> n < 64 * p + sz \<longrightarrow> \<not> tb m n" using assms(4) by (intro no_bits [OF assms(1) _ assms(3)]) blast
    then show ?thesis using True assms(2) by (simp add: ff first_in_def)
  next
    case False
    note c = ctz64_spec [OF False]
    have b: "bit v (ctz64 w)" "ctz64 w < sz" using c(2) bw by blast+
    have lo: "lo \<le> ctz64 w" using assms(5) b(1) by (meson not_le)
    have "\<forall>k < 64. lo \<le> k \<and> k < ctz64 w \<longrightarrow> \<not> bit (m ! p) k" using c(3) bw b(2) assms(4) by (meson less_trans)
    then have "\<forall>n. 64 * p + lo \<le> n \<and> n < 64 * p + ctz64 w \<longrightarrow> \<not> tb m n" using c(1) by (intro no_bits [OF assms(1)]) auto
    moreover have "tb m (64 * p + ctz64 w)" using b(1) c(1) lo assms(1,4) by (simp add: tb_word)
    ultimately show ?thesis using False lo b(2) by (simp add: ff first_in_def)
  qed
qed

lemma next_words_spec:
  "64 * p + sz \<le> nbits m \<Longrightarrow> \<exists>r. next_words m p sz (64 * p) = Inr r \<and> first_in (tb m) (64 * p) (64 * p + sz) r"
proof (induction sz arbitrary: p rule: less_induct)
  case (less sz)
  consider (word) "sz \<ge> 64" | (none) "sz = 0" | (part) "0 < sz" "sz < 64" by linarith
  then show ?case
  proof cases
    case word
    have p: "p < length m" using word less.prems by linarith
    show ?thesis
    proof (cases "m ! p = 0")
      case True
      have "64 * Suc p + (sz - 64) \<le> nbits m" using word less.prems by simp
      from less.IH [OF _ this] word obtain r where r: "next_words m (Suc p) (sz - 64) (64 * Suc p) = Inr r"
        "first_in (tb m) (64 * Suc p) (64 * Suc p + (sz - 64)) r" by auto
      have ar: "64 * Suc p = 64 * p + 64" "64 * p + 64 + (sz - 64) = 64 * p + sz" using word by simp_all
      note r = r [unfolded ar(1), unfolded ar(2)]
      have "\<forall>n. 64 * p + 0 \<le> n \<and> n < 64 * p + 64 \<longrightarrow> \<not> tb m n" using True by (intro no_bits [OF p]) simp_all
      then have "first_in (tb m) (64 * p) (64 * p + sz) r" using first_in_step [OF r(2)] by simp
      moreover have "next_words m p sz (64 * p) = Inr r"
        using r(1) word p True by (subst next_words.simps) (simp add: BITS_PER_LONG_def arr_get_def add.commute)
      ultimately show ?thesis by blast
    next
      case False
      have "first_in (tb m) (64 * p + 0) (64 * p + sz) (64 * p + ctz64 (m ! p))" by (rule found_middle [OF p False]) (use word in auto)
      then show ?thesis using word p False by (subst next_words.simps) (simp add: BITS_PER_LONG_def arr_get_def)
    qed
  next
    case none
    then show ?thesis by (subst next_words.simps) (auto simp: first_in_def BITS_PER_LONG_def)
  next
    case part
    have p: "p < length m" using part less.prems by linarith
    from found_first_spec [OF p part(1), of "m ! p"] obtain r where "found_first (m ! p) sz (64 * p) = Inr r"
      "first_in (tb m) (64 * p) (64 * p + sz) r" using part by auto
    then show ?thesis using part p by (subst next_words.simps) (simp add: BITS_PER_LONG_def arr_get_def)
  qed
qed

text \<open>The unrolled loop finds what the plain one finds.\<close>

lemma next_quads_words: "64 * p + sz \<le> nbits m \<Longrightarrow> next_quads m p sz r = next_words m p sz r"
proof (induction sz arbitrary: p r rule: less_induct)
  case (less sz)
  show ?case
  proof (cases "sz \<ge> 256")
    case True
    then have b: "p + 3 < length m" using less.prems by linarith
    have step: "next_words m q k s = next_words m q' k' s'" if "q < length m" "m ! q = 0" "64 \<le> k" "q' = q + 1" "k' = k - 64" "s' = s + 64" for q k s q' k' s'
      using that by (subst next_words.simps) (simp add: BITS_PER_LONG_def arr_get_def)
    have IH: "next_quads m (p + 4) (sz - 256) (r + 256) = next_words m (p + 4) (sz - 256) (r + 256)" using True less.prems by (intro less.IH) simp_all
    show ?thesis
    proof (cases "m ! p = 0 \<and> (m ! (p + 1) OR m ! (p + 2)) OR m ! (p + 3) = 0")
      case zero: True
      have or0: "x OR y = 0 \<Longrightarrow> x = 0 \<and> y = 0" for x y :: u64 by (metis or_eq_0_iff)
      have z: "m ! (p + 1) = 0" "m ! (p + 2) = 0" "m ! (p + 3) = 0" using zero or0 by blast+
      have "next_words m p sz r = next_words m (p + 1) (sz - 64) (r + 64)" by (rule step) (use b True zero in simp_all)
      also have "\<dots> = next_words m (p + 2) (sz - 128) (r + 128)" by (rule step) (use b True z in simp_all)
      also have "\<dots> = next_words m (p + 3) (sz - 192) (r + 192)" by (rule step) (use b True z in simp_all)
      also have "\<dots> = next_words m (p + 4) (sz - 256) (r + 256)" by (rule step) (use b True z in simp_all)
      finally have "next_words m p sz r = next_words m (p + 4) (sz - 256) (r + 256)" .
      then show ?thesis using IH b True zero by (subst next_quads.simps) (simp add: BITS_PER_LONG_def arr_get_def)
    next
      case False
      then show ?thesis using b True by (subst next_quads.simps) (auto simp: BITS_PER_LONG_def arr_get_def next_words.simps [of m p sz r])
    qed
  next
    case False
    then show ?thesis by (subst next_quads.simps) (simp add: BITS_PER_LONG_def)
  qed
qed

lemma find_next_bit_spec:
  assumes "offset < sz" and "sz \<le> nbits m"
  shows "\<exists>r. find_next_bit m sz offset = Inr r \<and> first_in (tb m) offset sz r"
proof -
  let ?p = "offset div 64" and ?o = "offset mod 64"
  have o: "offset = 64 * ?p + ?o" "?o < 64" by simp_all
  have res: "offset - ?o = 64 * ?p" using o(1) by linarith
  have p: "?p < length m" using assms o by linarith
  note def = find_next_bit_def Let_def BIT_WORD_def BITS_PER_LONG_def res
  show ?thesis
  proof (cases "?o = 0")
    case True
    then have off: "offset = 64 * ?p" using o(1) by simp
    have e: "64 * ?p + (sz - 64 * ?p) = sz" using assms(1) off by simp
    then have "64 * ?p + (sz - 64 * ?p) \<le> nbits m" using assms(2) by simp
    from next_words_spec [OF this] next_quads_words [OF this, of "64 * ?p"] show ?thesis using True assms(1) off e by (simp add: def)
  next
    case False
    define v where "v = m ! ?p AND push_bit ?o (- 1)"
    have v: "bit v k \<longleftrightarrow> bit (m ! ?p) k \<and> ?o \<le> k" if "k < 64" for k
      using that unfolding v_def bit_and_iff bit_push_bit_iff by (auto simp del: push_bit_minus_one_eq_not_mask)
    then have vs: "\<forall>k < 64. ?o \<le> k \<longrightarrow> bit v k = bit (m ! ?p) k" "\<forall>k < ?o. \<not> bit v k" using o(2) by auto
    have get: "arr_get m ?p = Inr (m ! ?p)" using p by (simp add: arr_get_def)
    have fn: "find_next_bit m sz offset = (if sz - 64 * ?p < 64 then found_first v (sz - 64 * ?p) (64 * ?p)
        else if v \<noteq> 0 then Inr (64 * ?p + ctz64 v) else next_quads m (Suc ?p) (sz - 64 * ?p - 64) (64 * ?p + 64))"
      using assms(1) False get unfolding def v_def by simp
    consider (short) "sz - 64 * ?p < 64" | (hit) "\<not> sz - 64 * ?p < 64" "v \<noteq> 0" | (miss) "\<not> sz - 64 * ?p < 64" "v = 0" by blast
    then show ?thesis
    proof cases
      case short
      have "?o < sz - 64 * ?p" "64 * ?p + (sz - 64 * ?p) = sz" using assms(1) o by linarith+
      then show ?thesis using found_first_spec [OF p _ less_imp_le [OF short] vs] short o(1) unfolding fn by simp
    next
      case hit
      then have "64 * ?p + 64 \<le> sz" by linarith
      from found_middle [OF p hit(2) vs this] show ?thesis using hit o(1) unfolding fn by simp
    next
      case miss
      let ?s = "sz - 64 * ?p - 64"
      have e: "64 * Suc ?p = 64 * ?p + 64" "64 * Suc ?p + ?s = sz" using miss(1) by simp_all
      then have le: "64 * Suc ?p + ?s \<le> nbits m" using assms(2) by simp
      obtain r where r: "next_words m (Suc ?p) ?s (64 * Suc ?p) = Inr r" "first_in (tb m) (64 * Suc ?p) sz r" using next_words_spec [OF le] unfolding e(2) by blast
      have "\<forall>k < 64. ?o \<le> k \<and> k < 64 \<longrightarrow> \<not> bit (m ! ?p) k" using vs(1) miss(2) by auto
      from no_bits [OF p this] have "\<forall>n. offset \<le> n \<and> n < 64 * Suc ?p \<longrightarrow> \<not> tb m n" using o(1) e(1) by simp
      moreover have "offset \<le> 64 * Suc ?p" unfolding e(1) using o by linarith
      ultimately have "first_in (tb m) offset sz r" by (intro first_in_step [OF r(2)])
      then show ?thesis using miss r(1) next_quads_words [OF le, of "64 * Suc ?p"] unfolding fn e(1) by simp
    qed
  qed
qed

text \<open>The search for a clear bit is the search for a set bit in the complement.\<close>

lemma found_first_complement: "0 < sz \<Longrightarrow> sz < 64 \<Longrightarrow> found_first_zero v sz r = found_first (NOT v) sz r"
proof -
  assume sz: "0 < sz" "sz < 64"
  have m: "NOT (push_bit sz (- 1 :: u64)) = drop_bit (64 - sz) (- 1)"
    by (rule bit_word_eqI) (use sz in \<open>auto simp: bit_not_iff bit_mask_iff\<close>)
  have eq: "NOT (v OR push_bit sz (- 1)) = NOT v AND drop_bit (64 - sz) (- 1)" by (simp only: m [symmetric] bit.de_Morgan_disj)
  have "x = - 1 \<longleftrightarrow> NOT x = 0" for x :: u64 by (metis bit.compl_one bit.double_compl bit.compl_zero)
  then show ?thesis unfolding found_first_zero_def found_first_def Let_def BITS_PER_LONG_def eq [symmetric] by simp
qed

lemma arr_get_complement: "arr_get (map f m) p = (case arr_get m p of Inl e \<Rightarrow> Inl e | Inr w \<Rightarrow> Inr (f w))"
  by (simp add: arr_get_def)

lemma next_zero_complement: "next_zero_words m p sz r = next_words (map NOT m) p sz r"
proof (induction sz arbitrary: p r rule: less_induct)
  case (less sz)
  have d: "sz div 64 \<noteq> 0 \<longleftrightarrow> 64 \<le> sz" by (simp add: div_eq_0_iff not_less)
  show ?case
    by (subst next_zero_words.simps, subst next_words.simps)
      (auto simp: BITS_PER_LONG_def d less.IH found_first_complement arr_get_complement split: sum.splits)
qed

lemma find_next_zero_complement:
  assumes "sz \<le> nbits m"
  shows "find_next_zero_bit m sz offset = find_next_bit (map NOT m) sz offset"
proof (cases "offset \<ge> sz")
  case True
  then show ?thesis by (simp add: find_next_zero_bit_def find_next_bit_def)
next
  case False
  let ?p = "offset div 64" and ?o = "offset mod 64"
  have o: "offset = 64 * ?p + ?o" "?o < 64" by simp_all
  have res: "offset - ?o = 64 * ?p" using o(1) by linarith
  have p: "?p < length m" using assms o False by linarith
  note def = Let_def BIT_WORD_def BITS_PER_LONG_def res next_zero_complement
  have q0: "next_quads (map NOT m) ?p (sz - 64 * ?p) r = next_words (map NOT m) ?p (sz - 64 * ?p) r" for r
    using assms False o by (intro next_quads_words) simp
  have q1: "\<not> sz - 64 * ?p < 64 \<Longrightarrow> next_quads (map NOT m) (Suc ?p) (sz - 64 * ?p - 64) r = next_words (map NOT m) (Suc ?p) (sz - 64 * ?p - 64) r" for r
    using assms by (intro next_quads_words) simp
  show ?thesis
  proof (cases "?o = 0")
    case True
    then show ?thesis using False q0 unfolding find_next_zero_bit_def find_next_bit_def def by simp
  next
    case nz: False
    have "NOT (drop_bit (64 - ?o) (- 1 :: u64)) = push_bit ?o (- 1)"
      by (rule bit_word_eqI) (use nz o(2) in \<open>auto simp: bit_not_iff bit_mask_iff\<close>)
    then have eq: "NOT (w OR drop_bit (64 - ?o) (- 1)) = NOT w AND push_bit ?o (- 1)" for w :: u64
      by (simp only: bit.de_Morgan_disj)
    have "0 < sz - 64 * ?p" using False o by linarith
    then show ?thesis using False nz p q1 found_first_complement [of "sz - 64 * ?p"]
      unfolding find_next_zero_bit_def find_next_bit_def def eq [symmetric] by (simp add: arr_get_def eq)
  qed
qed

lemma find_next_zero_bit_spec:
  assumes "offset < sz" and "sz \<le> nbits m"
  shows "\<exists>r. find_next_zero_bit m sz offset = Inr r \<and> first_in (\<lambda>n. \<not> tb m n) offset sz r"
proof -
  have "sz \<le> nbits (map NOT m)" using assms(2) by simp
  from find_next_bit_spec [OF assms(1) this] obtain r where r: "find_next_bit (map NOT m) sz offset = Inr r" "first_in (tb (map NOT m)) offset sz r" by blast
  have "tb (map NOT m) n \<longleftrightarrow> \<not> tb m n" if "n < sz" for n
    using that assms(2) by (auto simp: tb_def word_index bit_not_iff)
  then have "first_in (\<lambda>n. \<not> tb m n) offset sz r" using r(2) unfolding first_in_def by (metis less_le_trans)
  then show ?thesis using r(1) find_next_zero_complement [OF assms(2)] by simp
qed

text \<open>The search from the end.\<close>

definition last_in :: "(nat \<Rightarrow> bool) \<Rightarrow> nat \<Rightarrow> nat \<Rightarrow> bool" where
  "last_in P hi r \<longleftrightarrow> (r = hi \<and> (\<forall>n < hi. \<not> P n)) \<or> (r < hi \<and> P r \<and> (\<forall>n. r < n \<and> n < hi \<longrightarrow> \<not> P n))"

lemma found_last:
  assumes "w < length m" and "v \<noteq> 0" and "k \<le> 64" and "\<forall>j < 64. bit v j \<longleftrightarrow> j < k \<and> bit (m ! w) j" and "hi = 64 * w + k \<or> 64 * w + k \<le> hi \<and> (\<forall>n. 64 * w + k \<le> n \<and> n < hi \<longrightarrow> \<not> tb m n)"
  shows "last_in (tb m) hi (w * 64 + 64 - 1 - clz64 v)"
proof -
  note c = clz64_spec [OF assms(2)]
  define j where "j = 63 - clz64 v"
  have r: "w * 64 + 64 - 1 - clz64 v = 64 * w + j" using c(1) by (simp add: j_def)
  have j: "j < 64" "j < k" "bit (m ! w) j" using c(2) assms(4) unfolding j_def by auto
  have "\<forall>i < 64. Suc j \<le> i \<and> i < k \<longrightarrow> \<not> bit (m ! w) i" using c(3) assms(4) unfolding j_def by auto
  from no_bits [OF assms(1) this assms(3)] have "\<forall>n. 64 * w + j < n \<and> n < 64 * w + k \<longrightarrow> \<not> tb m n" by (simp add: Suc_le_eq)
  moreover have "64 * w + j < hi" using j(2) assms(5) by linarith
  ultimately show ?thesis unfolding r last_in_def using j assms(1,5) by (metis (no_types, lifting) not_le tb_word)
qed

lemma last_words_spec:
  "w \<le> length m \<Longrightarrow> 64 * w \<le> hi \<Longrightarrow> \<forall>n. 64 * w \<le> n \<and> n < hi \<longrightarrow> \<not> tb m n \<Longrightarrow>
     \<exists>r. last_words m w hi = Inr r \<and> last_in (tb m) hi r"
proof (induction w)
  case 0
  then show ?case by (simp add: last_in_def)
next
  case (Suc w)
  have w: "w < length m" using Suc.prems(1) by simp
  show ?case
  proof (cases "m ! w = 0")
    case True
    have "\<forall>n. 64 * w + 0 \<le> n \<and> n < 64 * w + 64 \<longrightarrow> \<not> tb m n" using True by (intro no_bits [OF w]) simp_all
    then have "\<forall>n. 64 * w \<le> n \<and> n < hi \<longrightarrow> \<not> tb m n" using Suc.prems(3) by (metis add.commute add_0 mult_Suc_right not_le)
    then show ?thesis using Suc True w by (simp add: arr_get_def)
  next
    case False
    have "last_in (tb m) hi (w * 64 + 64 - 1 - clz64 (m ! w))"
      by (rule found_last [OF w False, of 64]) (use Suc.prems in \<open>auto simp: add.commute\<close>)
    then show ?thesis using False w by (simp add: arr_get_def BITS_PER_LONG_def)
  qed
qed

lemma find_last_bit_spec:
  assumes "sz \<le> nbits m"
  shows "\<exists>r. find_last_bit m sz = Inr r \<and> last_in (tb m) sz r"
proof -
  let ?w = "sz div 64" and ?k = "sz mod 64"
  have s: "sz = 64 * ?w + ?k" "?k < 64" by simp_all
  have wl: "?w \<le> length m" using s assms by linarith
  show ?thesis
  proof (cases "?k = 0")
    case True
    then have "64 * ?w = sz" using s(1) by simp
    then have "\<forall>n. 64 * ?w \<le> n \<and> n < sz \<longrightarrow> \<not> tb m n" "64 * ?w \<le> sz" by auto
    then show ?thesis using last_words_spec [OF wl] True by (simp add: find_last_bit_def Let_def BITS_PER_LONG_def)
  next
    case False
    then have w: "?w < length m" using s assms by linarith
    define v where "v = m ! ?w AND drop_bit (64 - ?k) (- 1)"
    have v: "\<forall>j < 64. bit v j \<longleftrightarrow> j < ?k \<and> bit (m ! ?w) j" using low_mask_bit [of ?k] False s(2) unfolding v_def bit_and_iff by auto
    have fl: "find_last_bit m sz = (if v \<noteq> 0 then Inr (?w * 64 + 64 - 1 - clz64 v) else last_words m ?w sz)"
      using False w by (simp only: find_last_bit_def Let_def BITS_PER_LONG_def v_def arr_get_def if_True res_bind_simps simp_thms)
    show ?thesis
    proof (cases "v = 0")
      case True
      then have "\<forall>i < 64. 0 \<le> i \<and> i < ?k \<longrightarrow> \<not> bit (m ! ?w) i" using v by auto
      from no_bits [OF w this] have "\<forall>n. 64 * ?w \<le> n \<and> n < sz \<longrightarrow> \<not> tb m n" using s by simp
      then show ?thesis using last_words_spec [OF wl] True s(1) unfolding fl by simp
    next
      case nz: False
      have "sz = 64 * ?w + ?k \<or> 64 * ?w + ?k \<le> sz \<and> (\<forall>n. 64 * ?w + ?k \<le> n \<and> n < sz \<longrightarrow> \<not> tb m n)" using s(1) by simp
      from found_last [OF w nz less_imp_le [OF s(2)] v this] show ?thesis using nz unfolding fl by simp
    qed
  qed
qed

section \<open>Fields\<close>

lemma field_mask_bit:
  assumes "0 < len" "start + len \<le> 64"
  shows "bit (push_bit start (drop_bit (64 - len) (- 1 :: u64))) k \<longleftrightarrow> start \<le> k \<and> k < start + len"
  using assms by (auto simp: bit_push_bit_iff bit_mask_iff)

lemma extract_deposit:
  assumes "0 < len" "start + len \<le> 64"
  shows "res_bind (deposit64 value start len fieldval) (\<lambda>v. extract64 v start len) = Inr (take_bit len fieldval)"
proof -
  define F L :: u64 where "F = push_bit start (drop_bit (64 - len) (- 1))" and "L = drop_bit (64 - len) (- 1)"
  have F: "bit F k \<longleftrightarrow> start \<le> k \<and> k < start + len" for k unfolding F_def by (rule field_mask_bit [OF assms])
  have L: "bit L k \<longleftrightarrow> k < len" for k unfolding L_def using assms by (intro low_mask_bit) simp_all
  have "drop_bit start ((value AND NOT F) OR (push_bit start fieldval AND F)) AND L = take_bit len fieldval"
    by (rule bit_word_eqI) (use assms in \<open>auto simp: bit_and_iff bit_or_iff bit_not_iff bit_drop_bit_eq bit_take_bit_iff bit_push_bit_iff F L\<close>)
  moreover have "F = push_bit start L" by (simp only: F_def L_def)
  ultimately show ?thesis using assms unfolding deposit64_def extract64_def Let_def L_def [symmetric] by simp
qed

section \<open>Theorems\<close>

text \<open>
  C21. The searches return, for every bitmap and every size within it, the first bit set at or after
  the offset, the first bit clear at or after the offset, and the last bit set, or the size when there
  is none, although they look at whole words, four at a time.
\<close>

theorem bitmap_searches_exact:
  assumes "offset < sz" and "sz \<le> 64 * length m"
  shows "(\<exists>r. find_next_bit m sz offset = Inr r \<and> first_in (tb m) offset sz r) \<and>
    (\<exists>r. find_next_zero_bit m sz offset = Inr r \<and> first_in (\<lambda>n. \<not> tb m n) offset sz r) \<and>
    (\<exists>r. find_last_bit m sz = Inr r \<and> last_in (tb m) sz r)"
  using find_next_bit_spec [OF assms] find_next_zero_bit_spec [OF assms] find_last_bit_spec [OF assms(2)] by blast

theorem bitmap_searches_exact_witness:
  "find_next_bit [0, 0, 0, 0, 0, 2] 384 70 = Inr 321 \<and> first_in (tb [0, 0, 0, 0, 0, 2]) 70 384 321"
proof -
  have "find_next_bit [0, 0, 0, 0, 0, 2] 384 70 = Inr 321" by code_simp
  then show ?thesis using bitmap_searches_exact [of 70 384 "[0, 0, 0, 0, 0, 2]"] by auto
qed

end
