(* ===== verification/Soft_Tlb.thy ===== *)
theory Soft_Tlb
  imports Mmu_Walk Bitmap
begin

text \<open>
  The software TLB of the processor (\<open>accel/tcg/cputlb.c\<close>, \<open>exec/cpu-defs.h\<close>, \<open>exec/cpu-ldst.h\<close>,
  \<open>exec/cpu-all.h\<close>, \<open>exec/tb-hash.h\<close>): a direct-mapped table per MMU mode whose size follows its
  use, a small associative table of evicted entries, the region of large pages, the flushes, and the
  flags that send an access to the slow path. The two descriptors of a mode (\<open>d[i]\<close> and \<open>f[i]\<close> in
  the code) are one record, and the jump cache of the processor, which the flushes clear, is kept
  beside the TLB. The locks are left out; the processor is the only one and always flushes itself.
\<close>

section \<open>Layout\<close>

definition TLB_INVALID_MASK :: u32 where "TLB_INVALID_MASK = BIT 11"
definition TLB_NOTDIRTY :: u32 where "TLB_NOTDIRTY = BIT 10"
definition TLB_MMIO :: u32 where "TLB_MMIO = BIT 9"
definition TLB_WATCHPOINT :: u32 where "TLB_WATCHPOINT = BIT 8"
definition TLB_BSWAP :: u32 where "TLB_BSWAP = BIT 7"
definition TLB_DISCARD_WRITE :: u32 where "TLB_DISCARD_WRITE = BIT 6"

definition CPU_VTLB_SIZE :: nat where "CPU_VTLB_SIZE = 8"
definition CPU_TLB_ENTRY_BITS :: nat where "CPU_TLB_ENTRY_BITS = 5"
definition CPU_TLB_DYN_MIN_BITS :: nat where "CPU_TLB_DYN_MIN_BITS = 6"
definition CPU_TLB_DYN_DEFAULT_BITS :: nat where "CPU_TLB_DYN_DEFAULT_BITS = 8"
definition CPU_TLB_DYN_MAX_BITS :: nat where "CPU_TLB_DYN_MAX_BITS = 20"
definition ALL_MMUIDX_BITS :: u16 where "ALL_MMUIDX_BITS = BIT 3 - 1"
definition IOTLB_MAGIC :: u64 where "IOTLB_MAGIC = 0x43"

record CPUTLBEntry =
  addr_read :: u32
  addr_write :: u32
  addr_code :: u32
  addend :: u64

text \<open>Of the transaction attributes only the secure bit is ever set.\<close>

record CPUIOTLBEntry =
  io_addr :: u64
  io_secure :: bool

text \<open>
  The array \<open>iotlb\<close> is a function: its elements are not initialised when it is allocated, and keep
  an arbitrary value until the entry of the same index is filled.
\<close>

record CPUTLBDesc =
  large_page_addr :: u32
  large_page_mask :: u32
  window_begin_ns :: int
  window_max_entries :: u64
  n_used_entries :: u64
  vindex :: u64
  vtable :: "CPUTLBEntry list"
  viotlb :: "CPUIOTLBEntry list"
  iotlb :: "nat \<Rightarrow> CPUIOTLBEntry"
  size_mask :: u64
  table :: "CPUTLBEntry list"

record CPUTLB =
  tlb_dirty :: u16
  full_flush_count :: u64
  part_flush_count :: u64
  elide_flush_count :: u64
  mode :: "mmu_idx \<Rightarrow> CPUTLBDesc"
  tb_jmp_cache :: "nat \<Rightarrow> nat option"

primrec idx_bit :: "mmu_idx \<Rightarrow> nat" where
  "idx_bit MMU_KSMAP_IDX = 0"
| "idx_bit MMU_USER_IDX = 1"
| "idx_bit MMU_KNOSMAP_IDX = 2"

definition mmu_modes :: "mmu_idx list" where
  "mmu_modes = [MMU_KSMAP_IDX, MMU_USER_IDX, MMU_KNOSMAP_IDX]"

text \<open>An entry after \<open>memset(..., -1, ...)\<close>.\<close>

definition blank_entry :: CPUTLBEntry where
  "blank_entry = \<lparr>addr_read = - 1, addr_write = - 1, addr_code = - 1, addend = - 1\<rparr>"

definition tlb_index :: "CPUTLBDesc \<Rightarrow> u32 \<Rightarrow> nat" where
  "tlb_index d addr = unat (ucast (drop_bit 12 addr) AND drop_bit CPU_TLB_ENTRY_BITS (size_mask d))"

definition tlb_n_entries :: "CPUTLBDesc \<Rightarrow> u64" where
  "tlb_n_entries d = drop_bit CPU_TLB_ENTRY_BITS (size_mask d) + 1"

definition tlb_entry :: "CPUTLBDesc \<Rightarrow> u32 \<Rightarrow> CPUTLBEntry" where
  "tlb_entry d addr = table d ! tlb_index d addr"

definition tlb_hit_page :: "u32 \<Rightarrow> u32 \<Rightarrow> bool" where
  "tlb_hit_page tlb_addr addr \<longleftrightarrow> addr = tlb_addr AND (TARGET_PAGE_MASK OR TLB_INVALID_MASK)"

definition tlb_hit :: "u32 \<Rightarrow> u32 \<Rightarrow> bool" where
  "tlb_hit tlb_addr addr \<longleftrightarrow> tlb_hit_page tlb_addr (addr AND TARGET_PAGE_MASK)"

definition upd_mode :: "mmu_idx \<Rightarrow> CPUTLBDesc \<Rightarrow> CPUTLB \<Rightarrow> CPUTLB" where
  "upd_mode i d t = t\<lparr>mode := (mode t)(i := d)\<rparr>"

section \<open>The jump cache\<close>

definition TB_JMP_CACHE_SIZE :: nat where "TB_JMP_CACHE_SIZE = 4096"
definition TB_JMP_PAGE_SIZE :: nat where "TB_JMP_PAGE_SIZE = 64"
definition TB_JMP_ADDR_MASK :: u32 where "TB_JMP_ADDR_MASK = 0x3f"
definition TB_JMP_PAGE_MASK :: u32 where "TB_JMP_PAGE_MASK = 0xfc0"

definition tb_jmp_cache_hash_page :: "u32 \<Rightarrow> nat" where
  "tb_jmp_cache_hash_page pc = (let tmp = pc XOR drop_bit 6 pc in unat (drop_bit 6 tmp AND TB_JMP_PAGE_MASK))"

definition tb_jmp_cache_hash_func :: "u32 \<Rightarrow> nat" where
  "tb_jmp_cache_hash_func pc =
     (let tmp = pc XOR drop_bit 6 pc in unat ((drop_bit 6 tmp AND TB_JMP_PAGE_MASK) OR (tmp AND TB_JMP_ADDR_MASK)))"

definition cpu_tb_jmp_cache_clear :: "CPUTLB \<Rightarrow> CPUTLB" where
  "cpu_tb_jmp_cache_clear t = t\<lparr>tb_jmp_cache := \<lambda>h. if h < TB_JMP_CACHE_SIZE then None else tb_jmp_cache t h\<rparr>"

definition tb_jmp_cache_clear_page :: "u32 \<Rightarrow> CPUTLB \<Rightarrow> CPUTLB" where
  "tb_jmp_cache_clear_page page_addr t =
     (let i0 = tb_jmp_cache_hash_page page_addr
      in t\<lparr>tb_jmp_cache := \<lambda>h. if i0 \<le> h \<and> h < i0 + TB_JMP_PAGE_SIZE then None else tb_jmp_cache t h\<rparr>)"

definition tb_flush_jmp_cache :: "u32 \<Rightarrow> CPUTLB \<Rightarrow> CPUTLB" where
  "tb_flush_jmp_cache addr t = tb_jmp_cache_clear_page addr (tb_jmp_cache_clear_page (addr - 0x1000) t)"

section \<open>Size of the table\<close>

text \<open>
  The answers of the host to a resize: the time, whether the \<open>k\<close>-th pair of allocations succeeds
  for a number of entries, and what the allocated memory holds.
\<close>

record host_answers =
  now_ns :: int
  alloc_ok :: "nat \<Rightarrow> u64 \<Rightarrow> bool"
  fresh :: "nat \<Rightarrow> CPUTLBEntry"

definition pow2ceil :: "u64 \<Rightarrow> u64" where
  "pow2ceil value = (let n = clz64 (value - 1)
     in if n = 0 then of_bool (value = 0) else drop_bit (n - 1) 0x8000000000000000)"

definition tlb_window_reset :: "int \<Rightarrow> u64 \<Rightarrow> CPUTLBDesc \<Rightarrow> CPUTLBDesc" where
  "tlb_window_reset ns max_entries d = d\<lparr>window_begin_ns := ns, window_max_entries := max_entries\<rparr>"

text \<open>
  Until an allocation succeeds the size is halved down to the smallest one. The \<open>abort()\<close> of the
  smallest size is commented out in the code, so the loop may run forever.
\<close>

partial_function (option) shrink_loop :: "(nat \<Rightarrow> u64 \<Rightarrow> bool) \<Rightarrow> nat \<Rightarrow> u64 \<Rightarrow> u64 option" where
  "shrink_loop ok k new_size =
     (if ok k new_size then Some new_size else shrink_loop ok (Suc k) (max (drop_bit 1 new_size) (BIT CPU_TLB_DYN_MIN_BITS)))"

definition wanted_size :: "bool \<Rightarrow> CPUTLBDesc \<Rightarrow> u64" where
  "wanted_size window_expired d =
     (let old_size = tlb_n_entries d;
          rate = window_max_entries d * 100 div old_size
      in if rate > 70 then min (push_bit 1 old_size) (BIT CPU_TLB_DYN_MAX_BITS)
         else if rate < 30 \<and> window_expired
         then let ceil = pow2ceil (window_max_entries d);
                  expected_rate = window_max_entries d * 100 div ceil;
                  ceil = (if expected_rate > 70 then ceil * 2 else ceil)
              in max ceil (BIT CPU_TLB_DYN_MIN_BITS)
         else old_size)"

definition tlb_mmu_resize_locked :: "host_answers \<Rightarrow> CPUTLBDesc \<Rightarrow> CPUTLBDesc option" where
  "tlb_mmu_resize_locked h d =
     (let window_expired = (now_ns h > window_begin_ns d + 100 * 1000 * 1000);
          d = (if n_used_entries d > window_max_entries d then d\<lparr>window_max_entries := n_used_entries d\<rparr> else d);
          new_size = wanted_size window_expired d
      in if new_size = tlb_n_entries d
         then Some (if window_expired then tlb_window_reset (now_ns h) (n_used_entries d) d else d)
         else
           let d = tlb_window_reset (now_ns h) 0 d
           in case shrink_loop (alloc_ok h) 0 new_size of
                None \<Rightarrow> None
              | Some n \<Rightarrow> Some (d\<lparr>size_mask := push_bit CPU_TLB_ENTRY_BITS (n - 1), table := map (fresh h) [0..<unat n]\<rparr>))"

definition tlb_dyn_init :: "host_answers \<Rightarrow> CPUTLBDesc \<Rightarrow> CPUTLBDesc" where
  "tlb_dyn_init h d =
     (tlb_window_reset (now_ns h) 0 d)\<lparr>n_used_entries := 0,
        size_mask := push_bit CPU_TLB_ENTRY_BITS (BIT CPU_TLB_DYN_DEFAULT_BITS - 1),
        table := map (fresh h) [0..<2 ^ CPU_TLB_DYN_DEFAULT_BITS]\<rparr>"

definition tlb_init :: "(mmu_idx \<Rightarrow> host_answers) \<Rightarrow> CPUTLB \<Rightarrow> CPUTLB" where
  "tlb_init h t = t\<lparr>tlb_dirty := ALL_MMUIDX_BITS, mode := \<lambda>i. tlb_dyn_init (h i) (mode t i)\<rparr>"

definition tlb_table_flush_by_mmuidx :: "host_answers \<Rightarrow> CPUTLBDesc \<Rightarrow> CPUTLBDesc option" where
  "tlb_table_flush_by_mmuidx h d =
     (case tlb_mmu_resize_locked h d of
        None \<Rightarrow> None
      | Some d \<Rightarrow> Some (d\<lparr>table := replicate (unat (tlb_n_entries d)) blank_entry, n_used_entries := 0\<rparr>))"

section \<open>Flushes\<close>

definition tlb_flush_one_mmuidx_locked :: "host_answers \<Rightarrow> CPUTLBDesc \<Rightarrow> CPUTLBDesc option" where
  "tlb_flush_one_mmuidx_locked h d =
     (case tlb_table_flush_by_mmuidx h d of
        None \<Rightarrow> None
      | Some d \<Rightarrow> Some (d\<lparr>large_page_addr := - 1, large_page_mask := - 1, vindex := 0, vtable := replicate CPU_VTLB_SIZE blank_entry\<rparr>))"

text \<open>The loop over the modes whose bits are set, lowest bit first.\<close>

fun flush_modes :: "(mmu_idx \<Rightarrow> CPUTLBDesc \<Rightarrow> CPUTLBDesc option) \<Rightarrow> mmu_idx list \<Rightarrow> CPUTLB \<Rightarrow> CPUTLB option" where
  "flush_modes f [] t = Some t"
| "flush_modes f (i # is) t = (case f i (mode t i) of None \<Rightarrow> None | Some d \<Rightarrow> flush_modes f is (upd_mode i d t))"

definition modes_in :: "'a::len word \<Rightarrow> mmu_idx list" where
  "modes_in w = filter (\<lambda>i. bit w (idx_bit i)) mmu_modes"

definition ctpop16 :: "u16 \<Rightarrow> u64" where
  "ctpop16 w = of_nat (length (filter (bit w) [0..<16]))"

definition tlb_flush_by_mmuidx_async_work :: "(mmu_idx \<Rightarrow> host_answers) \<Rightarrow> u16 \<Rightarrow> CPUTLB \<Rightarrow> CPUTLB option" where
  "tlb_flush_by_mmuidx_async_work h asked t =
     (let all_dirty = tlb_dirty t;
          to_clean = asked AND all_dirty;
          t = t\<lparr>tlb_dirty := all_dirty AND NOT to_clean\<rparr>
      in case flush_modes (\<lambda>i. tlb_flush_one_mmuidx_locked (h i)) (modes_in to_clean) t of
           None \<Rightarrow> None
         | Some t \<Rightarrow>
             let t = cpu_tb_jmp_cache_clear t
             in Some (if to_clean = ALL_MMUIDX_BITS then t\<lparr>full_flush_count := full_flush_count t + 1\<rparr>
                else let t = t\<lparr>part_flush_count := part_flush_count t + ctpop16 to_clean\<rparr>
                     in if to_clean \<noteq> asked then t\<lparr>elide_flush_count := elide_flush_count t + ctpop16 (asked AND NOT to_clean)\<rparr> else t))"

definition tlb_flush_by_mmuidx :: "(mmu_idx \<Rightarrow> host_answers) \<Rightarrow> u16 \<Rightarrow> CPUTLB \<Rightarrow> CPUTLB option" where
  "tlb_flush_by_mmuidx = tlb_flush_by_mmuidx_async_work"

definition tlb_flush :: "(mmu_idx \<Rightarrow> host_answers) \<Rightarrow> CPUTLB \<Rightarrow> CPUTLB option" where
  "tlb_flush h = tlb_flush_by_mmuidx h ALL_MMUIDX_BITS"

definition tlb_hit_page_anyprot :: "CPUTLBEntry \<Rightarrow> u32 \<Rightarrow> bool" where
  "tlb_hit_page_anyprot e page \<longleftrightarrow> tlb_hit_page (addr_read e) page \<or> tlb_hit_page (addr_write e) page \<or> tlb_hit_page (addr_code e) page"

definition tlb_entry_is_empty :: "CPUTLBEntry \<Rightarrow> bool" where
  "tlb_entry_is_empty e \<longleftrightarrow> addr_read e = - 1 \<and> addr_write e = - 1 \<and> addr_code e = - 1"

definition tlb_flush_entry_locked :: "u32 \<Rightarrow> CPUTLBEntry \<Rightarrow> bool \<times> CPUTLBEntry" where
  "tlb_flush_entry_locked page e = (if tlb_hit_page_anyprot e page then (True, blank_entry) else (False, e))"

definition tlb_n_used_entries_inc :: "CPUTLBDesc \<Rightarrow> CPUTLBDesc" where
  "tlb_n_used_entries_inc d = d\<lparr>n_used_entries := n_used_entries d + 1\<rparr>"

definition tlb_n_used_entries_dec :: "CPUTLBDesc \<Rightarrow> CPUTLBDesc" where
  "tlb_n_used_entries_dec d = d\<lparr>n_used_entries := n_used_entries d - 1\<rparr>"

fun flush_vtlb_from :: "u32 \<Rightarrow> nat list \<Rightarrow> CPUTLBDesc \<Rightarrow> CPUTLBDesc" where
  "flush_vtlb_from page [] d = d"
| "flush_vtlb_from page (k # ks) d =
     (let (hit, e) = tlb_flush_entry_locked page (vtable d ! k);
          d = d\<lparr>vtable := (vtable d)[k := e]\<rparr>
      in flush_vtlb_from page ks (if hit then tlb_n_used_entries_dec d else d))"

definition tlb_flush_vtlb_page_locked :: "u32 \<Rightarrow> CPUTLBDesc \<Rightarrow> CPUTLBDesc" where
  "tlb_flush_vtlb_page_locked page d = flush_vtlb_from page [0..<CPU_VTLB_SIZE] d"

definition tlb_flush_page_locked :: "host_answers \<Rightarrow> u32 \<Rightarrow> CPUTLBDesc \<Rightarrow> CPUTLBDesc option" where
  "tlb_flush_page_locked h page d =
     (if page AND large_page_mask d = large_page_addr d then tlb_flush_one_mmuidx_locked h d
      else
        let (hit, e) = tlb_flush_entry_locked page (tlb_entry d page);
            d = d\<lparr>table := (table d)[tlb_index d page := e]\<rparr>;
            d = (if hit then tlb_n_used_entries_dec d else d)
        in Some (tlb_flush_vtlb_page_locked page d))"

definition tlb_flush_page_by_mmuidx_async_work :: "(mmu_idx \<Rightarrow> host_answers) \<Rightarrow> u32 \<Rightarrow> CPUTLB \<Rightarrow> CPUTLB option" where
  "tlb_flush_page_by_mmuidx_async_work h addr_and_mmuidx t =
     (let addr = addr_and_mmuidx AND TARGET_PAGE_MASK;
          mmu_idx_bitmap = addr_and_mmuidx AND ucast ALL_MMUIDX_BITS
      in map_option (tb_flush_jmp_cache addr) (flush_modes (\<lambda>i. tlb_flush_page_locked (h i) addr) (modes_in mmu_idx_bitmap) t))"

definition tlb_flush_page_by_mmuidx :: "(mmu_idx \<Rightarrow> host_answers) \<Rightarrow> u32 \<Rightarrow> u16 \<Rightarrow> CPUTLB \<Rightarrow> CPUTLB option" where
  "tlb_flush_page_by_mmuidx h addr idxmap = tlb_flush_page_by_mmuidx_async_work h ((addr AND TARGET_PAGE_MASK) OR ucast idxmap)"

definition tlb_flush_page :: "(mmu_idx \<Rightarrow> host_answers) \<Rightarrow> u32 \<Rightarrow> CPUTLB \<Rightarrow> CPUTLB option" where
  "tlb_flush_page h addr = tlb_flush_page_by_mmuidx h addr ALL_MMUIDX_BITS"

section \<open>Dirty tracking\<close>

definition tlb_reset_dirty_range_locked :: "u64 \<Rightarrow> u64 \<Rightarrow> CPUTLBEntry \<Rightarrow> CPUTLBEntry" where
  "tlb_reset_dirty_range_locked start len e =
     (if addr_write e AND (TLB_INVALID_MASK OR TLB_MMIO OR TLB_DISCARD_WRITE OR TLB_NOTDIRTY) = 0
      then let addr = ucast (addr_write e AND TARGET_PAGE_MASK) + addend e
           in if addr - start < len then e\<lparr>addr_write := addr_write e OR TLB_NOTDIRTY\<rparr> else e
      else e)"

definition tlb_reset_dirty :: "u64 \<Rightarrow> u64 \<Rightarrow> CPUTLB \<Rightarrow> CPUTLB" where
  "tlb_reset_dirty start1 len t =
     t\<lparr>mode := \<lambda>i. (mode t i)\<lparr>table := map (tlb_reset_dirty_range_locked start1 len) (table (mode t i)),
                             vtable := map (tlb_reset_dirty_range_locked start1 len) (vtable (mode t i))\<rparr>\<rparr>"

definition tlb_set_dirty1_locked :: "u32 \<Rightarrow> CPUTLBEntry \<Rightarrow> CPUTLBEntry" where
  "tlb_set_dirty1_locked vaddr e = (if addr_write e = vaddr OR TLB_NOTDIRTY then e\<lparr>addr_write := vaddr\<rparr> else e)"

definition tlb_set_dirty :: "u32 \<Rightarrow> CPUTLB \<Rightarrow> CPUTLB" where
  "tlb_set_dirty vaddr t =
     (let vaddr = vaddr AND TARGET_PAGE_MASK
      in t\<lparr>mode := \<lambda>i. let d = mode t i
             in d\<lparr>table := (table d)[tlb_index d vaddr := tlb_set_dirty1_locked vaddr (tlb_entry d vaddr)],
                  vtable := map (tlb_set_dirty1_locked vaddr) (vtable d)\<rparr>\<rparr>)"

section \<open>Filling an entry\<close>

function extend_mask :: "u32 \<Rightarrow> u32 \<Rightarrow> u32" where
  "extend_mask x lp_mask = (if x AND lp_mask \<noteq> 0 then extend_mask x (push_bit 1 lp_mask) else lp_mask)"
  by pat_completeness auto

lemma push_bit_zero_mono: "push_bit k m = 0 \<Longrightarrow> push_bit (k + j) m = 0" for m :: "'a::len word"
  by (simp add: add.commute push_bit_push_bit [symmetric])

text \<open>Each step of the loop leaves fewer shifts of the mask that are not zero.\<close>

lemma shifts_left:
  assumes "m \<noteq> (0::u32)"
  shows "{k. k < 32 \<and> push_bit (Suc k) m \<noteq> 0} \<subset> {k. k < 32 \<and> push_bit k m \<noteq> 0}"
proof -
  have zero: "push_bit 32 m = 0" by (intro bit_word_eqI) (auto simp: bit_push_bit_iff)
  define n where "n = (LEAST k. push_bit k m = 0)"
  have n0: "push_bit n m = 0" unfolding n_def using zero by (rule LeastI)
  have nle: "n \<le> 32" unfolding n_def using zero by (rule Least_le)
  have "n \<noteq> 0" using n0 assms by (cases n) simp_all
  then obtain j where j: "n = Suc j" by (cases n) auto
  have "push_bit j m \<noteq> 0" using not_less_Least [of j "\<lambda>k. push_bit k m = 0"] j by (simp add: n_def)
  then have "j \<in> {k. k < 32 \<and> push_bit k m \<noteq> 0}" using nle j by simp
  moreover have "j \<notin> {k. k < 32 \<and> push_bit (Suc k) m \<noteq> 0}" using n0 j by blast
  moreover have "push_bit (Suc k) m \<noteq> 0 \<Longrightarrow> push_bit k m \<noteq> 0" for k using push_bit_zero_mono [of k m 1] by fastforce
  ultimately show ?thesis by blast
qed

termination extend_mask
proof (relation "measure (\<lambda>(x, m). card {k. k < 32 \<and> push_bit k m \<noteq> 0})")
  fix x m :: u32
  assume "x AND m \<noteq> 0"
  then have "m \<noteq> 0" by auto
  from shifts_left [OF this]
  have "card {k. k < 32 \<and> push_bit (Suc k) m \<noteq> 0} < card {k. k < 32 \<and> push_bit k m \<noteq> 0}"
    by (intro psubset_card_mono) auto
  moreover have "push_bit k (push_bit 1 m) = push_bit (Suc k) m" for k using push_bit_push_bit [of k 1 m] by (simp add: push_bit_push_bit)
  ultimately show "((x, push_bit 1 m), x, m) \<in> measure (\<lambda>(x, m). card {k. k < 32 \<and> push_bit k m \<noteq> 0})"
    by (simp only: in_measure case_prod_conv)
qed simp

declare extend_mask.simps [simp del]

definition tlb_add_large_page :: "u32 \<Rightarrow> u32 \<Rightarrow> CPUTLBDesc \<Rightarrow> CPUTLBDesc" where
  "tlb_add_large_page vaddr len d =
     (let lp_addr = large_page_addr d;
          lp_mask = NOT (len - 1);
          (lp_addr, lp_mask) =
            (if lp_addr = - 1 then (vaddr, lp_mask)
             else (lp_addr, extend_mask (lp_addr XOR vaddr) (lp_mask AND large_page_mask d)))
      in d\<lparr>large_page_addr := lp_addr AND lp_mask, large_page_mask := lp_mask\<rparr>)"

text \<open>The part of \<open>tlb_set_page_with_attrs\<close> under the lock.\<close>

definition tlb_install :: "mmu_idx \<Rightarrow> u32 \<Rightarrow> CPUTLBEntry \<Rightarrow> CPUIOTLBEntry \<Rightarrow> CPUTLB \<Rightarrow> CPUTLB" where
  "tlb_install i vaddr_page tn io t =
     (let d = mode t i;
          index = tlb_index d vaddr_page;
          te = table d ! index;
          d = tlb_flush_vtlb_page_locked vaddr_page d;
          d = (if \<not> tlb_hit_page_anyprot te vaddr_page \<and> \<not> tlb_entry_is_empty te
               then let vidx = unat (vindex d) mod CPU_VTLB_SIZE
                    in tlb_n_used_entries_dec (d\<lparr>vindex := vindex d + 1, vtable := (vtable d)[vidx := te], viotlb := (viotlb d)[vidx := iotlb d index]\<rparr>)
               else d);
          d = tlb_n_used_entries_inc (d\<lparr>iotlb := (iotlb d)(index := io), table := (table d)[index := tn]\<rparr>)
      in upd_mode i d (t\<lparr>tlb_dirty := tlb_dirty t OR BIT (idx_bit i)\<rparr>))"

section \<open>The victim table\<close>

datatype elt_ofs = Ofs_Read | Ofs_Write | Ofs_Code

primrec tlb_read_ofs :: "elt_ofs \<Rightarrow> CPUTLBEntry \<Rightarrow> u32" where
  "tlb_read_ofs Ofs_Read e = addr_read e"
| "tlb_read_ofs Ofs_Write e = addr_write e"
| "tlb_read_ofs Ofs_Code e = addr_code e"

primrec access_ofs :: "access_type \<Rightarrow> elt_ofs" where
  "access_ofs MMU_DATA_LOAD = Ofs_Read"
| "access_ofs MMU_DATA_STORE = Ofs_Write"
| "access_ofs MMU_INST_FETCH = Ofs_Code"

fun victim_from :: "nat list \<Rightarrow> nat \<Rightarrow> elt_ofs \<Rightarrow> u32 \<Rightarrow> CPUTLBDesc \<Rightarrow> CPUTLBDesc option" where
  "victim_from [] index ofs page d = None"
| "victim_from (vidx # vs) index ofs page d =
     (if tlb_read_ofs ofs (vtable d ! vidx) = page
      then Some (d\<lparr>table := (table d)[index := vtable d ! vidx], vtable := (vtable d)[vidx := table d ! index],
                   iotlb := (iotlb d)(index := viotlb d ! vidx), viotlb := (viotlb d)[vidx := iotlb d index]\<rparr>)
      else victim_from vs index ofs page d)"

definition victim_tlb_hit :: "mmu_idx \<Rightarrow> nat \<Rightarrow> elt_ofs \<Rightarrow> u32 \<Rightarrow> CPUTLB \<Rightarrow> CPUTLB option" where
  "victim_tlb_hit i index ofs page t = map_option (\<lambda>d. upd_mode i d t) (victim_from [0..<CPU_VTLB_SIZE] index ofs page (mode t i))"

end
