(* ===== verification/Tlb_Cache.thy ===== *)
theory Tlb_Cache
  imports Soft_Tlb
begin

text \<open>
  The software TLB as a cache of translations: every entry sits in the slot of its page, a page is
  in at most one place, and each operation keeps this.
\<close>

section \<open>Entries and pages\<close>

abbreviation aligned :: "u32 \<Rightarrow> bool" where
  "aligned v \<equiv> v AND TARGET_PAGE_MASK = v"

lemma page_mask_bit [word_bits]: "bit TARGET_PAGE_MASK n \<longleftrightarrow> 12 \<le> n \<and> n < 32"
  unfolding TARGET_PAGE_MASK_def bit_push_bit_iff bit_minus_1_iff by auto

lemma tlb_flag_bits [word_bits]:
  "bit TLB_INVALID_MASK n \<longleftrightarrow> n = 11"
  "bit TLB_NOTDIRTY n \<longleftrightarrow> n = 10"
  "bit TLB_MMIO n \<longleftrightarrow> n = 9"
  "bit TLB_WATCHPOINT n \<longleftrightarrow> n = 8"
  "bit TLB_BSWAP n \<longleftrightarrow> n = 7"
  "bit TLB_DISCARD_WRITE n \<longleftrightarrow> n = 6"
  unfolding TLB_INVALID_MASK_def TLB_NOTDIRTY_def TLB_MMIO_def TLB_WATCHPOINT_def TLB_BSWAP_def TLB_DISCARD_WRITE_def
    bit_push_bit_iff bit_1_iff by auto

lemma aligned_page [simp]: "aligned (a AND TARGET_PAGE_MASK)"
  by (simp add: and.assoc)

lemma hit_or_notdirty [simp]: "tlb_hit_page (a OR TLB_NOTDIRTY) v = tlb_hit_page a v"
proof -
  have "(a OR TLB_NOTDIRTY) AND (TARGET_PAGE_MASK OR TLB_INVALID_MASK) = a AND (TARGET_PAGE_MASK OR TLB_INVALID_MASK)"
    by (rule bit_word_eqI) (auto simp: bit_and_iff bit_or_iff word_bits)
  then show ?thesis by (simp add: tlb_hit_page_def)
qed

lemma aligned_bit: "aligned v \<Longrightarrow> bit v n \<Longrightarrow> 12 \<le> n"
  by (metis bit_and_iff page_mask_bit)

lemma minus_one_no_hit [simp]: "aligned v \<Longrightarrow> \<not> tlb_hit_page (- 1) v"
proof
  assume v: "aligned v" "tlb_hit_page (- 1) v"
  from v(2) have "v = TARGET_PAGE_MASK OR TLB_INVALID_MASK" by (simp add: tlb_hit_page_def)
  then have "bit v 11" by (simp only: bit_or_iff word_bits) simp
  then show False using aligned_bit [OF v(1)] by fastforce
qed

lemma blank_no_hit [simp]: "aligned v \<Longrightarrow> \<not> tlb_hit_page_anyprot blank_entry v"
  by (simp add: tlb_hit_page_anyprot_def blank_entry_def)

lemma aligned_hit_self: "aligned v \<Longrightarrow> tlb_hit_page v v"
  unfolding tlb_hit_page_def
  by (rule bit_word_eqI) (use aligned_bit in \<open>auto simp: bit_and_iff bit_or_iff page_mask_bit\<close>)

definition hits :: "CPUTLBEntry \<Rightarrow> u32 \<Rightarrow> bool" where
  "hits e v \<longleftrightarrow> aligned v \<and> tlb_hit_page_anyprot e v"

lemma hits_blank [simp]: "\<not> hits blank_entry v"
  by (simp add: hits_def)

definition single_page :: "CPUTLBEntry \<Rightarrow> bool" where
  "single_page e \<longleftrightarrow> (\<forall>v w. hits e v \<longrightarrow> hits e w \<longrightarrow> v = w)"

lemma empty_no_hit: "tlb_entry_is_empty e \<Longrightarrow> \<not> hits e v"
  by (auto simp: tlb_entry_is_empty_def hits_def tlb_hit_page_anyprot_def)

lemma hits_reset_dirty [simp]: "hits (tlb_reset_dirty_range_locked s n e) v = hits e v"
  by (simp add: tlb_reset_dirty_range_locked_def Let_def hits_def tlb_hit_page_anyprot_def)

lemma hits_set_dirty [simp]: "hits (tlb_set_dirty1_locked a e) v = hits e v"
  by (auto simp: tlb_set_dirty1_locked_def hits_def tlb_hit_page_anyprot_def)

section \<open>The invariant of a mode\<close>

definition sizes_ok :: "CPUTLBDesc \<Rightarrow> bool" where
  "sizes_ok d \<longleftrightarrow> (\<exists>n. CPU_TLB_DYN_MIN_BITS \<le> n \<and> n \<le> 40 \<and> size_mask d = push_bit CPU_TLB_ENTRY_BITS (2 ^ n - 1) \<and> length (table d) = 2 ^ n)
     \<and> length (vtable d) = CPU_VTLB_SIZE \<and> length (viotlb d) = CPU_VTLB_SIZE"

text \<open>An entry of the table sits in the slot of its page, and no page is found twice.\<close>

definition placed :: "CPUTLBDesc \<Rightarrow> bool" where
  "placed d \<longleftrightarrow> (\<forall>k < length (table d). \<forall>v. hits (table d ! k) v \<longrightarrow> tlb_index d v = k)"

definition no_twins :: "CPUTLBDesc \<Rightarrow> bool" where
  "no_twins d \<longleftrightarrow> (\<forall>j < length (vtable d). \<forall>v. hits (vtable d ! j) v \<longrightarrow>
      (\<forall>k < length (table d). \<not> hits (table d ! k) v) \<and> (\<forall>j' < length (vtable d). j' \<noteq> j \<longrightarrow> \<not> hits (vtable d ! j') v))"

definition desc_inv :: "CPUTLBDesc \<Rightarrow> bool" where
  "desc_inv d \<longleftrightarrow> sizes_ok d \<and> placed d \<and> no_twins d \<and> (\<forall>e \<in> set (table d) \<union> set (vtable d). single_page e)"

lemma unat_u64_power: "n < 64 \<Longrightarrow> unat (2 ^ n :: u64) = 2 ^ n"
proof -
  assume "n < 64"
  then have "(2::nat) ^ n < 2 ^ 64" by (intro power_strict_increasing) simp_all
  then show ?thesis by (intro of_nat_inverse) simp_all
qed

text \<open>Every table and every index agree.\<close>

lemma drop_size_mask:
  assumes "n \<le> 40"
  shows "drop_bit CPU_TLB_ENTRY_BITS (push_bit CPU_TLB_ENTRY_BITS (2 ^ n - 1 :: u64)) = 2 ^ n - 1"
proof -
  have "(2 ^ n - 1 :: u64) = mask n" by (simp add: mask_eq_exp_minus_1)
  then show ?thesis using assms
    by (auto intro!: bit_word_eqI simp: bit_simps CPU_TLB_ENTRY_BITS_def)
qed

lemma tlb_index_less:
  assumes "sizes_ok d"
  shows "tlb_index d v < length (table d)"
proof -
  from assms obtain n where n: "n \<le> 40" "size_mask d = push_bit CPU_TLB_ENTRY_BITS (2 ^ n - 1)" "length (table d) = 2 ^ n"
    by (auto simp: sizes_ok_def)
  have "n < 64" using n(1) by simp
  have "tlb_index d v = unat (ucast (drop_bit 12 v) AND mask n :: u64)"
    using n by (simp only: tlb_index_def drop_size_mask mask_eq_exp_minus_1)
  also have "\<dots> = unat (take_bit n (ucast (drop_bit 12 v) :: u64))" by (simp only: take_bit_eq_mask)
  also have "\<dots> < 2 ^ n" using \<open>n < 64\<close> by (simp add: unsigned_take_bit_eq)
  finally show ?thesis using n(3) by simp
qed

lemma tlb_n_entries_length:
  assumes "sizes_ok d"
  shows "unat (tlb_n_entries d) = length (table d)"
proof -
  from assms obtain n where n: "n \<le> 40" "size_mask d = push_bit CPU_TLB_ENTRY_BITS (2 ^ n - 1)" "length (table d) = 2 ^ n"
    by (auto simp: sizes_ok_def)
  have "n < 64" using n(1) by simp
  then show ?thesis using n by (simp add: tlb_n_entries_def drop_size_mask unat_u64_power)
qed

section \<open>Resizing\<close>

text \<open>The host has no memory for a table of more than \<open>2 ^ 40\<close> entries.\<close>

definition host_ok :: "host_answers \<Rightarrow> bool" where
  "host_ok h \<longleftrightarrow> (\<forall>k n. alloc_ok h k n \<longrightarrow> n \<le> 2 ^ 40)"

text \<open>The numbers of entries that are ever asked for.\<close>

definition size_ok :: "u64 \<Rightarrow> bool" where
  "size_ok n \<longleftrightarrow> (\<exists>k. CPU_TLB_DYN_MIN_BITS \<le> k \<and> k < 64 \<and> n = 2 ^ k)"

lemma u64_power_le: "j < 64 \<Longrightarrow> k < 64 \<Longrightarrow> (2 ^ j \<le> (2 ^ k :: u64)) = (j \<le> k)"
  by (simp add: word_le_nat_alt unat_u64_power)

lemma u64_drop_power: "j \<le> k \<Longrightarrow> k < 64 \<Longrightarrow> drop_bit j ((2::u64) ^ k) = 2 ^ (k - j)"
  by (rule bit_word_eqI) (auto simp: bit_drop_bit_eq bit_exp_iff)

lemma u64_power_zero: "(2::u64) ^ 64 = 0"
  by simp

lemma u64_double: "k < 64 \<Longrightarrow> (2::u64) ^ k * 2 = 0 \<or> (\<exists>j < 64. (2::u64) ^ k * 2 = 2 ^ j)"
proof (cases "k = 63")
  case True
  then show ?thesis by simp
next
  case False
  assume "k < 64"
  then have "Suc k < 64" using False by simp
  then show ?thesis by (intro disjI2 exI [of _ "Suc k"]) (simp add: mult.commute)
qed

lemma size_ok_max: "n = 0 \<or> (\<exists>k < 64. n = 2 ^ k) \<Longrightarrow> size_ok (max n (BIT CPU_TLB_DYN_MIN_BITS))"
proof -
  assume "n = 0 \<or> (\<exists>k < 64. n = 2 ^ k)"
  then consider "n = 0" | k where "k < 64" "n = 2 ^ k" by auto
  then show ?thesis
  proof cases
    case 1
    then show ?thesis unfolding size_ok_def by (intro exI [of _ 6]) (simp add: CPU_TLB_DYN_MIN_BITS_def max_def)
  next
    case 2
    show ?thesis
    proof (cases "6 \<le> k")
      case True
      then have "(2::u64) ^ 6 \<le> 2 ^ k" using 2 by (subst u64_power_le) simp_all
      then show ?thesis unfolding size_ok_def using True 2
        by (intro exI [of _ k]) (simp add: CPU_TLB_DYN_MIN_BITS_def max_def)
    next
      case False
      then have "(2::u64) ^ k \<le> 2 ^ 6" using 2 by (subst u64_power_le) simp_all
      then show ?thesis unfolding size_ok_def using 2
        by (intro exI [of _ 6]) (simp add: CPU_TLB_DYN_MIN_BITS_def max_def)
    qed
  qed
qed

lemma pow2ceil_power: "pow2ceil v = 0 \<or> (\<exists>k < 64. pow2ceil v = 2 ^ k)"
proof -
  have le: "clz64 w \<le> 64" for w
    unfolding clz64_def by (rule order_trans [OF length_takeWhile_le]) simp
  have top: "(0x8000000000000000::u64) = 2 ^ 63" by simp
  show ?thesis
  proof (cases "clz64 (v - 1) = 0")
    case True
    then have "pow2ceil v = 0 \<or> pow2ceil v = 2 ^ 0" by (simp add: pow2ceil_def)
    then show ?thesis by (metis zero_less_numeral)
  next
    case False
    then have "pow2ceil v = 2 ^ (63 - (clz64 (v - 1) - 1))"
      using le [of "v - 1"] unfolding pow2ceil_def Let_def top by (simp only: if_False u64_drop_power)
    then show ?thesis by (intro disjI2 exI [of _ "63 - (clz64 (v - 1) - 1)"]) simp
  qed
qed

lemma size_ok_halve:
  assumes "size_ok n"
  shows "size_ok (max (drop_bit 1 n) (BIT CPU_TLB_DYN_MIN_BITS))"
proof (rule size_ok_max)
  obtain k where "n = 2 ^ k" "CPU_TLB_DYN_MIN_BITS \<le> k" "k < 64" using assms by (auto simp: size_ok_def)
  then show "drop_bit 1 n = 0 \<or> (\<exists>k < 64. drop_bit 1 n = 2 ^ k)"
    using u64_drop_power [of 1 k] by (intro disjI2 exI [of _ "k - 1"]) (simp add: CPU_TLB_DYN_MIN_BITS_def)
qed

lemma wanted_size_ok:
  assumes "size_ok (tlb_n_entries d)" and "tlb_n_entries d \<le> 2 ^ 40"
  shows "size_ok (wanted_size b d)"
proof -
  obtain k where k: "tlb_n_entries d = 2 ^ k" "6 \<le> k" "k < 64" using assms by (auto simp: size_ok_def CPU_TLB_DYN_MIN_BITS_def)
  have "(2::u64) ^ k \<le> 2 ^ 40" using assms(2) k(1) by simp
  then have k40: "k \<le> 40" using u64_power_le [of k 40] k(3) by simp
  have "min (push_bit 1 (2 ^ k)) (BIT CPU_TLB_DYN_MAX_BITS) = (2::u64) ^ min (Suc k) 20"
  proof -
    have "((2::u64) ^ Suc k \<le> 2 ^ 20) = (Suc k \<le> 20)" using k40 by (intro u64_power_le) simp_all
    then show ?thesis by (auto simp: min_def CPU_TLB_DYN_MAX_BITS_def push_bit_eq_mult mult.commute)
  qed
  then have grow: "size_ok (min (push_bit 1 (2 ^ k)) (BIT CPU_TLB_DYN_MAX_BITS))"
    unfolding size_ok_def using k by (intro exI [of _ "min (Suc k) 20"]) (simp add: CPU_TLB_DYN_MIN_BITS_def)
  have ceil: "pow2ceil w * 2 = 0 \<or> (\<exists>k < 64. pow2ceil w * 2 = 2 ^ k)" for w
    using pow2ceil_power [of w] by (elim disjE exE conjE) (simp, metis u64_double)
  show ?thesis
    using assms(1) grow size_ok_max [OF pow2ceil_power] size_ok_max [OF ceil]
    by (simp add: wanted_size_def Let_def k(1))
qed

lemma shrink_loop_ok:
  assumes "shrink_loop ok k n = Some m" and "size_ok n"
  shows "size_ok m" and "\<exists>k. ok k m"
proof -
  have "size_ok n \<longrightarrow> size_ok m \<and> (\<exists>k. ok k m)"
    by (rule shrink_loop.raw_induct [where P = "\<lambda>ok k n m. size_ok n \<longrightarrow> size_ok m \<and> (\<exists>k. ok k m)", OF _ assms(1)])
      (auto split: if_splits dest: size_ok_halve)
  then show "size_ok m" and "\<exists>k. ok k m" using assms(2) by auto
qed

text \<open>The loop ends exactly when the host grants one of its requests.\<close>

lemma shrink_loop_Suc: "\<not> ok k n \<Longrightarrow> shrink_loop ok k n = shrink_loop ok (Suc k) (max (drop_bit 1 n) (BIT CPU_TLB_DYN_MIN_BITS))"
  by (subst shrink_loop.simps) simp

lemma sizes_ok_entries:
  assumes "sizes_ok d"
  shows "size_ok (tlb_n_entries d)" and "tlb_n_entries d \<le> 2 ^ 40"
proof -
  from assms obtain n where n: "CPU_TLB_DYN_MIN_BITS \<le> n" "n \<le> 40" "size_mask d = push_bit CPU_TLB_ENTRY_BITS (2 ^ n - 1)"
    by (auto simp: sizes_ok_def)
  then have eq: "tlb_n_entries d = 2 ^ n" by (simp add: tlb_n_entries_def drop_size_mask)
  show "size_ok (tlb_n_entries d)" using n by (auto simp: size_ok_def eq)
  show "tlb_n_entries d \<le> 2 ^ 40" unfolding eq using n(2) by (subst u64_power_le) simp_all
qed

text \<open>What a flush of a mode leaves: blank tables of a size the host could provide.\<close>

definition desc_empty :: "CPUTLBDesc \<Rightarrow> bool" where
  "desc_empty d \<longleftrightarrow> sizes_ok d \<and> (\<forall>e \<in> set (table d) \<union> set (vtable d). e = blank_entry) \<and>
     large_page_addr d = - 1 \<and> large_page_mask d = - 1 \<and> n_used_entries d = 0 \<and> vindex d = 0"

lemma resize_sizes:
  assumes "tlb_mmu_resize_locked h d = Some d'" and "sizes_ok d" and "host_ok h"
  shows "sizes_ok d'" and "vtable d' = vtable d"
proof -
  define w where "w = d\<lparr>window_max_entries := max (window_max_entries d) (n_used_entries d)\<rparr>"
  have w: "(if n_used_entries d > window_max_entries d then d\<lparr>window_max_entries := n_used_entries d\<rparr> else d) = w"
    by (auto simp: w_def max_def)
  have sw: "sizes_ok w" using assms(2) by (simp add: sizes_ok_def w_def)
  define b where "b \<longleftrightarrow> now_ns h > window_begin_ns d + 100 * 1000 * 1000"
  have want: "size_ok (wanted_size b w)" using sizes_ok_entries [OF sw] by (rule wanted_size_ok)
  have len: "length (vtable d) = CPU_VTLB_SIZE" "length (viotlb d) = CPU_VTLB_SIZE" using assms(2) by (auto simp: sizes_ok_def)
  show "sizes_ok d'"
  proof (cases "wanted_size b w = tlb_n_entries w")
    case True
    then show ?thesis using assms(1) sw unfolding tlb_mmu_resize_locked_def Let_def w b_def [symmetric]
      by (auto simp: tlb_window_reset_def sizes_ok_def split: if_splits)
  next
    case False
    then obtain n where n: "shrink_loop (alloc_ok h) 0 (wanted_size b w) = Some n"
      and d': "d' = (tlb_window_reset (now_ns h) 0 w)\<lparr>size_mask := push_bit CPU_TLB_ENTRY_BITS (n - 1), table := map (fresh h) [0..<unat n]\<rparr>"
      using assms(1) unfolding tlb_mmu_resize_locked_def Let_def w b_def [symmetric] by (auto split: option.splits)
    obtain k where k: "CPU_TLB_DYN_MIN_BITS \<le> k" "k < 64" "n = 2 ^ k" using shrink_loop_ok(1) [OF n want] by (auto simp: size_ok_def)
    have "(2::u64) ^ k \<le> 2 ^ 40" using shrink_loop_ok(2) [OF n want] assms(3) k(3) by (auto simp: host_ok_def)
    then have "k \<le> 40" using u64_power_le [of k 40] k(2) by simp
    then show ?thesis using k len by (auto simp: sizes_ok_def d' tlb_window_reset_def w_def unat_u64_power)
  qed
  show "vtable d' = vtable d"
    using assms(1) unfolding tlb_mmu_resize_locked_def Let_def w
    by (auto simp: tlb_window_reset_def w_def split: if_splits option.splits)
qed

lemma sizes_ok_table: "sizes_ok d \<Longrightarrow> length t = length (table d) \<Longrightarrow> sizes_ok (d\<lparr>table := t\<rparr>)"
  by (simp add: sizes_ok_def)

lemma flush_one_empty:
  assumes "tlb_flush_one_mmuidx_locked h d = Some d'" and "sizes_ok d" and "host_ok h"
  shows "desc_empty d'"
proof -
  obtain e where e: "tlb_mmu_resize_locked h d = Some e"
    and d': "d' = e\<lparr>table := replicate (unat (tlb_n_entries e)) blank_entry, n_used_entries := 0, large_page_addr := - 1,
                    large_page_mask := - 1, vindex := 0, vtable := replicate CPU_VTLB_SIZE blank_entry\<rparr>"
    using assms(1) by (auto simp: tlb_flush_one_mmuidx_locked_def tlb_table_flush_by_mmuidx_def split: option.splits)
  have "sizes_ok e" using resize_sizes(1) [OF e assms(2,3)] .
  then show ?thesis using tlb_n_entries_length [of e] by (auto simp: desc_empty_def d' sizes_ok_def)
qed

lemma desc_empty_no_hit: "desc_empty d \<Longrightarrow> e \<in> set (table d) \<union> set (vtable d) \<Longrightarrow> \<not> hits e v"
  using hits_blank unfolding desc_empty_def by metis

lemma desc_empty_inv:
  assumes "desc_empty d"
  shows "desc_inv d"
proof -
  have "k < length (table d) \<Longrightarrow> \<not> hits (table d ! k) v" and "k < length (vtable d) \<Longrightarrow> \<not> hits (vtable d ! k) v" for k v
    using desc_empty_no_hit [OF assms] by (meson UnI1 UnI2 nth_mem)+
  then show ?thesis using assms desc_empty_no_hit [OF assms]
    unfolding desc_inv_def placed_def no_twins_def single_page_def desc_empty_def by blast
qed

text \<open>A change that makes no entry hit a page it did not hit before keeps the invariant.\<close>

definition shrinks :: "CPUTLBEntry \<Rightarrow> CPUTLBEntry \<Rightarrow> bool" where
  "shrinks e' e \<longleftrightarrow> (\<forall>v. hits e' v \<longrightarrow> hits e v)"

lemma shrinks_refl [simp]: "shrinks e e" and shrinks_blank [simp]: "shrinks blank_entry e"
  by (simp_all add: shrinks_def)

lemma shrinks_set_dirty [simp]: "shrinks (tlb_set_dirty1_locked a e) e" and shrinks_reset_dirty [simp]: "shrinks (tlb_reset_dirty_range_locked s n e) e"
  by (simp_all add: shrinks_def)

lemma desc_inv_shrinks:
  assumes d: "desc_inv d" and m: "size_mask d' = size_mask d" and io: "length (viotlb d') = length (viotlb d)"
    and t: "list_all2 shrinks (table d') (table d)" and v: "list_all2 shrinks (vtable d') (vtable d)"
  shows "desc_inv d'"
proof -
  have lt: "length (table d') = length (table d)" "length (vtable d') = length (vtable d)"
    using t v by (auto dest: list_all2_lengthD)
  have idx: "tlb_index d' = tlb_index d" by (simp add: tlb_index_def fun_eq_iff m)
  have ht: "k < length (table d) \<Longrightarrow> hits (table d' ! k) v \<Longrightarrow> hits (table d ! k) v" for k v
    using t lt by (auto simp: list_all2_conv_all_nth shrinks_def)
  have hv: "k < length (vtable d) \<Longrightarrow> hits (vtable d' ! k) v \<Longrightarrow> hits (vtable d ! k) v" for k v
    using v lt by (auto simp: list_all2_conv_all_nth shrinks_def)
  have "sizes_ok d'" using d by (simp add: desc_inv_def sizes_ok_def lt m io)
  moreover have "placed d'" using d ht by (auto simp: desc_inv_def placed_def lt idx)
  moreover have "no_twins d'"
    unfolding no_twins_def lt
  proof (intro allI impI)
    fix j v assume j: "j < length (vtable d)" "hits (vtable d' ! j) v"
    then have "(\<forall>k < length (table d). \<not> hits (table d ! k) v) \<and> (\<forall>j' < length (vtable d). j' \<noteq> j \<longrightarrow> \<not> hits (vtable d ! j') v)"
      using hv [OF j] d unfolding desc_inv_def no_twins_def by blast
    then show "(\<forall>k < length (table d). \<not> hits (table d' ! k) v) \<and> (\<forall>j' < length (vtable d). j' \<noteq> j \<longrightarrow> \<not> hits (vtable d' ! j') v)"
      using ht hv by meson
  qed
  moreover have "single_page e" if e: "e \<in> set (table d') \<union> set (vtable d')" for e
  proof -
    from e obtain k where "k < length (table d) \<and> e = table d' ! k \<or> k < length (vtable d) \<and> e = vtable d' ! k"
      by (auto simp: in_set_conv_nth lt)
    then have "(\<forall>v. hits e v \<longrightarrow> hits (table d ! k) v) \<and> single_page (table d ! k) \<or> (\<forall>v. hits e v \<longrightarrow> hits (vtable d ! k) v) \<and> single_page (vtable d ! k)"
      using ht [of k] hv [of k] d unfolding desc_inv_def by (metis UnCI nth_mem)
    then show ?thesis unfolding single_page_def by blast
  qed
  ultimately show ?thesis by (simp add: desc_inv_def)
qed

lemma list_all2_update: "list_all2 shrinks xs ys \<Longrightarrow> (i < length ys \<Longrightarrow> shrinks e (ys ! i)) \<Longrightarrow> list_all2 shrinks (xs[i := e]) ys"
  unfolding list_all2_conv_all_nth by (metis length_list_update nth_list_update_eq nth_list_update_neq)

section \<open>Flushing a page\<close>

text \<open>What the loop over the victim table changes.\<close>

definition flushed :: "u32 \<Rightarrow> CPUTLBEntry \<Rightarrow> CPUTLBEntry" where
  "flushed page e = (if tlb_hit_page_anyprot e page then blank_entry else e)"

lemma flush_entry_flushed: "tlb_flush_entry_locked page e = (tlb_hit_page_anyprot e page, flushed page e)"
  by (simp add: tlb_flush_entry_locked_def flushed_def)

lemma flushed_idem: "aligned page \<Longrightarrow> flushed page (flushed page e) = flushed page e"
  by (simp add: flushed_def)

lemma hits_flushed: "aligned page \<Longrightarrow> hits (flushed page e) v \<longleftrightarrow> hits e v \<and> \<not> hits e page"
  by (auto simp: flushed_def hits_def)

lemma shrinks_flushed [simp]: "shrinks (flushed page e) e"
  by (auto simp: flushed_def)

lemma flush_vtlb_from_spec:
  assumes "aligned page" and "\<forall>k \<in> set ks. k < length (vtable d)"
  shows "\<exists>n. flush_vtlb_from page ks d =
     d\<lparr>vtable := map (\<lambda>k. if k \<in> set ks then flushed page (vtable d ! k) else vtable d ! k) [0..<length (vtable d)], n_used_entries := n\<rparr>"
  using assms(2)
proof (induction ks arbitrary: d)
  case Nil
  then show ?case by (intro exI [of _ "n_used_entries d"]) (simp add: map_nth)
next
  case (Cons k ks)
  obtain m where m: "flush_vtlb_from page (k # ks) d = flush_vtlb_from page ks (d\<lparr>vtable := (vtable d)[k := flushed page (vtable d ! k)], n_used_entries := m\<rparr>)"
  proof (cases "tlb_hit_page_anyprot (vtable d ! k) page")
    case True
    then show ?thesis
      by (intro that [of "n_used_entries d - 1"]) (simp add: tlb_flush_entry_locked_def tlb_n_used_entries_dec_def flushed_def)
  next
    case False
    then show ?thesis by (intro that [of "n_used_entries d"]) (simp add: tlb_flush_entry_locked_def flushed_def)
  qed
  let ?d = "d\<lparr>vtable := (vtable d)[k := flushed page (vtable d ! k)], n_used_entries := m\<rparr>"
  have eq: "map (\<lambda>j. if j \<in> set ks then flushed page (vtable ?d ! j) else vtable ?d ! j) [0..<length (vtable ?d)] =
      map (\<lambda>j. if j \<in> set (k # ks) then flushed page (vtable d ! j) else vtable d ! j) [0..<length (vtable d)]"
    using Cons.prems assms(1) by (auto simp: nth_list_update flushed_idem)
  show ?case using Cons.IH [of ?d] Cons.prems unfolding m eq by simp
qed

lemma flush_vtlb_spec:
  assumes "aligned page" and "length (vtable d) = CPU_VTLB_SIZE"
  shows "\<exists>n. tlb_flush_vtlb_page_locked page d = d\<lparr>vtable := map (flushed page) (vtable d), n_used_entries := n\<rparr>"
proof -
  have "map (\<lambda>k. if k \<in> set [0..<CPU_VTLB_SIZE] then flushed page (vtable d ! k) else vtable d ! k) [0..<length (vtable d)] = map (flushed page) (vtable d)"
    using assms(2) by (intro nth_equalityI) auto
  then show ?thesis using flush_vtlb_from_spec [OF assms(1), of "[0..<CPU_VTLB_SIZE]" d] assms(2)
    by (simp add: tlb_flush_vtlb_page_locked_def)
qed

text \<open>After the flush of a page the mode is as before without the page, or was flushed as a whole.\<close>

lemma flush_page_small_spec:
  assumes "tlb_flush_page_locked h page d = Some d'" and "aligned page" and "desc_inv d" and False: "page AND large_page_mask d \<noteq> large_page_addr d"
  shows "\<exists>n. d' = d\<lparr>table := map (flushed page) (table d), vtable := map (flushed page) (vtable d), n_used_entries := n\<rparr>"
proof -
  have sz: "sizes_ok d" using assms(3) by (simp add: desc_inv_def)
  have "(table d)[tlb_index d page := flushed page (tlb_entry d page)] = map (flushed page) (table d)"
  proof (rule nth_equalityI)
    fix k assume "k < length ((table d)[tlb_index d page := flushed page (tlb_entry d page)])"
    then have k: "k < length (table d)" by simp
    have "\<not> hits (table d ! k) page" if "k \<noteq> tlb_index d page" using assms(3) k that by (auto simp: desc_inv_def placed_def)
    then have "k \<noteq> tlb_index d page \<Longrightarrow> flushed page (table d ! k) = table d ! k" using assms(2) by (simp add: flushed_def hits_def)
    then show "(table d)[tlb_index d page := flushed page (tlb_entry d page)] ! k = map (flushed page) (table d) ! k"
      using k by (cases "k = tlb_index d page") (auto simp: tlb_entry_def)
  qed simp
  then have "\<exists>n. d' = tlb_flush_vtlb_page_locked page (d\<lparr>table := map (flushed page) (table d), n_used_entries := n\<rparr>)"
    using assms(1) False
    by (cases "tlb_hit_page_anyprot (tlb_entry d page) page")
      (auto simp: tlb_flush_page_locked_def Let_def flush_entry_flushed tlb_n_used_entries_dec_def
        intro: exI [of _ "n_used_entries d - 1"] exI [of _ "n_used_entries d"])
  then obtain n where "d' = tlb_flush_vtlb_page_locked page (d\<lparr>table := map (flushed page) (table d), n_used_entries := n\<rparr>)" ..
  moreover have "length (vtable d) = CPU_VTLB_SIZE" using sz by (simp add: sizes_ok_def)
  ultimately show ?thesis using flush_vtlb_spec [OF assms(2), of "d\<lparr>table := map (flushed page) (table d), n_used_entries := n\<rparr>"] by auto
qed

lemma flush_page_locked_spec:
  assumes "tlb_flush_page_locked h page d = Some d'" and "aligned page" and "desc_inv d" and "host_ok h"
  shows "desc_empty d' \<or> (\<exists>n. d' = d\<lparr>table := map (flushed page) (table d), vtable := map (flushed page) (vtable d), n_used_entries := n\<rparr>)"
proof (cases "page AND large_page_mask d = large_page_addr d")
  case True
  then show ?thesis using assms flush_one_empty by (auto simp: tlb_flush_page_locked_def desc_inv_def)
qed (rule disjI2 [OF flush_page_small_spec [OF assms(1-3)]])

lemma flush_page_locked_inv:
  assumes "tlb_flush_page_locked h page d = Some d'" and "aligned page" and "desc_inv d" and "host_ok h"
  shows "desc_inv d'"
  using flush_page_locked_spec [OF assms]
proof
  assume "\<exists>n. d' = d\<lparr>table := map (flushed page) (table d), vtable := map (flushed page) (vtable d), n_used_entries := n\<rparr>"
  then show ?thesis by (elim exE) (intro desc_inv_shrinks [OF assms(3)], auto simp: list_all2_conv_all_nth)
qed (rule desc_empty_inv)

section \<open>Filling an entry and swapping with the victim table\<close>

definition entry_for :: "u32 \<Rightarrow> CPUTLBEntry \<Rightarrow> bool" where
  "entry_for v e \<longleftrightarrow> (\<forall>w. hits e w \<longrightarrow> w = v)"

lemma entry_for_single: "entry_for v e \<Longrightarrow> single_page e"
  by (auto simp: entry_for_def single_page_def)

text \<open>Placing an entry for a page that no other place holds, while a victim slot takes the old one or nothing.\<close>

lemma desc_inv_place:
  assumes d: "desc_inv d" and e: "entry_for v e" and i: "i = tlb_index d v"
    and fresh: "\<forall>j < length (vtable d). j \<noteq> jv \<longrightarrow> \<not> hits (vtable d ! j) v"
    and te: "shrinks te (table d ! i) \<or> te = vtable d ! jv" "\<not> hits te v"
    and d': "size_mask d' = size_mask d" "table d' = (table d)[i := e]" "vtable d' = (vtable d)[jv := te]" "length (viotlb d') = length (viotlb d)"
    and jv: "jv < length (vtable d)"
  shows "desc_inv d'"
proof -
  have idx: "tlb_index d' = tlb_index d" by (simp add: tlb_index_def fun_eq_iff d')
  have il: "i < length (table d)" using d tlb_index_less by (simp add: i desc_inv_def)
  have pl: "k < length (table d) \<Longrightarrow> hits (table d ! k) w \<Longrightarrow> tlb_index d w = k" for k w
    using d by (simp add: desc_inv_def placed_def)
  have tw: "\<lbrakk>j < length (vtable d); hits (vtable d ! j) w; k < length (table d)\<rbrakk> \<Longrightarrow> \<not> hits (table d ! k) w"
    and vv: "\<lbrakk>j < length (vtable d); hits (vtable d ! j) w; j' < length (vtable d); j' \<noteq> j\<rbrakk> \<Longrightarrow> \<not> hits (vtable d ! j') w" for j j' k w
    using d unfolding desc_inv_def no_twins_def by blast+
  have teh: "hits te w \<Longrightarrow> hits (table d ! i) w \<or> hits (vtable d ! jv) w" for w using te(1) by (auto simp: shrinks_def)
  have tei: "\<lbrakk>hits te w; k < length (table d); k \<noteq> i\<rbrakk> \<Longrightarrow> \<not> hits (table d ! k) w" for w k
    using teh [of w] pl [OF il, of w] pl [of k w] tw [OF jv, of w k] by auto
  have tev: "\<lbrakk>hits te w; j < length (vtable d); j \<noteq> jv\<rbrakk> \<Longrightarrow> \<not> hits (vtable d ! j) w" for w j
    using teh [of w] tw [of j w i] il vv [OF jv, of w j] by auto
  have "sizes_ok d'" using d by (simp add: desc_inv_def sizes_ok_def d')
  moreover have "placed d'"
    unfolding placed_def idx
  proof (intro allI impI)
    fix k w assume "k < length (table d')" "hits (table d' ! k) w"
    then show "tlb_index d w = k" using e i pl by (cases "k = i") (auto simp: d' entry_for_def)
  qed
  moreover have "no_twins d'"
    unfolding no_twins_def
  proof (intro allI impI)
    fix j w assume "j < length (vtable d')" and h: "hits (vtable d' ! j) w"
    then have j: "j < length (vtable d)" by (simp add: d')
    have wv: "w \<noteq> v" using h te(2) fresh j by (cases "j = jv") (auto simp: d')
    have "\<not> hits (table d' ! k) w" if k: "k < length (table d)" for k
    proof (cases "k = i")
      case True
      then show ?thesis using e wv il by (auto simp: d' entry_for_def)
    next
      case False
      have "\<not> hits (table d ! k) w"
        using h tei [of w k] tw [OF j _ k, of w] False k by (cases "j = jv") (auto simp: d' jv)
      then show ?thesis using False by (simp add: d')
    qed
    moreover have "\<not> hits (vtable d' ! j') w" if j': "j' < length (vtable d)" "j' \<noteq> j" for j'
      using h j jv j' tev vv [OF j] by (cases "j = jv"; cases "j' = jv") (auto simp: d')
    ultimately show "(\<forall>k < length (table d'). \<not> hits (table d' ! k) w) \<and> (\<forall>j' < length (vtable d'). j' \<noteq> j \<longrightarrow> \<not> hits (vtable d' ! j') w)"
      by (simp add: d')
  qed
  moreover have "single_page f" if "f \<in> set (table d') \<union> set (vtable d')" for f
  proof -
    have "single_page (table d ! i)" "single_page (vtable d ! jv)" using d nth_mem [OF il] nth_mem [OF jv] by (auto simp: desc_inv_def)
    then have "single_page te" using te(1) unfolding single_page_def shrinks_def by blast
    then show ?thesis using that d entry_for_single [OF e] by (auto simp: d' desc_inv_def dest!: set_update_subset_insert [THEN subsetD])
  qed
  ultimately show ?thesis by (simp add: desc_inv_def)
qed

definition tlb_inv :: "CPUTLB \<Rightarrow> bool" where
  "tlb_inv t \<longleftrightarrow> (\<forall>i. desc_inv (mode t i))"

lemma desc_inv_flush_vtlb:
  assumes "desc_inv d" and "aligned page"
  obtains n where "tlb_flush_vtlb_page_locked page d = d\<lparr>vtable := map (flushed page) (vtable d), n_used_entries := n\<rparr>"
    and "desc_inv (d\<lparr>vtable := map (flushed page) (vtable d), n_used_entries := n\<rparr>)"
proof -
  have "length (vtable d) = CPU_VTLB_SIZE" using assms(1) by (simp add: desc_inv_def sizes_ok_def)
  then obtain n where "tlb_flush_vtlb_page_locked page d = d\<lparr>vtable := map (flushed page) (vtable d), n_used_entries := n\<rparr>"
    using flush_vtlb_spec assms(2) by blast
  moreover have "desc_inv (d\<lparr>vtable := map (flushed page) (vtable d), n_used_entries := n\<rparr>)"
    by (rule desc_inv_shrinks [OF assms(1)]) (auto simp: list_all2_conv_all_nth)
  ultimately show ?thesis by (rule that)
qed

lemma vtlb_index: "unat (x :: u64) mod CPU_VTLB_SIZE < CPU_VTLB_SIZE"
  by (simp add: CPU_VTLB_SIZE_def)

text \<open>The mode after an entry was filled: the old entry of the slot is in the victim table or gone.\<close>

lemma install_mode:
  assumes inv: "desc_inv (mode t i)" and v: "aligned v" and d': "d' = mode (tlb_install i v tn io t) i"
    and idx: "index = tlb_index (mode t i) v" and te: "te = table (mode t i) ! index"
  shows "size_mask d' = size_mask (mode t i)" and "table d' = (table (mode t i))[index := tn]"
    and "iotlb d' = (iotlb (mode t i))(index := io)"
    and "large_page_addr d' = large_page_addr (mode t i)" and "large_page_mask d' = large_page_mask (mode t i)"
    and "(hits te v \<or> tlb_entry_is_empty te) \<and> vtable d' = map (flushed v) (vtable (mode t i)) \<and> viotlb d' = viotlb (mode t i) \<or>
       \<not> hits te v \<and> (\<exists>jv < CPU_VTLB_SIZE. vtable d' = (map (flushed v) (vtable (mode t i)))[jv := te] \<and> viotlb d' = (viotlb (mode t i))[jv := iotlb (mode t i) index])"
proof -
  obtain n where n: "tlb_flush_vtlb_page_locked v (mode t i) = (mode t i)\<lparr>vtable := map (flushed v) (vtable (mode t i)), n_used_entries := n\<rparr>"
    using desc_inv_flush_vtlb [OF inv v] by blast
  note defs = d' tlb_install_def Let_def n upd_mode_def tlb_n_used_entries_dec_def tlb_n_used_entries_inc_def idx te
  show "size_mask d' = size_mask (mode t i)" by (simp add: defs)
  show "table d' = (table (mode t i))[index := tn]" by (simp add: defs)
  show "iotlb d' = (iotlb (mode t i))(index := io)" by (simp add: defs)
  show "large_page_addr d' = large_page_addr (mode t i)" by (simp add: defs)
  show "large_page_mask d' = large_page_mask (mode t i)" by (simp add: defs)
  show "(hits te v \<or> tlb_entry_is_empty te) \<and> vtable d' = map (flushed v) (vtable (mode t i)) \<and> viotlb d' = viotlb (mode t i) \<or>
       \<not> hits te v \<and> (\<exists>jv < CPU_VTLB_SIZE. vtable d' = (map (flushed v) (vtable (mode t i)))[jv := te] \<and> viotlb d' = (viotlb (mode t i))[jv := iotlb (mode t i) index])"
  proof (cases "\<not> tlb_hit_page_anyprot te v \<and> \<not> tlb_entry_is_empty te")
    case True
    then show ?thesis using vtlb_index v by (intro disjI2) (auto simp: defs hits_def)
  next
    case False
    then show ?thesis using v by (intro disjI1) (auto simp: defs hits_def)
  qed
qed

lemma install_other [simp]: "j \<noteq> i \<Longrightarrow> mode (tlb_install i v tn io t) j = mode t j"
  by (simp add: tlb_install_def Let_def upd_mode_def)

lemma install_inv:
  assumes inv: "desc_inv (mode t i)" and v: "aligned v" and e: "entry_for v tn"
  shows "desc_inv (mode (tlb_install i v tn io t) i)"
proof -
  let ?d = "mode t i" and ?d' = "mode (tlb_install i v tn io t) i"
  let ?f = "?d\<lparr>vtable := map (flushed v) (vtable ?d)\<rparr>"
  note m = install_mode [OF inv v refl refl refl, of tn io]
  have inv': "desc_inv ?f" by (rule desc_inv_shrinks [OF inv]) (auto simp: list_all2_conv_all_nth)
  have len: "length (vtable ?d) = CPU_VTLB_SIZE" using inv by (simp add: desc_inv_def sizes_ok_def)
  have idx: "tlb_index ?f v = tlb_index ?d v" by (simp add: tlb_index_def)
  have gone: "\<forall>j < length (vtable ?f). \<not> hits (vtable ?f ! j) v" using v by (simp add: hits_flushed)
  then have gone': "\<forall>j < length (vtable ?f). j \<noteq> jv \<longrightarrow> \<not> hits (vtable ?f ! j) v" for jv by blast
  let ?te = "table ?d ! tlb_index ?d v"
  consider (plain) "vtable ?d' = map (flushed v) (vtable ?d)" "viotlb ?d' = viotlb ?d"
    | (evict) jv where "\<not> hits ?te v" "jv < CPU_VTLB_SIZE" "vtable ?d' = (map (flushed v) (vtable ?d))[jv := ?te]"
        "viotlb ?d' = (viotlb ?d)[jv := iotlb ?d (tlb_index ?d v)]"
    using m(6) by blast
  then show ?thesis
  proof cases
    case plain
    have same: "vtable ?d' = (vtable ?f)[0 := vtable ?f ! 0]" by (simp only: list_update_id) (simp add: plain)
    show ?thesis
      by (rule desc_inv_place [OF inv' e refl gone' _ _ _ _ same])
        (use gone len plain m(1-5) idx in \<open>auto simp: CPU_VTLB_SIZE_def\<close>)
  next
    case evict
    show ?thesis
      by (rule desc_inv_place [OF inv' e refl, where jv = jv and te = ?te]) (use gone len evict m idx in auto)
  qed
qed

lemma victim_from_Some:
  "victim_from ks index ofs page d = Some d' \<Longrightarrow> \<exists>k \<in> set ks. tlb_read_ofs ofs (vtable d ! k) = page \<and>
     d' = d\<lparr>table := (table d)[index := vtable d ! k], vtable := (vtable d)[k := table d ! index],
            iotlb := (iotlb d)(index := viotlb d ! k), viotlb := (viotlb d)[k := iotlb d index]\<rparr>"
  by (induction ks) (auto split: if_splits)

lemma victim_from_None: "victim_from ks index ofs page d = None \<Longrightarrow> \<forall>k \<in> set ks. tlb_read_ofs ofs (vtable d ! k) \<noteq> page"
  by (induction ks) (auto split: if_splits)

lemma read_ofs_hits: "tlb_read_ofs ofs e = page \<Longrightarrow> aligned page \<Longrightarrow> hits e page"
  using aligned_hit_self [of page] by (cases ofs) (auto simp: hits_def tlb_hit_page_anyprot_def)

lemma victim_inv:
  assumes inv: "desc_inv d" and v: "aligned v" and vf: "victim_from [0..<CPU_VTLB_SIZE] (tlb_index d v) ofs v d = Some d'"
  shows "desc_inv d'"
proof -
  obtain k where k: "k < CPU_VTLB_SIZE" "tlb_read_ofs ofs (vtable d ! k) = v"
    and d': "d' = d\<lparr>table := (table d)[tlb_index d v := vtable d ! k], vtable := (vtable d)[k := table d ! tlb_index d v],
       iotlb := (iotlb d)(tlb_index d v := viotlb d ! k), viotlb := (viotlb d)[k := iotlb d (tlb_index d v)]\<rparr>"
    using victim_from_Some [OF vf] by auto
  have kl: "k < length (vtable d)" using k(1) inv by (simp add: desc_inv_def sizes_ok_def)
  have il: "tlb_index d v < length (table d)" using inv tlb_index_less by (simp add: desc_inv_def)
  have h: "hits (vtable d ! k) v" using read_ofs_hits [OF k(2) v] .
  have "single_page (vtable d ! k)" using inv kl by (auto simp: desc_inv_def)
  then have ef: "entry_for v (vtable d ! k)" using h by (auto simp: single_page_def entry_for_def)
  have tw: "\<not> hits (table d ! tlb_index d v) v" "\<forall>j < length (vtable d). j \<noteq> k \<longrightarrow> \<not> hits (vtable d ! j) v"
    using inv kl h il unfolding desc_inv_def no_twins_def by blast+
  show ?thesis
    by (rule desc_inv_place [OF inv ef refl tw(2) _ tw(1)]) (simp_all add: d' kl)
qed

end
