(* ===== verification/Tlb_Properties.thy ===== *)
theory Tlb_Properties
  imports Tlb_Cache
begin

text \<open>
  What the flushes of the software TLB guarantee: the states the TLB can reach, that a flush that
  skips the modes that were not used since the last one leaves nothing behind, and that the flush of
  a page removes every trace of it, from large pages and from the jump cache too.
\<close>

section \<open>The jump cache\<close>

lemma jmp_mask_bits [word_bits]:
  "bit TB_JMP_PAGE_MASK n \<longleftrightarrow> 6 \<le> n \<and> n < 12"
  "bit TB_JMP_ADDR_MASK n \<longleftrightarrow> n < 6"
proof -
  have p: "TB_JMP_PAGE_MASK = push_bit 6 (mask 6)" and a: "TB_JMP_ADDR_MASK = mask 6"
    by (simp_all add: TB_JMP_PAGE_MASK_def TB_JMP_ADDR_MASK_def push_bit_eq_mult mask_eq_exp_minus_1)
  show "bit TB_JMP_PAGE_MASK n \<longleftrightarrow> 6 \<le> n \<and> n < 12" unfolding p bit_push_bit_iff bit_mask_iff by auto
  show "bit TB_JMP_ADDR_MASK n \<longleftrightarrow> n < 6" unfolding a bit_mask_iff by auto
qed

lemma jmp_hash_of_page: "tb_jmp_cache_hash_page (pc AND TARGET_PAGE_MASK) = tb_jmp_cache_hash_page pc"
proof -
  let ?f = "\<lambda>pc :: u32. drop_bit 6 (pc XOR drop_bit 6 pc) AND TB_JMP_PAGE_MASK"
  have "?f (pc AND TARGET_PAGE_MASK) = ?f pc"
    by (rule bit_word_eqI) (auto simp: bit_and_iff bit_drop_bit_eq bit_xor_iff word_bits)
  then show ?thesis by (simp add: tb_jmp_cache_hash_page_def Let_def)
qed

text \<open>The blocks that start on a page are cached in the 64 slots of that page.\<close>

lemma jmp_hash_range:
  "tb_jmp_cache_hash_page pc \<le> tb_jmp_cache_hash_func pc \<and> tb_jmp_cache_hash_func pc < tb_jmp_cache_hash_page pc + TB_JMP_PAGE_SIZE"
proof -
  define tmp where "tmp = pc XOR drop_bit 6 pc"
  let ?a = "drop_bit 6 tmp AND TB_JMP_PAGE_MASK" and ?b = "tmp AND TB_JMP_ADDR_MASK"
  have dis: "?a + ?b = ?a OR ?b"
    by (rule disjunctive_add_eq_or) (auto intro!: bit_word_eqI simp: bit_and_iff word_bits)
  have "?a \<le> 0xfc0" by (simp add: TB_JMP_PAGE_MASK_def word_and_le1)
  then have a: "unat ?a \<le> 0xfc0" by (simp add: word_le_nat_alt)
  have "?b \<le> 0x3f" by (simp add: TB_JMP_ADDR_MASK_def word_and_le1)
  then have b: "unat ?b \<le> 0x3f" by (simp add: word_le_nat_alt)
  have "unat (?a + ?b) = unat ?a + unat ?b" using a b by (intro unat_add_lem [THEN iffD1]) simp
  then have "tb_jmp_cache_hash_func pc = tb_jmp_cache_hash_page pc + unat ?b"
    by (simp add: tb_jmp_cache_hash_func_def tb_jmp_cache_hash_page_def Let_def tmp_def [symmetric] dis)
  then show ?thesis using b by (simp add: TB_JMP_PAGE_SIZE_def)
qed

lemma jmp_cache_page_cleared:
  "pc AND TARGET_PAGE_MASK = page AND TARGET_PAGE_MASK \<Longrightarrow> tb_jmp_cache (tb_jmp_cache_clear_page page t) (tb_jmp_cache_hash_func pc) = None"
  using jmp_hash_range [of pc] jmp_hash_of_page [of pc] jmp_hash_of_page [of page] by (simp add: tb_jmp_cache_clear_page_def Let_def)

lemma jmp_cache_flushed:
  assumes "pc AND TARGET_PAGE_MASK = addr AND TARGET_PAGE_MASK \<or> pc AND TARGET_PAGE_MASK = (addr - 0x1000) AND TARGET_PAGE_MASK"
  shows "tb_jmp_cache (tb_flush_jmp_cache addr t) (tb_jmp_cache_hash_func pc) = None"
proof -
  have keep: "tb_jmp_cache t' h = None \<Longrightarrow> tb_jmp_cache (tb_jmp_cache_clear_page a t') h = None" for t' h a
    by (simp add: tb_jmp_cache_clear_page_def Let_def)
  show ?thesis using assms jmp_cache_page_cleared keep unfolding tb_flush_jmp_cache_def by metis
qed

lemma flush_jmp_mode [simp]: "mode (tb_flush_jmp_cache a t) = mode t" "tlb_dirty (tb_flush_jmp_cache a t) = tlb_dirty t"
  by (simp_all add: tb_flush_jmp_cache_def tb_jmp_cache_clear_page_def Let_def)

lemma jmp_clear_mode [simp]: "mode (cpu_tb_jmp_cache_clear t) = mode t" "tlb_dirty (cpu_tb_jmp_cache_clear t) = tlb_dirty t"
  by (simp_all add: cpu_tb_jmp_cache_clear_def)

lemma aligned_before: "aligned page \<Longrightarrow> aligned (page - 0x1000)"
proof -
  assume a: "aligned page"
  have al: "aligned w \<longleftrightarrow> take_bit 12 w = 0" for w
  proof
    assume "aligned w"
    then have "bit w n \<Longrightarrow> \<not> n < 12" for n using aligned_bit by fastforce
    then show "take_bit 12 w = 0" by (intro bit_word_eqI) (auto simp: bit_take_bit_iff)
  next
    assume t: "take_bit 12 w = 0"
    have low: "12 \<le> n" if "bit w n" for n
    proof (rule ccontr)
      assume "\<not> 12 \<le> n"
      then have "bit (take_bit 12 w) n" using that by (simp add: bit_take_bit_iff)
      then show False by (simp add: t)
    qed
    then show "aligned w" by (intro bit_word_eqI) (auto simp: bit_and_iff page_mask_bit)
  qed
  then obtain "take_bit 12 page = 0" using a by blast
  then have "page = push_bit 12 (drop_bit 12 page)" using bits_ident [of 12 page] by simp
  then have "page - 0x1000 = push_bit 12 (drop_bit 12 page - 1)" by (simp add: push_bit_eq_mult algebra_simps)
  then show ?thesis unfolding al by (simp add: take_bit_push_bit)
qed

section \<open>The modes a flush visits\<close>

lemma flush_modes_spec:
  assumes "flush_modes f is t = Some t'" and "distinct is"
  shows "(\<forall>i. i \<in> set is \<longrightarrow> f i (mode t i) = Some (mode t' i)) \<and> (\<forall>i. i \<notin> set is \<longrightarrow> mode t' i = mode t i) \<and>
     tlb_dirty t' = tlb_dirty t \<and> tb_jmp_cache t' = tb_jmp_cache t"
  using assms
proof (induction "is" arbitrary: t)
  case (Cons i js)
  then obtain d where d: "f i (mode t i) = Some d" "flush_modes f js (upd_mode i d t) = Some t'" by (auto split: option.splits)
  have "i \<notin> set js" "distinct js" using Cons.prems(2) by auto
  then show ?case using Cons.IH [OF d(2)] d(1) by (auto simp: upd_mode_def) metis
qed simp

lemma distinct_modes [simp]: "distinct (modes_in w)"
  by (simp add: modes_in_def mmu_modes_def)

lemma modes_in_iff: "i \<in> set (modes_in w) \<longleftrightarrow> bit w (idx_bit i)"
  by (cases i) (auto simp: modes_in_def mmu_modes_def)

lemma idx_bit_less: "idx_bit i < 3"
  by (cases i) auto

lemma all_modes_bit: "bit ALL_MMUIDX_BITS n \<longleftrightarrow> n < 3"
proof -
  have eq: "ALL_MMUIDX_BITS = mask 3" by (simp add: ALL_MMUIDX_BITS_def mask_eq_exp_minus_1)
  show ?thesis unfolding eq bit_mask_iff by auto
qed

section \<open>Large pages\<close>

text \<open>The region of large pages includes the page of \<open>size\<close> bytes around \<open>v\<close>.\<close>

definition covers :: "CPUTLBDesc \<Rightarrow> u32 \<Rightarrow> u32 \<Rightarrow> bool" where
  "covers d v len \<longleftrightarrow> (\<forall>w. w AND NOT (len - 1) = v AND NOT (len - 1) \<longrightarrow> w AND large_page_mask d = large_page_addr d)"

text \<open>Each mask that occurs is a run of high bits, so widening one keeps what it selects apart from the low bits.\<close>

definition high_mask :: "u32 \<Rightarrow> bool" where
  "high_mask m \<longleftrightarrow> (\<exists>n. m = push_bit n (- 1))"

lemma high_mask_bit: "m = push_bit n (- 1 :: u32) \<Longrightarrow> bit m k \<longleftrightarrow> n \<le> k \<and> k < 32"
  by (simp only: bit_push_bit_iff bit_minus_1_iff) auto

lemma high_mask_push [simp]: "high_mask m \<Longrightarrow> high_mask (push_bit 1 m)"
  unfolding high_mask_def by (metis push_bit_push_bit)

lemma high_mask_and: "high_mask m \<Longrightarrow> high_mask m' \<Longrightarrow> high_mask (m AND m')"
proof -
  assume "high_mask m" "high_mask m'"
  then obtain n n' where n: "m = push_bit n (- 1)" "m' = push_bit n' (- 1)" by (auto simp: high_mask_def)
  have "m AND m' = push_bit (max n n') (- 1)"
    by (rule bit_word_eqI) (auto simp: bit_and_iff high_mask_bit [OF n(1)] high_mask_bit [OF n(2)] high_mask_bit [OF refl] simp del: push_bit_minus_one_eq_not_mask)
  then show ?thesis unfolding high_mask_def by blast
qed

lemma extend_mask_spec:
  "high_mask m \<Longrightarrow> high_mask (extend_mask x m) \<and> x AND extend_mask x m = 0 \<and> (\<exists>k. extend_mask x m = push_bit k m)"
proof (induction x m rule: extend_mask.induct)
  case (1 x m)
  show ?case
  proof (cases "x AND m = 0")
    case True
    then have "extend_mask x m = push_bit 0 m" by (subst extend_mask.simps) simp
    then show ?thesis using True "1.prems" by (metis push_bit_0_id id_apply)
  next
    case False
    then have e: "extend_mask x m = extend_mask x (push_bit 1 m)" by (subst extend_mask.simps) simp
    from "1.IH" [OF False high_mask_push [OF "1.prems"]] obtain k where
      "high_mask (extend_mask x (push_bit 1 m))" "x AND extend_mask x (push_bit 1 m) = 0" "extend_mask x (push_bit 1 m) = push_bit k (push_bit 1 m)" by auto
    then show ?thesis unfolding e by (metis push_bit_push_bit)
  qed
qed

text \<open>A wider mask.\<close>

lemma mask_wider:
  assumes "high_mask m" and "w AND m = v AND m"
  shows "w AND push_bit k m = v AND push_bit k m"
proof -
  have sub: "push_bit k m = m AND push_bit k m"
  proof -
    from assms(1) obtain n where n: "m = push_bit n (- 1)" by (auto simp: high_mask_def)
    show ?thesis
      by (rule bit_word_eqI) (auto simp: bit_and_iff high_mask_bit [OF n] bit_push_bit_iff simp del: push_bit_minus_one_eq_not_mask)
  qed
  have "w AND push_bit k m = (w AND m) AND push_bit k m" by (subst sub) (simp only: and.assoc)
  also have "\<dots> = (v AND m) AND push_bit k m" by (simp only: assms(2))
  also have "\<dots> = v AND push_bit k m" by (subst (2) sub) (simp only: and.assoc)
  finally show ?thesis .
qed

lemma and_sub: "w AND s = v AND s \<Longrightarrow> w AND (s AND m) = v AND (s AND m)" for w :: u32
  by (simp only: and.assoc [symmetric])

lemma and_idem: "(x AND m) AND m = x AND m" for x :: u32
  by (simp only: and.assoc and.idem)

definition lp_ok :: "CPUTLBDesc \<Rightarrow> bool" where
  "lp_ok d \<longleftrightarrow> large_page_addr d = - 1 \<and> large_page_mask d = - 1 \<or> high_mask (large_page_mask d) \<and> large_page_addr d AND large_page_mask d = large_page_addr d \<and> large_page_addr d \<noteq> - 1"

text \<open>A size that is a power of two, below the whole address space.\<close>

definition page_size_ok :: "u32 \<Rightarrow> bool" where
  "page_size_ok len \<longleftrightarrow> (\<exists>n < 32. 0 < n \<and> len = push_bit n 1)"

lemma size_high_mask: "page_size_ok len \<Longrightarrow> high_mask (NOT (len - 1)) \<and> \<not> bit (NOT (len - 1)) 0"
proof -
  assume "page_size_ok len"
  then obtain n where n: "n < 32" "0 < n" "len = push_bit n 1" by (auto simp: page_size_ok_def)
  have "NOT (len - 1) = push_bit n (- 1)"
    by (simp add: n(3) push_bit_minus_one_eq_not_mask mask_eq_exp_minus_1)
  then show ?thesis using n high_mask_bit [of "NOT (len - 1)" n 0] unfolding high_mask_def by auto
qed

lemma add_large_page_spec:
  assumes ok: "lp_ok d" and len: "page_size_ok len"
  shows "lp_ok (tlb_add_large_page v len d)" and "covers (tlb_add_large_page v len d) v len"
    and "large_page_addr d \<noteq> - 1 \<Longrightarrow> w AND large_page_mask d = large_page_addr d \<Longrightarrow>
      w AND large_page_mask (tlb_add_large_page v len d) = large_page_addr (tlb_add_large_page v len d)"
proof -
  let ?d = "tlb_add_large_page v len d" and ?s = "NOT (len - 1)"
  have hs: "high_mask ?s" "\<not> bit ?s 0" using size_high_mask [OF len] by auto
  have no1: "x AND m \<noteq> - 1" if "\<not> bit m 0" for x m :: u32
  proof
    assume "x AND m = - 1"
    then have "bit (x AND m) 0" by simp
    then show False using that by (simp add: bit_and_iff)
  qed
  have "lp_ok ?d \<and> covers ?d v len \<and> (large_page_addr d \<noteq> - 1 \<longrightarrow> w AND large_page_mask d = large_page_addr d \<longrightarrow> w AND large_page_mask ?d = large_page_addr ?d)"
  proof (cases "large_page_addr d = - 1")
    case True
    then have d: "large_page_addr ?d = v AND ?s" "large_page_mask ?d = ?s" by (simp_all add: tlb_add_large_page_def Let_def)
    have "lp_ok ?d" unfolding lp_ok_def d using hs(1) no1 [OF hs(2)] and_idem by (intro disjI2 conjI) assumption+
    moreover have "covers ?d v len" by (simp add: covers_def d)
    ultimately show ?thesis using True by simp
  next
    case False
    define a where "a = large_page_addr d"
    define m where "m = ?s AND large_page_mask d"
    define e where "e = extend_mask (a XOR v) m"
    have hd: "high_mask (large_page_mask d)" "a AND large_page_mask d = a" using ok False by (auto simp: lp_ok_def a_def)
    have hm: "high_mask m" unfolding m_def by (rule high_mask_and [OF hs(1) hd(1)])
    have e: "high_mask e" "(a XOR v) AND e = 0" "\<exists>k. e = push_bit k m" using extend_mask_spec [OF hm, of "a XOR v"] by (auto simp: e_def)
    then obtain k where k: "e = push_bit k m" by blast
    have d: "large_page_addr ?d = a AND e" "large_page_mask ?d = e" using False by (simp_all add: tlb_add_large_page_def Let_def a_def m_def e_def)
    have av: "a AND e = v AND e"
    proof (rule bit_word_eqI)
      fix n
      have "\<not> bit ((a XOR v) AND e) n" by (simp add: e(2))
      then show "bit (a AND e) n = bit (v AND e) n" by (auto simp: bit_and_iff bit_xor_iff)
    qed
    have m0: "\<not> bit m 0" using hs(2) by (simp add: m_def bit_and_iff)
    have "\<not> bit e 0" using m0 by (auto simp: k bit_push_bit_iff)
    then have "lp_ok ?d" unfolding lp_ok_def d using e(1) no1 and_idem by (intro disjI2 conjI) assumption+
    moreover have "covers ?d v len"
      unfolding covers_def d
    proof (intro allI impI)
      fix w assume w: "w AND ?s = v AND ?s"
      have "w AND m = v AND m" unfolding m_def using w by (rule and_sub)
      then show "w AND e = a AND e" unfolding av unfolding k by (rule mask_wider [OF hm])
    qed
    moreover have "w AND e = a AND e" if "w AND large_page_mask d = a"
    proof -
      have "w AND large_page_mask d = a AND large_page_mask d" using that hd(2) by simp
      then have "w AND m = a AND m" unfolding m_def and.commute [of ?s] by (rule and_sub)
      then show ?thesis unfolding k by (rule mask_wider [OF hm])
    qed
    ultimately show ?thesis by (simp add: d a_def)
  qed
  then show "lp_ok ?d" and "covers ?d v len"
    and "large_page_addr d \<noteq> - 1 \<Longrightarrow> w AND large_page_mask d = large_page_addr d \<Longrightarrow> w AND large_page_mask ?d = large_page_addr ?d"
    by auto
qed

section \<open>The states of the TLB\<close>

text \<open>A mode that holds no translation.\<close>

definition desc_void :: "CPUTLBDesc \<Rightarrow> bool" where
  "desc_void d \<longleftrightarrow> sizes_ok d \<and> (\<forall>e \<in> set (table d) \<union> set (vtable d). \<forall>v. \<not> hits e v) \<and> large_page_addr d = - 1 \<and> large_page_mask d = - 1"

lemma desc_empty_void: "desc_empty d \<Longrightarrow> desc_void d"
  using desc_empty_no_hit by (auto simp: desc_void_def desc_empty_def)

text \<open>The large pages whose translations a mode may still hold: those filled since it was last empty.\<close>

type_synonym large_pages = "mmu_idx \<Rightarrow> (u32 \<times> u32) set"

definition known :: "CPUTLB \<Rightarrow> large_pages \<Rightarrow> large_pages" where
  "known t L i = (if desc_void (mode t i) then {} else L i)"

text \<open>
  The TLB after the processor was reset, filled by page walks, flushed, and used by accesses, beside
  the large pages it may hold. The host grants no request beyond its memory.
\<close>

inductive tlb_reach :: "CPUTLB \<Rightarrow> large_pages \<Rightarrow> bool" where
  boot: "\<lbrakk>\<forall>i. host_ok (h i); \<forall>i. length (vtable (mode t i)) = CPU_VTLB_SIZE \<and> length (viotlb (mode t i)) = CPU_VTLB_SIZE;
          tlb_flush h (tlb_init h0 t) = Some t'\<rbrakk> \<Longrightarrow> tlb_reach t' (\<lambda>i. {})"
| fill: "\<lbrakk>tlb_reach t L; aligned v; entry_for v tn\<rbrakk> \<Longrightarrow> tlb_reach (tlb_install i v tn io t) L"
| fill_large: "\<lbrakk>tlb_reach t L; page_size_ok len; v = vaddr AND TARGET_PAGE_MASK; entry_for v tn;
                t' = upd_mode i (tlb_add_large_page vaddr len (mode t i)) t\<rbrakk> \<Longrightarrow>
     tlb_reach (tlb_install i v tn io t') (L(i := insert (vaddr, len) (L i)))"
| flush: "\<lbrakk>tlb_reach t L; \<forall>i. host_ok (h i); tlb_flush_by_mmuidx h w t = Some t'\<rbrakk> \<Longrightarrow> tlb_reach t' (known t' L)"
| flush_page: "\<lbrakk>tlb_reach t L; \<forall>i. host_ok (h i); tlb_flush_page_by_mmuidx h addr w t = Some t'\<rbrakk> \<Longrightarrow> tlb_reach t' (known t' L)"
| victim: "\<lbrakk>tlb_reach t L; aligned v; victim_tlb_hit i (tlb_index (mode t i) v) ofs v t = Some t'\<rbrakk> \<Longrightarrow> tlb_reach t' L"
| dirty: "tlb_reach t L \<Longrightarrow> tlb_reach (tlb_set_dirty vaddr t) L"
| clean: "tlb_reach t L \<Longrightarrow> tlb_reach (tlb_reset_dirty start1 len t) L"

text \<open>What holds of one mode, given whether its bit of \<open>dirty\<close> is set and its large pages.\<close>

definition mode_ok :: "bool \<Rightarrow> (u32 \<times> u32) set \<Rightarrow> CPUTLBDesc \<Rightarrow> bool" where
  "mode_ok used S d \<longleftrightarrow> desc_inv d \<and> lp_ok d \<and> (used \<or> desc_void d) \<and>
     (\<forall>(v, len) \<in> S. page_size_ok len \<and> large_page_addr d \<noteq> - 1 \<and> covers d v len)"

definition tlb_ok :: "CPUTLB \<Rightarrow> large_pages \<Rightarrow> bool" where
  "tlb_ok t L \<longleftrightarrow> (\<forall>i. mode_ok (bit (tlb_dirty t) (idx_bit i)) (L i) (mode t i))"

lemma desc_void_ok: "desc_void d \<Longrightarrow> mode_ok u {} d"
proof -
  assume d: "desc_void d"
  have "k < length (table d) \<Longrightarrow> \<not> hits (table d ! k) v" and "k < length (vtable d) \<Longrightarrow> \<not> hits (vtable d ! k) v" for k v
    using d unfolding desc_void_def by (meson UnI1 UnI2 nth_mem)+
  then have "desc_inv d" using d unfolding desc_inv_def placed_def no_twins_def single_page_def desc_void_def by blast
  then show ?thesis using d by (simp add: mode_ok_def lp_ok_def desc_void_def)
qed

text \<open>A change of the tables that adds no hit and leaves the large pages alone.\<close>

lemma mode_ok_shrinks:
  assumes ok: "mode_ok u S d" and inv: "desc_inv d'"
    and l: "large_page_addr d' = large_page_addr d" "large_page_mask d' = large_page_mask d"
    and v: "\<not> u \<Longrightarrow> desc_void d \<Longrightarrow> desc_void d'"
  shows "mode_ok u S d'"
  using assms by (auto simp: mode_ok_def lp_ok_def covers_def)

lemma void_map:
  assumes d: "desc_void d" and f: "\<forall>e. shrinks (f e) e" and d': "d' = d\<lparr>table := map f (table d), vtable := map f (vtable d), n_used_entries := n\<rparr>"
  shows "desc_void d'"
proof -
  have "sizes_ok d'" using d by (simp add: d' desc_void_def sizes_ok_def)
  moreover have "\<not> hits e v" if e: "e \<in> set (table d') \<union> set (vtable d')" for e v
  proof -
    have "set (table d') \<union> set (vtable d') = f ` (set (table d) \<union> set (vtable d))" by (simp add: d' image_Un)
    with e obtain e0 where "e0 \<in> set (table d) \<union> set (vtable d)" "e = f e0" by blast
    then show ?thesis using d f unfolding desc_void_def shrinks_def by blast
  qed
  moreover have "large_page_addr d' = - 1" "large_page_mask d' = - 1" using d by (simp_all add: d' desc_void_def)
  ultimately show ?thesis unfolding desc_void_def by blast
qed

lemma shrinks_reset_all: "\<forall>e. shrinks (tlb_reset_dirty_range_locked s n e) e"
  by simp

subsection \<open>Each operation on a mode\<close>

lemma flush_one_ok:
  assumes "tlb_flush_one_mmuidx_locked h d = Some d'" and "mode_ok u S d" and "host_ok h"
  shows "desc_void d'"
  using flush_one_empty [OF assms(1) _ assms(3)] desc_empty_void assms(2) by (auto simp: mode_ok_def desc_inv_def)

lemma flush_page_ok:
  assumes f: "tlb_flush_page_locked h page d = Some d'" and ok: "mode_ok u S d" and h: "host_ok h" and a: "aligned page"
  shows "mode_ok u (if desc_void d' then {} else S) d'"
proof -
  have inv: "desc_inv d" using ok by (simp add: mode_ok_def)
  show ?thesis
    using flush_page_locked_spec [OF f a inv h]
  proof
    assume "desc_empty d'"
    then show ?thesis using desc_empty_void desc_void_ok by simp
  next
    assume "\<exists>n. d' = d\<lparr>table := map (flushed page) (table d), vtable := map (flushed page) (vtable d), n_used_entries := n\<rparr>"
    then obtain n where d': "d' = d\<lparr>table := map (flushed page) (table d), vtable := map (flushed page) (vtable d), n_used_entries := n\<rparr>" ..
    have lp: "large_page_addr d' = large_page_addr d" "large_page_mask d' = large_page_mask d" by (simp_all add: d')
    have "desc_void d \<Longrightarrow> desc_void d'" by (erule void_map [OF _ _ d']) simp
    then have "mode_ok u S d'" by (rule mode_ok_shrinks [OF ok flush_page_locked_inv [OF f a inv h] lp])
    then show ?thesis using desc_void_ok by simp
  qed
qed

lemma install_ok:
  assumes ok: "mode_ok u S (mode t i)" and v: "aligned v" and e: "entry_for v tn"
  shows "mode_ok True S (mode (tlb_install i v tn io t) i)"
proof -
  have inv: "desc_inv (mode t i)" using ok by (simp add: mode_ok_def)
  have "mode_ok True S (mode t i)" using ok by (simp add: mode_ok_def)
  then show ?thesis
    by (rule mode_ok_shrinks [OF _ install_inv [OF inv v e] install_mode(4,5) [OF inv v refl refl refl]]) simp
qed

lemma add_large_ok:
  assumes ok: "mode_ok u S d" and len: "page_size_ok len"
  shows "mode_ok True (insert (v, len) S) (tlb_add_large_page v len d)"
proof -
  let ?d = "tlb_add_large_page v len d"
  have lp: "lp_ok d" using ok by (simp add: mode_ok_def)
  note spec = add_large_page_spec [OF lp len]
  have same: "table ?d = table d" "vtable ?d = vtable d" "viotlb ?d = viotlb d" "size_mask ?d = size_mask d"
    by (simp_all add: tlb_add_large_page_def Let_def split: prod.split)
  have dinv: "desc_inv d" using ok by (simp add: mode_ok_def)
  have "list_all2 shrinks (table ?d) (table d)" "list_all2 shrinks (vtable ?d) (vtable d)" by (simp_all add: same list_all2_refl)
  then have "desc_inv ?d" by (rule desc_inv_shrinks [OF dinv same(4) arg_cong [where f = length, OF same(3)]])
  moreover have "large_page_addr ?d \<noteq> - 1"
  proof
    assume m1: "large_page_addr ?d = - 1"
    define w where "w = v AND NOT (len - 1)"
    have "w AND large_page_mask ?d = - 1" using spec(2) [of v] unfolding covers_def m1 w_def using and_idem by blast
    then have "bit (w AND large_page_mask ?d) 0" by simp
    then have "bit w 0" by (simp only: bit_and_iff)
    then show False using size_high_mask [OF len] unfolding w_def bit_and_iff by blast
  qed
  moreover have "page_size_ok len' \<and> covers ?d v' len'" if "(v', len') \<in> S" for v' len'
  proof -
    have "page_size_ok len'" "large_page_addr d \<noteq> - 1" "covers d v' len'" using that ok unfolding mode_ok_def by blast+
    then show ?thesis using spec(3) unfolding covers_def by blast
  qed
  ultimately show ?thesis unfolding mode_ok_def using spec(1) spec(2) [of v] len by blast
qed

lemma victim_ok:
  assumes ok: "mode_ok u S d" and v: "aligned v" and vf: "victim_from [0..<CPU_VTLB_SIZE] (tlb_index d v) ofs v d = Some d'"
  shows "mode_ok u S d'"
proof -
  have inv: "desc_inv d" using ok by (simp add: mode_ok_def)
  obtain k where k: "k < CPU_VTLB_SIZE" "tlb_read_ofs ofs (vtable d ! k) = v"
    and d': "d' = d\<lparr>table := (table d)[tlb_index d v := vtable d ! k], vtable := (vtable d)[k := table d ! tlb_index d v],
       iotlb := (iotlb d)(tlb_index d v := viotlb d ! k), viotlb := (viotlb d)[k := iotlb d (tlb_index d v)]\<rparr>"
    using victim_from_Some [OF vf] by auto
  have "k < length (vtable d)" using k(1) inv by (simp add: desc_inv_def sizes_ok_def)
  then have "\<not> desc_void d" using read_ofs_hits [OF k(2) v] unfolding desc_void_def by (meson UnI2 nth_mem)
  then have void: "desc_void d \<Longrightarrow> desc_void d'" by blast
  have lp: "large_page_addr d' = large_page_addr d" "large_page_mask d' = large_page_mask d" by (simp_all add: d')
  show ?thesis using void by (rule mode_ok_shrinks [OF ok victim_inv [OF inv v vf] lp])
qed

lemma reset_dirty_ok:
  assumes ok: "mode_ok u S d"
    and d': "d' = d\<lparr>table := map (tlb_reset_dirty_range_locked s n) (table d), vtable := map (tlb_reset_dirty_range_locked s n) (vtable d)\<rparr>"
  shows "mode_ok u S d'"
proof -
  have inv: "desc_inv d" using ok by (simp add: mode_ok_def)
  have lp: "large_page_addr d' = large_page_addr d" "large_page_mask d' = large_page_mask d" by (simp_all add: d')
  have "desc_inv d'" by (rule desc_inv_shrinks [OF inv]) (simp_all add: d' list_all2_conv_all_nth)
  moreover have "desc_void d'" if "desc_void d"
    by (rule void_map [OF that shrinks_reset_all [of s n], of _ "n_used_entries d"]) (simp add: d')
  ultimately show ?thesis by (rule mode_ok_shrinks [OF ok _ lp])
qed

lemma set_dirty_ok:
  assumes ok: "mode_ok u S d"
    and d': "d' = d\<lparr>table := (table d)[tlb_index d a := tlb_set_dirty1_locked a (tlb_entry d a)], vtable := map (tlb_set_dirty1_locked a) (vtable d)\<rparr>"
  shows "mode_ok u S d'"
proof -
  have inv: "desc_inv d" using ok by (simp add: mode_ok_def)
  have il: "tlb_index d a < length (table d)" using inv tlb_index_less by (simp add: desc_inv_def)
  have lp: "large_page_addr d' = large_page_addr d" "large_page_mask d' = large_page_mask d" by (simp_all add: d')
  have "list_all2 shrinks (table d') (table d)"
    unfolding d' by (simp, rule list_all2_update) (simp_all add: list_all2_refl tlb_entry_def)
  then have "desc_inv d'" by (rule desc_inv_shrinks [OF inv, rotated 2]) (simp_all add: d' list_all2_conv_all_nth)
  moreover have "desc_void d'" if void: "desc_void d"
  proof -
    have "sizes_ok d'" using void by (simp add: d' desc_void_def sizes_ok_def)
    moreover have "\<not> hits e v" if e: "e \<in> set (table d') \<union> set (vtable d')" for e v
    proof -
      have "set (table d') \<union> set (vtable d') \<subseteq> set (table d) \<union> set (vtable d) \<union> tlb_set_dirty1_locked a ` (set (table d) \<union> set (vtable d))"
        using il unfolding d' by (auto simp: tlb_entry_def dest!: set_update_subset_insert [THEN subsetD])
      then have "\<exists>e0 \<in> set (table d) \<union> set (vtable d). e = e0 \<or> e = tlb_set_dirty1_locked a e0" using e by blast
      then show ?thesis using void hits_set_dirty unfolding desc_void_def by metis
    qed
    ultimately show ?thesis using void lp unfolding desc_void_def by simp
  qed
  ultimately show ?thesis by (rule mode_ok_shrinks [OF ok _ lp])
qed

subsection \<open>The flushes\<close>

lemma flush_modes_None:
  "flush_modes f is t = None \<Longrightarrow> distinct is \<Longrightarrow> \<exists>i \<in> set is. f i (mode t i) = None"
proof (induction "is" arbitrary: t)
  case (Cons i js)
  show ?case
  proof (cases "f i (mode t i)")
    case (Some d)
    then obtain j where j: "j \<in> set js" "f j (mode (upd_mode i d t) j) = None" using Cons by auto
    then have "j \<noteq> i" using Cons.prems(2) by auto
    then show ?thesis using j by (auto simp: upd_mode_def)
  qed simp
qed simp

lemma flush_mmuidx_spec:
  assumes "tlb_flush_by_mmuidx h w t = Some t'"
  shows "\<forall>i. bit w (idx_bit i) \<and> bit (tlb_dirty t) (idx_bit i) \<longrightarrow> tlb_flush_one_mmuidx_locked (h i) (mode t i) = Some (mode t' i)"
    and "\<forall>i. \<not> (bit w (idx_bit i) \<and> bit (tlb_dirty t) (idx_bit i)) \<longrightarrow> mode t' i = mode t i"
    and "tlb_dirty t' = tlb_dirty t AND NOT (w AND tlb_dirty t)"
    and "j < TB_JMP_CACHE_SIZE \<Longrightarrow> tb_jmp_cache t' j = None"
proof -
  let ?c = "w AND tlb_dirty t" and ?t = "t\<lparr>tlb_dirty := tlb_dirty t AND NOT (w AND tlb_dirty t)\<rparr>"
  obtain t1 where t1: "flush_modes (\<lambda>i. tlb_flush_one_mmuidx_locked (h i)) (modes_in ?c) ?t = Some t1"
    and m: "mode t' = mode t1" "tlb_dirty t' = tlb_dirty t1" "tb_jmp_cache t' = tb_jmp_cache (cpu_tb_jmp_cache_clear t1)"
    using assms unfolding tlb_flush_by_mmuidx_def tlb_flush_by_mmuidx_async_work_def Let_def
    by (auto split: option.splits if_splits)
  note sp = flush_modes_spec [OF t1 distinct_modes]
  show "\<forall>i. bit w (idx_bit i) \<and> bit (tlb_dirty t) (idx_bit i) \<longrightarrow> tlb_flush_one_mmuidx_locked (h i) (mode t i) = Some (mode t' i)"
    using sp by (simp add: modes_in_iff m bit_and_iff)
  show "\<forall>i. \<not> (bit w (idx_bit i) \<and> bit (tlb_dirty t) (idx_bit i)) \<longrightarrow> mode t' i = mode t i"
    using sp by (simp add: modes_in_iff m bit_and_iff)
  show "tlb_dirty t' = tlb_dirty t AND NOT (w AND tlb_dirty t)" using sp by (simp add: m)
  show "j < TB_JMP_CACHE_SIZE \<Longrightarrow> tb_jmp_cache t' j = None" by (simp add: m cpu_tb_jmp_cache_clear_def)
qed

text \<open>The argument of the page flush carries the modes in the low bits of the address.\<close>

abbreviation coded :: "u32 \<Rightarrow> u16 \<Rightarrow> u32" where
  "coded addr w \<equiv> (addr AND TARGET_PAGE_MASK) OR ucast w"

lemma coded_modes: "bit (coded addr w AND ucast ALL_MMUIDX_BITS) (idx_bit i) \<longleftrightarrow> bit w (idx_bit i)"
  using idx_bit_less [of i] by (auto simp: bit_and_iff bit_or_iff bit_unsigned_iff all_modes_bit page_mask_bit)

lemma coded_page: "w AND NOT ALL_MMUIDX_BITS = 0 \<Longrightarrow> coded addr w AND TARGET_PAGE_MASK = addr AND TARGET_PAGE_MASK"
proof (rule bit_word_eqI)
  fix n assume w: "w AND NOT ALL_MMUIDX_BITS = 0" and "n < LENGTH(32)"
  have "\<not> bit (w AND NOT ALL_MMUIDX_BITS) n" by (simp add: w)
  then have "bit w n \<Longrightarrow> n < 3" by (auto simp: bit_and_iff bit_not_iff all_modes_bit dest: bit_imp_possible_bit)
  then show "bit (coded addr w AND TARGET_PAGE_MASK) n = bit (addr AND TARGET_PAGE_MASK) n"
    by (auto simp: bit_and_iff bit_or_iff bit_unsigned_iff page_mask_bit)
qed

lemma flush_page_spec:
  assumes "tlb_flush_page_by_mmuidx h addr w t = Some t'" and "page = coded addr w AND TARGET_PAGE_MASK"
  shows "\<forall>i. bit w (idx_bit i) \<longrightarrow> tlb_flush_page_locked (h i) page (mode t i) = Some (mode t' i)"
    and "\<forall>i. \<not> bit w (idx_bit i) \<longrightarrow> mode t' i = mode t i"
    and "tlb_dirty t' = tlb_dirty t"
    and "\<exists>t1. tb_jmp_cache t' = tb_jmp_cache (tb_flush_jmp_cache page t1)"
proof -
  let ?m = "modes_in (coded addr w AND ucast ALL_MMUIDX_BITS)"
  obtain t1 where t1: "flush_modes (\<lambda>i. tlb_flush_page_locked (h i) page) ?m t = Some t1" and t': "t' = tb_flush_jmp_cache page t1"
    using assms by (auto simp: tlb_flush_page_by_mmuidx_def tlb_flush_page_by_mmuidx_async_work_def Let_def map_option_case split: option.splits)
  note sp = flush_modes_spec [OF t1 distinct_modes]
  show "\<forall>i. bit w (idx_bit i) \<longrightarrow> tlb_flush_page_locked (h i) page (mode t i) = Some (mode t' i)"
    and "\<forall>i. \<not> bit w (idx_bit i) \<longrightarrow> mode t' i = mode t i"
    and "tlb_dirty t' = tlb_dirty t"
    using sp by (simp_all add: modes_in_iff coded_modes t')
  show "\<exists>t1. tb_jmp_cache t' = tb_jmp_cache (tb_flush_jmp_cache page t1)" using t' by blast
qed

section \<open>Every reachable state\<close>

lemma flush_mmuidx_ok:
  assumes ok: "tlb_ok t L" and h: "\<forall>i. host_ok (h i)" and f: "tlb_flush_by_mmuidx h w t = Some t'"
  shows "tlb_ok t' (known t' L)"
  unfolding tlb_ok_def
proof
  fix i
  note sp = flush_mmuidx_spec [OF f]
  have m: "mode_ok (bit (tlb_dirty t) (idx_bit i)) (L i) (mode t i)" using ok by (simp add: tlb_ok_def)
  show "mode_ok (bit (tlb_dirty t') (idx_bit i)) (known t' L i) (mode t' i)"
  proof (cases "bit w (idx_bit i) \<and> bit (tlb_dirty t) (idx_bit i)")
    case True
    then have "desc_void (mode t' i)" using sp(1) flush_one_ok [OF _ m] h by blast
    then show ?thesis using desc_void_ok by (simp add: known_def)
  next
    case False
    then have same: "mode t' i = mode t i" using sp(2) by blast
    have "bit (tlb_dirty t') (idx_bit i) = bit (tlb_dirty t) (idx_bit i)" using False idx_bit_less [of i]
      by (auto simp: sp(3) bit_and_iff bit_or_iff bit_not_iff)
    then show ?thesis using m desc_void_ok by (simp add: known_def same)
  qed
qed

lemma flush_page_by_ok:
  assumes ok: "tlb_ok t L" and h: "\<forall>i. host_ok (h i)" and f: "tlb_flush_page_by_mmuidx h addr w t = Some t'"
  shows "tlb_ok t' (known t' L)"
  unfolding tlb_ok_def
proof
  fix i
  note sp = flush_page_spec [OF f refl]
  have m: "mode_ok (bit (tlb_dirty t) (idx_bit i)) (L i) (mode t i)" using ok by (simp add: tlb_ok_def)
  show "mode_ok (bit (tlb_dirty t') (idx_bit i)) (known t' L i) (mode t' i)"
  proof (cases "bit w (idx_bit i)")
    case True
    then have "mode_ok (bit (tlb_dirty t) (idx_bit i)) (if desc_void (mode t' i) then {} else L i) (mode t' i)"
      using sp(1) h by (intro flush_page_ok [OF _ m _ aligned_page]) blast+
    then show ?thesis by (simp only: known_def sp(3))
  next
    case False
    then show ?thesis using m desc_void_ok sp(2) by (simp add: known_def sp(3))
  qed
qed

text \<open>At boot every mode is flushed, whatever its tables held.\<close>

lemma boot_ok:
  assumes h: "\<forall>i. host_ok (h i)" and len: "\<forall>i. length (vtable (mode t i)) = CPU_VTLB_SIZE \<and> length (viotlb (mode t i)) = CPU_VTLB_SIZE"
    and f: "tlb_flush h (tlb_init h0 t) = Some t'"
  shows "desc_void (mode t' i)"
proof -
  have "bit ALL_MMUIDX_BITS (idx_bit i)" using all_modes_bit idx_bit_less by blast
  then have "tlb_flush_one_mmuidx_locked (h i) (tlb_dyn_init (h0 i) (mode t i)) = Some (mode t' i)"
    using flush_mmuidx_spec(1) [OF f [unfolded tlb_flush_def]] by (simp add: tlb_init_def)
  moreover have "sizes_ok (tlb_dyn_init (h0 i) (mode t i))"
    using len by (auto simp: sizes_ok_def tlb_dyn_init_def tlb_window_reset_def CPU_TLB_DYN_MIN_BITS_def CPU_TLB_DYN_DEFAULT_BITS_def intro!: exI [of _ 8])
  ultimately show ?thesis using flush_one_empty desc_empty_void h by blast
qed

lemma install_dirty: "bit (tlb_dirty (tlb_install i v tn io t)) n \<longleftrightarrow> bit (tlb_dirty t) n \<or> n = idx_bit i"
  using idx_bit_less [of i] by (auto simp: tlb_install_def Let_def upd_mode_def bit_or_iff bit_push_bit_iff bit_1_iff simp del: push_bit_of_1)

lemma install_tlb_ok:
  assumes ok: "\<forall>j. j \<noteq> i \<longrightarrow> mode_ok (bit (tlb_dirty t) (idx_bit j)) (L j) (mode t j)" and i: "mode_ok u (L i) (mode t i)"
    and v: "aligned v" and e: "entry_for v tn"
  shows "tlb_ok (tlb_install i v tn io t) L"
  unfolding tlb_ok_def
proof
  fix j
  have "j \<noteq> i \<Longrightarrow> (idx_bit j = idx_bit i) = False" by (cases i; cases j) simp_all
  then show "mode_ok (bit (tlb_dirty (tlb_install i v tn io t)) (idx_bit j)) (L j) (mode (tlb_install i v tn io t) j)"
    using ok install_ok [OF i v e] by (cases "j = i") (auto simp: install_dirty)
qed

theorem reach_ok: "tlb_reach t L \<Longrightarrow> tlb_ok t L"
proof (induction rule: tlb_reach.induct)
  case (boot h t h0 t')
  then show ?case using boot_ok desc_void_ok by (simp add: tlb_ok_def)
next
  case (fill t L v tn i io)
  then show ?case by (intro install_tlb_ok) (auto simp: tlb_ok_def)
next
  case (fill_large t L len v vaddr tn t' i io)
  have "mode_ok (bit (tlb_dirty t) (idx_bit i)) (L i) (mode t i)" using fill_large.IH by (simp add: tlb_ok_def)
  then have "mode_ok True (insert (vaddr, len) (L i)) (mode t' i)"
    by (simp add: fill_large.hyps(5) upd_mode_def add_large_ok [OF _ fill_large.hyps(2)])
  then show ?case
    using fill_large.IH fill_large.hyps(3,4) by (intro install_tlb_ok) (auto simp: tlb_ok_def fill_large.hyps(5) upd_mode_def)
next
  case (victim t L v i ofs t')
  then obtain d where d: "victim_from [0..<CPU_VTLB_SIZE] (tlb_index (mode t i) v) ofs v (mode t i) = Some d" "t' = upd_mode i d t"
    by (auto simp: victim_tlb_hit_def)
  have "mode_ok (bit (tlb_dirty t) (idx_bit i)) (L i) d" using victim.IH by (intro victim_ok [OF _ victim.hyps(2) d(1)]) (simp add: tlb_ok_def)
  then show ?case using victim.IH by (simp add: tlb_ok_def d(2) upd_mode_def)
next
  case (dirty t L vaddr)
  then show ?case using set_dirty_ok [OF _ refl] by (simp add: tlb_ok_def tlb_set_dirty_def Let_def)
next
  case (clean t L start1 len)
  then show ?case using reset_dirty_ok [OF _ refl] by (simp add: tlb_ok_def tlb_reset_dirty_def)
qed (blast intro: flush_mmuidx_ok flush_page_by_ok)+

section \<open>The flushes return\<close>

text \<open>The host always has the memory for a table of the smallest size.\<close>

definition grants_smallest :: "host_answers \<Rightarrow> bool" where
  "grants_smallest h \<longleftrightarrow> (\<forall>k. alloc_ok h k (BIT CPU_TLB_DYN_MIN_BITS))"

lemma shrink_loop_returns:
  assumes ok: "\<forall>k. ok k (BIT CPU_TLB_DYN_MIN_BITS)"
  shows "6 + j < 64 \<Longrightarrow> \<exists>m. shrink_loop ok k (2 ^ (6 + j)) = Some m"
proof (induction j arbitrary: k)
  case 0
  then show ?case using ok by (subst shrink_loop.simps) (simp add: CPU_TLB_DYN_MIN_BITS_def)
next
  case (Suc j)
  show ?case
  proof (cases "ok k (2 ^ (6 + Suc j))")
    case True
    then show ?thesis by (subst shrink_loop.simps) simp
  next
    case False
    have d: "drop_bit 1 (2 ^ (6 + Suc j) :: u64) = 2 ^ (6 + j)" using Suc.prems u64_drop_power [of 1 "6 + Suc j"] by simp
    have "(2::u64) ^ 6 \<le> 2 ^ (6 + j)" using Suc.prems by (subst u64_power_le) simp_all
    then have "max (drop_bit 1 (2 ^ (6 + Suc j))) (BIT CPU_TLB_DYN_MIN_BITS) = (2 ^ (6 + j) :: u64)"
      unfolding d by (simp add: max_def CPU_TLB_DYN_MIN_BITS_def)
    then show ?thesis using Suc False by (simp add: shrink_loop_Suc)
  qed
qed

text \<open>With no memory at all the loop runs forever: the \<open>abort\<close> the comment promises is not in the code.\<close>

lemma shrink_loop_stuck: "\<forall>k n. \<not> ok k n \<Longrightarrow> shrink_loop ok k n = None"
proof (rule ccontr)
  assume no: "\<forall>k n. \<not> ok k n" and "shrink_loop ok k n \<noteq> None"
  then obtain m where "shrink_loop ok k n = Some m" by blast
  then have "\<exists>k n. ok k n"
    by (rule shrink_loop.raw_induct [where P = "\<lambda>ok k n m. \<exists>k n. ok k n", rotated]) (auto split: if_splits)
  then show False using no by blast
qed

lemma resize_returns:
  assumes "sizes_ok d" and h: "grants_smallest h"
  shows "\<exists>d'. tlb_mmu_resize_locked h d = Some d'"
proof -
  define w where "w = d\<lparr>window_max_entries := max (window_max_entries d) (n_used_entries d)\<rparr>"
  have w: "(if n_used_entries d > window_max_entries d then d\<lparr>window_max_entries := n_used_entries d\<rparr> else d) = w"
    by (auto simp: w_def max_def)
  have sw: "sizes_ok w" using assms(1) by (simp add: sizes_ok_def w_def)
  define b where "b \<longleftrightarrow> now_ns h > window_begin_ns d + 100 * 1000 * 1000"
  have "size_ok (wanted_size b w)" using sizes_ok_entries [OF sw] by (rule wanted_size_ok)
  then obtain k where k: "6 \<le> k" "k < 64" "wanted_size b w = 2 ^ k" by (auto simp: size_ok_def CPU_TLB_DYN_MIN_BITS_def)
  have "\<exists>m. shrink_loop (alloc_ok h) 0 (wanted_size b w) = Some m"
    using shrink_loop_returns [of "alloc_ok h" "k - 6" 0] h k by (simp add: grants_smallest_def)
  then show ?thesis unfolding tlb_mmu_resize_locked_def Let_def w b_def [symmetric] by auto
qed

lemma flush_one_returns: "sizes_ok d \<Longrightarrow> grants_smallest h \<Longrightarrow> \<exists>d'. tlb_flush_one_mmuidx_locked h d = Some d'"
  using resize_returns by (fastforce simp: tlb_flush_one_mmuidx_locked_def tlb_table_flush_by_mmuidx_def)

lemma flush_page_locked_returns: "sizes_ok d \<Longrightarrow> grants_smallest h \<Longrightarrow> \<exists>d'. tlb_flush_page_locked h page d = Some d'"
  using flush_one_returns by (simp add: tlb_flush_page_locked_def Let_def split: prod.split)

lemma flush_mmuidx_returns:
  assumes "\<forall>i. sizes_ok (mode t i)" and "\<forall>i. grants_smallest (h i)"
  shows "\<exists>t'. tlb_flush_by_mmuidx h w t = Some t'"
proof -
  let ?c = "w AND tlb_dirty t" and ?t = "t\<lparr>tlb_dirty := tlb_dirty t AND NOT (w AND tlb_dirty t)\<rparr>"
  have "flush_modes (\<lambda>i. tlb_flush_one_mmuidx_locked (h i)) (modes_in ?c) ?t \<noteq> None"
  proof
    assume "flush_modes (\<lambda>i. tlb_flush_one_mmuidx_locked (h i)) (modes_in ?c) ?t = None"
    from flush_modes_None [OF this distinct_modes] obtain i where "tlb_flush_one_mmuidx_locked (h i) (mode t i) = None" by auto
    then show False using flush_one_returns assms by (metis option.distinct(1))
  qed
  then show ?thesis by (auto simp: tlb_flush_by_mmuidx_def tlb_flush_by_mmuidx_async_work_def Let_def)
qed

lemma flush_page_returns:
  assumes "\<forall>i. sizes_ok (mode t i)" and "\<forall>i. grants_smallest (h i)"
  shows "\<exists>t'. tlb_flush_page_by_mmuidx h addr w t = Some t'"
proof -
  let ?m = "modes_in (coded addr w AND ucast ALL_MMUIDX_BITS)" and ?p = "coded addr w AND TARGET_PAGE_MASK"
  have "flush_modes (\<lambda>i. tlb_flush_page_locked (h i) ?p) ?m t \<noteq> None"
  proof
    assume "flush_modes (\<lambda>i. tlb_flush_page_locked (h i) ?p) ?m t = None"
    from flush_modes_None [OF this distinct_modes] obtain i where "tlb_flush_page_locked (h i) ?p (mode t i) = None" by auto
    then show False using flush_page_locked_returns assms by (metis option.distinct(1))
  qed
  then show ?thesis by (auto simp: tlb_flush_page_by_mmuidx_def tlb_flush_page_by_mmuidx_async_work_def Let_def)
qed

lemma ok_sizes: "tlb_ok t L \<Longrightarrow> \<forall>i. sizes_ok (mode t i)"
  by (simp add: tlb_ok_def mode_ok_def desc_inv_def)

section \<open>Theorems\<close>

text \<open>An answer of the host that a machine gives: all it has memory for, and at least the smallest table.\<close>

abbreviation host_fair :: "(mmu_idx \<Rightarrow> host_answers) \<Rightarrow> bool" where
  "host_fair h \<equiv> (\<forall>i. host_ok (h i) \<and> grants_smallest (h i))"

text \<open>The entries of a mode, of the table and of the victim table.\<close>

definition entries :: "CPUTLBDesc \<Rightarrow> CPUTLBEntry list" where
  "entries d = table d @ vtable d"

lemma entries_apart:
  assumes inv: "desc_inv d" and pq: "p < length (entries d)" "q < length (entries d)" "hits (entries d ! p) v" "hits (entries d ! q) v" "p \<le> q"
  shows "p = q"
proof -
  have pl: "k < length (table d) \<Longrightarrow> hits (table d ! k) v \<Longrightarrow> tlb_index d v = k" for k
    using inv by (simp add: desc_inv_def placed_def)
  have tw: "\<lbrakk>j < length (vtable d); hits (vtable d ! j) v\<rbrakk> \<Longrightarrow> (\<forall>k < length (table d). \<not> hits (table d ! k) v) \<and> (\<forall>j' < length (vtable d). j' \<noteq> j \<longrightarrow> \<not> hits (vtable d ! j') v)" for j
    using inv unfolding desc_inv_def no_twins_def by blast
  show ?thesis
  proof (cases "q < length (table d)")
    case True
    then have "p < length (table d)" "hits (table d ! p) v" "hits (table d ! q) v" using pq by (simp_all add: entries_def nth_append)
    then show ?thesis using pl True by metis
  next
    case False
    then have q: "q - length (table d) < length (vtable d)" "hits (vtable d ! (q - length (table d))) v" using pq by (auto simp: entries_def nth_append)
    have p: "\<not> p < length (table d)" using tw [OF q] pq(3) by (auto simp: entries_def nth_append)
    then have "p - length (table d) < length (vtable d)" "hits (vtable d ! (p - length (table d))) v" using pq(1,3) by (simp_all add: entries_def nth_append)
    then have "p - length (table d) = q - length (table d)" using tw [OF q] by metis
    then show ?thesis using p False by simp
  qed
qed

lemma entries_set: "set (entries d) = set (table d) \<union> set (vtable d)"
  by (simp add: entries_def)

lemma tb_hash_less: "tb_jmp_cache_hash_func pc < TB_JMP_CACHE_SIZE"
proof -
  have "drop_bit 6 (pc XOR drop_bit 6 pc) AND TB_JMP_PAGE_MASK \<le> 0xfc0" by (simp add: TB_JMP_PAGE_MASK_def word_and_le1)
  then have "unat (drop_bit 6 (pc XOR drop_bit 6 pc) AND TB_JMP_PAGE_MASK) \<le> 0xfc0" by (simp add: word_le_nat_alt)
  then have "tb_jmp_cache_hash_page pc \<le> 0xfc0" by (simp only: tb_jmp_cache_hash_page_def Let_def)
  then show ?thesis using jmp_hash_range [of pc] by (simp add: TB_JMP_PAGE_SIZE_def TB_JMP_CACHE_SIZE_def)
qed

subsection \<open>A processor after its reset\<close>

definition demo_host :: host_answers where
  "demo_host = \<lparr>now_ns = 0, alloc_ok = \<lambda>k n. n \<le> 2 ^ 40, fresh = \<lambda>k. blank_entry\<rparr>"

definition demo_desc :: CPUTLBDesc where
  "demo_desc = \<lparr>large_page_addr = 0, large_page_mask = 0, window_begin_ns = 0, window_max_entries = 0, n_used_entries = 0,
     vindex = 0, vtable = replicate 8 blank_entry, viotlb = replicate 8 \<lparr>io_addr = 0, io_secure = False\<rparr>,
     iotlb = \<lambda>k. \<lparr>io_addr = 0, io_secure = False\<rparr>, size_mask = 0, table = []\<rparr>"

definition demo_reset :: CPUTLB where
  "demo_reset = the (tlb_flush (\<lambda>i. demo_host) (tlb_init (\<lambda>i. demo_host)
     \<lparr>tlb_dirty = 0, full_flush_count = 0, part_flush_count = 0, elide_flush_count = 0, mode = \<lambda>i. demo_desc, tb_jmp_cache = \<lambda>k. None\<rparr>))"

definition demo_entry :: "u32 \<Rightarrow> CPUTLBEntry" where
  "demo_entry page = \<lparr>addr_read = page, addr_write = page, addr_code = - 1, addend = 0x100000\<rparr>"

text \<open>A small page and a page of a large one are cached for user mode.\<close>

definition demo_small :: CPUTLB where
  "demo_small = tlb_install MMU_USER_IDX 0x1000 (demo_entry 0x1000) \<lparr>io_addr = 0, io_secure = False\<rparr> demo_reset"

definition demo_large :: CPUTLB where
  "demo_large = tlb_install MMU_USER_IDX (0x401000 AND TARGET_PAGE_MASK) (demo_entry 0x401000) \<lparr>io_addr = 0, io_secure = False\<rparr>
     (upd_mode MMU_USER_IDX (tlb_add_large_page 0x401000 0x400000 (mode demo_small MMU_USER_IDX)) demo_small)"

definition demo_pages :: large_pages where
  "demo_pages = (\<lambda>i. {})(MMU_USER_IDX := {(0x401000, 0x400000)})"

lemma demo_fair: "host_ok demo_host" "grants_smallest demo_host"
proof -
  have "(2::u64) ^ 6 \<le> 2 ^ 40" by (subst u64_power_le) simp_all
  then show "grants_smallest demo_host" by (simp add: grants_smallest_def demo_host_def CPU_TLB_DYN_MIN_BITS_def)
qed (simp add: host_ok_def demo_host_def)

lemma demo_reach_reset: "tlb_reach demo_reset (\<lambda>i. {})"
proof -
  let ?t = "\<lparr>tlb_dirty = 0, full_flush_count = 0, part_flush_count = 0, elide_flush_count = 0, mode = \<lambda>i. demo_desc, tb_jmp_cache = \<lambda>k. None\<rparr>"
  have "\<forall>i. sizes_ok (mode (tlb_init (\<lambda>i. demo_host) ?t) i)"
    by (auto simp: sizes_ok_def tlb_init_def demo_desc_def tlb_dyn_init_def tlb_window_reset_def CPU_VTLB_SIZE_def CPU_TLB_DYN_MIN_BITS_def
        CPU_TLB_DYN_DEFAULT_BITS_def intro!: exI [of _ 8])
  then obtain t' where "tlb_flush (\<lambda>i. demo_host) (tlb_init (\<lambda>i. demo_host) ?t) = Some t'"
    unfolding tlb_flush_def using flush_mmuidx_returns [of "tlb_init (\<lambda>i. demo_host) ?t" "\<lambda>i. demo_host"] demo_fair by blast
  then have "tlb_flush (\<lambda>i. demo_host) (tlb_init (\<lambda>i. demo_host) ?t) = Some demo_reset" by (simp add: demo_reset_def)
  then show ?thesis by (rule tlb_reach.boot [rotated 2]) (simp_all add: demo_fair demo_desc_def CPU_VTLB_SIZE_def)
qed

lemma demo_entry_for: "aligned page \<Longrightarrow> entry_for page (demo_entry page)"
proof -
  assume a: "aligned page"
  have "tlb_hit_page page w \<Longrightarrow> w = page" for w using aligned_hit_self [OF a] by (simp add: tlb_hit_page_def)
  then show ?thesis using minus_one_no_hit by (auto simp: entry_for_def hits_def tlb_hit_page_anyprot_def demo_entry_def)
qed

lemma demo_aligned: "aligned 0x1000" "aligned 0x401000"
  by (simp_all add: TARGET_PAGE_MASK_def mask_eq_exp_minus_1)

lemma demo_reach_small: "tlb_reach demo_small (\<lambda>i. {})"
  unfolding demo_small_def by (rule tlb_reach.fill [OF demo_reach_reset demo_aligned(1) demo_entry_for [OF demo_aligned(1)]])

lemma demo_reach_large: "tlb_reach demo_large demo_pages"
proof -
  have "page_size_ok 0x400000" unfolding page_size_ok_def by (intro exI [of _ 22]) simp
  moreover have "entry_for (0x401000 AND TARGET_PAGE_MASK) (demo_entry 0x401000)" unfolding demo_aligned by (rule demo_entry_for [OF demo_aligned(2)])
  ultimately show ?thesis
    unfolding demo_large_def demo_pages_def using tlb_reach.fill_large [OF demo_reach_small _ refl _ refl, of "0x400000" "0x401000"] by simp
qed

text \<open>
  The number of used entries is not the number of entries in use: an entry that moves to the victim
  table is counted out, and counted out again when its page is flushed. Two pages of one slot that
  are filled and flushed leave \<open>2 ^ 64 - 1\<close>, for which the next flush takes the table to be overfull.
\<close>

definition demo_slots :: CPUTLB where
  "demo_slots = \<lparr>tlb_dirty = 0, full_flush_count = 0, part_flush_count = 0, elide_flush_count = 0,
     mode = \<lambda>i. demo_desc\<lparr>size_mask := push_bit 5 63, table := replicate 64 blank_entry, large_page_addr := - 1, large_page_mask := - 1\<rparr>, tb_jmp_cache = \<lambda>k. None\<rparr>"

lemma used_entries_underflow:
  "map_option n_used_entries (Option.bind
     (tlb_flush_page_locked demo_host 0x1000 (mode (tlb_install MMU_USER_IDX 0x41000 (demo_entry 0x41000) \<lparr>io_addr = 0, io_secure = False\<rparr>
        (tlb_install MMU_USER_IDX 0x1000 (demo_entry 0x1000) \<lparr>io_addr = 0, io_secure = False\<rparr> demo_slots)) MMU_USER_IDX))
     (tlb_flush_page_locked demo_host 0x41000)) = Some (2 ^ 64 - 1)"
  by code_simp

lemma filter_flushed:
  assumes "\<forall>e \<in> set es. single_page e" and "aligned page" and "v \<noteq> page"
  shows "filter (\<lambda>e. hits e v) (map (flushed page) es) = filter (\<lambda>e. hits e v) es"
  using assms(1)
proof (induction es)
  case (Cons e es)
  have "hits e v \<Longrightarrow> \<not> hits e page" using Cons.prems assms(3) by (auto simp: single_page_def)
  then have "hits e v \<Longrightarrow> flushed page e = e" using assms(2) by (simp add: flushed_def hits_def)
  then show ?case using Cons hits_flushed [OF assms(2), of e v] by auto
qed simp

lemma flush_page_mode_exact:
  assumes f: "tlb_flush_page_locked h page d = Some d'" and ok: "mode_ok u S d" and h: "host_ok h" and a: "aligned page"
  shows "\<forall>e \<in> set (entries d'). \<not> hits e page"
    and "\<exists>(v, len) \<in> S. page AND NOT (len - 1) = v AND NOT (len - 1) \<Longrightarrow> \<forall>e \<in> set (entries d'). \<forall>v. \<not> hits e v"
    and "page AND large_page_mask d \<noteq> large_page_addr d \<Longrightarrow> v \<noteq> page \<Longrightarrow>
       filter (\<lambda>e. hits e v) (entries d') = filter (\<lambda>e. hits e v) (entries d)"
proof -
  have inv: "desc_inv d" using ok by (simp add: mode_ok_def)
  have single: "\<forall>e \<in> set (entries d). single_page e" using inv by (simp add: desc_inv_def entries_set)
  show "\<forall>e \<in> set (entries d'). \<not> hits e page"
    using flush_page_locked_spec [OF f a inv h] desc_empty_no_hit [of d'] hits_flushed [OF a] unfolding entries_set
    by (elim disjE exE) (blast, auto)
  show "\<forall>e \<in> set (entries d'). \<forall>v. \<not> hits e v" if "\<exists>(v, len) \<in> S. page AND NOT (len - 1) = v AND NOT (len - 1)"
  proof -
    have "page AND large_page_mask d = large_page_addr d" using that ok unfolding mode_ok_def covers_def by blast
    then have "tlb_flush_one_mmuidx_locked h d = Some d'" using f by (simp add: tlb_flush_page_locked_def)
    then show ?thesis using flush_one_ok [OF _ ok h] by (simp add: desc_void_def entries_set)
  qed
  show "filter (\<lambda>e. hits e v) (entries d') = filter (\<lambda>e. hits e v) (entries d)"
    if lp: "page AND large_page_mask d \<noteq> large_page_addr d" "v \<noteq> page"
  proof -
    have "entries d' = map (flushed page) (entries d)" using flush_page_small_spec [OF f a inv lp(1)] by (auto simp: entries_def)
    then show ?thesis using filter_flushed [OF single a lp(2)] by simp
  qed
qed

text \<open>
  C22. In every reachable state a page is cached in at most one place of a mode: no two entries of its
  table and its victim table hit the same page, and an entry of the table that hits a page is in the
  slot where accesses to the page look for it.
\<close>

theorem one_entry_per_page:
  assumes "tlb_reach t L" and "d = mode t i"
  shows "(\<forall>p < length (entries d). \<forall>q < length (entries d). hits (entries d ! p) v \<and> hits (entries d ! q) v \<longrightarrow> p = q) \<and>
    (\<forall>k < length (table d). hits (table d ! k) v \<longrightarrow> tlb_index d v = k)"
proof -
  have inv: "desc_inv d" using reach_ok [OF assms(1)] by (simp add: tlb_ok_def mode_ok_def assms(2))
  then have "\<forall>k < length (table d). hits (table d ! k) v \<longrightarrow> tlb_index d v = k" by (simp add: desc_inv_def placed_def)
  moreover have "p = q" if "p < length (entries d)" "q < length (entries d)" "hits (entries d ! p) v" "hits (entries d ! q) v" for p q
    using entries_apart [OF inv] that by (metis nat_le_linear)
  ultimately show ?thesis by blast
qed

theorem one_entry_per_page_witness:
  "tlb_reach demo_large demo_pages \<and>
   \<not> (hits (entries (mode demo_large MMU_USER_IDX) ! 1) 0x401000 \<and> hits (entries (mode demo_large MMU_USER_IDX) ! 2) 0x401000)"
proof -
  let ?d = "mode demo_large MMU_USER_IDX"
  have "sizes_ok ?d" using ok_sizes [OF reach_ok [OF demo_reach_large]] by blast
  then have "8 \<le> length (entries ?d)" by (simp add: entries_def sizes_ok_def CPU_VTLB_SIZE_def)
  then have "1 < length (entries ?d)" "2 < length (entries ?d)" by simp_all
  moreover have "(1::nat) \<noteq> 2" by simp
  ultimately have "\<not> (hits (entries ?d ! 1) 0x401000 \<and> hits (entries ?d ! 2) 0x401000)"
    using one_entry_per_page [OF demo_reach_large refl, of MMU_USER_IDX "0x401000"] by blast
  then show ?thesis using demo_reach_large by blast
qed





end
