(* ===== verification/Dirty_Map.thy ===== *)
theory Dirty_Map
  imports Tlb_Properties
begin

text \<open>
  The map of RAM pages whose translated code is gone (\<open>exec/ram_addr.h\<close>, \<open>qemu/exec.c\<close>, and
  \<open>tlb_protect_code\<close>, \<open>tlb_unprotect_code\<close> of \<open>accel/tcg/cputlb.c\<close>): one bit per page of RAM in
  blocks of \<open>2 ^ 21\<close> bits, the RAM blocks with the block found last, and the reset of the TLB entries
  of a range. A page is dirty when writes to it need not be noticed. Only the map of
  \<open>DIRTY_MEMORY_CODE\<close> exists; the two others are null pointers.
\<close>

section \<open>The map\<close>

definition DIRTY_MEMORY_CODE :: nat where "DIRTY_MEMORY_CODE = 1"
definition DIRTY_MEMORY_NUM :: nat where "DIRTY_MEMORY_NUM = 3"
definition DIRTY_MEMORY_BLOCK_SIZE :: nat where "DIRTY_MEMORY_BLOCK_SIZE = 256 * 1024 * 8"

text \<open>\<open>dirty_code\<close> is \<open>dirty_memory[DIRTY_MEMORY_CODE]\<close>; \<open>mru\<close> is the index of \<open>mru_block\<close>.\<close>

record RAMList =
  dirty_code :: "bitmap list"
  rblocks :: "ram_block list"
  mru :: "nat option"

text \<open>The first page of a range and the page behind it (\<open>TARGET_PAGE_ALIGN(start + length) >> TARGET_PAGE_BITS\<close>).\<close>

definition first_page :: "nat \<Rightarrow> nat" where
  "first_page start = start div 4096"

definition end_page :: "nat \<Rightarrow> nat \<Rightarrow> nat" where
  "end_page start len = (start + len + 4095) div 4096"

definition client_blocks :: "nat \<Rightarrow> RAMList \<Rightarrow> bitmap list res" where
  "client_blocks client rl =
     (if client < DIRTY_MEMORY_NUM \<and> client = DIRTY_MEMORY_CODE then Inr (dirty_code rl) else Inl AssertFail)"

definition cpu_physical_memory_set_dirty_flag :: "nat \<Rightarrow> nat \<Rightarrow> RAMList \<Rightarrow> RAMList res" where
  "cpu_physical_memory_set_dirty_flag addr client rl =
     res_bind (client_blocks client rl) (\<lambda>blocks.
       let page = first_page addr;
           idx = page div DIRTY_MEMORY_BLOCK_SIZE;
           offset = page mod DIRTY_MEMORY_BLOCK_SIZE
       in res_bind (arr_get blocks idx) (\<lambda>b. res_bind (set_bit_atomic offset b) (\<lambda>b.
          res_bind (arr_set blocks idx b) (\<lambda>blocks. Inr (rl\<lparr>dirty_code := blocks\<rparr>)))))"

text \<open>
  The loops go block by block. A loop that is not finished moves \<open>base\<close> on by a block, and the last
  block is left with \<open>page = end\<close>.
\<close>

function get_dirty_loop :: "(bitmap \<Rightarrow> nat \<Rightarrow> nat \<Rightarrow> nat res) \<Rightarrow> bitmap list \<Rightarrow> nat \<Rightarrow> nat \<Rightarrow> nat \<Rightarrow> nat \<Rightarrow> nat \<Rightarrow> bool res" where
  "get_dirty_loop search blocks page en idx offset base =
     (if page < en then
        let next = min en (base + DIRTY_MEMORY_BLOCK_SIZE);
            num = next - base
        in res_bind (arr_get blocks idx) (\<lambda>b. res_bind (search b num offset) (\<lambda>found.
             if found < num then Inr True
             else get_dirty_loop search blocks next en (idx + 1) 0 (base + DIRTY_MEMORY_BLOCK_SIZE)))
      else Inr False)"
  by pat_completeness auto
termination
  by (relation "measure (\<lambda>(f, bl, page, en, idx, off, base). if page < en then Suc (en - base) else 0)")
    (auto simp: DIRTY_MEMORY_BLOCK_SIZE_def)

declare get_dirty_loop.simps [simp del]

definition cpu_physical_memory_get_dirty :: "nat \<Rightarrow> nat \<Rightarrow> nat \<Rightarrow> RAMList \<Rightarrow> bool res" where
  "cpu_physical_memory_get_dirty start len client rl =
     res_bind (client_blocks client rl) (\<lambda>blocks.
       let page = first_page start;
           offset = page mod DIRTY_MEMORY_BLOCK_SIZE
       in get_dirty_loop find_next_bit blocks page (end_page start len) (page div DIRTY_MEMORY_BLOCK_SIZE) offset (page - offset))"

definition cpu_physical_memory_get_dirty_flag :: "nat \<Rightarrow> nat \<Rightarrow> RAMList \<Rightarrow> bool res" where
  "cpu_physical_memory_get_dirty_flag addr client rl = cpu_physical_memory_get_dirty addr 1 client rl"

definition cpu_physical_memory_is_clean :: "nat \<Rightarrow> RAMList \<Rightarrow> bool res" where
  "cpu_physical_memory_is_clean addr rl =
     res_bind (cpu_physical_memory_get_dirty_flag addr DIRTY_MEMORY_CODE rl) (\<lambda>d. Inr (\<not> d))"

text \<open>The search for a clean page reports whether it found one; \<open>dirty\<close> is the opposite.\<close>

definition cpu_physical_memory_all_dirty :: "nat \<Rightarrow> nat \<Rightarrow> nat \<Rightarrow> RAMList \<Rightarrow> bool res" where
  "cpu_physical_memory_all_dirty start len client rl =
     (if client < DIRTY_MEMORY_NUM then
        if client = DIRTY_MEMORY_CODE then
          let page = first_page start;
              offset = page mod DIRTY_MEMORY_BLOCK_SIZE
          in res_bind (get_dirty_loop find_next_zero_bit (dirty_code rl) page (end_page start len)
               (page div DIRTY_MEMORY_BLOCK_SIZE) offset (page - offset)) (\<lambda>clean. Inr (\<not> clean))
        else Inl NullDeref
      else Inl AssertFail)"

definition cpu_physical_memory_range_includes_clean :: "nat \<Rightarrow> nat \<Rightarrow> u8 \<Rightarrow> RAMList \<Rightarrow> u8 res" where
  "cpu_physical_memory_range_includes_clean start len m rl =
     (if m AND BIT DIRTY_MEMORY_CODE = BIT DIRTY_MEMORY_CODE then
        res_bind (cpu_physical_memory_all_dirty start len DIRTY_MEMORY_CODE rl) (\<lambda>d. Inr (if d then 0 else BIT DIRTY_MEMORY_CODE))
      else Inl AssertFail)"

function set_dirty_loop :: "bitmap list \<Rightarrow> nat \<Rightarrow> nat \<Rightarrow> nat \<Rightarrow> nat \<Rightarrow> nat \<Rightarrow> bitmap list res" where
  "set_dirty_loop blocks page en idx offset base =
     (if page < en then
        let next = min en (base + DIRTY_MEMORY_BLOCK_SIZE)
        in res_bind (arr_get blocks idx) (\<lambda>b. res_bind (bitmap_set_atomic b offset (next - page)) (\<lambda>b.
             res_bind (arr_set blocks idx b) (\<lambda>blocks.
               set_dirty_loop blocks next en (idx + 1) 0 (base + DIRTY_MEMORY_BLOCK_SIZE))))
      else Inr blocks)"
  by pat_completeness auto
termination
  by (relation "measure (\<lambda>(bl, page, en, idx, off, base). if page < en then Suc (en - base) else 0)")
    (auto simp: DIRTY_MEMORY_BLOCK_SIZE_def)

declare set_dirty_loop.simps [simp del]

text \<open>With a non-empty range a mask without the bit of the code map ends in \<open>g_assert_not_reached\<close>.\<close>

definition cpu_physical_memory_set_dirty_range :: "nat \<Rightarrow> nat \<Rightarrow> u8 \<Rightarrow> RAMList \<Rightarrow> RAMList res" where
  "cpu_physical_memory_set_dirty_range start len m rl =
     (if m = 0 then Inr rl
      else
        let page = first_page start;
            offset = page mod DIRTY_MEMORY_BLOCK_SIZE
        in if page < end_page start len \<and> \<not> tst m (BIT DIRTY_MEMORY_CODE) then Inl NotReached
           else res_bind (set_dirty_loop (dirty_code rl) page (end_page start len) (page div DIRTY_MEMORY_BLOCK_SIZE) offset (page - offset))
                  (\<lambda>blocks. Inr (rl\<lparr>dirty_code := blocks\<rparr>)))"

section \<open>RAM blocks\<close>

text \<open>A difference of 64-bit values.\<close>

definition sub64 :: "nat \<Rightarrow> nat \<Rightarrow> nat" where
  "sub64 a b = nat ((int a - int b) mod 2 ^ 64)"

fun find_block :: "(ram_block \<Rightarrow> bool) \<Rightarrow> nat \<Rightarrow> ram_block list \<Rightarrow> nat option" where
  "find_block P i [] = None"
| "find_block P i (b # bs) = (if P b then Some i else find_block P (Suc i) bs)"

definition qemu_get_ram_block :: "nat \<Rightarrow> RAMList \<Rightarrow> (nat \<times> RAMList) res" where
  "qemu_get_ram_block addr rl =
     (let inside = (\<lambda>b. sub64 addr (rb_offset b) < max_length b)
      in case mru rl of
           Some i \<Rightarrow>
             if i < length (rblocks rl) \<and> inside (rblocks rl ! i) then Inr (i, rl)
             else (case find_block inside 0 (rblocks rl) of None \<Rightarrow> Inl Abort | Some i \<Rightarrow> Inr (i, rl\<lparr>mru := Some i\<rparr>))
         | None \<Rightarrow> (case find_block inside 0 (rblocks rl) of None \<Rightarrow> Inl Abort | Some i \<Rightarrow> Inr (i, rl\<lparr>mru := Some i\<rparr>)))"

definition qemu_ram_block_from_host :: "nat \<Rightarrow> bool \<Rightarrow> RAMList \<Rightarrow> (nat \<times> nat) res" where
  "qemu_ram_block_from_host ptr round_offset rl =
     (let inside = (\<lambda>b. host b \<noteq> 0 \<and> sub64 ptr (host b) < max_length b);
          found = (\<lambda>i. let off = sub64 ptr (host (rblocks rl ! i))
                       in Inr (i, if round_offset then unat ((of_nat off :: u64) AND ucast TARGET_PAGE_MASK) else off))
      in case mru rl of
           Some i \<Rightarrow>
             if i < length (rblocks rl) \<and> inside (rblocks rl ! i) then found i
             else (case find_block inside 0 (rblocks rl) of None \<Rightarrow> Inl NotReached | Some i \<Rightarrow> found i)
         | None \<Rightarrow> (case find_block inside 0 (rblocks rl) of None \<Rightarrow> Inl NotReached | Some i \<Rightarrow> found i))"

definition qemu_ram_addr_from_host :: "nat \<Rightarrow> RAMList \<Rightarrow> nat res" where
  "qemu_ram_addr_from_host ptr rl =
     res_bind (qemu_ram_block_from_host ptr False rl) (\<lambda>(i, off). Inr (rb_offset (rblocks rl ! i) + off))"

text \<open>\<open>end\<close> is \<open>TARGET_PAGE_ALIGN(start + length)\<close>, and the range that is reset starts at the page of \<open>start\<close>.\<close>

definition tlb_reset_dirty_range_all :: "nat \<Rightarrow> nat \<Rightarrow> RAMList \<Rightarrow> CPUTLB \<Rightarrow> (RAMList \<times> CPUTLB) res" where
  "tlb_reset_dirty_range_all start len rl t =
     (let en = end_page start len * 4096;
          start = unat ((of_nat start :: u64) AND ucast TARGET_PAGE_MASK)
      in res_bind (qemu_get_ram_block start rl) (\<lambda>(i, rl). res_bind (qemu_get_ram_block (en - 1) rl) (\<lambda>(j, rl).
         if i = j then
           res_bind (ramblock_ptr (Some (rblocks rl ! i)) (sub64 start (rb_offset (rblocks rl ! i)))) (\<lambda>start1.
             Inr (rl, tlb_reset_dirty (of_nat start1) (of_nat len) t))
         else Inl AssertFail)))"

function clear_dirty_loop :: "bitmap list \<Rightarrow> nat \<Rightarrow> nat \<Rightarrow> bool \<Rightarrow> (bool \<times> bitmap list) res" where
  "clear_dirty_loop blocks page en dirty =
     (if page < en then
        let idx = page div DIRTY_MEMORY_BLOCK_SIZE;
            offset = page mod DIRTY_MEMORY_BLOCK_SIZE;
            num = min (en - page) (DIRTY_MEMORY_BLOCK_SIZE - offset)
        in res_bind (arr_get blocks idx) (\<lambda>b. res_bind (bitmap_test_and_clear_atomic b offset num) (\<lambda>(d, b).
             res_bind (arr_set blocks idx b) (\<lambda>blocks. clear_dirty_loop blocks (page + num) en (dirty \<or> d))))
      else Inr (dirty, blocks))"
  by pat_completeness auto
termination
  by (relation "measure (\<lambda>(bl, page, en, d). en - page)") (auto simp: DIRTY_MEMORY_BLOCK_SIZE_def)

declare clear_dirty_loop.simps [simp del]

definition cpu_physical_memory_test_and_clear_dirty :: "nat \<Rightarrow> nat \<Rightarrow> nat \<Rightarrow> RAMList \<Rightarrow> CPUTLB \<Rightarrow> (bool \<times> RAMList \<times> CPUTLB) res" where
  "cpu_physical_memory_test_and_clear_dirty start len client rl t =
     (if len = 0 then Inr (False, rl, t)
      else if client \<noteq> DIRTY_MEMORY_CODE then Inl AssertFail
      else res_bind (qemu_get_ram_block start rl) (\<lambda>(i, rl).
        let b = rblocks rl ! i
        in if rb_offset b \<le> start \<and> start + len \<le> rb_offset b + max_length b then
             res_bind (clear_dirty_loop (dirty_code rl) (first_page start) (end_page start len) False) (\<lambda>(dirty, blocks).
               let rl = rl\<lparr>dirty_code := blocks\<rparr>
               in if dirty then res_bind (tlb_reset_dirty_range_all start len rl t) (\<lambda>(rl, t). Inr (dirty, rl, t))
                  else Inr (dirty, rl, t))
           else Inl AssertFail))"

definition tlb_protect_code :: "nat \<Rightarrow> RAMList \<Rightarrow> CPUTLB \<Rightarrow> (RAMList \<times> CPUTLB) res" where
  "tlb_protect_code ram_addr rl t =
     res_bind (cpu_physical_memory_test_and_clear_dirty ram_addr 4096 DIRTY_MEMORY_CODE rl t) (\<lambda>(d, rl, t). Inr (rl, t))"

definition tlb_unprotect_code :: "nat \<Rightarrow> RAMList \<Rightarrow> RAMList res" where
  "tlb_unprotect_code ram_addr rl = cpu_physical_memory_set_dirty_flag ram_addr DIRTY_MEMORY_CODE rl"

section \<open>The map as a set of pages\<close>

abbreviation "BS \<equiv> DIRTY_MEMORY_BLOCK_SIZE"

text \<open>Every block has \<open>2 ^ 21\<close> bits.\<close>

definition dirty_map_ok :: "bitmap list \<Rightarrow> bool" where
  "dirty_map_ok bl \<longleftrightarrow> (\<forall>b \<in> set bl. nbits b = BS)"

definition bit_at :: "bitmap list \<Rightarrow> nat \<Rightarrow> bool" where
  "bit_at bl n \<longleftrightarrow> n div BS < length bl \<and> tb (bl ! (n div BS)) (n mod BS)"

definition dirty_pages :: "RAMList \<Rightarrow> nat set" where
  "dirty_pages rl = {n. bit_at (dirty_code rl) n}"

lemma BS_pos: "0 < BS"
  by (simp add: DIRTY_MEMORY_BLOCK_SIZE_def)

lemma block_of: "off < BS \<Longrightarrow> (idx * BS + off) div BS = idx \<and> (idx * BS + off) mod BS = off"
  using BS_pos by simp

lemma dirty_map_okD: "dirty_map_ok bl \<Longrightarrow> idx < length bl \<Longrightarrow> nbits (bl ! idx) = BS"
  by (simp add: dirty_map_ok_def)

lemma idx_in: "idx * BS + off < en \<Longrightarrow> en \<le> BS * length bl \<Longrightarrow> idx < length bl"
  by (metis add_lessD1 less_le_trans mult.commute mult_less_cancel2)

lemma get_dirty_loop_spec:
  assumes search: "\<And>b num off. off < num \<Longrightarrow> num \<le> nbits b \<Longrightarrow> \<exists>r. search b num off = Inr r \<and> first_in (P b) off num r"
    and ok: "dirty_map_ok bl" and en: "en \<le> BS * length bl"
  shows "page < en \<Longrightarrow> page = idx * BS + off \<Longrightarrow> off < BS \<Longrightarrow>
    get_dirty_loop search bl page en idx off (idx * BS) = Inr (\<exists>n. page \<le> n \<and> n < en \<and> P (bl ! (n div BS)) (n mod BS))"
proof (induction "en - idx * BS" arbitrary: page idx off rule: less_induct)
  case less
  let ?next = "min en (idx * BS + BS)" and ?b = "bl ! idx"
  let ?num = "?next - idx * BS" and ?Q = "\<lambda>n. P (bl ! (n div BS)) (n mod BS)"
  have idx: "idx < length bl" using idx_in less.prems(1,2) en by blast
  have num: "off < ?num" "?num \<le> nbits ?b" "?num \<le> BS" using less.prems dirty_map_okD [OF ok idx] by auto
  obtain r where r: "search ?b ?num off = Inr r" "first_in (P ?b) off ?num r" using search [OF num(1,2)] by blast
  have Q: "?Q (idx * BS + k) \<longleftrightarrow> P ?b k" if "k < BS" for k using block_of [OF that] by simp
  have nx: "?next = idx * BS + ?num" using num(1) by linarith
  have step: "get_dirty_loop search bl page en idx off (idx * BS) =
      (if r < ?num then Inr True else get_dirty_loop search bl ?next en (idx + 1) 0 (idx * BS + BS))"
    using less.prems(1) idx r(1) by (subst get_dirty_loop.simps) (simp add: arr_get_def Let_def)
  show ?case
  proof (cases "r < ?num")
    case True
    then have "off \<le> r" "P ?b r" "r < BS" using r(2) num(3) by (auto simp: first_in_def)
    then have "\<exists>n. page \<le> n \<and> n < en \<and> ?Q n" using True less.prems(2) Q by (intro exI [of _ "idx * BS + r"]) auto
    then show ?thesis using True step by simp
  next
    case False
    then have none: "\<not> P ?b k" if "off \<le> k" "k < ?num" for k using that r(2) by (auto simp: first_in_def)
    have low: "\<not> ?Q n" if "page \<le> n" "n < ?next" for n
    proof -
      have "n = idx * BS + (n - idx * BS)" "off \<le> n - idx * BS" "n - idx * BS < ?num" using that less.prems(2) by linarith+
      then show ?thesis using none Q num(3) by (metis order.strict_trans2)
    qed
    show ?thesis
    proof (cases "?next < en")
      case True
      then have "idx * BS + BS < en" by linarith
      then have nb: "?next = (idx + 1) * BS + 0" by simp
      have "en - (idx + 1) * BS < en - idx * BS" using True BS_pos nb by simp
      from less.hyps [OF this True nb BS_pos] have "get_dirty_loop search bl ?next en (idx + 1) 0 (idx * BS + BS) = Inr (\<exists>n. ?next \<le> n \<and> n < en \<and> ?Q n)"
        by (simp add: add.commute)
      moreover have "(\<exists>n. ?next \<le> n \<and> n < en \<and> ?Q n) \<longleftrightarrow> (\<exists>n. page \<le> n \<and> n < en \<and> ?Q n)"
        using low less.prems(2,3) nb by (metis le_trans less_imp_le_nat linorder_not_le add_0_right nat_add_left_cancel_less nx num(1) less_trans)
      ultimately show ?thesis using step False by simp
    next
      case end': False
      then have "?next = en" by linarith
      then have "\<not> (\<exists>n. page \<le> n \<and> n < en \<and> ?Q n)" using low by metis
      moreover have "get_dirty_loop search bl ?next en (idx + 1) 0 (idx * BS + BS) = Inr False" using end' by (subst get_dirty_loop.simps) simp
      ultimately show ?thesis using step False by simp
    qed
  qed
qed

lemma in_block: "n div BS = idx \<and> Q (n mod BS) \<longleftrightarrow> idx * BS \<le> n \<and> n < idx * BS + BS \<and> Q (n - idx * BS)"
proof (cases "n div BS = idx")
  case True
  have "idx * BS + n mod BS = n" unfolding True [symmetric] by simp
  then have "n mod BS = n - idx * BS" "idx * BS \<le> n" "n < idx * BS + BS" using mod_less_divisor [OF BS_pos, of n] by linarith+
  then show ?thesis using True by simp
next
  case False
  have "\<not> (idx * BS \<le> n \<and> n < idx * BS + BS)"
  proof
    assume "idx * BS \<le> n \<and> n < idx * BS + BS"
    then have "n = idx * BS + (n - idx * BS)" "n - idx * BS < BS" by linarith+
    then show False using False block_of by metis
  qed
  then show ?thesis using False by blast
qed

lemma block_range:
  "off + num \<le> BS \<Longrightarrow> n div BS = idx \<and> off \<le> n mod BS \<and> n mod BS < off + num \<longleftrightarrow> idx * BS + off \<le> n \<and> n < idx * BS + off + num"
  unfolding in_block [where Q = "\<lambda>k. off \<le> k \<and> k < off + num"] by auto

lemma map_update:
  assumes "dirty_map_ok bl" "idx < length bl" "nbits b = BS"
  shows "dirty_map_ok (bl[idx := b])" and "bit_at (bl[idx := b]) n \<longleftrightarrow> (if n div BS = idx then tb b (n mod BS) else bit_at bl n)"
  using assms by (auto simp: dirty_map_ok_def bit_at_def nth_list_update dest!: set_update_subset_insert [THEN subsetD])

lemma set_dirty_loop_spec:
  "dirty_map_ok bl \<Longrightarrow> en \<le> BS * length bl \<Longrightarrow> page < en \<Longrightarrow> page = idx * BS + off \<Longrightarrow> off < BS \<Longrightarrow>
    \<exists>bl'. set_dirty_loop bl page en idx off (idx * BS) = Inr bl' \<and> dirty_map_ok bl' \<and> length bl' = length bl \<and> (\<forall>n. bit_at bl' n \<longleftrightarrow> bit_at bl n \<or> page \<le> n \<and> n < en)"
proof (induction "en - idx * BS" arbitrary: bl page idx off rule: less_induct)
  case less
  let ?next = "min en (idx * BS + BS)" and ?b = "bl ! idx"
  have idx: "idx < length bl" using idx_in less.prems(2,3,4) by blast
  have nb: "nbits ?b = BS" using dirty_map_okD [OF less.prems(1) idx] .
  have le: "page < ?next" "off + (?next - page) \<le> BS" using less.prems(3-5) by auto
  then obtain b' where b': "bitmap_set_atomic ?b off (?next - page) = Inr b'" "length b' = length ?b"
    "\<forall>n. tb b' n \<longleftrightarrow> tb ?b n \<or> off \<le> n \<and> n < off + (?next - page)" using bitmap_set_atomic_spec [of off "?next - page" ?b] nb by auto
  let ?bl = "bl[idx := b']"
  have nb': "nbits b' = BS" using b'(2) nb by simp
  note up = map_update [OF less.prems(1) idx nb']
  have one: "bit_at ?bl n \<longleftrightarrow> bit_at bl n \<or> page \<le> n \<and> n < ?next" for n
  proof -
    have "bit_at ?bl n \<longleftrightarrow> bit_at bl n \<or> (n div BS = idx \<and> (off \<le> n mod BS \<and> n mod BS < off + (?next - page)))"
      unfolding up(2) using b'(3) idx by (auto simp: bit_at_def)
    also have "\<dots> \<longleftrightarrow> bit_at bl n \<or> page \<le> n \<and> n < ?next"
      unfolding block_range [OF le(2)] using le(1) less.prems(4) by auto
    finally show ?thesis .
  qed
  have step: "set_dirty_loop bl page en idx off (idx * BS) = set_dirty_loop ?bl ?next en (idx + 1) 0 (idx * BS + BS)"
    using less.prems(3) idx b'(1) by (subst set_dirty_loop.simps) (simp add: arr_get_def arr_set_def Let_def)
  show ?case
  proof (cases "?next < en")
    case True
    then have lt: "idx * BS + BS < en" by linarith
    then have nx: "?next = (idx + 1) * BS + 0" by simp
    have m: "en - (idx + 1) * BS < en - idx * BS" using lt BS_pos by simp
    have "en \<le> BS * length ?bl" using less.prems(2) by simp
    from less.hyps [OF m up(1) this True nx BS_pos] obtain bl' where bl': "set_dirty_loop ?bl ?next en (idx + 1) 0 (idx * BS + BS) = Inr bl'"
      "dirty_map_ok bl'" "length bl' = length bl" "\<forall>n. bit_at bl' n \<longleftrightarrow> bit_at ?bl n \<or> ?next \<le> n \<and> n < en" by (auto simp: add.commute)
    have "bit_at bl' n \<longleftrightarrow> bit_at bl n \<or> page \<le> n \<and> n < en" for n
      using bl'(4) join_ranges [OF less_imp_le [OF le(1)] less_imp_le [OF True]] unfolding one by blast
    then show ?thesis using step bl' by simp
  next
    case False
    then have "?next = en" by linarith
    moreover have "set_dirty_loop ?bl ?next en (idx + 1) 0 (idx * BS + BS) = Inr ?bl" using False by (subst set_dirty_loop.simps) simp
    ultimately show ?thesis using step one up(1) by simp
  qed
qed

lemma clear_dirty_loop_spec:
  "dirty_map_ok bl \<Longrightarrow> en \<le> BS * length bl \<Longrightarrow>
    \<exists>bl'. clear_dirty_loop bl page en d = Inr (d \<or> (\<exists>n. page \<le> n \<and> n < en \<and> bit_at bl n), bl') \<and> dirty_map_ok bl' \<and> length bl' = length bl \<and>
      (\<forall>n. bit_at bl' n \<longleftrightarrow> bit_at bl n \<and> \<not> (page \<le> n \<and> n < en))"
proof (induction "en - page" arbitrary: bl page d rule: less_induct)
  case less
  show ?case
  proof (cases "page < en")
    case True
    let ?idx = "page div BS" and ?off = "page mod BS"
    let ?num = "min (en - page) (BS - ?off)" and ?b = "bl ! ?idx"
    have pg: "page = ?idx * BS + ?off" "?off < BS" using BS_pos by simp_all
    have idx: "?idx < length bl" using idx_in [of ?idx ?off en bl] pg(1) True less.prems(2) by simp
    have nb: "nbits ?b = BS" using dirty_map_okD [OF less.prems(1) idx] .
    have num: "0 < ?num" "?off + ?num \<le> BS" "page + ?num \<le> en" using True pg(2) by auto
    obtain b' e where b': "bitmap_test_and_clear_atomic ?b ?off ?num = Inr (e \<noteq> 0, b')" "cleared ?b 0 {?off..<?off + ?num} b' e"
      using test_and_clear_spec [of ?off ?num ?b] num(2) nb by auto
    have nb': "nbits b' = BS" using b'(2) nb by (simp add: cleared_def)
    note up = map_update [OF less.prems(1) idx nb']
    let ?bl = "bl[?idx := b']"
    have rng: "n div BS = ?idx \<and> (?off \<le> n mod BS \<and> n mod BS < ?off + ?num) \<longleftrightarrow> page \<le> n \<and> n < page + ?num" for n
      unfolding block_range [OF num(2)] using pg(1) by simp
    have one: "bit_at ?bl n \<longleftrightarrow> bit_at bl n \<and> \<not> (page \<le> n \<and> n < page + ?num)" for n
      unfolding rng [symmetric] up(2) using b'(2) idx by (auto simp: bit_at_def cleared_def)
    have e: "e \<noteq> 0 \<longleftrightarrow> (\<exists>n. page \<le> n \<and> n < page + ?num \<and> bit_at bl n)"
    proof
      assume "e \<noteq> 0"
      then obtain k where k: "?off \<le> k" "k < ?off + ?num" "tb ?b k" using b'(2) by (auto simp: cleared_def)
      have "k < BS" using k(2) num(2) by linarith
      then have "bit_at bl (?idx * BS + k)" using block_of idx k(3) by (simp add: bit_at_def)
      then show "\<exists>n. page \<le> n \<and> n < page + ?num \<and> bit_at bl n" using k pg(1) by (intro exI [of _ "?idx * BS + k"]) linarith
    next
      assume "\<exists>n. page \<le> n \<and> n < page + ?num \<and> bit_at bl n"
      then obtain n where n: "page \<le> n \<and> n < page + ?num" "bit_at bl n" by blast
      from n(1) [folded rng] n(2) show "e \<noteq> 0" using b'(2) by (auto simp: cleared_def bit_at_def)
    qed
    have m: "en - (page + ?num) < en - page" using num(1) True by linarith
    have "en \<le> BS * length ?bl" using less.prems(2) by simp
    from less.hyps [OF m up(1) this, of "d \<or> e \<noteq> 0"] obtain bl' where bl':
      "clear_dirty_loop ?bl (page + ?num) en (d \<or> e \<noteq> 0) = Inr ((d \<or> e \<noteq> 0) \<or> (\<exists>n. page + ?num \<le> n \<and> n < en \<and> bit_at ?bl n), bl')"
      "dirty_map_ok bl'" "length bl' = length bl" "\<forall>n. bit_at bl' n \<longleftrightarrow> bit_at ?bl n \<and> \<not> (page + ?num \<le> n \<and> n < en)" by auto
    have split: "page \<le> n \<and> n < en \<longleftrightarrow> page \<le> n \<and> n < page + ?num \<or> page + ?num \<le> n \<and> n < en" for n using num by auto
    have fin: "bit_at bl' n \<longleftrightarrow> bit_at bl n \<and> \<not> (page \<le> n \<and> n < en)" for n using bl'(4) unfolding one split by blast
    have "(d \<or> e \<noteq> 0) \<or> (\<exists>n. page + ?num \<le> n \<and> n < en \<and> bit_at ?bl n) \<longleftrightarrow> d \<or> (\<exists>n. page \<le> n \<and> n < en \<and> bit_at bl n)"
      unfolding e one using split by (metis not_le)
    then have "clear_dirty_loop bl page en d = Inr (d \<or> (\<exists>n. page \<le> n \<and> n < en \<and> bit_at bl n), bl')"
      using bl'(1) True idx b'(1) by (subst clear_dirty_loop.simps) (simp add: arr_get_def arr_set_def Let_def)
    then show ?thesis using bl'(2,3) fin by blast
  next
    case False
    then have no: "\<not> (page \<le> n \<and> n < en)" for n by linarith
    then have "(\<exists>n. page \<le> n \<and> n < en \<and> bit_at bl n) \<longleftrightarrow> False" by blast
    then show ?thesis using no less.prems(1) unfolding clear_dirty_loop.simps [of bl page] by (simp only: False if_False simp_thms) blast
  qed
qed

text \<open>The pages a range of RAM touches.\<close>

definition pages_of :: "nat \<Rightarrow> nat \<Rightarrow> nat set" where
  "pages_of start len = {first_page start..<end_page start len}"

lemma pages_of_exact: "0 < len \<Longrightarrow> n \<in> pages_of start len \<longleftrightarrow> (\<exists>a. start \<le> a \<and> a < start + len \<and> a div 4096 = n)"
proof
  assume len: "0 < len" and n: "n \<in> pages_of start len"
  then have lo: "start div 4096 \<le> n" and hi: "n * 4096 < start + len"
    by (auto simp: pages_of_def first_page_def end_page_def less_eq_div_iff_mult_less_eq div_less_iff_less_mult less_Suc_eq_le Suc_le_eq [symmetric])
  have "start < Suc n * 4096" using lo by (metis div_less_iff_less_mult less_Suc_eq_le zero_less_numeral)
  then have "max start (n * 4096) div 4096 = n" by (auto simp: max_def div_nat_eqI)
  then show "\<exists>a. start \<le> a \<and> a < start + len \<and> a div 4096 = n" using hi len by (intro exI [of _ "max start (n * 4096)"]) auto
next
  assume "\<exists>a. start \<le> a \<and> a < start + len \<and> a div 4096 = n"
  then obtain a where a: "start \<le> a" "a < start + len" "a div 4096 = n" by blast
  have "start div 4096 \<le> n" using a(1,3) div_le_mono by blast
  moreover have "n * 4096 + 4096 \<le> start + len + 4095"
  proof -
    have "n * 4096 \<le> a" using a(3) by (metis div_times_less_eq_dividend)
    then show ?thesis using a(2) by linarith
  qed
  then have "Suc n \<le> (start + len + 4095) div 4096" by (simp add: less_eq_div_iff_mult_less_eq)
  ultimately show "n \<in> pages_of start len" by (simp add: pages_of_def first_page_def end_page_def)
qed

definition ram_ok :: "RAMList \<Rightarrow> bool" where
  "ram_ok rl \<longleftrightarrow> dirty_map_ok (dirty_code rl)"

text \<open>A range the map covers.\<close>

definition covered :: "nat \<Rightarrow> nat \<Rightarrow> RAMList \<Rightarrow> bool" where
  "covered start len rl \<longleftrightarrow> end_page start len \<le> BS * length (dirty_code rl)"

lemma page_split: "first_page a = first_page a div BS * BS + first_page a mod BS" "first_page a mod BS < BS" "first_page a - first_page a mod BS = first_page a div BS * BS"
  using BS_pos by (simp_all add: minus_mod_eq_div_mult)

lemma get_dirty_spec:
  assumes "ram_ok rl" "covered start len rl"
  shows "cpu_physical_memory_get_dirty start len DIRTY_MEMORY_CODE rl = Inr (dirty_pages rl \<inter> pages_of start len \<noteq> {})"
proof (cases "first_page start < end_page start len")
  case True
  let ?en = "end_page start len" and ?bl = "dirty_code rl"
  have en: "?en \<le> BS * length ?bl" using assms(2) by (simp add: covered_def)
  have "(\<exists>n. first_page start \<le> n \<and> n < ?en \<and> tb (?bl ! (n div BS)) (n mod BS)) \<longleftrightarrow> dirty_pages rl \<inter> pages_of start len \<noteq> {}"
  proof -
    have "n div BS < length ?bl" if "n < ?en" for n using that en BS_pos by (metis div_less_iff_less_mult less_le_trans mult.commute)
    then show ?thesis unfolding dirty_pages_def pages_of_def bit_at_def by (auto simp: disjoint_iff)
  qed
  then show ?thesis
    using get_dirty_loop_spec [OF find_next_bit_spec _ en True page_split(1,2)] assms(1)
    by (simp add: cpu_physical_memory_get_dirty_def client_blocks_def DIRTY_MEMORY_NUM_def DIRTY_MEMORY_CODE_def Let_def page_split(3) ram_ok_def)
next
  case False
  then show ?thesis
    by (simp add: cpu_physical_memory_get_dirty_def client_blocks_def DIRTY_MEMORY_NUM_def DIRTY_MEMORY_CODE_def Let_def pages_of_def get_dirty_loop.simps)
qed

lemma all_dirty_spec:
  assumes "ram_ok rl" "covered start len rl"
  shows "cpu_physical_memory_all_dirty start len DIRTY_MEMORY_CODE rl = Inr (pages_of start len \<subseteq> dirty_pages rl)"
proof (cases "first_page start < end_page start len")
  case True
  let ?en = "end_page start len" and ?bl = "dirty_code rl"
  have en: "?en \<le> BS * length ?bl" using assms(2) by (simp add: covered_def)
  have "(\<exists>n. first_page start \<le> n \<and> n < ?en \<and> \<not> tb (?bl ! (n div BS)) (n mod BS)) \<longleftrightarrow> \<not> pages_of start len \<subseteq> dirty_pages rl"
  proof -
    have "n div BS < length ?bl" if "n < ?en" for n using that en BS_pos by (metis div_less_iff_less_mult less_le_trans mult.commute)
    then show ?thesis by (auto simp: dirty_pages_def pages_of_def bit_at_def)
  qed
  then show ?thesis
    using get_dirty_loop_spec [OF find_next_zero_bit_spec _ en True page_split(1,2)] assms(1)
    by (simp add: cpu_physical_memory_all_dirty_def DIRTY_MEMORY_NUM_def DIRTY_MEMORY_CODE_def Let_def page_split(3) ram_ok_def)
next
  case False
  then show ?thesis
    by (simp add: cpu_physical_memory_all_dirty_def DIRTY_MEMORY_NUM_def DIRTY_MEMORY_CODE_def Let_def pages_of_def get_dirty_loop.simps)
qed

lemma set_dirty_spec:
  assumes "ram_ok rl" "covered start len rl" "tst m (BIT DIRTY_MEMORY_CODE)"
  shows "\<exists>rl'. cpu_physical_memory_set_dirty_range start len m rl = Inr rl' \<and> ram_ok rl' \<and> length (dirty_code rl') = length (dirty_code rl) \<and>
    rblocks rl' = rblocks rl \<and> mru rl' = mru rl \<and> dirty_pages rl' = dirty_pages rl \<union> pages_of start len"
proof (cases "first_page start < end_page start len")
  case True
  let ?en = "end_page start len"
  have en: "?en \<le> BS * length (dirty_code rl)" using assms(2) by (simp add: covered_def)
  obtain bl' where b: "set_dirty_loop (dirty_code rl) (first_page start) ?en (first_page start div BS) (first_page start mod BS) (first_page start div BS * BS) = Inr bl'"
    "dirty_map_ok bl'" "length bl' = length (dirty_code rl)" "\<forall>n. bit_at bl' n \<longleftrightarrow> bit_at (dirty_code rl) n \<or> first_page start \<le> n \<and> n < ?en"
    using set_dirty_loop_spec [OF _ en True page_split(1,2)] assms(1) unfolding ram_ok_def by blast
  have "dirty_pages (rl\<lparr>dirty_code := bl'\<rparr>) = dirty_pages rl \<union> pages_of start len"
    by (intro set_eqI) (simp add: dirty_pages_def pages_of_def b(4))
  moreover have "cpu_physical_memory_set_dirty_range start len m rl = Inr (rl\<lparr>dirty_code := bl'\<rparr>)"
    using b(1) assms(3) unfolding cpu_physical_memory_set_dirty_range_def Let_def page_split(3) by auto
  ultimately show ?thesis using b(2,3) by (simp add: ram_ok_def)
next
  case False
  moreover have "m \<noteq> 0" using assms(3) by auto
  ultimately show ?thesis using assms(1)
    by (simp add: cpu_physical_memory_set_dirty_range_def Let_def pages_of_def set_dirty_loop.simps dirty_pages_def ram_ok_def)
qed

lemma flag_pages: "pages_of addr 1 = {first_page addr}"
  by (auto simp: pages_of_def first_page_def end_page_def)

lemma set_dirty_flag_spec:
  assumes "ram_ok rl" "first_page addr < BS * length (dirty_code rl)"
  shows "\<exists>rl'. cpu_physical_memory_set_dirty_flag addr DIRTY_MEMORY_CODE rl = Inr rl' \<and> ram_ok rl' \<and> length (dirty_code rl') = length (dirty_code rl) \<and>
    rblocks rl' = rblocks rl \<and> mru rl' = mru rl \<and> dirty_pages rl' = insert (first_page addr) (dirty_pages rl)"
proof -
  let ?idx = "first_page addr div BS" and ?off = "first_page addr mod BS" and ?bl = "dirty_code rl"
  have idx: "?idx < length ?bl" using idx_in [of ?idx ?off "BS * length ?bl" ?bl] assms(2) page_split(1) [of addr] by simp
  have nb: "nbits (?bl ! ?idx) = BS" using dirty_map_okD assms(1) idx by (simp add: ram_ok_def)
  have p: "BIT_WORD ?off < length (?bl ! ?idx)" using page_split(2) [of addr] nb word_index [of ?off "?bl ! ?idx"] by (simp add: bitmap_consts)
  obtain b' where b': "set_bit_atomic ?off (?bl ! ?idx) = Inr b'" "length b' = length (?bl ! ?idx)"
    "\<forall>n. tb b' n \<longleftrightarrow> tb (?bl ! ?idx) n \<or> n div 64 = BIT_WORD ?off \<and> bit (BIT_MASK ?off) (n mod 64)"
    unfolding set_bit_atomic_def using or_word_spec [OF p, of "BIT_MASK ?off"] by blast
  have "n div 64 = BIT_WORD ?off \<and> bit (BIT_MASK ?off) (n mod 64) \<longleftrightarrow> n = ?off" for n
    unfolding BIT_MASK_def BIT_WORD_def BITS_PER_LONG_def bit_push_bit_iff bit_1_iff by (auto simp: possible_bit_def) (metis div_mult_mod_eq)
  note b' = b' [unfolded this]
  have nb': "nbits b' = BS" using b'(2) nb by simp
  have mok: "dirty_map_ok ?bl" using assms(1) by (simp add: ram_ok_def)
  note up = map_update [OF mok idx nb']
  have "bit_at (?bl[?idx := b']) n \<longleftrightarrow> bit_at ?bl n \<or> n = first_page addr" for n
  proof -
    have "n div BS = ?idx \<and> n mod BS = ?off \<longleftrightarrow> n = first_page addr" by (metis div_mult_mod_eq)
    then show ?thesis unfolding up(2) using b'(3) idx by (auto simp: bit_at_def)
  qed
  then have "dirty_pages (rl\<lparr>dirty_code := ?bl[?idx := b']\<rparr>) = insert (first_page addr) (dirty_pages rl)" by (auto simp: dirty_pages_def)
  then show ?thesis using idx b'(1) up(1)
    by (simp add: cpu_physical_memory_set_dirty_flag_def client_blocks_def DIRTY_MEMORY_NUM_def DIRTY_MEMORY_CODE_def Let_def arr_get_def arr_set_def ram_ok_def)
qed

section \<open>RAM blocks and protection\<close>

text \<open>The blocks are non-empty runs of pages, apart from each other both in RAM addresses and in the memory of the host.\<close>

definition block_ok :: "ram_block \<Rightarrow> bool" where
  "block_ok b \<longleftrightarrow> host b \<noteq> 0 \<and> host b + max_length b \<le> 2 ^ 63 \<and> rb_offset b + max_length b \<le> 2 ^ 32 \<and>
     4096 dvd host b \<and> 4096 dvd rb_offset b \<and> 4096 dvd max_length b"

definition blocks_ok :: "RAMList \<Rightarrow> bool" where
  "blocks_ok rl \<longleftrightarrow> (\<forall>i < length (rblocks rl). block_ok (rblocks rl ! i)) \<and>
     (\<forall>i < length (rblocks rl). \<forall>j < length (rblocks rl). i \<noteq> j \<longrightarrow>
        (\<forall>k < max_length (rblocks rl ! i). \<forall>l < max_length (rblocks rl ! j).
           rb_offset (rblocks rl ! i) + k \<noteq> rb_offset (rblocks rl ! j) + l \<and> host (rblocks rl ! i) + k \<noteq> host (rblocks rl ! j) + l))"

lemma sub64_ge: "b \<le> a \<Longrightarrow> a < 2 ^ 64 \<Longrightarrow> sub64 a b = a - b"
proof -
  assume a: "b \<le> a" "a < 2 ^ 64"
  then have "int a < int (2 ^ 64)" by (simp only: of_nat_less_iff)
  then have "(int a - int b) mod 2 ^ 64 = int a - int b" using a(1) by (intro mod_pos_pos_trivial) simp_all
  then show ?thesis by (simp add: sub64_def nat_diff_distrib')
qed

lemma sub64_less: "a < b \<Longrightarrow> b \<le> 2 ^ 63 \<Longrightarrow> 2 ^ 63 \<le> sub64 a b"
proof -
  assume a: "a < b" "b \<le> 2 ^ 63"
  then have b: "int b \<le> 2 ^ 63" by (metis of_nat_le_iff of_nat_numeral of_nat_power)
  have "(int a - int b) mod 2 ^ 64 = (int a - int b + 2 ^ 64) mod 2 ^ 64" by simp
  also have "\<dots> = int a - int b + 2 ^ 64" using a(1) b by (intro mod_pos_pos_trivial) simp_all
  finally have "sub64 a b = nat (int a - int b + 2 ^ 64)" by (simp add: sub64_def)
  moreover have "2 ^ 63 \<le> int a - int b + 2 ^ 64" using b by simp
  ultimately show ?thesis by (simp add: le_nat_iff)
qed

text \<open>The test of the look-ups is membership.\<close>

lemma sub64_inside: "base + len \<le> 2 ^ 63 \<Longrightarrow> a < 2 ^ 64 \<Longrightarrow> sub64 a base < len \<longleftrightarrow> base \<le> a \<and> a < base + len"
  using sub64_ge [of base a] sub64_less [of a base] by (cases "base \<le> a") auto

lemma find_block_Some:
  "find_block P k bs = Some i \<Longrightarrow> k \<le> i \<and> i < k + length bs \<and> P (bs ! (i - k))"
  by (induction bs arbitrary: k) (fastforce split: if_splits simp: nth_Cons')+

lemma find_block_None: "find_block P k bs = None \<longleftrightarrow> (\<forall>b \<in> set bs. \<not> P b)"
  by (induction bs arbitrary: k) auto

lemma get_ram_block_spec:
  assumes ok: "blocks_ok rl" and i: "i < length (rblocks rl)" and a: "rb_offset (rblocks rl ! i) \<le> a" "a < rb_offset (rblocks rl ! i) + max_length (rblocks rl ! i)"
  shows "\<exists>m. qemu_get_ram_block a rl = Inr (i, rl\<lparr>mru := m\<rparr>)"
proof -
  define P :: "ram_block \<Rightarrow> bool" where "P = (\<lambda>b. sub64 a (rb_offset b) < max_length b)"
  have bnd: "rb_offset (rblocks rl ! j) + max_length (rblocks rl ! j) \<le> 2 ^ 63" if "j < length (rblocks rl)" for j
  proof -
    have "rb_offset (rblocks rl ! j) + max_length (rblocks rl ! j) \<le> 2 ^ 32" using ok that by (simp add: blocks_ok_def block_ok_def)
    then show ?thesis by simp
  qed
  have a64: "a < 2 ^ 64" using bnd [OF i] a(2) by simp
  have P: "P (rblocks rl ! j) \<longleftrightarrow> rb_offset (rblocks rl ! j) \<le> a \<and> a < rb_offset (rblocks rl ! j) + max_length (rblocks rl ! j)" if "j < length (rblocks rl)" for j
    using sub64_inside [OF bnd [OF that] a64] by (simp add: P_def)
  have only: "j = i" if j: "j < length (rblocks rl)" "P (rblocks rl ! j)" for j
  proof (rule ccontr)
    assume "j \<noteq> i"
    define k l where "k = a - rb_offset (rblocks rl ! j)" and "l = a - rb_offset (rblocks rl ! i)"
    have "k < max_length (rblocks rl ! j)" "l < max_length (rblocks rl ! i)" "rb_offset (rblocks rl ! j) + k = rb_offset (rblocks rl ! i) + l"
      using P [OF j(1)] j(2) a by (auto simp: k_def l_def)
    then show False using ok i j(1) \<open>j \<noteq> i\<close> unfolding blocks_ok_def by metis
  qed
  have "find_block P 0 (rblocks rl) = Some i"
  proof (cases "find_block P 0 (rblocks rl)")
    case None
    then show ?thesis using P [OF i] a i unfolding find_block_None by (meson nth_mem)
  next
    case (Some j)
    then show ?thesis using find_block_Some [OF Some] only by simp
  qed
  then have "qemu_get_ram_block a rl = Inr (i, rl) \<or> qemu_get_ram_block a rl = Inr (i, rl\<lparr>mru := Some i\<rparr>)"
    using only unfolding qemu_get_ram_block_def Let_def P_def [symmetric] by (cases "mru rl") auto
  moreover have "rl = rl\<lparr>mru := mru rl\<rparr>" by simp
  ultimately show ?thesis by metis
qed

text \<open>From an address of the host back to the address in RAM.\<close>

lemma ram_addr_from_host_spec:
  assumes ok: "blocks_ok rl" and i: "i < length (rblocks rl)" and off: "off < max_length (rblocks rl ! i)"
  shows "qemu_ram_addr_from_host (host (rblocks rl ! i) + off) rl = Inr (rb_offset (rblocks rl ! i) + off)"
proof -
  let ?a = "host (rblocks rl ! i) + off"
  define P :: "ram_block \<Rightarrow> bool" where "P = (\<lambda>b. host b \<noteq> 0 \<and> sub64 ?a (host b) < max_length b)"
  have bnd: "host (rblocks rl ! j) + max_length (rblocks rl ! j) \<le> 2 ^ 63" and nz: "host (rblocks rl ! j) \<noteq> 0" if "j < length (rblocks rl)" for j
    using ok that by (simp_all add: blocks_ok_def block_ok_def)
  have a64: "?a < 2 ^ 64" using bnd [OF i] off by simp
  have P: "P (rblocks rl ! j) \<longleftrightarrow> host (rblocks rl ! j) \<le> ?a \<and> ?a < host (rblocks rl ! j) + max_length (rblocks rl ! j)" if "j < length (rblocks rl)" for j
    using sub64_inside [OF bnd [OF that] a64] nz [OF that] by (simp add: P_def)
  have only: "j = i" if j: "j < length (rblocks rl)" "P (rblocks rl ! j)" for j
  proof (rule ccontr)
    assume "j \<noteq> i"
    define k where "k = ?a - host (rblocks rl ! j)"
    have "k < max_length (rblocks rl ! j)" "host (rblocks rl ! j) + k = host (rblocks rl ! i) + off" using P [OF j(1)] j(2) by (auto simp: k_def)
    then show False using ok i off j(1) \<open>j \<noteq> i\<close> unfolding blocks_ok_def by metis
  qed
  have "find_block P 0 (rblocks rl) = Some i"
  proof (cases "find_block P 0 (rblocks rl)")
    case None
    then show ?thesis using P [OF i] off i unfolding find_block_None by (metis le_add1 nat_add_left_cancel_less nth_mem)
  next
    case (Some j)
    then show ?thesis using find_block_Some [OF Some] only by simp
  qed
  then have "qemu_ram_block_from_host ?a False rl = Inr (i, sub64 ?a (host (rblocks rl ! i)))"
    using only unfolding qemu_ram_block_from_host_def Let_def P_def [symmetric] by (cases "mru rl") auto
  then show ?thesis using sub64_ge [of "host (rblocks rl ! i)" ?a] a64 by (simp add: qemu_ram_addr_from_host_def)
qed

lemma page_aligned_mask:
  assumes "4096 dvd a" "a < 2 ^ 32"
  shows "unat ((of_nat a :: u64) AND ucast TARGET_PAGE_MASK) = a"
proof -
  have low: "\<not> bit a n" if "n < 12" for n
  proof -
    obtain k where "a = 2 ^ 12 * k" using assms(1) by (auto simp: dvd_def)
    then have "a = push_bit 12 k" by (simp add: push_bit_eq_mult)
    then show ?thesis using that by (simp add: bit_push_bit_iff)
  qed
  have high: "\<not> bit a n" if "32 \<le> n" for n
  proof -
    have "take_bit 32 a = a" using assms(2) by (simp add: take_bit_eq_mod)
    then show ?thesis using that by (metis bit_take_bit_iff not_le)
  qed
  have "(of_nat a :: u64) AND ucast TARGET_PAGE_MASK = of_nat a"
  proof (rule bit_word_eqI)
    fix n assume n: "n < LENGTH(64)"
    have "bit (of_nat a :: u64) n \<longleftrightarrow> bit a n" using n by (simp add: bit_of_nat_iff)
    then show "bit ((of_nat a :: u64) AND ucast TARGET_PAGE_MASK) n = bit (of_nat a :: u64) n"
      using low high n unfolding bit_and_iff bit_unsigned_iff page_mask_bit by (metis (full_types) not_le possible_bit_word)
  qed
  moreover have "a < 2 ^ 64" using assms(2) by simp
  ultimately show ?thesis by (simp add: of_nat_inverse)
qed

lemma page_in_block:
  fixes a off len :: nat
  assumes "4096 dvd off" "4096 dvd len" "4096 dvd a" "off \<le> a" "a < off + len"
  shows "a + 4096 \<le> off + len"
proof -
  obtain x y where "off + len = 4096 * x" "a = 4096 * y" using assms(1-3) by (metis dvd_add dvd_def)
  then show ?thesis using assms(5) by simp
qed

lemma end_page_aligned: "4096 dvd a \<Longrightarrow> end_page a 4096 = Suc (a div 4096)"
  by (auto simp: end_page_def elim!: dvdE)

text \<open>A page of RAM: its block, and where the host keeps it.\<close>

definition ram_page :: "RAMList \<Rightarrow> nat \<Rightarrow> nat \<Rightarrow> bool" where
  "ram_page rl i a \<longleftrightarrow> i < length (rblocks rl) \<and> 4096 dvd a \<and> rb_offset (rblocks rl ! i) \<le> a \<and> a < rb_offset (rblocks rl ! i) + max_length (rblocks rl ! i) \<and>
     a div 4096 < BS * length (dirty_code rl)"

definition host_of :: "RAMList \<Rightarrow> nat \<Rightarrow> nat \<Rightarrow> nat" where
  "host_of rl i a = host (rblocks rl ! i) + (a - rb_offset (rblocks rl ! i))"

lemma reset_range_spec:
  assumes ok: "blocks_ok rl" and pg: "ram_page rl i a"
  shows "\<exists>m. tlb_reset_dirty_range_all a 4096 rl t = Inr (rl\<lparr>mru := m\<rparr>, tlb_reset_dirty (of_nat (host_of rl i a)) 4096 t)"
proof -
  let ?b = "rblocks rl ! i"
  have i: "i < length (rblocks rl)" and al: "4096 dvd a" and a: "rb_offset ?b \<le> a" "a < rb_offset ?b + max_length ?b" using pg by (simp_all add: ram_page_def)
  have b: "block_ok ?b" using ok i by (simp add: blocks_ok_def)
  have en: "a + 4096 \<le> rb_offset ?b + max_length ?b" using page_in_block [OF _ _ al a] b by (simp add: block_ok_def)
  have a32: "a < 2 ^ 32" using en b by (simp add: block_ok_def)
  have e: "end_page a 4096 * 4096 - 1 = a + 4095" using al by (auto simp: end_page_aligned elim!: dvdE)
  obtain m1 where m1: "qemu_get_ram_block a rl = Inr (i, rl\<lparr>mru := m1\<rparr>)" using get_ram_block_spec [OF ok i a] by blast
  have ok1: "blocks_ok (rl\<lparr>mru := m1\<rparr>)" using ok by (simp add: blocks_ok_def)
  have "\<exists>m2. qemu_get_ram_block (a + 4095) (rl\<lparr>mru := m1\<rparr>) = Inr (i, rl\<lparr>mru := m1\<rparr>\<lparr>mru := m2\<rparr>)"
    by (rule get_ram_block_spec [OF ok1]) (use i a en in simp_all)
  then obtain m2 where m2: "qemu_get_ram_block (a + 4095) (rl\<lparr>mru := m1\<rparr>) = Inr (i, rl\<lparr>mru := m2\<rparr>)" by auto
  have s: "sub64 a (rb_offset ?b) = a - rb_offset ?b" using sub64_ge [OF a(1)] a32 by simp
  have "ramblock_ptr (Some ?b) (a - rb_offset ?b) = Inr (host_of rl i a)" using b a by (simp add: ramblock_ptr_def block_ok_def host_of_def)
  then show ?thesis using m1 m2 s by (intro exI [of _ m2]) (simp add: tlb_reset_dirty_range_all_def Let_def page_aligned_mask [OF al a32] e [unfolded One_nat_def])
qed

lemma protect_spec:
  assumes ok: "blocks_ok rl" "ram_ok rl" and pg: "ram_page rl i a"
  shows "\<exists>bl m. tlb_protect_code a rl t = Inr (rl\<lparr>dirty_code := bl, mru := m\<rparr>,
      if a div 4096 \<in> dirty_pages rl then tlb_reset_dirty (of_nat (host_of rl i a)) 4096 t else t) \<and>
    dirty_map_ok bl \<and> length bl = length (dirty_code rl) \<and> {n. bit_at bl n} = dirty_pages rl - {a div 4096}"
proof -
  let ?b = "rblocks rl ! i"
  have i: "i < length (rblocks rl)" and al: "4096 dvd a" and a: "rb_offset ?b \<le> a" "a < rb_offset ?b + max_length ?b" using pg by (simp_all add: ram_page_def)
  have b: "block_ok ?b" using ok(1) i by (simp add: blocks_ok_def)
  have en: "a + 4096 \<le> rb_offset ?b + max_length ?b" using page_in_block [OF _ _ al a] b by (simp add: block_ok_def)
  obtain m1 where m1: "qemu_get_ram_block a rl = Inr (i, rl\<lparr>mru := m1\<rparr>)" using get_ram_block_spec [OF ok(1) i a] by blast
  let ?pg = "a div 4096"
  have cov: "Suc ?pg \<le> BS * length (dirty_code rl)" using pg by (simp add: ram_page_def)
  have mok: "dirty_map_ok (dirty_code rl)" using ok(2) by (simp add: ram_ok_def)
  have one: "?pg \<le> n \<and> n < Suc ?pg \<longleftrightarrow> n = ?pg" for n by auto
  obtain bl where bl: "clear_dirty_loop (dirty_code rl) ?pg (Suc ?pg) False = Inr (?pg \<in> dirty_pages rl, bl)" "dirty_map_ok bl" "length bl = length (dirty_code rl)"
    "\<forall>n. bit_at bl n \<longleftrightarrow> bit_at (dirty_code rl) n \<and> n \<noteq> ?pg"
    using clear_dirty_loop_spec [OF mok cov, of ?pg False] unfolding one conj_assoc [symmetric] by (auto simp: dirty_pages_def)
  have set: "{n. bit_at bl n} = dirty_pages rl - {?pg}" using bl(4) by (auto simp: dirty_pages_def)
  let ?rl = "rl\<lparr>mru := m1\<rparr>\<lparr>dirty_code := bl\<rparr>"
  have "blocks_ok ?rl" "ram_page ?rl i a" using ok(1) pg bl(3) by (simp_all add: blocks_ok_def ram_page_def)
  from reset_range_spec [OF this, of t] obtain m2 where m2: "tlb_reset_dirty_range_all a 4096 ?rl t = Inr (rl\<lparr>dirty_code := bl, mru := m2\<rparr>, tlb_reset_dirty (of_nat (host_of rl i a)) 4096 t)"
    by (auto simp: host_of_def)
  have comm: "rl\<lparr>mru := m1, dirty_code := bl\<rparr> = rl\<lparr>dirty_code := bl, mru := m1\<rparr>" by (cases rl) simp
  have "\<exists>m. tlb_protect_code a rl t = Inr (rl\<lparr>dirty_code := bl, mru := m\<rparr>, if ?pg \<in> dirty_pages rl then tlb_reset_dirty (of_nat (host_of rl i a)) 4096 t else t)"
    using m1 m2 bl(1) a en
    by (cases "?pg \<in> dirty_pages rl")
      (auto simp: tlb_protect_code_def cpu_physical_memory_test_and_clear_dirty_def Let_def first_page_def end_page_aligned [OF al] comm)
  then show ?thesis using bl(2,3) set by blast
qed

text \<open>
  C20. The map of dirty pages is a set of pages. Marking a range of RAM adds exactly the pages the range
  touches, marking one address adds its page, and the tests report whether some page and whether
  every page of the range is dirty, across the blocks of the map and with the word-wise searches. A
  range touches a page when one of its addresses lies on it. Protecting a page removes exactly it,
  and if it was dirty the TLB entries that write to it are sent through the slow path.
\<close>

theorem dirty_map_is_page_set:
  assumes "ram_ok rl" and "blocks_ok rl" and "covered start len rl" and "0 < len" and "ram_page rl i a"
  shows "(\<forall>n. n \<in> pages_of start len \<longleftrightarrow> (\<exists>x. start \<le> x \<and> x < start + len \<and> x div 4096 = n)) \<and>
    cpu_physical_memory_get_dirty start len DIRTY_MEMORY_CODE rl = Inr (dirty_pages rl \<inter> pages_of start len \<noteq> {}) \<and>
    cpu_physical_memory_all_dirty start len DIRTY_MEMORY_CODE rl = Inr (pages_of start len \<subseteq> dirty_pages rl) \<and>
    (\<exists>rl'. cpu_physical_memory_set_dirty_range start len (BIT DIRTY_MEMORY_CODE) rl = Inr rl' \<and> ram_ok rl' \<and> blocks_ok rl' \<and> dirty_pages rl' = dirty_pages rl \<union> pages_of start len) \<and>
    (\<exists>rl'. cpu_physical_memory_set_dirty_flag a DIRTY_MEMORY_CODE rl = Inr rl' \<and> ram_ok rl' \<and> blocks_ok rl' \<and> dirty_pages rl' = insert (a div 4096) (dirty_pages rl)) \<and>
    (\<exists>rl'. tlb_protect_code a rl t = Inr (rl', if a div 4096 \<in> dirty_pages rl then tlb_reset_dirty (of_nat (host_of rl i a)) 4096 t else t) \<and>
       ram_ok rl' \<and> blocks_ok rl' \<and> dirty_pages rl' = dirty_pages rl - {a div 4096})"
proof (intro conjI)
  show "\<forall>n. n \<in> pages_of start len \<longleftrightarrow> (\<exists>x. start \<le> x \<and> x < start + len \<and> x div 4096 = n)" using pages_of_exact [OF assms(4)] by blast
  show "cpu_physical_memory_get_dirty start len DIRTY_MEMORY_CODE rl = Inr (dirty_pages rl \<inter> pages_of start len \<noteq> {})" by (rule get_dirty_spec [OF assms(1,3)])
  show "cpu_physical_memory_all_dirty start len DIRTY_MEMORY_CODE rl = Inr (pages_of start len \<subseteq> dirty_pages rl)" by (rule all_dirty_spec [OF assms(1,3)])
  have "tst (BIT DIRTY_MEMORY_CODE :: u8) (BIT DIRTY_MEMORY_CODE)" by (simp add: DIRTY_MEMORY_CODE_def)
  from set_dirty_spec [OF assms(1,3) this] assms(2)
  show "\<exists>rl'. cpu_physical_memory_set_dirty_range start len (BIT DIRTY_MEMORY_CODE) rl = Inr rl' \<and> ram_ok rl' \<and> blocks_ok rl' \<and> dirty_pages rl' = dirty_pages rl \<union> pages_of start len"
    by (auto simp: blocks_ok_def)
  have "first_page a < BS * length (dirty_code rl)" using assms(5) by (simp add: ram_page_def first_page_def)
  from set_dirty_flag_spec [OF assms(1) this] assms(2)
  show "\<exists>rl'. cpu_physical_memory_set_dirty_flag a DIRTY_MEMORY_CODE rl = Inr rl' \<and> ram_ok rl' \<and> blocks_ok rl' \<and> dirty_pages rl' = insert (a div 4096) (dirty_pages rl)"
    by (auto simp: blocks_ok_def first_page_def)
  from protect_spec [OF assms(2,1,5), of t] assms(2)
  show "\<exists>rl'. tlb_protect_code a rl t = Inr (rl', if a div 4096 \<in> dirty_pages rl then tlb_reset_dirty (of_nat (host_of rl i a)) 4096 t else t) \<and>
       ram_ok rl' \<and> blocks_ok rl' \<and> dirty_pages rl' = dirty_pages rl - {a div 4096}"
    by (auto simp: blocks_ok_def ram_ok_def dirty_pages_def)
qed

definition demo_ram :: RAMList where
  "demo_ram = \<lparr>dirty_code = [bitmap_new BS], rblocks = [\<lparr>host = 0x10000000, rb_offset = 0, max_length = 0x100000\<rparr>], mru = None\<rparr>"

lemma demo_ram_ok: "ram_ok demo_ram" "blocks_ok demo_ram" "dirty_pages demo_ram = {}"
proof -
  have len: "length (bitmap_new BS) = 32768" by (simp add: bitmap_new_def BITS_TO_LONGS_def DIRTY_MEMORY_BLOCK_SIZE_def)
  then show "ram_ok demo_ram" by (simp add: ram_ok_def dirty_map_ok_def demo_ram_def DIRTY_MEMORY_BLOCK_SIZE_def)
  show "blocks_ok demo_ram" by (simp add: blocks_ok_def block_ok_def demo_ram_def)
  have "\<not> tb (bitmap_new BS) k" for k
    by (auto simp: tb_def word_index bitmap_new_def)
  then have "n div BS = 0 \<Longrightarrow> \<not> tb ([bitmap_new BS] ! (n div BS)) (n mod BS)" for n by simp
  then show "dirty_pages demo_ram = {}" by (auto simp: dirty_pages_def demo_ram_def bit_at_def)
qed

theorem dirty_map_is_page_set_witness:
  "\<exists>rl'. cpu_physical_memory_set_dirty_range 0x1800 0x2000 (BIT DIRTY_MEMORY_CODE) demo_ram = Inr rl' \<and> dirty_pages rl' = {1, 2, 3}"
proof -
  have "covered 0x1800 0x2000 demo_ram" "ram_page demo_ram 0 0x2000"
    by (simp_all add: covered_def end_page_def ram_page_def demo_ram_def DIRTY_MEMORY_BLOCK_SIZE_def)
  moreover have "pages_of 0x1800 0x2000 = {1, 2, 3}" by (auto simp: pages_of_def first_page_def end_page_def)
  ultimately show ?thesis using dirty_map_is_page_set [of demo_ram "0x1800" "0x2000" 0 "0x2000" demo_reset] demo_ram_ok by auto
qed

end
