(* ===== verification/Qht.thy ===== *)
theory Qht
  imports Soft_Tlb
begin

text \<open>
  The resizable hash table that holds the translated blocks (\<open>util/qht.c\<close>). A bucket has four slots
  and a link to the next bucket; the chain of a head bucket is modelled as the list of its slots,
  four per bucket, so that slot \<open>i\<close> of the \<open>k\<close>-th bucket is element \<open>4 * k + i\<close>. An empty slot holds a
  null pointer and the hash 0. Pointers are numbers. The locks and the sequence counters, which only
  matter to concurrent readers, are left out.
\<close>

section \<open>The table\<close>

definition QHT_BUCKET_ENTRIES :: nat where "QHT_BUCKET_ENTRIES = 4"
definition QHT_NR_ADDED_BUCKETS_THRESHOLD_DIV :: u64 where "QHT_NR_ADDED_BUCKETS_THRESHOLD_DIV = 8"

type_synonym slot = "u32 \<times> nat option"
type_synonym chain = "slot list"

abbreviation empty_slot :: slot where
  "empty_slot \<equiv> (0, None)"

record qht_map =
  buckets :: "chain list"
  n_buckets :: u64
  n_added_buckets :: u64
  n_added_buckets_threshold :: u64

record qht =
  qht_cmp :: "nat \<Rightarrow> nat \<Rightarrow> bool"
  auto_resize :: bool
  qmap :: qht_map

definition qht_elems_to_buckets :: "u64 \<Rightarrow> u64" where
  "qht_elems_to_buckets n_elems = pow2ceil (n_elems div of_nat QHT_BUCKET_ENTRIES)"

definition qht_head_init :: chain where
  "qht_head_init = replicate QHT_BUCKET_ENTRIES empty_slot"

definition bucket_index :: "qht_map \<Rightarrow> u32 \<Rightarrow> nat" where
  "bucket_index m hash = unat (ucast hash AND (n_buckets m - 1))"

definition qht_map_to_bucket :: "qht_map \<Rightarrow> u32 \<Rightarrow> chain" where
  "qht_map_to_bucket m hash = buckets m ! bucket_index m hash"

definition put_bucket :: "u32 \<Rightarrow> chain \<Rightarrow> qht_map \<Rightarrow> qht_map" where
  "put_bucket hash c m = m\<lparr>buckets := (buckets m)[bucket_index m hash := c]\<rparr>"

definition qht_map_needs_resize :: "qht_map \<Rightarrow> bool" where
  "qht_map_needs_resize m \<longleftrightarrow> n_added_buckets m > n_added_buckets_threshold m"

definition qht_map_create :: "u64 \<Rightarrow> qht_map" where
  "qht_map_create n =
     (let th = n div QHT_NR_ADDED_BUCKETS_THRESHOLD_DIV
      in \<lparr>buckets = replicate (unat n) qht_head_init, n_buckets = n, n_added_buckets = 0,
          n_added_buckets_threshold = (if th = 0 then 1 else th)\<rparr>)"

definition qht_init :: "(nat \<Rightarrow> nat \<Rightarrow> bool) \<Rightarrow> u64 \<Rightarrow> bool \<Rightarrow> qht" where
  "qht_init cmp n_elems auto = \<lparr>qht_cmp = cmp, auto_resize = auto, qmap = qht_map_create (qht_elems_to_buckets n_elems)\<rparr>"

section \<open>Look-up\<close>

fun qht_do_lookup :: "(nat \<Rightarrow> bool) \<Rightarrow> u32 \<Rightarrow> chain \<Rightarrow> nat option" where
  "qht_do_lookup func hash [] = None"
| "qht_do_lookup func hash ((h, q) # c) =
     (case q of
        Some p \<Rightarrow> if h = hash \<and> func p then Some p else qht_do_lookup func hash c
      | None \<Rightarrow> qht_do_lookup func hash c)"

definition qht_lookup_custom :: "qht \<Rightarrow> u32 \<Rightarrow> (nat \<Rightarrow> bool) \<Rightarrow> nat option" where
  "qht_lookup_custom ht hash func = qht_do_lookup func hash (qht_map_to_bucket (qmap ht) hash)"

definition qht_lookup :: "qht \<Rightarrow> nat \<Rightarrow> u32 \<Rightarrow> nat option" where
  "qht_lookup ht userp hash = qht_lookup_custom ht hash (\<lambda>p. qht_cmp ht p userp)"

section \<open>Insertion and resizing\<close>

text \<open>The scan for a free slot or an equal element; at the end of the chain a new bucket is added.\<close>

datatype insert_scan = Existing nat | Placed chain | Appended chain

fun qht_scan :: "(nat \<Rightarrow> nat \<Rightarrow> bool) \<Rightarrow> nat \<Rightarrow> u32 \<Rightarrow> chain \<Rightarrow> insert_scan" where
  "qht_scan cmp p hash [] = Appended ((hash, Some p) # replicate (QHT_BUCKET_ENTRIES - 1) empty_slot)"
| "qht_scan cmp p hash ((h, q) # c) =
     (case q of
        Some q' \<Rightarrow>
          if h = hash \<and> cmp q' p then Existing q'
          else (case qht_scan cmp p hash c of
                  Existing e \<Rightarrow> Existing e
                | Placed c' \<Rightarrow> Placed ((h, q) # c')
                | Appended c' \<Rightarrow> Appended ((h, q) # c'))
      | None \<Rightarrow> Placed ((hash, Some p) # c))"

text \<open>The result, the changed map, and whether it has grown past its threshold.\<close>

definition qht_insert__locked :: "(nat \<Rightarrow> nat \<Rightarrow> bool) \<Rightarrow> nat \<Rightarrow> u32 \<Rightarrow> qht_map \<Rightarrow> nat option \<times> qht_map \<times> bool" where
  "qht_insert__locked cmp p hash m =
     (case qht_scan cmp p hash (qht_map_to_bucket m hash) of
        Existing e \<Rightarrow> (Some e, m, False)
      | Placed c \<Rightarrow> (None, put_bucket hash c m, False)
      | Appended c \<Rightarrow>
          let m = (put_bucket hash c m)\<lparr>n_added_buckets := n_added_buckets m + 1\<rparr>
          in (None, m, qht_map_needs_resize m))"

text \<open>The iteration over a chain stops at the first empty slot.\<close>

fun qht_bucket_iter :: "(nat \<Rightarrow> u32 \<Rightarrow> 's \<Rightarrow> 's) \<Rightarrow> chain \<Rightarrow> 's \<Rightarrow> 's" where
  "qht_bucket_iter f [] s = s"
| "qht_bucket_iter f ((h, q) # c) s = (case q of None \<Rightarrow> s | Some p \<Rightarrow> qht_bucket_iter f c (f p h s))"

definition qht_map_iter__all_locked :: "(nat \<Rightarrow> u32 \<Rightarrow> 's \<Rightarrow> 's) \<Rightarrow> qht_map \<Rightarrow> 's \<Rightarrow> 's" where
  "qht_map_iter__all_locked f m s = fold (qht_bucket_iter f) (buckets m) s"

definition qht_iter :: "(nat \<Rightarrow> u32 \<Rightarrow> 's \<Rightarrow> 's) \<Rightarrow> qht \<Rightarrow> 's \<Rightarrow> 's" where
  "qht_iter f ht s = qht_map_iter__all_locked f (qmap ht) s"

definition qht_map_copy :: "(nat \<Rightarrow> nat \<Rightarrow> bool) \<Rightarrow> nat \<Rightarrow> u32 \<Rightarrow> qht_map \<Rightarrow> qht_map" where
  "qht_map_copy cmp p hash new = fst (snd (qht_insert__locked cmp p hash new))"

fun qht_bucket_reset__locked :: "chain \<Rightarrow> chain" where
  "qht_bucket_reset__locked [] = []"
| "qht_bucket_reset__locked ((h, q) # c) = (case q of None \<Rightarrow> (h, q) # c | Some _ \<Rightarrow> empty_slot # qht_bucket_reset__locked c)"

definition qht_map_reset__all_locked :: "qht_map \<Rightarrow> qht_map" where
  "qht_map_reset__all_locked m = m\<lparr>buckets := map qht_bucket_reset__locked (buckets m)\<rparr>"

definition qht_reset :: "qht \<Rightarrow> qht" where
  "qht_reset ht = ht\<lparr>qmap := qht_map_reset__all_locked (qmap ht)\<rparr>"

definition qht_do_resize_reset :: "qht_map option \<Rightarrow> bool \<Rightarrow> qht \<Rightarrow> qht res" where
  "qht_do_resize_reset new reset ht =
     (let old = (if reset then qht_map_reset__all_locked (qmap ht) else qmap ht)
      in case new of
           None \<Rightarrow> Inr (ht\<lparr>qmap := old\<rparr>)
         | Some new \<Rightarrow>
             if n_buckets new = n_buckets old then Inl AssertFail
             else Inr (ht\<lparr>qmap := qht_map_iter__all_locked (qht_map_copy (qht_cmp ht)) old new\<rparr>))"

definition qht_reset_size :: "u64 \<Rightarrow> qht \<Rightarrow> (bool \<times> qht) res" where
  "qht_reset_size n_elems ht =
     (let n = qht_elems_to_buckets n_elems;
          new = (if n \<noteq> n_buckets (qmap ht) then Some (qht_map_create n) else None)
      in res_bind (qht_do_resize_reset new True ht) (\<lambda>ht. Inr (new \<noteq> None, ht)))"

definition qht_resize :: "u64 \<Rightarrow> qht \<Rightarrow> (bool \<times> qht) res" where
  "qht_resize n_elems ht =
     (let n = qht_elems_to_buckets n_elems
      in if n \<noteq> n_buckets (qmap ht) then res_bind (qht_do_resize_reset (Some (qht_map_create n)) False ht) (\<lambda>ht. Inr (True, ht))
         else Inr (False, ht))"

definition qht_grow_maybe :: "qht \<Rightarrow> qht res" where
  "qht_grow_maybe ht =
     (if qht_map_needs_resize (qmap ht) then qht_do_resize_reset (Some (qht_map_create (n_buckets (qmap ht) * 2))) False ht
      else Inr ht)"

text \<open>\<open>None\<close> when the element was inserted, otherwise the equal element found.\<close>

definition qht_insert :: "nat \<Rightarrow> u32 \<Rightarrow> qht \<Rightarrow> (nat option \<times> qht) res" where
  "qht_insert p hash ht =
     (case qht_insert__locked (qht_cmp ht) p hash (qmap ht) of (prev, m, needs_resize) \<Rightarrow>
        let ht = ht\<lparr>qmap := m\<rparr>
        in if needs_resize \<and> auto_resize ht then res_bind (qht_grow_maybe ht) (\<lambda>ht. Inr (prev, ht))
           else Inr (prev, ht))"

section \<open>Removal\<close>

text \<open>Position \<open>pos\<close> of the chain: the next slot is empty or there is none.\<close>

definition qht_entry_is_last :: "chain \<Rightarrow> nat \<Rightarrow> bool" where
  "qht_entry_is_last c pos \<longleftrightarrow> (if Suc pos < length c then snd (c ! Suc pos) = None else True)"

definition qht_entry_move :: "nat \<Rightarrow> nat \<Rightarrow> chain \<Rightarrow> chain" where
  "qht_entry_move to from c = c[to := c ! from, from := empty_slot]"

text \<open>The first empty slot from position \<open>k\<close> on, or the length of the chain.\<close>

function first_empty :: "chain \<Rightarrow> nat \<Rightarrow> nat" where
  "first_empty c k = (if k < length c \<and> snd (c ! k) \<noteq> None then first_empty c (Suc k) else k)"
  by pat_completeness auto
termination by (relation "measure (\<lambda>(c, k). length c - k)") auto

declare first_empty.simps [simp del]

text \<open>The search starts with the first slot of the bucket of the entry.\<close>

definition qht_bucket_remove_entry :: "nat \<Rightarrow> chain \<Rightarrow> chain" where
  "qht_bucket_remove_entry pos c =
     (if qht_entry_is_last c pos then c[pos := empty_slot]
      else qht_entry_move pos (first_empty c (pos - pos mod QHT_BUCKET_ENTRIES) - 1) c)"

fun qht_find :: "nat \<Rightarrow> chain \<Rightarrow> nat \<Rightarrow> nat option" where
  "qht_find p [] k = None"
| "qht_find p ((h, q) # c) k = (case q of None \<Rightarrow> None | Some q \<Rightarrow> if q = p then Some k else qht_find p c (Suc k))"

definition qht_remove :: "nat \<Rightarrow> u32 \<Rightarrow> qht \<Rightarrow> bool \<times> qht" where
  "qht_remove p hash ht =
     (let c = qht_map_to_bucket (qmap ht) hash
      in case qht_find p c 0 of
           None \<Rightarrow> (False, ht)
         | Some pos \<Rightarrow> (True, ht\<lparr>qmap := put_bucket hash (qht_bucket_remove_entry pos c) (qmap ht)\<rparr>))"

end
