(* ===== verification/Qht_Set.thy ===== *)
theory Qht_Set
  imports Qht Tlb_Cache
begin

text \<open>
  The hash table as a set of elements: what it holds, that every operation keeps its invariant and
  has the effect its interface promises, whatever resizing happens on the way.
\<close>

section \<open>Chains as lists of elements\<close>

definition full :: "u32 \<times> nat \<Rightarrow> slot" where
  "full x = (fst x, Some (snd x))"

definition repr :: "chain \<Rightarrow> (u32 \<times> nat) list \<Rightarrow> bool" where
  "repr c xs \<longleftrightarrow> (\<exists>m. c = map full xs @ replicate m empty_slot)"

lemma reprI: "c = map full xs @ replicate m empty_slot \<Longrightarrow> repr c xs"
  by (auto simp: repr_def)

definition elems_of :: "chain \<Rightarrow> (u32 \<times> nat) list" where
  "elems_of c = map (\<lambda>(h, q). (h, the q)) (takeWhile (\<lambda>(h, q). q \<noteq> None) c)"

lemma repr_elems: "repr c xs \<Longrightarrow> elems_of c = xs"
  by (auto simp: repr_def elems_of_def full_def takeWhile_map comp_def takeWhile_append)

definition chain_ok :: "chain \<Rightarrow> bool" where
  "chain_ok c \<longleftrightarrow> repr c (elems_of c)"

lemma chain_okI: "repr c xs \<Longrightarrow> chain_ok c"
  by (simp add: chain_ok_def repr_elems)

lemma repr_head_init: "repr qht_head_init []"
  by (auto simp: repr_def qht_head_init_def)

lemma lookup_repr:
  assumes "repr c xs"
  shows "qht_do_lookup f hash c = map_option snd (find (\<lambda>(h, p). h = hash \<and> f p) xs)"
proof -
  have "qht_do_lookup f hash (replicate m empty_slot) = None" for m by (induction m) auto
  then have "qht_do_lookup f hash (map full xs @ replicate m empty_slot) = map_option snd (find (\<lambda>(h, p). h = hash \<and> f p) xs)" for m
    by (induction xs) (auto simp: full_def)
  then show ?thesis using assms by (auto simp: repr_def)
qed

text \<open>The scan finds the first equal element or adds one at the end.\<close>

lemma scan_repr:
  assumes "repr c xs"
  shows "case qht_scan cmp p hash c of
      Existing e \<Rightarrow> (hash, e) \<in> set xs \<and> cmp e p
    | Placed c' \<Rightarrow> (\<forall>q. (hash, q) \<in> set xs \<longrightarrow> \<not> cmp q p) \<and> repr c' (xs @ [(hash, p)])
    | Appended c' \<Rightarrow> (\<forall>q. (hash, q) \<in> set xs \<longrightarrow> \<not> cmp q p) \<and> repr c' (xs @ [(hash, p)])"
proof -
  obtain m where c: "c = map full xs @ replicate m empty_slot" using assms by (auto simp: repr_def)
  show ?thesis unfolding c
  proof (induction xs)
    case Nil
    show ?case
      by (cases m) (auto simp: repr_def full_def intro: exI [of _ "QHT_BUCKET_ENTRIES - 1"])
  next
    case (Cons x xs)
    obtain h q where x: "x = (h, q)" by (cases x)
    have shift: "repr c' (xs @ [(hash, p)]) \<Longrightarrow> repr ((h, Some q) # c') (x # xs @ [(hash, p)])" for c'
      by (auto simp: repr_def x full_def)
    show ?case using Cons.IH
      by (auto simp: x full_def split: insert_scan.splits if_splits intro: shift [unfolded x full_def])
  qed
qed

section \<open>Removal from a chain\<close>

lemma find_repr:
  assumes "repr c xs"
  shows "qht_find p c k = (if p \<in> snd ` set xs then Some (k + length (takeWhile (\<lambda>x. snd x \<noteq> p) xs)) else None)"
proof -
  obtain m where c: "c = map full xs @ replicate m empty_slot" using assms by (auto simp: repr_def)
  have "qht_find p (replicate m empty_slot) k = None" for k by (cases m) auto
  then show ?thesis unfolding c by (induction xs arbitrary: k) (auto simp: full_def)
qed

lemma first_empty_repr:
  assumes "repr c xs" and "k \<le> length xs"
  shows "first_empty c k = length xs"
  using assms(2)
proof (induction "length xs - k" arbitrary: k)
  case 0
  then have "k = length xs" by simp
  then show ?case using assms(1) by (subst first_empty.simps) (auto simp: repr_def nth_append)
next
  case (Suc n)
  then have "k < length xs" by simp
  moreover from this have "k < length c \<and> snd (c ! k) \<noteq> None" using assms(1) by (auto simp: repr_def nth_append full_def)
  ultimately show ?case using Suc by (subst first_empty.simps) simp
qed

definition swap_remove :: "nat \<Rightarrow> 'a list \<Rightarrow> 'a list" where
  "swap_remove pos xs = butlast (xs[pos := last xs])"

lemma remove_repr:
  assumes r: "repr c xs" and pos: "pos < length xs"
  shows "repr (qht_bucket_remove_entry pos c) (swap_remove pos xs)"
proof -
  obtain m where c: "c = map full xs @ replicate m empty_slot" using r by (auto simp: repr_def)
  obtain ys y where xs: "xs = ys @ [y]" using pos by (cases xs rule: rev_cases) auto
  show ?thesis
  proof (cases "pos = length ys")
    case True
    have "qht_entry_is_last c pos" by (auto simp: qht_entry_is_last_def c xs True nth_append)
    then have "qht_bucket_remove_entry pos c = map full ys @ replicate (Suc m) empty_slot"
      by (simp add: qht_bucket_remove_entry_def c xs True list_update_append replicate_append_same)
    moreover have "swap_remove pos xs = ys" by (simp add: swap_remove_def xs True)
    ultimately show ?thesis by (metis reprI)
  next
    case False
    then have p: "pos < length ys" using pos xs by simp
    have "\<not> qht_entry_is_last c pos" using p by (auto simp: qht_entry_is_last_def c xs nth_append full_def)
    moreover have "first_empty c (pos - pos mod QHT_BUCKET_ENTRIES) = length xs" using p xs by (intro first_empty_repr [OF r]) simp
    ultimately have "qht_bucket_remove_entry pos c = qht_entry_move pos (length ys) c" by (simp add: qht_bucket_remove_entry_def xs)
    also have "\<dots> = map full (ys[pos := y]) @ replicate (Suc m) empty_slot"
      using p by (simp add: qht_entry_move_def c xs list_update_append nth_append map_update replicate_append_same)
    finally have "repr (qht_bucket_remove_entry pos c) (ys[pos := y])" by (rule reprI)
    moreover have "swap_remove pos xs = ys[pos := y]" using p by (simp add: swap_remove_def xs list_update_append butlast_append)
    ultimately show ?thesis by simp
  qed
qed

lemma set_swap_remove:
  assumes "pos < length xs" and "distinct xs"
  shows "set (swap_remove pos xs) = set xs - {xs ! pos}" and "distinct (swap_remove pos xs)"
proof -
  obtain ys y where xs: "xs = ys @ [y]" using assms(1) by (cases xs rule: rev_cases) auto
  have "set (swap_remove pos xs) = set xs - {xs ! pos} \<and> distinct (swap_remove pos xs)"
  proof (cases "pos = length ys")
    case True
    then show ?thesis using assms(2) by (auto simp: swap_remove_def xs)
  next
    case False
    then have p: "pos < length ys" using assms(1) xs by simp
    then have "swap_remove pos xs = ys[pos := y]" by (simp add: swap_remove_def xs list_update_append butlast_append)
    moreover have "set (ys[pos := y]) = insert y (set ys - {ys ! pos})"
      using p assms(2) xs by (intro set_update_distinct) auto
    ultimately show ?thesis using p assms(2) by (auto simp: xs nth_append distinct_list_update)
  qed
  then show "set (swap_remove pos xs) = set xs - {xs ! pos}" and "distinct (swap_remove pos xs)" by auto
qed

section \<open>The table as a set\<close>

definition chain_elems :: "qht_map \<Rightarrow> nat \<Rightarrow> (u32 \<times> nat) list" where
  "chain_elems m i = elems_of (buckets m ! i)"

definition map_elems :: "qht_map \<Rightarrow> (u32 \<times> nat) set" where
  "map_elems m = (\<Union>c \<in> set (buckets m). set (elems_of c))"

definition map_ok :: "qht_map \<Rightarrow> bool" where
  "map_ok m \<longleftrightarrow> (\<exists>k < 64. n_buckets m = 2 ^ k) \<and> length (buckets m) = unat (n_buckets m) \<and>
     (\<forall>i < length (buckets m). chain_ok (buckets m ! i) \<and> distinct (chain_elems m i) \<and> (\<forall>(h, p) \<in> set (chain_elems m i). bucket_index m h = i))"

lemma bucket_index_less: "map_ok m \<Longrightarrow> bucket_index m h < length (buckets m)"
proof -
  assume "map_ok m"
  then obtain k where k: "k < 64" "n_buckets m = 2 ^ k" "length (buckets m) = unat (n_buckets m)" by (auto simp: map_ok_def)
  have "bucket_index m h = unat (take_bit k (ucast h :: u64))"
    by (simp add: bucket_index_def k(2) take_bit_eq_mask mask_eq_exp_minus_1)
  also have "\<dots> < 2 ^ k" using k(1) by (simp add: unsigned_take_bit_eq)
  finally show ?thesis using k by (simp add: unat_u64_power)
qed

lemma map_ok_bucket:
  assumes "map_ok m"
  shows "repr (qht_map_to_bucket m h) (chain_elems m (bucket_index m h))"
  using assms bucket_index_less [OF assms, of h] by (auto simp: map_ok_def qht_map_to_bucket_def chain_ok_def chain_elems_def)

lemma map_elems_chain:
  assumes "map_ok m"
  shows "(h, p) \<in> map_elems m \<longleftrightarrow> (h, p) \<in> set (chain_elems m (bucket_index m h))"
proof
  assume "(h, p) \<in> map_elems m"
  then obtain c where "c \<in> set (buckets m)" "(h, p) \<in> set (elems_of c)" by (auto simp: map_elems_def)
  then obtain i where "i < length (buckets m)" "(h, p) \<in> set (chain_elems m i)"
    unfolding chain_elems_def by (metis in_set_conv_nth)
  then show "(h, p) \<in> set (chain_elems m (bucket_index m h))" using assms by (auto simp: map_ok_def)
next
  assume "(h, p) \<in> set (chain_elems m (bucket_index m h))"
  then show "(h, p) \<in> map_elems m" using bucket_index_less [OF assms, of h] by (auto simp: map_elems_def chain_elems_def)
qed

text \<open>Replacing the chain of a hash.\<close>

lemma put_bucket_ok:
  assumes m: "map_ok m" and r: "repr c xs" and d: "distinct xs" and h: "\<forall>(h', p) \<in> set xs. bucket_index m h' = bucket_index m h"
  shows "map_ok (put_bucket h c m)"
    and "map_elems (put_bucket h c m) = {(h', p) \<in> map_elems m. bucket_index m h' \<noteq> bucket_index m h} \<union> set xs"
proof -
  let ?i = "bucket_index m h" and ?m = "put_bucket h c m"
  have il: "?i < length (buckets m)" by (rule bucket_index_less [OF m])
  have idx: "bucket_index ?m = bucket_index m" by (simp add: bucket_index_def put_bucket_def fun_eq_iff)
  have ce: "chain_elems ?m i = (if i = ?i then xs else chain_elems m i)" if "i < length (buckets m)" for i
    using that repr_elems [OF r] by (auto simp: chain_elems_def put_bucket_def)
  show ok: "map_ok ?m"
  proof -
    have fields: "n_buckets ?m = n_buckets m" "length (buckets ?m) = length (buckets m)" by (simp_all add: put_bucket_def)
    have "chain_ok (buckets ?m ! i) \<and> distinct (chain_elems ?m i) \<and> (\<forall>(h, p) \<in> set (chain_elems ?m i). bucket_index m h = i)"
      if i: "i < length (buckets m)" for i
    proof (cases "i = ?i")
      case True
      then show ?thesis using ce [OF i] d h il chain_okI [OF r] by (simp add: put_bucket_def)
    next
      case False
      then show ?thesis using ce [OF i] m i by (simp add: put_bucket_def map_ok_def)
    qed
    then show ?thesis using m unfolding map_ok_def idx fields by blast
  qed
  have "x \<in> map_elems ?m \<longleftrightarrow> x \<in> {(h', p) \<in> map_elems m. bucket_index m h' \<noteq> ?i} \<union> set xs" for x
  proof (cases x)
    case (Pair h' p)
    have "x \<in> map_elems ?m \<longleftrightarrow> (h', p) \<in> set (chain_elems ?m (bucket_index m h'))"
      using map_elems_chain [OF ok, of h' p] by (simp add: Pair idx)
    also have "\<dots> \<longleftrightarrow> (h', p) \<in> set (if bucket_index m h' = ?i then xs else chain_elems m (bucket_index m h'))"
      using ce bucket_index_less [OF m, of h'] by simp
    finally show ?thesis using map_elems_chain [OF m, of h' p] h by (auto simp: Pair)
  qed
  then show "map_elems ?m = {(h', p) \<in> map_elems m. bucket_index m h' \<noteq> ?i} \<union> set xs" by blast
qed

section \<open>Operations on the map\<close>

lemma map_ok_added [simp]: "map_ok (m\<lparr>n_added_buckets := n\<rparr>) = map_ok m" and map_elems_added [simp]: "map_elems (m\<lparr>n_added_buckets := n\<rparr>) = map_elems m"
  by (simp_all add: map_ok_def map_elems_def chain_elems_def bucket_index_def)

lemma insert_locked_spec:
  assumes m: "map_ok m" and r: "qht_insert__locked cmp p h m = (e, m', b)"
  shows "case e of
      Some q \<Rightarrow> (h, q) \<in> map_elems m \<and> cmp q p \<and> m' = m
    | None \<Rightarrow> (\<forall>q. (h, q) \<in> map_elems m \<longrightarrow> \<not> cmp q p) \<and> ((h, p) \<notin> map_elems m \<longrightarrow> map_ok m' \<and> map_elems m' = insert (h, p) (map_elems m) \<and> n_buckets m' = n_buckets m)"
proof -
  let ?c = "qht_map_to_bucket m h" and ?xs = "chain_elems m (bucket_index m h)"
  have rc: "repr ?c ?xs" by (rule map_ok_bucket [OF m])
  have il: "bucket_index m h < length (buckets m)" by (rule bucket_index_less [OF m])
  note sc = scan_repr [OF rc, where cmp = cmp and p = p and hash = h]
  have mem: "(h, q) \<in> map_elems m \<longleftrightarrow> (h, q) \<in> set ?xs" for q by (rule map_elems_chain [OF m])
  have put: "map_ok (put_bucket h c m) \<and> map_elems (put_bucket h c m) = insert (h, p) (map_elems m)"
    if c: "repr c (?xs @ [(h, p)])" and new: "(h, p) \<notin> map_elems m" for c
  proof -
    have d: "distinct (?xs @ [(h, p)])" using m il new mem by (auto simp: map_ok_def)
    have hx: "\<forall>(h', q) \<in> set (?xs @ [(h, p)]). bucket_index m h' = bucket_index m h" using m il by (auto simp: map_ok_def)
    have "{(h', q) \<in> map_elems m. bucket_index m h' \<noteq> bucket_index m h} \<union> set ?xs = map_elems m"
    proof (intro set_eqI)
      fix x :: "u32 \<times> nat"
      obtain h' q where x: "x = (h', q)" by (cases x)
      show "x \<in> {(h', q) \<in> map_elems m. bucket_index m h' \<noteq> bucket_index m h} \<union> set ?xs \<longleftrightarrow> x \<in> map_elems m"
        using map_elems_chain [OF m, of h' q] hx by (auto simp: x)
    qed
    then show ?thesis using put_bucket_ok [OF m c d hx] by auto
  qed
  have nb: "n_buckets (put_bucket h c m) = n_buckets m" for c by (simp add: put_bucket_def)
  show ?thesis
  proof (cases "qht_scan cmp p h ?c")
    case (Existing q)
    then show ?thesis using r sc mem by (auto simp: qht_insert__locked_def)
  next
    case (Placed c)
    then show ?thesis using r sc put [of c] mem by (auto simp: qht_insert__locked_def nb)
  next
    case (Appended c)
    then show ?thesis using r sc put [of c] mem by (auto simp: qht_insert__locked_def Let_def nb)
  qed
qed

lemma map_create_ok:
  assumes "k < 64" and "n = 2 ^ k"
  shows "map_ok (qht_map_create n)" and "map_elems (qht_map_create n) = {}" and "n_buckets (qht_map_create n) = n"
proof -
  have e: "elems_of qht_head_init = []" using repr_elems [OF repr_head_init] .
  show "map_ok (qht_map_create n)"
    using assms chain_okI [OF repr_head_init] by (auto simp: map_ok_def qht_map_create_def Let_def chain_elems_def e)
  show "map_elems (qht_map_create n) = {}" by (auto simp: map_elems_def qht_map_create_def Let_def e)
  show "n_buckets (qht_map_create n) = n" by (simp add: qht_map_create_def Let_def)
qed

lemma takeWhile_stops: "y \<in> set xs \<Longrightarrow> \<not> P y \<Longrightarrow> length (takeWhile P xs) < length xs"
  by (induction xs) auto

text \<open>Copying the elements of a map into another, when no two of them are equal.\<close>

lemma copy_spec:
  assumes "map_ok new" and "distinct xs" and "set xs \<inter> map_elems new = {}"
    and "\<forall>(h, p) \<in> set xs \<union> map_elems new. \<forall>(h', q) \<in> set xs \<union> map_elems new. h = h' \<longrightarrow> cmp p q \<longrightarrow> p = q"
  shows "let r = fold (\<lambda>(h, p). qht_map_copy cmp p h) xs new in map_ok r \<and> map_elems r = set xs \<union> map_elems new \<and> n_buckets r = n_buckets new"
  using assms
proof (induction xs arbitrary: new)
  case Nil
  then show ?case by simp
next
  case (Cons x xs)
  obtain h p where x: "x = (h, p)" by (cases x)
  obtain e m' b where r: "qht_insert__locked cmp p h new = (e, m', b)" by (metis prod_cases3)
  have fresh: "(h, p) \<notin> map_elems new" using Cons.prems(3) x by auto
  have ncmp: "\<not> cmp q p" if "(h, q) \<in> map_elems new" for q
  proof
    assume "cmp q p"
    then have "q = p" using Cons.prems(4) that by (fastforce simp: x)
    then show False using fresh that by simp
  qed
  have e: "e = None" using insert_locked_spec [OF Cons.prems(1) r] ncmp by (auto split: option.splits)
  then have m': "map_ok m'" "map_elems m' = insert (h, p) (map_elems new)" "n_buckets m' = n_buckets new"
    using insert_locked_spec [OF Cons.prems(1) r] fresh by auto
  have cp: "qht_map_copy cmp p h new = m'" by (simp add: qht_map_copy_def r)
  have "let r = fold (\<lambda>(h, p). qht_map_copy cmp p h) xs m' in map_ok r \<and> map_elems r = set xs \<union> map_elems m' \<and> n_buckets r = n_buckets m'"
  proof (rule Cons.IH [OF m'(1)])
    show "distinct xs" using Cons.prems(2) by simp
    show "set xs \<inter> map_elems m' = {}" using Cons.prems(2,3) by (auto simp: m'(2) x)
    show "\<forall>(h, p) \<in> set xs \<union> map_elems m'. \<forall>(h', q) \<in> set xs \<union> map_elems m'. h = h' \<longrightarrow> cmp p q \<longrightarrow> p = q"
      using Cons.prems(4) by (simp add: m'(2) x)
  qed
  then show ?case by (simp add: x cp m'(2,3) Let_def)
qed

lemma bucket_iter_repr:
  assumes "chain_ok c"
  shows "qht_bucket_iter f c s = fold (\<lambda>(h, p). f p h) (elems_of c) s"
proof -
  obtain m where c: "c = map full (elems_of c) @ replicate m empty_slot" using assms by (auto simp: chain_ok_def repr_def)
  have "qht_bucket_iter f (replicate m empty_slot) s = s" for s by (cases m) auto
  then have "qht_bucket_iter f (map full xs @ replicate m empty_slot) s = fold (\<lambda>(h, p). f p h) xs s" for xs
    by (induction xs arbitrary: s) (auto simp: full_def)
  then show ?thesis using c by metis
qed

definition all_elems :: "qht_map \<Rightarrow> (u32 \<times> nat) list" where
  "all_elems m = concat (map elems_of (buckets m))"

lemma set_all_elems: "set (all_elems m) = map_elems m"
  by (auto simp: all_elems_def map_elems_def)

lemma map_iter_all:
  assumes "map_ok m"
  shows "qht_map_iter__all_locked f m s = fold (\<lambda>(h, p). f p h) (all_elems m) s"
proof -
  have "\<forall>c \<in> set (buckets m). chain_ok c" using assms by (auto simp: map_ok_def in_set_conv_nth)
  moreover have "\<forall>c \<in> set cs. chain_ok c \<Longrightarrow> fold (qht_bucket_iter f) cs s = fold (\<lambda>(h, p). f p h) (concat (map elems_of cs)) s" for cs
    by (induction cs arbitrary: s) (auto simp: bucket_iter_repr)
  ultimately show ?thesis by (simp add: qht_map_iter__all_locked_def all_elems_def)
qed

lemma distinct_all_elems:
  assumes "map_ok m"
  shows "distinct (all_elems m)"
proof -
  have d: "distinct (elems_of (buckets m ! i))" and hb: "(h, p) \<in> set (elems_of (buckets m ! i)) \<Longrightarrow> bucket_index m h = i" if "i < length (buckets m)" for i h p
    using assms that by (auto simp: map_ok_def chain_elems_def)
  have "distinct (concat (map elems_of (map (\<lambda>i. buckets m ! i) is)))" if "distinct is" "\<forall>i \<in> set is. i < length (buckets m)" for "is"
    using that
  proof (induction "is")
    case (Cons i js)
    have "set (elems_of (buckets m ! i)) \<inter> set (elems_of (buckets m ! j)) = {}" if "j \<in> set js" for j
      using hb [of i] hb [of j] that Cons.prems by fastforce
    then show ?case using Cons d [of i] by auto
  qed simp
  from this [of "[0..<length (buckets m)]"] show ?thesis by (simp add: all_elems_def map_nth)
qed

lemma bucket_reset_ok:
  assumes "chain_ok c"
  shows "repr (qht_bucket_reset__locked c) []"
proof -
  obtain m where c: "c = map full (elems_of c) @ replicate m empty_slot" using assms by (auto simp: chain_ok_def repr_def)
  have "qht_bucket_reset__locked (replicate m empty_slot) = replicate m empty_slot" by (cases m) auto
  then have "qht_bucket_reset__locked (map full xs @ replicate m empty_slot) = replicate (length xs + m) empty_slot" for xs
    by (induction xs) (auto simp: full_def)
  then have "qht_bucket_reset__locked c = replicate (length (elems_of c) + m) empty_slot" using c by metis
  then show ?thesis by (intro reprI [where m = "length (elems_of c) + m"]) simp
qed

lemma map_reset_ok:
  assumes "map_ok m"
  shows "map_ok (qht_map_reset__all_locked m)" and "map_elems (qht_map_reset__all_locked m) = {}" and "n_buckets (qht_map_reset__all_locked m) = n_buckets m"
proof -
  have r: "repr (qht_bucket_reset__locked c) []" if "c \<in> set (buckets m)" for c
    using assms that by (intro bucket_reset_ok) (auto simp: map_ok_def in_set_conv_nth)
  then have e: "c \<in> set (buckets m) \<Longrightarrow> elems_of (qht_bucket_reset__locked c) = []" "c \<in> set (buckets m) \<Longrightarrow> chain_ok (qht_bucket_reset__locked c)" for c
    by (auto intro: repr_elems chain_okI)
  then show "map_ok (qht_map_reset__all_locked m)" using assms by (auto simp: map_ok_def qht_map_reset__all_locked_def chain_elems_def)
  show "map_elems (qht_map_reset__all_locked m) = {}" using e by (auto simp: map_elems_def qht_map_reset__all_locked_def)
  show "n_buckets (qht_map_reset__all_locked m) = n_buckets m" by (simp add: qht_map_reset__all_locked_def)
qed

section \<open>The invariant of the table and the effect of its operations\<close>

text \<open>Elements that compare equal and have the same hash are the same element.\<close>

definition apart_by :: "(nat \<Rightarrow> nat \<Rightarrow> bool) \<Rightarrow> (u32 \<times> nat) set \<Rightarrow> bool" where
  "apart_by cmp X \<longleftrightarrow> (\<forall>(h, p) \<in> X. \<forall>(h', q) \<in> X. h = h' \<longrightarrow> cmp p q \<longrightarrow> p = q)"

lemma apart_by_subset: "apart_by cmp X \<Longrightarrow> Y \<subseteq> X \<Longrightarrow> apart_by cmp Y"
  unfolding apart_by_def by blast

definition qht_inv :: "qht \<Rightarrow> bool" where
  "qht_inv t \<longleftrightarrow> map_ok (qmap t) \<and> apart_by (qht_cmp t) (map_elems (qmap t))"

definition qht_elems :: "qht \<Rightarrow> (u32 \<times> nat) set" where
  "qht_elems t = map_elems (qmap t)"

lemma resize_reset_spec:
  assumes t: "qht_inv t" and k: "k < 64" "n = 2 ^ k" "n \<noteq> n_buckets (qmap t)"
  shows "\<exists>t'. qht_do_resize_reset (Some (qht_map_create n)) reset t = Inr t' \<and> qht_inv t' \<and> qht_cmp t' = qht_cmp t \<and> auto_resize t' = auto_resize t \<and>
     qht_elems t' = (if reset then {} else qht_elems t) \<and> n_buckets (qmap t') = n"
proof -
  define old where "old = (if reset then qht_map_reset__all_locked (qmap t) else qmap t)"
  have ok: "map_ok old" and el: "map_elems old = (if reset then {} else qht_elems t)" and nb: "n_buckets old = n_buckets (qmap t)"
    using t map_reset_ok [of "qmap t"] by (auto simp: old_def qht_inv_def qht_elems_def)
  have sub: "map_elems old \<subseteq> qht_elems t" by (simp add: el)
  define r where "r = fold (\<lambda>(h, p). qht_map_copy (qht_cmp t) p h) (all_elems old) (qht_map_create n)"
  have "let r = fold (\<lambda>(h, p). qht_map_copy (qht_cmp t) p h) (all_elems old) (qht_map_create n)
     in map_ok r \<and> map_elems r = set (all_elems old) \<union> map_elems (qht_map_create n) \<and> n_buckets r = n_buckets (qht_map_create n)"
  proof (rule copy_spec)
    show "map_ok (qht_map_create n)" by (rule map_create_ok(1) [OF k(1,2)])
    show "distinct (all_elems old)" by (rule distinct_all_elems [OF ok])
    show "set (all_elems old) \<inter> map_elems (qht_map_create n) = {}" by (simp add: map_create_ok(2) [OF k(1,2)])
    show "\<forall>(h, p) \<in> set (all_elems old) \<union> map_elems (qht_map_create n). \<forall>(h', q) \<in> set (all_elems old) \<union> map_elems (qht_map_create n).
        h = h' \<longrightarrow> qht_cmp t p q \<longrightarrow> p = q"
      using apart_by_subset [OF _ sub, of "qht_cmp t"] t
      by (simp add: map_create_ok(2) [OF k(1,2)] set_all_elems qht_inv_def apart_by_def qht_elems_def)
  qed
  then have r: "map_ok r" "map_elems r = map_elems old" "n_buckets r = n"
    by (simp_all add: r_def Let_def set_all_elems map_create_ok(2,3) [OF k(1,2)])
  have "qht_do_resize_reset (Some (qht_map_create n)) reset t = Inr (t\<lparr>qmap := r\<rparr>)"
    using k(3) by (simp add: qht_do_resize_reset_def Let_def old_def [symmetric] map_create_ok(3) [OF k(1,2)] nb map_iter_all [OF ok] r_def)
  moreover have "qht_inv (t\<lparr>qmap := r\<rparr>)" using t r apart_by_subset [OF _ sub, of "qht_cmp t"] by (simp add: qht_inv_def qht_elems_def)
  ultimately show ?thesis using r el by (auto simp: qht_elems_def)
qed

lemma qht_insert_spec:
  assumes t: "qht_inv t" and small: "n_buckets (qmap t) \<le> 2 ^ 40" and fresh: "(h, p) \<notin> qht_elems t"
    and sym: "\<forall>q. (h, q) \<in> qht_elems t \<longrightarrow> qht_cmp t p q = qht_cmp t q p"
  shows "\<exists>e t'. qht_insert p h t = Inr (e, t') \<and> qht_inv t' \<and> qht_cmp t' = qht_cmp t \<and>
    (case e of Some q \<Rightarrow> (h, q) \<in> qht_elems t \<and> qht_cmp t q p \<and> qht_elems t' = qht_elems t
     | None \<Rightarrow> (\<forall>q. (h, q) \<in> qht_elems t \<longrightarrow> \<not> qht_cmp t q p) \<and> qht_elems t' = insert (h, p) (qht_elems t))"
proof -
  obtain e m' b where r: "qht_insert__locked (qht_cmp t) p h (qmap t) = (e, m', b)" by (metis prod_cases3)
  have ok: "map_ok (qmap t)" using t by (simp add: qht_inv_def)
  note sp = insert_locked_spec [OF ok r]
  show ?thesis
  proof (cases e)
    case (Some q)
    then have "m' = qmap t" using sp by simp
    moreover have "b = False" using r Some by (auto simp: qht_insert__locked_def Let_def split: insert_scan.splits)
    ultimately show ?thesis using sp t Some r by (auto simp: qht_insert_def qht_elems_def)
  next
    case None
    then have no: "\<forall>q. (h, q) \<in> qht_elems t \<longrightarrow> \<not> qht_cmp t q p" and m': "map_ok m'" "map_elems m' = insert (h, p) (qht_elems t)" "n_buckets m' = n_buckets (qmap t)"
      using sp fresh by (auto simp: qht_elems_def)
    let ?t = "t\<lparr>qmap := m'\<rparr>"
    have inv: "qht_inv ?t" using t m' no sym by (auto simp: qht_inv_def apart_by_def qht_elems_def)
    have el: "qht_elems ?t = insert (h, p) (qht_elems t)" by (simp add: qht_elems_def m')
    show ?thesis
    proof (cases "b \<and> auto_resize t \<and> qht_map_needs_resize m'")
      case False
      then have "qht_insert p h t = Inr (None, ?t)" by (auto simp: qht_insert_def r None qht_grow_maybe_def Let_def)
      then show ?thesis using inv el no by auto
    next
      case True
      obtain k where k: "k < 64" "n_buckets (qmap t) = 2 ^ k" using ok by (auto simp: map_ok_def)
      have "(2::u64) ^ k \<le> 2 ^ 40" using small k(2) by simp
      then have "k \<le> 40" using u64_power_le [of k 40] k(1) by simp
      then have k1: "Suc k < 64" and ne: "(2::u64) ^ Suc k \<noteq> 2 ^ k"
        using u64_power_le [of "Suc k" k] by auto
      have two: "n_buckets m' * 2 = 2 ^ Suc k" by (simp add: m'(3) k(2) mult.commute)
      obtain t' where t': "qht_do_resize_reset (Some (qht_map_create (n_buckets m' * 2))) False ?t = Inr t'" "qht_inv t'" "qht_cmp t' = qht_cmp t" "qht_elems t' = qht_elems ?t"
        using resize_reset_spec [OF inv k1 two, of False] ne m'(3) k(2) by (auto simp: two)
      then have "qht_insert p h t = Inr (None, t')" using True by (simp add: qht_insert_def r None qht_grow_maybe_def Let_def)
      then show ?thesis using t' el no by auto
    qed
  qed
qed

lemma qht_remove_spec:
  assumes t: "qht_inv t" and hash: "\<forall>(h', q) \<in> qht_elems t. q = p \<longrightarrow> h' = h" and r: "qht_remove p h t = (b, t')"
  shows "b \<longleftrightarrow> (h, p) \<in> qht_elems t" and "qht_inv t'" and "qht_elems t' = qht_elems t - {(h, p)}" and "qht_cmp t' = qht_cmp t"
    and "n_buckets (qmap t') = n_buckets (qmap t)"
proof -
  let ?m = "qmap t"
  have ok: "map_ok ?m" using t by (simp add: qht_inv_def)
  let ?c = "qht_map_to_bucket ?m h" and ?xs = "chain_elems ?m (bucket_index ?m h)"
  have rc: "repr ?c ?xs" by (rule map_ok_bucket [OF ok])
  have il: "bucket_index ?m h < length (buckets ?m)" by (rule bucket_index_less [OF ok])
  have d: "distinct ?xs" and hx: "\<forall>(h', q) \<in> set ?xs. bucket_index ?m h' = bucket_index ?m h" using ok il by (auto simp: map_ok_def)
  have sub: "x \<in> set ?xs \<Longrightarrow> x \<in> map_elems ?m" for x using il by (auto simp: map_elems_def chain_elems_def)
  have mem: "p \<in> snd ` set ?xs \<longleftrightarrow> (h, p) \<in> map_elems ?m"
    using map_elems_chain [OF ok, of h p] hash sub by (force simp: qht_elems_def)
  have all: "b = ((h, p) \<in> qht_elems t) \<and> qht_inv t' \<and> qht_elems t' = qht_elems t - {(h, p)} \<and> qht_cmp t' = qht_cmp t \<and> n_buckets (qmap t') = n_buckets ?m"
  proof (cases "(h, p) \<in> map_elems ?m")
    case False
    then have "b = False" "t' = t" using r mem by (auto simp: qht_remove_def Let_def find_repr [OF rc])
    then show ?thesis using t False by (auto simp: qht_elems_def)
  next
    case True
    define pos where "pos = length (takeWhile (\<lambda>x. snd x \<noteq> p) ?xs)"
    have pos: "pos < length ?xs" and "snd (?xs ! pos) = p"
    proof -
      from True mem obtain y where "y \<in> set ?xs" "\<not> snd y \<noteq> p" by auto
      then show "pos < length ?xs" unfolding pos_def by (rule takeWhile_stops)
      then show "snd (?xs ! pos) = p" using nth_length_takeWhile [of "\<lambda>x. snd x \<noteq> p" ?xs] by (simp add: pos_def)
    qed
    then have at: "?xs ! pos = (h, p)" using hash sub [OF nth_mem [OF pos]] by (cases "?xs ! pos") (auto simp: qht_elems_def)
    have rr: "repr (qht_bucket_remove_entry pos ?c) (swap_remove pos ?xs)" by (rule remove_repr [OF rc pos])
    note sr = set_swap_remove [OF pos d]
    have hx': "\<forall>(h', q) \<in> set (swap_remove pos ?xs). bucket_index ?m h' = bucket_index ?m h" using hx sr(1) by blast
    note pb = put_bucket_ok [OF ok rr sr(2) hx']
    have t': "b = True" "t' = t\<lparr>qmap := put_bucket h (qht_bucket_remove_entry pos ?c) ?m\<rparr>"
      using r True mem by (auto simp: qht_remove_def Let_def find_repr [OF rc] pos_def)
    have el: "map_elems (qmap t') = map_elems ?m - {(h, p)}"
    proof (intro set_eqI)
      fix x :: "u32 \<times> nat"
      obtain h' q where x: "x = (h', q)" by (cases x)
      show "x \<in> map_elems (qmap t') \<longleftrightarrow> x \<in> map_elems ?m - {(h, p)}"
        using map_elems_chain [OF ok, of h' q] hx by (auto simp: t' pb(2) sr(1) at x)
    qed
    then have "qht_inv t'" using t pb(1) by (auto simp: qht_inv_def t' apart_by_def)
    then show ?thesis using t' el True by (auto simp: qht_elems_def put_bucket_def)
  qed
  then show "b \<longleftrightarrow> (h, p) \<in> qht_elems t" "qht_inv t'" "qht_elems t' = qht_elems t - {(h, p)}" "qht_cmp t' = qht_cmp t" "n_buckets (qmap t') = n_buckets ?m" by auto
qed

lemma qht_lookup_spec:
  assumes "qht_inv t"
  shows "case qht_lookup_custom t h f of
      Some p \<Rightarrow> (h, p) \<in> qht_elems t \<and> f p
    | None \<Rightarrow> \<forall>p. (h, p) \<in> qht_elems t \<longrightarrow> \<not> f p"
proof -
  have ok: "map_ok (qmap t)" using assms by (simp add: qht_inv_def)
  have "qht_lookup_custom t h f = map_option snd (find (\<lambda>(h', p). h' = h \<and> f p) (chain_elems (qmap t) (bucket_index (qmap t) h)))"
    unfolding qht_lookup_custom_def by (rule lookup_repr [OF map_ok_bucket [OF ok]])
  then show ?thesis using map_elems_chain [OF ok, of h]
    by (auto simp: qht_elems_def find_None_iff find_Some_iff split: option.splits) (metis nth_mem)+
qed

section \<open>The interface of the table\<close>

lemma option_eqI: "(\<And>p. x = Some p \<longleftrightarrow> y = Some p) \<Longrightarrow> x = y"
  by (cases x; cases y) auto

text \<open>
  A table of elements with hashes: insertion refuses an element that compares equal to a stored one,
  removal takes the element itself, look-up finds an element of the hash that satisfies a test.
\<close>

locale element_table =
  fixes inv :: "'t \<Rightarrow> bool"
    and elems :: "'t \<Rightarrow> (u32 \<times> nat) set"
    and same :: "'t \<Rightarrow> nat \<Rightarrow> nat \<Rightarrow> bool"
    and room :: "'t \<Rightarrow> bool"
    and insert_elem :: "nat \<Rightarrow> u32 \<Rightarrow> 't \<Rightarrow> (nat option \<times> 't) res"
    and remove_elem :: "nat \<Rightarrow> u32 \<Rightarrow> 't \<Rightarrow> bool \<times> 't"
    and find_elem :: "'t \<Rightarrow> u32 \<Rightarrow> (nat \<Rightarrow> bool) \<Rightarrow> nat option"
  assumes insert_law: "\<lbrakk>inv t; room t; (h, p) \<notin> elems t; \<forall>q. (h, q) \<in> elems t \<longrightarrow> same t p q = same t q p\<rbrakk> \<Longrightarrow>
      \<exists>e t'. insert_elem p h t = Inr (e, t') \<and> inv t' \<and> same t' = same t \<and>
        (case e of Some q \<Rightarrow> (h, q) \<in> elems t \<and> same t q p \<and> elems t' = elems t
         | None \<Rightarrow> (\<forall>q. (h, q) \<in> elems t \<longrightarrow> \<not> same t q p) \<and> elems t' = insert (h, p) (elems t))"
    and remove_law: "\<lbrakk>inv t; \<forall>(h', q) \<in> elems t. q = p \<longrightarrow> h' = h; remove_elem p h t = (b, t')\<rbrakk> \<Longrightarrow>
      b = ((h, p) \<in> elems t) \<and> inv t' \<and> elems t' = elems t - {(h, p)} \<and> same t' = same t"
    and find_law: "inv t \<Longrightarrow> (case find_elem t h f of Some p \<Rightarrow> (h, p) \<in> elems t \<and> f p | None \<Rightarrow> \<forall>p. (h, p) \<in> elems t \<longrightarrow> \<not> f p)"
    and same_apart: "\<lbrakk>inv t; (h, p) \<in> elems t; (h, q) \<in> elems t; same t p q\<rbrakk> \<Longrightarrow> p = q"
begin

text \<open>When elements compare by a key that determines the hash, the table is a map from keys.\<close>

definition keyed :: "(nat \<Rightarrow> 'k) \<Rightarrow> ('k \<Rightarrow> u32) \<Rightarrow> 't \<Rightarrow> bool" where
  "keyed key hk t \<longleftrightarrow> inv t \<and> same t = (\<lambda>p q. key p = key q) \<and> (\<forall>(h, p) \<in> elems t. h = hk (key p))"

definition at_key :: "(nat \<Rightarrow> 'k) \<Rightarrow> ('k \<Rightarrow> u32) \<Rightarrow> 't \<Rightarrow> 'k \<Rightarrow> nat option" where
  "at_key key hk t k = find_elem t (hk k) (\<lambda>p. key p = k)"

lemma at_key_iff: "keyed key hk t \<Longrightarrow> at_key key hk t k = Some p \<longleftrightarrow> (hk k, p) \<in> elems t \<and> key p = k"
  using find_law [of t "hk k" "\<lambda>p. key p = k"] same_apart [of t "hk k"]
  by (auto simp: keyed_def at_key_def split: option.splits)

lemma at_key_eqI: "keyed key hk t \<Longrightarrow> (\<And>k p. (hk k, p) \<in> elems t \<and> key p = k \<longleftrightarrow> m k = Some p) \<Longrightarrow> at_key key hk t = m"
  by (rule ext, rule option_eqI) (simp add: at_key_iff)

lemma insert_at_key:
  assumes k: "keyed key hk t" and r: "room t" and new: "(hk (key p), p) \<notin> elems t"
  shows "\<exists>e t'. insert_elem p (hk (key p)) t = Inr (e, t') \<and> keyed key hk t' \<and> e = at_key key hk t (key p) \<and>
     at_key key hk t' = (if e = None then (at_key key hk t)(key p \<mapsto> p) else at_key key hk t)"
proof -
  let ?h = "hk (key p)"
  have i: "inv t" and s: "same t = (\<lambda>p q. key p = key q)" and hs: "\<forall>(h, p) \<in> elems t. h = hk (key p)" using k by (auto simp: keyed_def)
  have sym: "\<forall>q. (?h, q) \<in> elems t \<longrightarrow> same t p q = same t q p" by (auto simp: s)
  obtain e t' where t': "insert_elem p ?h t = Inr (e, t')" "inv t'" "same t' = same t"
    and e: "case e of Some q \<Rightarrow> (?h, q) \<in> elems t \<and> same t q p \<and> elems t' = elems t
         | None \<Rightarrow> (\<forall>q. (?h, q) \<in> elems t \<longrightarrow> \<not> same t q p) \<and> elems t' = insert (?h, p) (elems t)"
    using insert_law [OF i r new sym] by blast
  have k': "keyed key hk t'" using t' e hs s by (auto simp: keyed_def split: option.splits)
  show ?thesis
  proof (cases e)
    case (Some q)
    then have "at_key key hk t (key p) = Some q" using e by (simp add: at_key_iff [OF k] s)
    moreover have "at_key key hk t' = at_key key hk t" using e Some by (intro at_key_eqI [OF k']) (simp add: at_key_iff [OF k])
    ultimately show ?thesis using t' k' Some by auto
  next
    case None
    have no: "\<forall>q. (?h, q) \<in> elems t \<longrightarrow> key q \<noteq> key p" using e None by (simp add: s)
    have "at_key key hk t (key p) = None" by (rule option_eqI) (use no in \<open>auto simp: at_key_iff [OF k]\<close>)
    moreover have "at_key key hk t' = (at_key key hk t)(key p \<mapsto> p)"
      using e None no by (intro at_key_eqI [OF k']) (auto simp: at_key_iff [OF k])
    ultimately show ?thesis using t' k' None by auto
  qed
qed

lemma remove_at_key:
  assumes k: "keyed key hk t" and r: "remove_elem p (hk (key p)) t = (b, t')"
  shows "keyed key hk t'" and "b \<longleftrightarrow> at_key key hk t (key p) = Some p" and "at_key key hk t' = (if b then (at_key key hk t)(key p := None) else at_key key hk t)"
proof -
  let ?h = "hk (key p)"
  have i: "inv t" and s: "same t = (\<lambda>p q. key p = key q)" and hs: "\<forall>(h, p) \<in> elems t. h = hk (key p)" using k by (auto simp: keyed_def)
  have l: "b = ((?h, p) \<in> elems t)" "inv t'" "elems t' = elems t - {(?h, p)}" "same t' = same t"
    using remove_law [OF i _ r] hs by auto
  show k': "keyed key hk t'" using l hs s by (auto simp: keyed_def)
  show b: "b \<longleftrightarrow> at_key key hk t (key p) = Some p" by (simp add: at_key_iff [OF k] l(1))
  have one: "(?h, q) \<in> elems t \<Longrightarrow> (?h, p) \<in> elems t \<Longrightarrow> key q = key p \<Longrightarrow> q = p" for q using same_apart [OF i, of ?h q p] s by simp
  show "at_key key hk t' = (if b then (at_key key hk t)(key p := None) else at_key key hk t)"
    using l one by (intro at_key_eqI [OF k']) (auto simp: at_key_iff [OF k])
qed

end

interpretation qt: element_table qht_inv qht_elems qht_cmp "\<lambda>t. n_buckets (qmap t) \<le> 2 ^ 40" qht_insert qht_remove qht_lookup_custom
proof
  fix t h p
  assume "qht_inv t" "n_buckets (qmap t) \<le> 2 ^ 40" "(h, p) \<notin> qht_elems t" "\<forall>q. (h, q) \<in> qht_elems t \<longrightarrow> qht_cmp t p q = qht_cmp t q p"
  from qht_insert_spec [OF this] show "\<exists>e t'. qht_insert p h t = Inr (e, t') \<and> qht_inv t' \<and> qht_cmp t' = qht_cmp t \<and>
    (case e of None \<Rightarrow> (\<forall>q. (h, q) \<in> qht_elems t \<longrightarrow> \<not> qht_cmp t q p) \<and> qht_elems t' = insert (h, p) (qht_elems t)
     | Some q \<Rightarrow> (h, q) \<in> qht_elems t \<and> qht_cmp t q p \<and> qht_elems t' = qht_elems t)" .
next
  fix t p h b t'
  assume "qht_inv t" "\<forall>(h', q) \<in> qht_elems t. q = p \<longrightarrow> h' = h" "qht_remove p h t = (b, t')"
  from qht_remove_spec [OF this] show "b = ((h, p) \<in> qht_elems t) \<and> qht_inv t' \<and> qht_elems t' = qht_elems t - {(h, p)} \<and> qht_cmp t' = qht_cmp t" by blast
next
  fix t h f
  assume "qht_inv t"
  then show "case qht_lookup_custom t h f of None \<Rightarrow> \<forall>p. (h, p) \<in> qht_elems t \<longrightarrow> \<not> f p | Some p \<Rightarrow> (h, p) \<in> qht_elems t \<and> f p"
    by (rule qht_lookup_spec)
next
  fix t h p q
  assume "qht_inv t" "(h, p) \<in> qht_elems t" "(h, q) \<in> qht_elems t" "qht_cmp t p q"
  then show "p = q" by (auto simp: qht_inv_def apart_by_def qht_elems_def)
qed

lemma qht_init_inv:
  assumes "qht_elems_to_buckets n_elems \<noteq> 0"
  shows "qht_inv (qht_init cmp n_elems auto)" and "qht_elems (qht_init cmp n_elems auto) = {}"
proof -
  obtain k where "k < 64" "qht_elems_to_buckets n_elems = 2 ^ k"
    using pow2ceil_power [of "n_elems div of_nat QHT_BUCKET_ENTRIES"] assms by (auto simp: qht_elems_to_buckets_def)
  note mc = map_create_ok [OF this]
  show "qht_inv (qht_init cmp n_elems auto)" using mc by (simp add: qht_inv_def qht_init_def apart_by_def)
  show "qht_elems (qht_init cmp n_elems auto) = {}" using mc by (simp add: qht_elems_def qht_init_def)
qed

section \<open>The table as a map\<close>

text \<open>The element the table finds for a key, when elements compare by their keys and the hash is computed from the key.\<close>

definition qht_at :: "(nat \<Rightarrow> 'k) \<Rightarrow> ('k \<Rightarrow> u32) \<Rightarrow> qht \<Rightarrow> 'k \<Rightarrow> nat option" where
  "qht_at key hk t k = qht_lookup_custom t (hk k) (\<lambda>p. key p = k)"

text \<open>The states of a table that is used with these keys, from its initialisation on.\<close>

inductive qht_reachable :: "(nat \<Rightarrow> 'k) \<Rightarrow> ('k \<Rightarrow> u32) \<Rightarrow> qht \<Rightarrow> bool" for key hk where
  init: "qht_elems_to_buckets n \<noteq> 0 \<Longrightarrow> qht_reachable key hk (qht_init (\<lambda>p q. key p = key q) n auto)"
| insert: "\<lbrakk>qht_reachable key hk t; n_buckets (qmap t) \<le> 2 ^ 40; qht_insert p (hk (key p)) t = Inr (e, t')\<rbrakk> \<Longrightarrow> qht_reachable key hk t'"
| remove: "\<lbrakk>qht_reachable key hk t; qht_remove p (hk (key p)) t = (b, t')\<rbrakk> \<Longrightarrow> qht_reachable key hk t'"
| resize: "\<lbrakk>qht_reachable key hk t; qht_elems_to_buckets n \<noteq> 0; qht_resize n t = Inr (b, t')\<rbrakk> \<Longrightarrow> qht_reachable key hk t'"
| reset: "\<lbrakk>qht_reachable key hk t; qht_elems_to_buckets n \<noteq> 0; qht_reset_size n t = Inr (b, t')\<rbrakk> \<Longrightarrow> qht_reachable key hk t'"

lemma elems_to_buckets_power:
  assumes "qht_elems_to_buckets n \<noteq> 0"
  obtains k where "k < 64" "qht_elems_to_buckets n = 2 ^ k"
  using pow2ceil_power [of "n div of_nat QHT_BUCKET_ENTRIES"] assms by (auto simp: qht_elems_to_buckets_def)

lemma keyed_map_ok: "qt.keyed key hk t \<Longrightarrow> map_ok (qmap t)"
  unfolding qt.keyed_def by (simp add: qht_inv_def)

lemma resize_keyed:
  assumes "qt.keyed key hk t" and "qht_elems_to_buckets n \<noteq> 0"
    and "qht_do_resize_reset (if qht_elems_to_buckets n = n_buckets (qmap t) then None else Some (qht_map_create (qht_elems_to_buckets n))) reset t = Inr t'"
  shows "qt.keyed key hk t' \<and> qht_elems t' = (if reset then {} else qht_elems t)"
proof (cases "qht_elems_to_buckets n = n_buckets (qmap t)")
  case True
  then have "t' = (if reset then t\<lparr>qmap := qht_map_reset__all_locked (qmap t)\<rparr> else t)"
    using assms(3) by (auto simp: qht_do_resize_reset_def)
  moreover have "map_ok (qmap t)" using assms(1) keyed_map_ok by blast
  moreover from this have "qt.keyed key hk (t\<lparr>qmap := qht_map_reset__all_locked (qmap t)\<rparr>)"
    using assms(1) map_reset_ok [of "qmap t"] by (simp add: qt.keyed_def qht_inv_def qht_elems_def apart_by_def)
  ultimately show ?thesis using assms(1) map_reset_ok(2) [of "qmap t"] by (simp add: qht_elems_def)
next
  case False
  obtain k where k: "k < 64" "qht_elems_to_buckets n = 2 ^ k" using elems_to_buckets_power [OF assms(2)] .
  then show ?thesis using resize_reset_spec [OF _ k(1) refl, of t reset] False assms(1,3) by (auto simp: qt.keyed_def)
qed

lemma do_resize_returns:
  assumes "qt.keyed key hk t" and "qht_elems_to_buckets n \<noteq> 0"
  shows "\<exists>t'. qht_do_resize_reset (if qht_elems_to_buckets n = n_buckets (qmap t) then None else Some (qht_map_create (qht_elems_to_buckets n))) reset t = Inr t'"
proof (cases "qht_elems_to_buckets n = n_buckets (qmap t)")
  case False
  obtain k where k: "k < 64" "qht_elems_to_buckets n = 2 ^ k" using elems_to_buckets_power [OF assms(2)] .
  then show ?thesis using resize_reset_spec [OF _ k(1) refl, of t reset] False assms(1) by (auto simp: qt.keyed_def)
qed (simp add: qht_do_resize_reset_def)

lemma qht_reachable_keyed: "qht_reachable key hk t \<Longrightarrow> qt.keyed key hk t"
proof (induction rule: qht_reachable.induct)
  case (init n auto)
  then show ?case using qht_init_inv [of n "\<lambda>p q. key p = key q" auto] by (auto simp: qt.keyed_def qht_init_def)
next
  case (insert t p e t')
  show ?case
  proof (cases "(hk (key p), p) \<in> qht_elems t")
    case False
    then show ?thesis using qt.insert_at_key [OF insert.IH insert.hyps(2) False] insert.hyps(3) by auto
  next
    case True
    have ok: "map_ok (qmap t)" using insert.IH by (rule keyed_map_ok)
    obtain e' m' b where r: "qht_insert__locked (qht_cmp t) p (hk (key p)) (qmap t) = (e', m', b)" by (metis prod_cases3)
    have "qht_cmp t p p" using insert.IH by (simp add: qt.keyed_def)
    then obtain q where q: "e' = Some q" "m' = qmap t" using insert_locked_spec [OF ok r] True by (cases e') (auto simp: qht_elems_def)
    then have "\<not> b" using r by (auto simp: qht_insert__locked_def Let_def split: insert_scan.splits)
    then have "t' = t" using insert.hyps(3) r q by (auto simp: qht_insert_def)
    then show ?thesis using insert.IH by simp
  qed
next
  case (remove t p b t')
  then show ?case using qt.remove_at_key(1) by blast
next
  case (resize t n b t')
  show ?case
  proof (cases "qht_elems_to_buckets n = n_buckets (qmap t)")
    case True
    then show ?thesis using resize by (simp add: qht_resize_def Let_def)
  next
    case False
    then show ?thesis using resize_keyed [OF resize.IH resize.hyps(2), of False t'] resize.hyps(3)
      by (auto simp: qht_resize_def Let_def res_bind_Inr_iff)
  qed
next
  case (reset t n b t')
  then show ?case using resize_keyed [OF reset.IH reset.hyps(2), of True t']
    by (auto simp: qht_reset_size_def Let_def res_bind_Inr_iff split: if_splits)
qed

lemma qht_at_key: "qht_at = qt.at_key"
  by (simp add: fun_eq_iff qht_at_def qt.at_key_def)

text \<open>
  C23. The hash table is a map from keys. In every state reached by insertions, removals, resizes and
  resets, when elements compare by a key that determines their hash: an insertion of a new element
  returns, yields the element already stored for its key or none, and stores the new one exactly
  when there was none, also when it makes the table grow; a removal succeeds exactly when the element
  is the one stored and then removes it alone; a resize changes no look-up; a reset empties the table.
\<close>

theorem qht_refines_map:
  assumes "qht_reachable key hk t"
  shows "(n_buckets (qmap t) \<le> 2 ^ 40 \<and> qht_at key hk t (key p) \<noteq> Some p \<longrightarrow>
      (\<exists>t'. qht_insert p (hk (key p)) t = Inr (qht_at key hk t (key p), t') \<and>
        qht_at key hk t' = (if qht_at key hk t (key p) = None then (qht_at key hk t)(key p \<mapsto> p) else qht_at key hk t))) \<and>
    (let (b, t') = qht_remove p (hk (key p)) t
     in b = (qht_at key hk t (key p) = Some p) \<and> qht_at key hk t' = (if b then (qht_at key hk t)(key p := None) else qht_at key hk t)) \<and>
    (qht_elems_to_buckets n \<noteq> 0 \<longrightarrow> (\<exists>b t'. qht_resize n t = Inr (b, t') \<and> qht_at key hk t' = qht_at key hk t)) \<and>
    (qht_elems_to_buckets n \<noteq> 0 \<longrightarrow> (\<exists>b t'. qht_reset_size n t = Inr (b, t') \<and> qht_at key hk t' = Map.empty))"
proof (intro conjI impI)
  note k = qht_reachable_keyed [OF assms]
  note iff = qt.at_key_iff [OF k]
  assume a: "n_buckets (qmap t) \<le> 2 ^ 40 \<and> qht_at key hk t (key p) \<noteq> Some p"
  then have "(hk (key p), p) \<notin> qht_elems t" using iff by (simp add: qht_at_key)
  from qt.insert_at_key [OF k conjunct1 [OF a] this]
  show "\<exists>t'. qht_insert p (hk (key p)) t = Inr (qht_at key hk t (key p), t') \<and>
        qht_at key hk t' = (if qht_at key hk t (key p) = None then (qht_at key hk t)(key p \<mapsto> p) else qht_at key hk t)"
    by (auto simp: qht_at_key)
next
  note k = qht_reachable_keyed [OF assms]
  obtain b t' where r: "qht_remove p (hk (key p)) t = (b, t')" by fastforce
  show "let (b, t') = qht_remove p (hk (key p)) t
     in b = (qht_at key hk t (key p) = Some p) \<and> qht_at key hk t' = (if b then (qht_at key hk t)(key p := None) else qht_at key hk t)"
    using qt.remove_at_key(2,3) [OF k r] by (simp add: r qht_at_key)
next
  note k = qht_reachable_keyed [OF assms]
  assume n: "qht_elems_to_buckets n \<noteq> 0"
  obtain t' where t': "qht_do_resize_reset (if qht_elems_to_buckets n = n_buckets (qmap t) then None else Some (qht_map_create (qht_elems_to_buckets n))) False t = Inr t'"
    using do_resize_returns [OF k n] by blast
  note e = resize_keyed [OF k n t']
  then have "qht_at key hk t' = qht_at key hk t" unfolding qht_at_key by (intro ext option_eqI) (simp add: qt.at_key_iff k)
  then show "\<exists>b t'. qht_resize n t = Inr (b, t') \<and> qht_at key hk t' = qht_at key hk t"
    using t' by (auto simp: qht_resize_def Let_def)
next
  note k = qht_reachable_keyed [OF assms]
  assume n: "qht_elems_to_buckets n \<noteq> 0"
  obtain t' where t': "qht_do_resize_reset (if qht_elems_to_buckets n = n_buckets (qmap t) then None else Some (qht_map_create (qht_elems_to_buckets n))) True t = Inr t'"
    using do_resize_returns [OF k n] by blast
  note e = resize_keyed [OF k n t']
  then have "qht_at key hk t' = Map.empty" unfolding qht_at_key by (intro ext option_eqI) (simp add: qt.at_key_iff)
  then show "\<exists>b t'. qht_reset_size n t = Inr (b, t') \<and> qht_at key hk t' = Map.empty"
    using t' by (auto simp: qht_reset_size_def Let_def)
qed

definition demo_table :: qht where
  "demo_table = qht_init (\<lambda>p q. p mod 100 = q mod 100) 16 True"

theorem qht_refines_map_witness:
  "\<exists>t'. qht_insert 107 7 demo_table = Inr (None, t') \<and> qht_at (\<lambda>p. p mod 100) of_nat t' 7 = Some 107"
proof -
  let ?key = "\<lambda>p :: nat. p mod 100" and ?hk = "\<lambda>k :: nat. of_nat k :: u32"
  have "qht_reachable ?key ?hk demo_table" unfolding demo_table_def by (rule qht_reachable.init) code_simp
  moreover have "qht_at ?key ?hk demo_table 7 = None" by code_simp
  moreover have "n_buckets (qmap demo_table) \<le> 2 ^ 40" by code_simp
  ultimately have "\<exists>t'. qht_insert 107 7 demo_table = Inr (None, t') \<and> qht_at ?key ?hk t' = (qht_at ?key ?hk demo_table)(7 \<mapsto> 107)"
    using qht_refines_map [of ?key ?hk demo_table 107 0] by simp
  then show ?thesis by (elim exE) simp
qed

end
