(* ===== verification/Spec2Isabelle.thy ===== *)
theory Spec2Isabelle
  imports Bmbt_Prelude Fifo8 I8259 Buddy Memory_Access Ram_Partition I8254 Irq_Properties Cond_Codes Guest_Translation Dirty_Map Qht_Set
begin

text \<open>
  BMBT is a binary translator that runs 32-bit x86 guest systems on bare LoongArch machines. It is
  derived from QEMU: a guest processor whose code is translated block by block (\<open>src/src/target/i386\<close>,
  \<open>src/src/accel/tcg\<close>), a PC with its interrupt controllers and timers (\<open>src/src/hw\<close>), an address
  map that routes guest accesses to RAM and devices (\<open>src/src/qemu\<close>), and a small kernel that takes
  the place of the operating system (\<open>src/env/loongarch\<close>). The guest is an i386 (\<open>target_ulong\<close> has
  32 bits, the 64-bit branches are not compiled) with one processor; the model follows this
  configuration (\<open>CONFIG_SOFTMMU\<close> and \<open>CONFIG_LATX\<close> defined, \<open>CONFIG_USER_ONLY\<close> not).

  \<^bold>\<open>How the parts interact.\<close> At boot the kernel divides the physical memory between the image, the
  guest and its own memory manager. A guest memory access is translated by the page walk, the result
  is kept in the software TLB, and the physical access goes through the address map to RAM or to the
  callbacks of a device. Devices raise interrupt lines; the lines reach the cascaded 8259 pair and the
  I/O APIC, which sends messages to the local APIC, which asks the processor to take the interrupt.
  Timers of devices live in sorted lists that the hardware timer of the host drives. Translated
  blocks are kept in a hash table keyed by their physical address.

  \<^bold>\<open>Theories and the code they model\<close> (paths under \<open>src/\<close>).
  \<^item> \<open>Bmbt_Prelude\<close>: machine integers as words, failures of C code (\<open>abort\<close>, a failed \<open>assert\<close>, an index
    outside an array, a null pointer) as a datatype, results as a sum, shared lemmas.
  \<^item> \<open>Bounded_Queue\<close>, \<open>Fifo8\<close>: the ring buffer of \<open>src/util/fifo8.c\<close>, each function under its own name.
  \<^item> \<open>Irq_Lines\<close>, \<open>I8259\<close>: \<open>src/hw/intc/i8259.c\<close> and \<open>i8259_common.c\<close>. A chip is the record \<open>pic\<close>, the pair
    adds the cascade and the output to the processor.
  \<^item> \<open>Local_Apic\<close>, \<open>Irq_Chips\<close>: \<open>src/hw/intc/apic.c\<close>, \<open>apic_common.c\<close>, \<open>ioapic.c\<close>, \<open>ioapic_common.c\<close>, the global
    interrupt lines of \<open>src/hw/i386/pc.c\<close> and the processor side of \<open>src/target/i386\<close>; the state is one
    record, since the chips call each other in both directions.
  \<^item> \<open>Irq_Delivery\<close>, \<open>Irq_Properties\<close>: these chips as one state machine (guest accesses, lines, timers, the
    processor), its invariants and theorems.
  \<^item> \<open>Qemu_Timer\<close>, \<open>I8254\<close>: \<open>src/util/qemu-timer.c\<close>, the constant timer of the host, and the interval
    timer \<open>src/hw/timer/i8254.c\<close>.
  \<^item> \<open>Memory_Map\<close>: \<open>src/qemu/memory.c\<close> up to the look-ups, with the attribute map of the north bridge
    (\<open>src/hw/pci-host/pam.c\<close>, \<open>i440fx.c\<close>). Regions are named by \<open>mr_ptr\<close> and stored in \<open>mrs\<close>.
  \<^item> \<open>Memory_Access\<close>: dispatch, splitting and byte order of device accesses, bulk transfers, and the
    physical loads and stores of \<open>src/qemu/memory_ldst.c\<close>. A device is a record of callbacks.
  \<^item> \<open>Block_Alloc\<close>, \<open>Buddy\<close>, \<open>Page_Alloc\<close>, \<open>Ram_Partition\<close>: the kernel's memory
    (\<open>env/loongarch/syscall/buddy.c\<close>, \<open>memory.c\<close>, \<open>env/loongarch/la64/mem.c\<close>).
  \<^item> \<open>X86_State\<close>, \<open>Cond_Codes\<close>: the processor state and the lazily computed flags
    (\<open>src/target/i386/cc_helper.c\<close>, \<open>cc_helper_template.h\<close>, \<open>cpu.h\<close>).
  \<^item> \<open>Mmu_Walk\<close>, \<open>Paging\<close>, \<open>Guest_Translation\<close>: the page walk with its nested form, exceptions and the
    debug walk (\<open>excp_helper.c\<close>, \<open>helper.c\<close>, part of \<open>svm_helper.c\<close>), a reference walk over memory cells,
    and their agreement on guest RAM. The \<open>goto\<close>s of the walk are a sum type of reasons to stop.
  \<^item> \<open>Bitmap\<close>: bit fields, bit searches and bitmaps (\<open>include/qemu/bitops.h\<close>, \<open>src/util/bitops.c\<close>, \<open>bitmap.c\<close>);
    a bitmap is its list of 64-bit words.
  \<^item> \<open>Soft_Tlb\<close>, \<open>Tlb_Cache\<close>, \<open>Tlb_Properties\<close>: the software TLB (\<open>src/accel/tcg/cputlb.c\<close>): its tables and
    their resizing, victim entries, the region of large pages, the jump cache, all flushes; its
    invariant; what the flushes leave.
  \<^item> \<open>Dirty_Map\<close>: the map of dirty RAM pages (\<open>include/exec/ram_addr.h\<close>, \<open>src/qemu/exec.c\<close>) and how it
    protects pages that hold translated code.
  \<^item> \<open>Qht\<close>, \<open>Qht_Set\<close>: the resizable hash table of translated blocks (\<open>src/util/qht.c\<close>), and the map it stands for.

  \<^bold>\<open>Interfaces.\<close> Each locale is interpreted on the model of the code: \<open>bounded_queue\<close> on the ring
  buffer, \<open>irq_lines\<close> on the inputs of the 8259 pair, \<open>block_alloc\<close> on the buddy system (its client is the
  memory manager), \<open>timer_callbacks\<close> on the interval timer (its client is the timer list), \<open>page_memory\<close> on
  the loads and stores of the address map (its client is the page walk), \<open>element_table\<close> on the hash table,
  and the chain \<open>chips_leaf\<close>,
  \<open>chips_pins\<close>, \<open>chips_bus\<close>, \<open>chips_invariant\<close> on the invariants of the interrupt controllers.

  \<^bold>\<open>What is shown.\<close> The caches of the address map never change a look-up and registration accepts
  exactly the regions that overlap nothing; bulk writes are read back across regions and device
  accesses keep their byte order; the page walk is the reference walk, it settles and agrees with the
  debugger's; lazily computed flags are those of the instructions; interrupts are neither lost nor
  delivered out of order and the controllers always return; allocations never overlap, are merged
  again, and the boot hands out each byte once; timers fire in time and the interval timer's line
  follows its output. A flush of the software TLB leaves no entry, a flush of a page removes exactly the
  translations of that page (with a large page, of the whole table) and the jumps into it, and a page
  has one entry at most; the hash table is a map from hash and contents to elements across resizes;
  bitmap searches find exactly the first bit; the dirty map is a set of pages. The theorems that record a defect or a difference between a comment and the
  code state the behaviour of the code.

  \<^bold>\<open>Loops and bounds.\<close> Loops are structural recursion or have a termination proof. Where the code has
  no bound of its own, fuel is used and shown to suffice: \<open>(level + 1) * 2 ^ level\<close> steps for
  \<open>buddy_alloc\<close> and \<open>level + 1\<close> for the look-up of a block, the number of bytes for the bulk transfers
  (each step moves at least one), ten for the total of the guest RAM (there are at most ten ranges), and 257 for the
  interplay of the APICs (256 in-service bits and the final test). The loop that shrinks a TLB until the host grants the
  memory can run forever and is a partial function; its theorems assume a host that always grants the
  smallest table and none of more than \<open>2 ^ 40\<close> entries. A block of the dirty map has \<open>2 ^ 21\<close> bits.

  \<^bold>\<open>Not modelled.\<close> Vendored and generated code (capStone, diStorm, ACPICA, the musl C library, the
  soft floating point library) has its own upstream. The translation of guest instructions to
  LoongArch instructions (\<open>src/target/i386/LATX\<close>) needs semantics of two instruction sets. The locks,
  read-copy-update and seqlocks are left out because the machine runs one processor. Device glue that only registers callbacks,
  the drivers of the host, tracing and printing have no logic of their own.
\<close>

end
